(* ===== verification/Prelude.thy ===== *)
theory Prelude
  imports Main "HOL-Library.Word" "HOL-Library.AList" "HOL-Library.Multiset"
begin

text \<open>
  Vocabulary shared by every theory of the LogGrid development: the machine integers of the
  code, the outcome of a C++ call (a value, an exception, undefined behaviour, or a loop that
  does not end), the in-memory (little-endian, x86-64) image of the unsigned integers the code
  copies with \<^verbatim>\<open>memcpy\<close>, C strings, and the lemmas on words, lists and association lists
  that several components use.
\<close>

section \<open>Machine types\<close>

type_synonym u8 = "8 word"
type_synonym u32 = "32 word"
type_synonym u64 = "64 word"

text \<open>Collections of facts: equations that evaluate the wire codecs, equations that say what an
  operation of the master leaves unchanged, and introduction rules for invariants.\<close>

named_theorems codec_simps
named_theorems frame_simps
named_theorems inv_intros

section \<open>Outcomes of C++ calls\<close>

text \<open>
  The exception classes the code tells apart: \<^verbatim>\<open>std::runtime_error\<close> with its \<open>what()\<close> string
  (\<^verbatim>\<open>std::filesystem::filesystem_error\<close> is derived from it and kept apart, since its text is the
  library's), \<^verbatim>\<open>nlohmann::json::exception\<close>, and the other \<^verbatim>\<open>std::exception\<close>s
  (\<^verbatim>\<open>std::logic_error\<close> and its children). A JSON exception has its class, its number and its text,
  a parse error also the byte it was found at (\<^verbatim>\<open>external/json.hpp\<close>, lines 4371 to 4590).
\<close>

datatype json_exception =
    Parse_Error nat nat string | Invalid_Iterator nat string | Type_Error nat string
  | Out_Of_Range nat string | Other_Error nat string

datatype exn = Runtime_Error string | Filesystem_Error string | Json_Exception json_exception | Other_Exception

datatype 'a outcome = Ok 'a | Throw exn | Undef | Hang

primrec obind :: "'a outcome \<Rightarrow> ('a \<Rightarrow> 'b outcome) \<Rightarrow> 'b outcome" where
  "obind (Ok x) f = f x"
| "obind (Throw e) f = Throw e"
| "obind Undef f = Undef"
| "obind Hang f = Hang"

lemma obind_eq_Ok: "obind m f = Ok y \<longleftrightarrow> (\<exists>x. m = Ok x \<and> f x = Ok y)"
  by (cases m) simp_all

lemma obind_eq_Throw:
  "obind m f = Throw e \<longleftrightarrow> m = Throw e \<or> (\<exists>x. m = Ok x \<and> f x = Throw e)"
  by (cases m) simp_all

lemma obind_eq_Undef: "obind m f = Undef \<longleftrightarrow> m = Undef \<or> (\<exists>x. m = Ok x \<and> f x = Undef)"
  by (cases m) simp_all

lemma obind_eq_Hang: "obind m f = Hang \<longleftrightarrow> m = Hang \<or> (\<exists>x. m = Ok x \<and> f x = Hang)"
  by (cases m) simp_all

lemmas obind_iffs = obind_eq_Ok obind_eq_Throw obind_eq_Undef obind_eq_Hang

lemma obind_cong [fundef_cong]: "m = m' \<Longrightarrow> (\<And>x. m' = Ok x \<Longrightarrow> f x = g x) \<Longrightarrow> obind m f = obind m' g"
  by (cases m') simp_all

lemma obind_Ok_right [simp]: "obind m Ok = m"
  by (cases m) simp_all

text \<open>\<open>catch m x\<close>: a handler for \<^verbatim>\<open>std::exception\<close>, the base of every exception here, after which
  the value is \<open>x\<close>. \<open>obind_st\<close> sequences a call that may fail in a function that also
  changes a state: the changes made before the failure stay.\<close>

primrec catch :: "'a outcome \<Rightarrow> 'a \<Rightarrow> 'a outcome" where
  "catch (Ok x) y = Ok x"
| "catch (Throw e) y = Ok y"
| "catch Undef y = Undef"
| "catch Hang y = Hang"

lemma catch_eq_Ok: "catch m y = Ok x \<longleftrightarrow> m = Ok x \<or> (\<exists>e. m = Throw e) \<and> x = y"
  by (cases m) auto

lemma catch_not_Throw [simp]: "catch m y \<noteq> Throw e"
  by (cases m) simp_all

primrec obind_st :: "'a outcome \<Rightarrow> 's \<Rightarrow> ('a \<Rightarrow> 'b outcome \<times> 's) \<Rightarrow> 'b outcome \<times> 's" where
  "obind_st (Ok x) s f = f x"
| "obind_st (Throw e) s f = (Throw e, s)"
| "obind_st Undef s f = (Undef, s)"
| "obind_st Hang s f = (Hang, s)"

section \<open>Words\<close>

lemma unat_of_nat_less: "n < 2 ^ LENGTH('a) \<Longrightarrow> unat (of_nat n :: 'a::len word) = n"
  by (simp add: unat_of_nat take_bit_nat_eq_self)

lemma unat_of_nat_u32: "n < 4294967296 \<Longrightarrow> unat (of_nat n :: u32) = n"
  by (rule unat_of_nat_less) simp

lemma unat_of_nat_u64: "n < 18446744073709551616 \<Longrightarrow> unat (of_nat n :: u64) = n"
  by (rule unat_of_nat_less) simp

lemma unat_u32_less: "unat (w :: u32) < 4294967296"
  using unsigned_less [of w] by simp

lemma unat_u64_less: "unat (w :: u64) < 18446744073709551616"
  using unsigned_less [of w] by simp

lemma unat_plus_1:
  "unat w + 1 < 2 ^ LENGTH('a) \<Longrightarrow> unat (w + 1 :: 'a::len word) = unat w + 1"
  by (simp add: unat_word_ariths)

lemma unat_minus_1: "w \<noteq> 0 \<Longrightarrow> unat (w - 1 :: 'a::len word) = unat w - 1"
  by (rule unat_minus_one)

lemma unat_gt_0_iff: "0 < unat w \<longleftrightarrow> w \<noteq> (0 :: 'a::len word)"
  by (simp add: unat_gt_0)

lemma word_eq_unat: "w = v \<longleftrightarrow> unat w = unat (v :: 'a::len word)"
  by (simp add: word_unat_eq_iff)

lemma unat_ucast_u32 [simp]: "unat (ucast (w :: u32) :: u64) = unat w"
  using unat_u32_less [of w] by (simp add: unsigned_ucast_eq take_bit_nat_eq_self)

section \<open>Unsigned integers as bytes in memory\<close>

fun nat_to_le :: "nat \<Rightarrow> nat \<Rightarrow> u8 list" where
  "nat_to_le 0 v = []"
| "nat_to_le (Suc n) v = of_nat v # nat_to_le n (v div 256)"

fun le_to_nat :: "u8 list \<Rightarrow> nat" where
  "le_to_nat [] = 0"
| "le_to_nat (b # bs) = unat b + 256 * le_to_nat bs"

lemma length_nat_to_le [simp]: "length (nat_to_le n v) = n"
  by (induction n arbitrary: v) simp_all

lemma le_to_nat_nat_to_le: "le_to_nat (nat_to_le n v) = v mod 256 ^ n"
proof (induction n arbitrary: v)
  case 0
  then show ?case by simp
next
  case (Suc n)
  have "unat (of_nat v :: u8) = v mod 256"
    by (simp add: unat_of_nat take_bit_eq_mod)
  then show ?case
    by (simp add: Suc mod_mult2_eq)
qed

definition u32_bytes :: "u32 \<Rightarrow> u8 list" where
  "u32_bytes w = nat_to_le 4 (unat w)"

definition u32_of_bytes :: "u8 list \<Rightarrow> u32" where
  "u32_of_bytes bs = of_nat (le_to_nat bs)"

definition u64_bytes :: "u64 \<Rightarrow> u8 list" where
  "u64_bytes w = nat_to_le 8 (unat w)"

definition u64_of_bytes :: "u8 list \<Rightarrow> u64" where
  "u64_of_bytes bs = of_nat (le_to_nat bs)"

lemma length_u32_bytes [simp, codec_simps]: "length (u32_bytes w) = 4"
  by (simp add: u32_bytes_def)

lemma length_u64_bytes [simp, codec_simps]: "length (u64_bytes w) = 8"
  by (simp add: u64_bytes_def)

lemma u32_bytes_nonempty [simp]: "u32_bytes w \<noteq> []"
  using length_u32_bytes [of w] by (metis list.size(3) zero_neq_numeral)

lemma u64_bytes_nonempty [simp]: "u64_bytes w \<noteq> []"
  using length_u64_bytes [of w] by (metis list.size(3) zero_neq_numeral)

lemma u32_of_bytes_bytes [simp, codec_simps]: "u32_of_bytes (u32_bytes w) = w"
  using unat_u32_less [of w]
  by (simp add: u32_of_bytes_def u32_bytes_def le_to_nat_nat_to_le)

lemma u64_of_bytes_bytes [simp, codec_simps]: "u64_of_bytes (u64_bytes w) = w"
  using unat_u64_less [of w]
  by (simp add: u64_of_bytes_def u64_bytes_def le_to_nat_nat_to_le)

section \<open>Characters, bytes and C strings\<close>

definition char_byte :: "char \<Rightarrow> u8" where
  "char_byte c = of_nat (of_char c)"

definition byte_char :: "u8 \<Rightarrow> char" where
  "byte_char b = char_of (unat b)"

lemma byte_char_byte [simp, codec_simps]: "byte_char (char_byte c) = c"
proof -
  have "unat (of_nat (of_char c) :: u8) = of_char c mod 256"
    by (simp add: unat_of_nat take_bit_eq_mod)
  then show ?thesis by (simp add: byte_char_def char_byte_def)
qed

lemma byte_char_comp [simp, codec_simps]: "byte_char \<circ> char_byte = id"
  by (simp add: fun_eq_iff)

definition NUL :: char where
  "NUL = CHR 0x00"

text \<open>\<open>c_str buf\<close> is the string a \<^verbatim>\<open>const char*\<close> into the array \<open>buf\<close> denotes; \<open>None\<close> if the
  array holds no terminator, when reading it runs past its end.\<close>

definition c_str :: "string \<Rightarrow> string option" where
  "c_str buf = (if NUL \<in> set buf then Some (takeWhile (\<lambda>c. c \<noteq> NUL) buf) else None)"

text \<open>\<^verbatim>\<open>strncpy(dst, s.c_str(), n)\<close>: at most \<open>n\<close> characters up to the terminator, padded with
  terminators to exactly \<open>n\<close>.\<close>

definition strncpy :: "string \<Rightarrow> nat \<Rightarrow> string" where
  "strncpy s n = take n (takeWhile (\<lambda>c. c \<noteq> NUL) s @ replicate n NUL)"

lemma length_strncpy [simp]: "length (strncpy s n) = n"
  by (simp add: strncpy_def)

lemma takeWhile_all: "NUL \<notin> set s \<Longrightarrow> takeWhile (\<lambda>c. c \<noteq> NUL) s = s"
  by (induction s) auto

lemma c_str_strncpy_terminated:
  assumes "0 < n"
  shows "c_str ((strncpy s n)[n - 1 := NUL]) = Some (take (n - 1) (takeWhile (\<lambda>c. c \<noteq> NUL) s))"
proof -
  let ?t = "takeWhile (\<lambda>c. c \<noteq> NUL) s"
  have len: "length (strncpy s n) = n" by simp
  have split: "(strncpy s n)[n - 1 := NUL] = take (n - 1) (strncpy s n) @ [NUL]"
    using assms by (simp add: upd_conv_take_nth_drop)
  have body: "take (n - 1) (strncpy s n)
      = take (n - 1) ?t @ replicate (n - 1 - length ?t) NUL"
    by (simp add: strncpy_def min_def)
  have "NUL \<notin> set (take (n - 1) ?t)"
    by (auto dest!: in_set_takeD set_takeWhileD)
  then have "takeWhile (\<lambda>c. c \<noteq> NUL)
      (take (n - 1) ?t @ replicate (n - 1 - length ?t) NUL @ [NUL]) = take (n - 1) ?t"
    by (subst takeWhile_append2) (auto simp: replicate_append_same)
  then show ?thesis
    unfolding c_str_def split body by simp
qed

section \<open>Lists\<close>

lemma filter_length_le_filter:
  "(\<And>x. P x \<Longrightarrow> Q x) \<Longrightarrow> length (filter P xs) \<le> length (filter Q xs)"
  by (induction xs) auto

lemma length_filter_mset: "length (filter P xs) = size (filter_mset P (mset xs))"
  by (induction xs) simp_all

lemma take_append_length: "length xs = n \<Longrightarrow> take n (xs @ ys) = xs"
  by simp

lemma drop_append_length: "length xs = n \<Longrightarrow> drop n (xs @ ys) = ys"
  by simp

text \<open>\<open>slice i n xs\<close>: the \<open>n\<close> elements of \<open>xs\<close> from index \<open>i\<close>, a field at offset \<open>i\<close>.\<close>

definition slice :: "nat \<Rightarrow> nat \<Rightarrow> 'a list \<Rightarrow> 'a list" where
  "slice i n xs = take n (drop i xs)"

lemma slice_skip [codec_simps]:
  "length xs \<le> i \<Longrightarrow> slice i n (xs @ ys) = slice (i - length xs) n ys"
  by (simp add: slice_def)

lemma slice_here [codec_simps]: "length xs = n \<Longrightarrow> slice 0 n (xs @ ys) = xs"
  by (simp add: slice_def)

lemma slice_all [codec_simps]: "length xs = n \<Longrightarrow> slice 0 n xs = xs"
  by (simp add: slice_def)

section \<open>Association lists\<close>

lemma map_of_update [simp]: "map_of (AList.update k v al) k' = (if k = k' then Some v else map_of al k')"
  by (simp add: AList.update_conv')

lemma map_of_adelete: "map_of (AList.delete k al) k' = (if k = k' then None else map_of al k')"
  by (simp add: AList.delete_conv')

lemma delete_mset:
  "distinct (map fst al) \<Longrightarrow> map_of al k = Some v \<Longrightarrow>
   mset al = add_mset (k, v) (mset (AList.delete k al))"
proof (induction al)
  case Nil
  then show ?case by simp
next
  case (Cons p al)
  obtain k' v' where p: "p = (k', v')" by (cases p)
  show ?case
  proof (cases "k' = k")
    case True
    with Cons.prems p have "k \<notin> fst ` set al" by auto
    with True Cons.prems p show ?thesis by simp
  next
    case False
    with Cons p show ?thesis by simp
  qed
qed

lemma update_mset_fresh:
  "k \<notin> fst ` set al \<Longrightarrow> mset (AList.update k v al) = add_mset (k, v) (mset al)"
  by (induction al) auto

end
