(* ===== verification/NetMessage.thy ===== *)
theory NetMessage
  imports Prelude
begin

text \<open>
  \<^verbatim>\<open>NetCommon/include/net_message.hpp\<close>: the message header and body, the stream operators that
  push a plain value onto the end of the body and pop it off again, and the contract (\<open>pod\<close>) of
  the in-memory image those operators copy. The header's id is kept as the 32-bit value of the
  enumeration, since a received header can hold any value.
\<close>

section \<open>Messages\<close>

record message_header =
  hdr_id :: u32
  hdr_size :: u32

record message =
  header :: message_header
  body :: "u8 list"

text \<open>A default-constructed message: \<^verbatim>\<open>T id{}\<close> is the enumerator of value 0.\<close>

definition new_message :: message where
  "new_message = \<lparr>header = \<lparr>hdr_id = 0, hdr_size = 0\<rparr>, body = []\<rparr>"

definition msg_size :: "message \<Rightarrow> u32" where
  "msg_size msg = of_nat (length (body msg))"

text \<open>\<^verbatim>\<open>msg.header.size = msg.size()\<close>\<close>

definition set_size :: "message \<Rightarrow> message" where
  "set_size msg = msg\<lparr>header := (header msg)\<lparr>hdr_size := msg_size msg\<rparr>\<rparr>"

definition short_read :: exn where
  "short_read = Runtime_Error ''Trying to read more data than is available in packet''"

text \<open>\<^verbatim>\<open>operator <<\<close>, for a type whose memory image is \<open>enc\<close>.\<close>

definition push_pod :: "('a \<Rightarrow> u8 list) \<Rightarrow> message \<Rightarrow> 'a \<Rightarrow> message" where
  "push_pod enc msg data = set_size (msg\<lparr>body := body msg @ enc data\<rparr>)"

text \<open>\<^verbatim>\<open>operator >>\<close>, for a type of \<open>type_size\<close> bytes whose value is read from memory by \<open>dec\<close>.\<close>

definition pop_pod :: "nat \<Rightarrow> (u8 list \<Rightarrow> 'a) \<Rightarrow> message \<Rightarrow> ('a \<times> message) outcome" where
  "pop_pod type_size dec msg =
     (if length (body msg) < type_size then Throw short_read
      else let start_index = length (body msg) - type_size
           in Ok (dec (drop start_index (body msg)),
                  set_size (msg\<lparr>body := take start_index (body msg)\<rparr>)))"

text \<open>The 8 bytes of the header as they travel.\<close>

definition header_bytes :: "message_header \<Rightarrow> u8 list" where
  "header_bytes h = u32_bytes (hdr_id h) @ u32_bytes (hdr_size h)"

definition header_of_bytes :: "u8 list \<Rightarrow> message_header" where
  "header_of_bytes bs = \<lparr>hdr_id = u32_of_bytes (slice 0 4 bs), hdr_size = u32_of_bytes (slice 4 4 bs)\<rparr>"

lemmas message_defs = new_message_def msg_size_def set_size_def push_pod_def pop_pod_def

lemma set_size_idem [simp]: "set_size (set_size m) = set_size m"
  by (simp add: set_size_def msg_size_def)

lemma body_set_size [simp]: "body (set_size m) = body m"
  by (simp add: set_size_def)

lemma hdr_id_set_size [simp]: "hdr_id (header (set_size m)) = hdr_id (header m)"
  by (simp add: set_size_def)

lemma hdr_size_set_size [simp]: "hdr_size (header (set_size m)) = of_nat (length (body m))"
  by (simp add: set_size_def msg_size_def)

lemma body_push_pod [simp]: "body (push_pod enc m x) = body m @ enc x"
  by (simp add: push_pod_def)

lemma hdr_id_push_pod [simp]: "hdr_id (header (push_pod enc m x)) = hdr_id (header m)"
  by (simp add: push_pod_def)

lemma set_size_push_pod [simp]: "set_size (push_pod enc m x) = push_pod enc m x"
  by (simp add: push_pod_def)

text \<open>A message whose header announces its body's true length: what every push and pop leaves.\<close>

definition sized :: "message \<Rightarrow> bool" where
  "sized m \<longleftrightarrow> set_size m = m"

lemma sized_set_size [simp]: "sized (set_size m)"
  by (simp add: sized_def)

lemma sized_push_pod [simp]: "sized (push_pod enc m x)"
  by (simp add: sized_def)

lemma sized_new_message [simp]: "sized new_message"
  by (simp add: sized_def message_defs)

lemma sized_iff: "sized m \<longleftrightarrow> hdr_size (header m) = of_nat (length (body m))"
  by (cases m; cases "header m") (simp add: sized_def set_size_def msg_size_def eq_commute)

lemma sized_hdr_size: "sized m \<Longrightarrow> hdr_size (header m) = of_nat (length (body m))"
  by (simp add: sized_iff)

section \<open>The contract of a plain value\<close>

text \<open>
  What the stream operators ask of a standard-layout type: every valid value occupies \<open>sz\<close> bytes
  and reading those bytes gives the value back. The clients are both ends of the protocol.
\<close>

locale pod =
  fixes enc :: "'a \<Rightarrow> u8 list"
    and dec :: "u8 list \<Rightarrow> 'a"
    and sz :: nat
    and valid :: "'a \<Rightarrow> bool"
  assumes length_enc: "valid x \<Longrightarrow> length (enc x) = sz"
    and dec_enc: "valid x \<Longrightarrow> dec (enc x) = x"
begin

lemma pop_push: "valid x \<Longrightarrow> pop_pod sz dec (push_pod enc m x) = Ok (x, set_size m)"
  by (simp add: pop_pod_def push_pod_def set_size_def msg_size_def length_enc dec_enc)

lemma pop_push_sized: "valid x \<Longrightarrow> sized m \<Longrightarrow> pop_pod sz dec (push_pod enc m x) = Ok (x, m)"
  by (simp add: pop_push sized_def)

lemma pop_short: "length (body m) < sz \<Longrightarrow> pop_pod sz dec m = Throw short_read"
  by (simp add: pop_pod_def)

lemma pop_Ok_length:
  "pop_pod sz dec m = Ok (x, m') \<Longrightarrow> length (body m) = length (body m') + sz \<and> sized m'"
  by (auto simp: pop_pod_def Let_def split: if_splits)

lemma pop_total: "sz \<le> length (body m) \<Longrightarrow> \<exists>x m'. pop_pod sz dec m = Ok (x, m')"
  by (simp add: pop_pod_def Let_def)

lemma length_body_push: "valid x \<Longrightarrow> length (body (push_pod enc m x)) = length (body m) + sz"
  by (simp add: length_enc)

end

interpretation pod_u32: pod u32_bytes u32_of_bytes 4 "\<lambda>_. True"
  by unfold_locales simp_all

interpretation pod_u64: pod u64_bytes u64_of_bytes 8 "\<lambda>_. True"
  by unfold_locales simp_all

interpretation pod_header: pod header_bytes header_of_bytes 8 "\<lambda>_. True"
  by unfold_locales (simp_all add: header_bytes_def header_of_bytes_def codec_simps)

lemma pop_pod_never_undef: "pop_pod n dec m \<noteq> Undef \<and> pop_pod n dec m \<noteq> Hang"
  by (simp add: pop_pod_def Let_def)

lemma pop_pod_Throw: "pop_pod n dec m = Throw e \<Longrightarrow> e = short_read \<and> length (body m) < n"
  by (simp add: pop_pod_def Let_def split: if_splits)

lemma hdr_id_pop_pod: "pop_pod n dec m = Ok (x, m') \<Longrightarrow> hdr_id (header m') = hdr_id (header m)"
  by (auto simp: pop_pod_def Let_def split: if_splits)

end
