(* ===== verification/LogSearchCommon.thy ===== *)
theory LogSearchCommon
  imports NetMessage
begin

text \<open>
  \<^verbatim>\<open>NetCommon/include/LogSearchCommon.hpp\<close>: the message kinds and the payload structures of the
  protocol, with their memory images. \<^verbatim>\<open>TaskPayload\<close> is five 64-bit integers and two character
  arrays of 64 and 256 characters: 360 bytes with no padding, since 360 is a multiple of 8.
\<close>

section \<open>Message kinds\<close>

datatype LogSearchMsg = Worker_Hello | Server_SearchTask | Worker_TaskDone | Server_JobFinished

primrec msg_id :: "LogSearchMsg \<Rightarrow> u32" where
  "msg_id Worker_Hello = 0"
| "msg_id Server_SearchTask = 1"
| "msg_id Worker_TaskDone = 2"
| "msg_id Server_JobFinished = 3"

text \<open>The \<^verbatim>\<open>switch\<close> of the handlers: which enumerator a received id is, if any.\<close>

definition msg_kind :: "u32 \<Rightarrow> LogSearchMsg option" where
  "msg_kind i = (if i = 0 then Some Worker_Hello else if i = 1 then Some Server_SearchTask
     else if i = 2 then Some Worker_TaskDone else if i = 3 then Some Server_JobFinished else None)"

lemma msg_kind_msg_id [simp]: "msg_kind (msg_id k) = Some k"
  by (cases k) (simp_all add: msg_kind_def)

lemma msg_kind_Some: "msg_kind i = Some k \<longleftrightarrow> i = msg_id k"
  by (cases k) (auto simp: msg_kind_def)

section \<open>Payloads\<close>

record TaskPayload =
  tp_search_id :: u64
  tp_task_id :: u64
  tp_max_results :: u64
  tp_start_offset :: u64
  tp_end_offset :: u64
  tp_keyword :: string
  tp_filename :: string

text \<open>The arrays of a \<open>TaskPayload\<close> object have their declared sizes.\<close>

definition keyword_size :: nat where "keyword_size = 64"

definition filename_size :: nat where "filename_size = 256"

definition wf_task :: "TaskPayload \<Rightarrow> bool" where
  "wf_task t \<longleftrightarrow> length (tp_keyword t) = keyword_size \<and> length (tp_filename t) = filename_size"

record ChunkResult =
  cr_lines :: "string list"
  cr_search_id :: u64
  cr_task_id :: u64
  cr_total_matches :: u64
  cr_lines_found :: u32

text \<open>The value \<^verbatim>\<open>ChunkResult{}\<close> of the default member initialisers.\<close>

definition new_chunk_result :: ChunkResult where
  "new_chunk_result = \<lparr>cr_lines = [], cr_search_id = 0, cr_task_id = 0,
     cr_total_matches = 0, cr_lines_found = 0\<rparr>"

record HelloMessage =
  threads_available :: u64

section \<open>Memory images\<close>

definition task_bytes :: "TaskPayload \<Rightarrow> u8 list" where
  "task_bytes t = u64_bytes (tp_search_id t) @ u64_bytes (tp_task_id t)
     @ u64_bytes (tp_max_results t) @ u64_bytes (tp_start_offset t) @ u64_bytes (tp_end_offset t)
     @ map char_byte (tp_keyword t) @ map char_byte (tp_filename t)"

definition task_of_bytes :: "u8 list \<Rightarrow> TaskPayload" where
  "task_of_bytes bs = \<lparr>tp_search_id = u64_of_bytes (slice 0 8 bs),
     tp_task_id = u64_of_bytes (slice 8 8 bs), tp_max_results = u64_of_bytes (slice 16 8 bs),
     tp_start_offset = u64_of_bytes (slice 24 8 bs), tp_end_offset = u64_of_bytes (slice 32 8 bs),
     tp_keyword = map byte_char (slice 40 64 bs), tp_filename = map byte_char (slice 104 256 bs)\<rparr>"

definition hello_bytes :: "HelloMessage \<Rightarrow> u8 list" where
  "hello_bytes h = u64_bytes (threads_available h)"

definition hello_of_bytes :: "u8 list \<Rightarrow> HelloMessage" where
  "hello_of_bytes bs = \<lparr>threads_available = u64_of_bytes bs\<rparr>"

interpretation pod_task: pod task_bytes task_of_bytes 360 wf_task
  by unfold_locales
    (simp_all add: task_bytes_def task_of_bytes_def wf_task_def keyword_size_def
       filename_size_def codec_simps)

interpretation pod_hello: pod hello_bytes hello_of_bytes 8 "\<lambda>_. True"
  by unfold_locales (simp_all add: hello_bytes_def hello_of_bytes_def)

end
