(* ===== verification/Decimal.thy ===== *)
theory Decimal
  imports Prelude
begin

text \<open>
  Numbers as the C and C++ standard libraries print and read them: decimal integers
  (\<^verbatim>\<open>std::to_string\<close>, \<^verbatim>\<open>std::format\<close>, \<^verbatim>\<open>strtoull\<close>, \<^verbatim>\<open>strtoll\<close>, \<^verbatim>\<open>std::stoull\<close>) and
  \<^verbatim>\<open>double\<close>. A double is its IEEE 754 binary64 bit pattern, \<^verbatim>\<open>strtod\<close> is correctly rounded (to
  nearest, ties to even), and its conversion to \<^verbatim>\<open>uint64_t\<close> truncates and is undefined out of range.
\<close>

section \<open>Printing integers\<close>

fun nat_dec :: "nat \<Rightarrow> string" where
  "nat_dec n = (if n < 10 then [char_of (48 + n)] else nat_dec (n div 10) @ [char_of (48 + n mod 10)])"

declare nat_dec.simps [simp del]

definition int_dec :: "int \<Rightarrow> string" where
  "int_dec i = (if i < 0 then CHR ''-'' # nat_dec (nat (- i)) else nat_dec (nat i))"

section \<open>Reading integers\<close>

definition is_space :: "char \<Rightarrow> bool" where
  "is_space c \<longleftrightarrow> c \<in> {CHR '' '', CHR 0x09, CHR 0x0A, CHR 0x0B, CHR 0x0C, CHR 0x0D}"

definition is_digit :: "char \<Rightarrow> bool" where
  "is_digit c \<longleftrightarrow> (48 :: nat) \<le> of_char c \<and> of_char c \<le> (57 :: nat)"

definition digits_value :: "string \<Rightarrow> nat" where
  "digits_value ds = foldl (\<lambda>n c. 10 * n + (of_char c - 48)) 0 ds"

text \<open>The subject sequence of \<^verbatim>\<open>strtoull\<close> and \<^verbatim>\<open>strtoll\<close> in base 10: after white space, whether a minus
  sign was read and the longest run of digits (whatever follows is ignored).\<close>

definition subject_sequence :: "string \<Rightarrow> bool \<times> string" where
  "subject_sequence str =
     (let s = dropWhile is_space str;
          s' = (if s \<noteq> [] \<and> (hd s = CHR ''-'' \<or> hd s = CHR ''+'') then tl s else s)
      in (s \<noteq> [] \<and> hd s = CHR ''-'', takeWhile is_digit s'))"

text \<open>\<open>None\<close> is \<^verbatim>\<open>ERANGE\<close>. A minus sign negates modulo \<open>2 ^ 64\<close> in the unsigned case.\<close>

definition strtoull :: "string \<Rightarrow> u64 option" where
  "strtoull str = (case subject_sequence str of (negative, ds) \<Rightarrow>
     if 2 ^ 64 \<le> digits_value ds then None
     else Some (if negative then - of_nat (digits_value ds) else of_nat (digits_value ds)))"

definition strtoll :: "string \<Rightarrow> 64 word option" where
  "strtoll str = (case subject_sequence str of (negative, ds) \<Rightarrow>
     if (if negative then 2 ^ 63 < digits_value ds else 2 ^ 63 \<le> digits_value ds) then None
     else Some (if negative then - of_nat (digits_value ds) else of_nat (digits_value ds)))"

text \<open>\<^verbatim>\<open>std::stoull(str)\<close>: no digit is \<^verbatim>\<open>invalid_argument\<close>, too large a magnitude is
  \<^verbatim>\<open>out_of_range\<close>.\<close>

definition stoull :: "string \<Rightarrow> u64 outcome" where
  "stoull str = (if snd (subject_sequence str) = [] then Throw Other_Exception
     else (case strtoull str of None \<Rightarrow> Throw Other_Exception | Some v \<Rightarrow> Ok v))"

section \<open>Doubles\<close>

type_synonym double = u64

fun bit_length :: "nat \<Rightarrow> nat" where
  "bit_length n = (if n = 0 then 0 else Suc (bit_length (n div 2)))"

declare bit_length.simps [simp del]

text \<open>\<open>num / den\<close> rounded to a multiple of \<open>2 ^ k\<close>, in those units, ties to even.\<close>

definition round_unit :: "nat \<Rightarrow> nat \<Rightarrow> int \<Rightarrow> nat" where
  "round_unit num den k =
     (let n = num * 2 ^ nat (- k); d = den * 2 ^ nat k; q = n div d; r = n mod d
      in if d < 2 * r \<or> (2 * r = d \<and> odd q) then q + 1 else q)"

text \<open>The exponent of the unit in the last place: 53 significant bits, but not below the smallest
  subnormal.\<close>

definition ulp_exponent :: "nat \<Rightarrow> nat \<Rightarrow> int" where
  "ulp_exponent num den =
     (let k = int (bit_length num) - int (bit_length den) - 53;
          k = (if den * 2 ^ 53 * 2 ^ nat k \<le> num * 2 ^ nat (- k) then k + 1 else k)
      in max (- 1074) k)"

text \<open>A mantissa that rounds up to \<open>2 ^ 53\<close> carries into the exponent field; from the exponent field
  2047 on the value is infinite.\<close>

definition infinity_bits :: nat where
  "infinity_bits = 2047 * 2 ^ 52"

definition double_of_ratio :: "bool \<Rightarrow> nat \<Rightarrow> nat \<Rightarrow> double" where
  "double_of_ratio negative num den =
     (let k = ulp_exponent num den;
          bits = (if num = 0 then 0 else nat (k + 1074) * 2 ^ 52 + round_unit num den k)
      in of_nat ((if negative then 2 ^ 63 else 0) + min bits infinity_bits))"

text \<open>\<^verbatim>\<open>strtod\<close> on decimal texts: sign, digits, an optional fraction and an optional exponent.\<close>

definition strtod :: "string \<Rightarrow> double" where
  "strtod str =
     (let negative = (str \<noteq> [] \<and> hd str = CHR ''-'');
          s = (if negative then tl str else str);
          whole = takeWhile is_digit s; s = dropWhile is_digit s;
          frac = (if s \<noteq> [] \<and> hd s = CHR ''.'' then takeWhile is_digit (tl s) else []);
          s = (if s \<noteq> [] \<and> hd s = CHR ''.'' then dropWhile is_digit (tl s) else s);
          e = (if s \<noteq> [] \<and> (hd s = CHR ''e'' \<or> hd s = CHR ''E'')
               then (case subject_sequence (tl s) of (neg, ds) \<Rightarrow> (if neg then - int (digits_value ds) else int (digits_value ds)))
               else 0) - int (length frac);
          m = digits_value (whole @ frac)
      in double_of_ratio negative (m * 10 ^ nat e) (10 ^ nat (- e)))"

definition double_exponent :: "double \<Rightarrow> nat" where
  "double_exponent x = unat x div 2 ^ 52 mod 2048"

definition isfinite :: "double \<Rightarrow> bool" where
  "isfinite x \<longleftrightarrow> double_exponent x \<noteq> 2047"

text \<open>The magnitude of a finite double, truncated to an integer.\<close>

definition double_trunc :: "double \<Rightarrow> nat" where
  "double_trunc x =
     (let e = double_exponent x; f = unat x mod 2 ^ 52;
          m = (if e = 0 then f else f + 2 ^ 52); k = int (max e 1) - 1075
      in m * 2 ^ nat k div 2 ^ nat (- k))"

text \<open>\<^verbatim>\<open>static_cast<uint64_t>\<close>; \<open>None\<close> is undefined behaviour.\<close>

definition double_to_u64 :: "double \<Rightarrow> u64 option" where
  "double_to_u64 x =
     (let t = double_trunc x in
      if \<not> isfinite x \<or> 2 ^ 64 \<le> t \<or> (2 ^ 63 \<le> unat x \<and> 0 < t) then None else Some (of_nat t))"

section \<open>Facts\<close>

text \<open>Printing a number and reading it back.\<close>

lemma digits_value_snoc: "digits_value (ds @ [c]) = 10 * digits_value ds + (of_char c - 48)"
  by (simp add: digits_value_def)

lemma digit_char: "d < 10 \<Longrightarrow> is_digit (char_of (48 + d)) \<and> of_char (char_of (48 + d)) - 48 = (d :: nat)"
  by (simp add: is_digit_def)

lemma nat_dec_digits: "list_all is_digit (nat_dec n) \<and> nat_dec n \<noteq> [] \<and> digits_value (nat_dec n) = n"
proof (induction n rule: nat_dec.induct)
  case (1 n)
  show ?case
  proof (cases "n < 10")
    case True
    then show ?thesis using digit_char [of n] by (subst (1 2 3) nat_dec.simps) (simp add: digits_value_def)
  next
    case False
    have "n mod 10 < 10" by simp
    from digit_char [OF this] 1 [OF False] False show ?thesis
      by (subst (1 2 3) nat_dec.simps) (simp add: digits_value_snoc)
  qed
qed

text \<open>Reading a run of digits, perhaps after a minus sign, up to the first character that is none.\<close>

lemma subject_sequence_digits:
  assumes "list_all is_digit ds" and "ds \<noteq> []" and "junk = [] \<or> \<not> is_digit (hd junk)"
  shows "subject_sequence (ds @ junk) = (False, ds)" "subject_sequence (CHR ''-'' # ds @ junk) = (True, ds)"
proof -
  have hd: "is_digit (hd ds)" using assms(1,2) by (cases ds) auto
  have "takeWhile is_digit (ds @ junk) = ds @ takeWhile is_digit junk"
    using assms(1) by (simp add: takeWhile_append2 list_all_iff)
  moreover have "takeWhile is_digit junk = []" using assms(3) by (cases junk) auto
  ultimately have tw: "takeWhile is_digit (ds @ junk) = ds" by simp
  have "dropWhile is_space (ds @ junk) = ds @ junk"
    using hd assms(2) by (cases ds) (auto simp: is_space_def is_digit_def)
  moreover have "hd (ds @ junk) = hd ds" "ds @ junk \<noteq> []" using assms(2) by simp_all
  moreover have "hd ds \<noteq> CHR ''-'' \<and> hd ds \<noteq> CHR ''+''" using hd by (auto simp: is_digit_def)
  ultimately show "subject_sequence (ds @ junk) = (False, ds)" by (simp add: subject_sequence_def tw Let_def)
  have "dropWhile is_space (CHR ''-'' # ds @ junk) = CHR ''-'' # ds @ junk" by (simp add: is_space_def)
  then show "subject_sequence (CHR ''-'' # ds @ junk) = (True, ds)" by (simp add: subject_sequence_def tw Let_def)
qed

lemma strtoull_nat_dec: "strtoull (nat_dec (unat n)) = Some n"
  using subject_sequence_digits(1) [of "nat_dec (unat n)" "[]"] nat_dec_digits [of "unat n"] unat_u64_less [of n]
  by (simp add: strtoull_def)

lemma stoull_digits:
  assumes "junk = [] \<or> \<not> is_digit (hd junk)"
  shows "stoull (nat_dec (unat n) @ junk) = Ok n"
  using subject_sequence_digits(1) [OF _ _ assms, of "nat_dec (unat n)"] nat_dec_digits [of "unat n"] unat_u64_less [of n]
  by (simp add: stoull_def strtoull_def)

lemma stoull_nat_dec: "stoull (nat_dec (unat n)) = Ok n"
  using stoull_digits [of "[]"] by simp

lemma strtoll_neg_dec:
  assumes "0 < n" and "n \<le> 2 ^ 63"
  shows "strtoll (CHR ''-'' # nat_dec n) = Some (- of_nat n)"
  using subject_sequence_digits(2) [of "nat_dec n" "[]"] nat_dec_digits [of n] assms
  by (simp add: strtoll_def)

text \<open>Evaluating \<^verbatim>\<open>strtod\<close> on a number with a fraction.\<close>

lemma bit_length_numeral [simp]:
  "bit_length 0 = 0" "bit_length (Suc 0) = 1" "bit_length (numeral (Num.Bit0 n)) = Suc (bit_length (numeral n))"
  "bit_length (numeral (Num.Bit1 n)) = Suc (bit_length (numeral n))" "bit_length (numeral Num.One) = 1"
  by (subst bit_length.simps; simp add: bit_length.simps [of 0])+

lemma strtod_decimal:
  assumes "list_all is_digit w" and "w \<noteq> []" and "list_all is_digit f"
  shows "strtod (CHR ''-'' # w @ CHR ''.'' # f) = double_of_ratio True (digits_value (w @ f)) (10 ^ length f)"
proof -
  have dot: "\<not> is_digit (CHR ''.'')" by (simp add: is_digit_def)
  have "takeWhile is_digit (w @ CHR ''.'' # f) = w" "dropWhile is_digit (w @ CHR ''.'' # f) = CHR ''.'' # f"
    using assms(1) dot by (simp_all add: takeWhile_append2 dropWhile_append2 list_all_iff)
  moreover have "takeWhile is_digit f = f" "dropWhile is_digit f = []" using assms(3) by (simp_all add: list_all_iff)
  ultimately show ?thesis
    unfolding strtod_def list.sel Let_def by (simp add: takeWhile_eq_all_conv [THEN iffD2])
qed

end
