(* ===== verification/FsPath.thy ===== *)
theory FsPath
  imports Decimal
begin

text \<open>
  The part of \<^verbatim>\<open>std::filesystem::path\<close> the master uses, on POSIX: a path is
  its string, \<open>operator/\<close> joins, and \<open>lexically_normal\<close> is the normal form of the standard. These are standard library definitions, written out because the
  output sandbox of the master rests on them.
\<close>

section \<open>Paths\<close>

definition SLASH :: char where
  "SLASH = CHR ''/''"

definition starts_with :: "string \<Rightarrow> string \<Rightarrow> bool" where
  "starts_with s prefix \<longleftrightarrow> take (length prefix) s = prefix"

definition ends_with_char :: "string \<Rightarrow> char \<Rightarrow> bool" where
  "ends_with_char s c \<longleftrightarrow> s \<noteq> [] \<and> last s = c"

definition is_absolute :: "string \<Rightarrow> bool" where
  "is_absolute p \<longleftrightarrow> p \<noteq> [] \<and> hd p = SLASH"

text \<open>\<^verbatim>\<open>operator/\<close>: an absolute right side replaces the left one; otherwise a separator is added
  where the left side ends in a file name.\<close>

definition path_join :: "string \<Rightarrow> string \<Rightarrow> string" where
  "path_join p q = (if is_absolute q then q
     else if p \<noteq> [] \<and> last p \<noteq> SLASH then p @ [SLASH] @ q else p @ q)"

fun split_slash :: "string \<Rightarrow> string list" where
  "split_slash [] = [[]]"
| "split_slash (c # cs) = (if c = SLASH then [] # split_slash cs
     else (case split_slash cs of [] \<Rightarrow> [[c]] | w # ws \<Rightarrow> (c # w) # ws))"

text \<open>The file names of a path; runs of separators count as one.\<close>

definition path_names :: "string \<Rightarrow> string list" where
  "path_names p = filter (\<lambda>n. n \<noteq> []) (split_slash p)"

definition dot :: string where "dot = ''.''"

definition dotdot :: string where "dotdot = ''..''"

text \<open>Comparison goes by elements; a trailing separator is an (empty) element of its own.\<close>

definition path_eq :: "string \<Rightarrow> string \<Rightarrow> bool" where
  "path_eq p q \<longleftrightarrow> is_absolute p = is_absolute q \<and> path_names p = path_names q
     \<and> (path_names p \<noteq> [] \<longrightarrow> (last p = SLASH) = (last q = SLASH))"

text \<open>Normalising the names, last one first: a dot goes, a dot-dot takes the name before it along,
  or goes if the root is before it.\<close>

fun norm_step :: "bool \<Rightarrow> string list \<Rightarrow> string \<Rightarrow> string list" where
  "norm_step root st n =
     (if n = dot then st
      else if n = dotdot then
        (case st of [] \<Rightarrow> if root then [] else [n]
         | t # ts \<Rightarrow> if t \<noteq> dotdot then ts else n # st)
      else n # st)"

declare norm_step.simps [simp del]

definition norm_names :: "bool \<Rightarrow> string list \<Rightarrow> string list" where
  "norm_names root ns = rev (foldl (norm_step root) [] ns)"

fun join_names :: "string list \<Rightarrow> string" where
  "join_names [] = []"
| "join_names [n] = n"
| "join_names (n # m # ns) = n @ [SLASH] @ join_names (m # ns)"

definition lexically_normal :: "string \<Rightarrow> string" where
  "lexically_normal p = (if p = [] then []
     else let root = is_absolute p; ns = path_names p; ms = norm_names root ns;
              trailing = (last p = SLASH \<or> (ns \<noteq> [] \<and> last ns \<in> {dot, dotdot}));
              r = (if root then [SLASH] else []) @ join_names ms
                  @ (if trailing \<and> ms \<noteq> [] \<and> last ms \<noteq> dotdot then [SLASH] else [])
          in if r = [] then dot else r)"

text \<open>\<^verbatim>\<open>parent_path()\<close>: up to the last separator, without it unless it is the root.\<close>

definition parent_path :: "string \<Rightarrow> string" where
  "parent_path p = (let d = rev (dropWhile (\<lambda>c. c = SLASH) (dropWhile (\<lambda>c. c \<noteq> SLASH) (rev p)))
     in if d = [] \<and> is_absolute p then [SLASH] else d)"

section \<open>Facts about names\<close>

lemma split_slash_nonempty [simp]: "split_slash p \<noteq> []"
  by (induction p) (auto split: list.split)

lemma split_slash_name: "SLASH \<notin> set p \<Longrightarrow> split_slash p = [p]"
  by (induction p) auto

lemma split_slash_sep: "split_slash (p @ SLASH # q) = split_slash p @ split_slash q"
  by (induction p) (auto split: list.split simp: neq_Nil_conv)

lemma path_names_sep: "path_names (p @ SLASH # q) = path_names p @ path_names q"
  by (simp add: path_names_def split_slash_sep)

lemma path_names_name: "SLASH \<notin> set n \<Longrightarrow> n \<noteq> [] \<Longrightarrow> path_names n = [n]"
  by (simp add: path_names_def split_slash_name)

lemma path_names_Nil [simp]: "path_names [] = []"
  by (simp add: path_names_def)

lemma path_names_snoc_sep: "path_names (p @ [SLASH]) = path_names p"
  using path_names_sep [of p "[]"] by simp

lemma path_names_join:
  assumes "\<not> is_absolute q"
  shows "path_names (path_join p q) = path_names p @ path_names q"
proof (cases "p = [] \<or> last p \<noteq> SLASH")
  case True
  with assms show ?thesis by (auto simp: path_join_def path_names_sep)
next
  case False
  then obtain p' where "p = p' @ [SLASH]" by (metis append_butlast_last_id)
  with assms show ?thesis
    by (simp add: path_join_def path_names_sep)
qed

lemma slash_split: "n \<in> set (split_slash p) \<Longrightarrow> SLASH \<notin> set n"
  by (induction p arbitrary: n) (auto split: list.splits if_splits)

lemma names_wf: "n \<in> set (path_names p) \<Longrightarrow> n \<noteq> [] \<and> SLASH \<notin> set n"
  by (auto simp: path_names_def dest: slash_split)

lemma norm_names_snoc_plain:
  "n \<noteq> dot \<Longrightarrow> n \<noteq> dotdot \<Longrightarrow> norm_names root (ns @ [n]) = norm_names root ns @ [n]"
  by (simp add: norm_names_def norm_step.simps)

lemma norm_names_append_plain:
  "dotdot \<notin> set ns' \<Longrightarrow>
   norm_names root (ns @ ns') = norm_names root ns @ filter (\<lambda>n. n \<noteq> dot) ns'"
proof (induction ns' rule: rev_induct)
  case (snoc n ns')
  moreover from snoc.prems have "n \<noteq> dotdot" by auto
  ultimately show ?case
    by (cases "n = dot")
      (simp_all add: norm_names_def norm_step.simps flip: append_assoc)
qed simp

lemma join_names_append:
  "ns \<noteq> [] \<Longrightarrow> ms \<noteq> [] \<Longrightarrow> join_names (ns @ ms) = join_names ns @ [SLASH] @ join_names ms"
proof (induction ns rule: join_names.induct)
  case (2 n)
  then show ?case by (cases ms) auto
qed auto

lemma starts_with_append [simp]: "starts_with (p @ q) p"
  by (simp add: starts_with_def)

lemma starts_with_iff: "starts_with s p \<longleftrightarrow> (\<exists>q. s = p @ q)"
  by (metis append_take_drop_id starts_with_append starts_with_def)

lemma nat_dec_no_slash: "SLASH \<notin> set (nat_dec n)"
proof (induction n rule: nat_dec.induct)
  case (1 n)
  have digit: "SLASH \<noteq> char_of (48 + d)" if "d < 10" for d :: nat
  proof
    assume "SLASH = char_of (48 + d)"
    then have "of_char (char_of (48 + d)) = (of_char SLASH :: nat)" by simp
    with that show False by (simp add: SLASH_def)
  qed
  show ?case
    using digit [of n] digit [of "n mod 10"] 1 by (subst nat_dec.simps) auto
qed

end
