(* ===== verification/MasterState.thy ===== *)
theory MasterState
  imports LogSearchCommon FsPath
begin

text \<open>
  The data of the master: \<^verbatim>\<open>NetCommon/include/ISearchService.hpp\<close> (what a search is asked for and
  what its status says) and the members of \<^verbatim>\<open>NetServer/src/MasterServer.hpp\<close>. A worker's
  connection is known to the master by its identifier \<^verbatim>\<open>GetID()\<close>. The two-level map of tasks in
  flight is an association list of association lists, since the order in which
  \<^verbatim>\<open>std::unordered_map\<close> is walked matters to one operation; the others are maps. \<open>m_sent\<close> is the
  sequence of \<^verbatim>\<open>client->Send(msg)\<close> calls, and \<open>m_disk\<close> what was appended to each result file.
\<close>

section \<open>The service interface\<close>

record SearchConfig =
  output_dir :: string
  max_results :: u64

definition default_config :: SearchConfig where
  "default_config = \<lparr>output_dir = ''/sessions/'', max_results = 10000\<rparr>"

datatype SearchState = Running | Done

type_synonym cint = "32 word"

record SearchStatus =
  st_state :: SearchState
  st_lines_found :: u64
  st_total_matches :: u64
  st_scan_errors :: u64
  st_chunks_done :: cint
  st_chunks_total :: cint

section \<open>Sessions and the master's members\<close>

record SearchSession =
  ss_path :: string
  ss_search_id :: u64
  ss_max_results :: u64
  ss_total_matches :: u64
  ss_line_count :: u64
  ss_scan_errors :: u64
  ss_chunks_total :: cint
  ss_chunks_done :: cint

definition new_session :: SearchSession where
  "new_session = \<lparr>ss_path = [], ss_search_id = 0, ss_max_results = 0, ss_total_matches = 0,
     ss_line_count = 0, ss_scan_errors = 0, ss_chunks_total = 0, ss_chunks_done = 0\<rparr>"

type_synonym inflight = "(u32 \<times> (u64 \<times> TaskPayload) list) list"

record master =
  m_pendingTasks :: "TaskPayload list"
  m_inFlightTasks :: inflight
  m_idleWorkers :: "u32 list"
  m_idleWorkersIds :: "u32 set"
  m_sessions :: "u64 \<rightharpoonup> SearchSession"
  m_workersFreeSlots :: "u32 \<rightharpoonup> u64"
  m_nextSearchId :: u64
  m_nextTaskId :: u64
  m_base_dir :: string
  m_input_dir :: string
  m_sent :: "(u32 \<times> message) list"
  m_disk :: "string \<Rightarrow> string"

text \<open>The constructor; the two arguments are what \<^verbatim>\<open>getenv\<close> answers.\<close>

definition new_master :: "string option \<Rightarrow> string option \<Rightarrow> master" where
  "new_master envInput envOutput = \<lparr>m_pendingTasks = [], m_inFlightTasks = [], m_idleWorkers = [],
     m_idleWorkersIds = {}, m_sessions = (\<lambda>_. None), m_workersFreeSlots = (\<lambda>_. None),
     m_nextSearchId = 0, m_nextTaskId = 0,
     m_base_dir = (case envOutput of Some d \<Rightarrow> d | None \<Rightarrow> ''/data/loggrid''),
     m_input_dir = (case envInput of Some d \<Rightarrow> d | None \<Rightarrow> ''/app/data''),
     m_sent = [], m_disk = (\<lambda>_. [])\<rparr>"

section \<open>What the file system answers\<close>

text \<open>
  A directory as one traversal of it sees it. An entry is a symbolic link, an entry whose link
  status cannot be read, a directory, a regular file with its size (\<open>None\<close> when reading the size
  fails), or something else (\<open>True\<close> when examining it failed). A listing ends normally or with an
  error of the iterator's increment.
\<close>

datatype node = Symlink | Link_unknown | Subdir dir_obs | Regular "u64 option" | Special bool
  and dir_obs = Unreadable | Listing "(string \<times> node) list" bool

datatype target = Target_dir dir_obs | Target_file "u64 option" | Target_other | Target_error string

text \<open>\<open>os_canonical\<close>: the real path, \<open>None\<close> for an error; \<open>os_target\<close>: what a canonical path is
  (\<^verbatim>\<open>is_directory\<close> may throw); \<open>os_create_directories\<close>: \<open>False\<close> if it throws; \<open>os_now\<close>: seconds of
  the system clock; \<open>os_can_open\<close>: whether a result file opens for appending.\<close>

record os =
  os_canonical :: "string \<Rightarrow> string option"
  os_target :: "string \<Rightarrow> target"
  os_create_directories :: "string \<Rightarrow> bool"
  os_now :: int
  os_can_open :: "string \<Rightarrow> bool"

section \<open>Views of the state\<close>

text \<open>The tasks in flight, with the worker and the task identifier each is registered under.\<close>

definition flight_entries :: "inflight \<Rightarrow> (u32 \<times> u64 \<times> TaskPayload) list" where
  "flight_entries fl = concat (map (\<lambda>(w, ts). map (\<lambda>(i, t). (w, i, t)) ts) fl)"

definition flight_tasks :: "inflight \<Rightarrow> TaskPayload list" where
  "flight_tasks fl = concat (map (\<lambda>(_, ts). map snd ts) fl)"

text \<open>How many tasks of a worker, and of a search, are in flight or waiting.\<close>

definition worker_load :: "inflight \<Rightarrow> u32 \<Rightarrow> nat" where
  "worker_load fl w = (case map_of fl w of None \<Rightarrow> 0 | Some ts \<Rightarrow> length ts)"

definition tasks_of :: "u64 \<Rightarrow> TaskPayload list \<Rightarrow> nat" where
  "tasks_of sid ts = length (filter (\<lambda>t. tp_search_id t = sid) ts)"

definition outstanding :: "u64 \<Rightarrow> master \<Rightarrow> nat" where
  "outstanding sid m = tasks_of sid (m_pendingTasks m) + tasks_of sid (flight_tasks (m_inFlightTasks m))"

lemma tasks_of_simps [simp]:
  "tasks_of sid [] = 0"
  "tasks_of sid (t # ts) = (if tp_search_id t = sid then 1 else 0) + tasks_of sid ts"
  "tasks_of sid (ts @ us) = tasks_of sid ts + tasks_of sid us"
  by (simp_all add: tasks_of_def)

lemma tasks_of_mset: "mset ts = mset us \<Longrightarrow> tasks_of sid ts = tasks_of sid us"
  by (simp add: tasks_of_def length_filter_mset)

lemma flight_tasks_simps [simp]:
  "flight_tasks [] = []"
  "flight_tasks ((w, ts) # fl) = map snd ts @ flight_tasks fl"
  by (simp_all add: flight_tasks_def)

text \<open>The keys of the two levels are distinct, and no worker keeps an empty inner map.\<close>

definition wf_flight :: "inflight \<Rightarrow> bool" where
  "wf_flight fl \<longleftrightarrow> distinct (map fst fl) \<and> (\<forall>(w, ts) \<in> set fl. distinct (map fst ts) \<and> ts \<noteq> [])"

lemma flight_tasks_delete:
  "distinct (map fst fl) \<Longrightarrow> map_of fl w = Some ts \<Longrightarrow>
   mset (flight_tasks fl) = mset (map snd ts) + mset (flight_tasks (AList.delete w fl))"
proof (induction fl)
  case (Cons p fl)
  obtain w' ts' where p: "p = (w', ts')" by (cases p)
  show ?case
  proof (cases "w' = w")
    case True
    with Cons.prems p have "w \<notin> fst ` set fl" by auto
    with True Cons.prems p show ?thesis by simp
  next
    case False
    with Cons p show ?thesis by simp
  qed
qed simp

lemma flight_tasks_update_fresh:
  "map_of fl w = None \<Longrightarrow> mset (flight_tasks (AList.update w ts fl)) = mset (flight_tasks fl) + mset (map snd ts)"
  by (induction fl) (auto split: if_splits)

lemma flight_tasks_update:
  "distinct (map fst fl) \<Longrightarrow> map_of fl w = Some ts \<Longrightarrow>
   mset (flight_tasks (AList.update w ts' fl)) + mset (map snd ts)
     = mset (flight_tasks fl) + mset (map snd ts')"
  by (induction fl) (auto split: if_splits)

section \<open>The contract of the search service\<close>

text \<open>The outcomes a service reports: a value, a \<^verbatim>\<open>runtime_error\<close>, or a \<^verbatim>\<open>filesystem_error\<close>.\<close>

definition reports :: "'a outcome \<Rightarrow> bool" where
  "reports x \<longleftrightarrow> (\<forall>e. x = Throw e \<longrightarrow> (\<exists>what. e = Runtime_Error what \<or> e = Filesystem_Error what))"

text \<open>
  \<^verbatim>\<open>ISearchService\<close>: what the HTTP side relies on. A search that starts has a status from then on
  and disturbs no other; one that fails gives no status to anyone; the exceptions are the two
  documented ones; and asking changes nothing (\<open>GetStatus\<close> returns no state).
\<close>

locale search_service =
  fixes start :: "string \<Rightarrow> string \<Rightarrow> SearchConfig \<Rightarrow> 's \<Rightarrow> u64 outcome \<times> 's"
    and status :: "u64 \<Rightarrow> 's \<Rightarrow> SearchStatus option"
  assumes started_has_status: "start p k c s = (Ok sid, s') \<Longrightarrow> \<exists>st. status sid s' = Some st"
    and started_others: "start p k c s = (Ok sid, s') \<Longrightarrow> i \<noteq> sid \<Longrightarrow> status i s' = status i s"
    and failed_same: "start p k c s = (Throw e, s') \<Longrightarrow> status i s' = status i s"
    and failed_reports: "reports (fst (start p k c s))"
begin

lemma failed_cases:
  "start p k c s = (Throw e, s') \<Longrightarrow> \<exists>what. e = Runtime_Error what \<or> e = Filesystem_Error what"
  using failed_reports [of p k c s] by (simp add: reports_def)

lemma known_stays_known: "status i s = Some st \<Longrightarrow> start p k c s = (r, s') \<Longrightarrow> r = Ok sid \<or> r = Throw e
    \<Longrightarrow> \<exists>st'. status i s' = Some st'"
  using started_has_status started_others failed_same by metis

end

end
