(* ===== verification/MasterScan.thy ===== *)
theory MasterScan
  imports MasterState
begin

text \<open>
  The scanning half of \<^verbatim>\<open>NetServer/src/MasterServer.cpp\<close>: how a search's target becomes a list of
  tasks (\<^verbatim>\<open>CreateChunkTask\<close>, \<^verbatim>\<open>EnqueueFileChunks\<close>, \<^verbatim>\<open>ProcessSingleFile\<close>,
  \<^verbatim>\<open>ScanDirectoryRecursively\<close>). The reference side is the list of regular files of a directory
  observation and the ranges a file is cut into.
\<close>

section \<open>Chunks\<close>

text \<open>5 MB chunk size: the file defines \<^verbatim>\<open>DOCKER_DEBUG\<close>.\<close>

definition CHUNK_SIZE :: u64 where
  "CHUNK_SIZE = 5 * 1024 * 1024"

text \<open>The loop of \<^verbatim>\<open>EnqueueFileChunks\<close>; \<open>None\<close> is a loop that does not end (the counter wraps).\<close>

partial_function (option) chunk_loop ::
  "u64 \<Rightarrow> TaskPayload \<Rightarrow> u64 \<Rightarrow> TaskPayload list \<Rightarrow> TaskPayload list option" where
  "chunk_loop fileSize baseTask currentByte outTasks =
     (if currentByte < fileSize then
        (let baseTask = baseTask\<lparr>tp_start_offset := currentByte,
               tp_end_offset := min (currentByte + CHUNK_SIZE) fileSize\<rparr>
         in chunk_loop fileSize baseTask (currentByte + CHUNK_SIZE) (outTasks @ [baseTask]))
      else Some outTasks)"

declare chunk_loop.simps [code]

definition EnqueueFileChunks ::
  "u64 \<Rightarrow> TaskPayload \<Rightarrow> TaskPayload list \<Rightarrow> TaskPayload list outcome" where
  "EnqueueFileChunks fileSize baseTask outTasks =
     (case chunk_loop fileSize baseTask 0 outTasks of None \<Rightarrow> Hang | Some ts \<Rightarrow> Ok ts)"

definition new_task :: TaskPayload where
  "new_task = \<lparr>tp_search_id = 0, tp_task_id = 0, tp_max_results = 0, tp_start_offset = 0,
     tp_end_offset = 0, tp_keyword = replicate keyword_size NUL,
     tp_filename = replicate filename_size NUL\<rparr>"

text \<open>\<open>uninit\<close> is what the fresh \<^verbatim>\<open>TaskPayload\<close> object holds before its members are assigned.\<close>

definition CreateChunkTask ::
  "TaskPayload \<Rightarrow> string \<Rightarrow> string \<Rightarrow> u64 \<Rightarrow> SearchConfig \<Rightarrow> TaskPayload outcome" where
  "CreateChunkTask uninit filepath keyword searchId config =
     (if filename_size \<le> length filepath
      then Throw (Runtime_Error (''[MASTER] Path exceeds maximum allowed length: '' @ filepath))
      else Ok (uninit\<lparr>tp_search_id := searchId, tp_max_results := max_results config,
        tp_filename := (strncpy filepath filename_size)[filename_size - 1 := NUL],
        tp_keyword := (strncpy keyword keyword_size)[keyword_size - 1 := NUL]\<rparr>))"

text \<open>\<open>sz\<close> is what \<^verbatim>\<open>file_size\<close> answers.\<close>

definition ProcessSingleFile ::
  "TaskPayload \<Rightarrow> string \<Rightarrow> u64 option \<Rightarrow> string \<Rightarrow> u64 \<Rightarrow> SearchConfig \<Rightarrow> TaskPayload list
     \<Rightarrow> (bool \<times> TaskPayload list) outcome" where
  "ProcessSingleFile uninit targetPath sz keyword searchId config outTasks =
     (case sz of
        None \<Rightarrow> Ok (False, outTasks)
      | Some sz \<Rightarrow>
          if sz = 0 then Ok (True, outTasks)
          else if filename_size \<le> length targetPath then Ok (False, outTasks)
          else obind (CreateChunkTask uninit targetPath keyword searchId config) (\<lambda>baseTask.
            obind (EnqueueFileChunks sz baseTask outTasks) (\<lambda>ts. Ok (True, ts))))"

section \<open>The directory walk\<close>

text \<open>One entry of the listing, the listing, and a directory; the accumulator is the caller's task
  list and error counter.\<close>

function (sequential)
  scan_entry :: "TaskPayload \<Rightarrow> string \<Rightarrow> u64 \<Rightarrow> SearchConfig \<Rightarrow> string \<Rightarrow> node
    \<Rightarrow> TaskPayload list \<times> u64 \<Rightarrow> (TaskPayload list \<times> u64) outcome"
and scan_entries :: "TaskPayload \<Rightarrow> string \<Rightarrow> u64 \<Rightarrow> SearchConfig \<Rightarrow> string \<Rightarrow> (string \<times> node) list
    \<Rightarrow> TaskPayload list \<times> u64 \<Rightarrow> (TaskPayload list \<times> u64) outcome"
and ScanDirectoryRecursively :: "TaskPayload \<Rightarrow> string \<Rightarrow> u64 \<Rightarrow> SearchConfig \<Rightarrow> string \<Rightarrow> dir_obs
    \<Rightarrow> TaskPayload list \<times> u64 \<Rightarrow> (TaskPayload list \<times> u64) outcome" where
  "scan_entry uninit keyword sid config path Symlink acc = Ok acc"
| "scan_entry uninit keyword sid config path Link_unknown (outTasks, scanErrors) =
     Ok (outTasks, scanErrors + 1)"
| "scan_entry uninit keyword sid config path (Subdir d) acc =
     ScanDirectoryRecursively uninit keyword sid config path d acc"
| "scan_entry uninit keyword sid config path (Regular sz) (outTasks, scanErrors) =
     obind (ProcessSingleFile uninit path sz keyword sid config outTasks) (\<lambda>(ok, outTasks).
       Ok (outTasks, if ok then scanErrors else scanErrors + 1))"
| "scan_entry uninit keyword sid config path (Special ec) (outTasks, scanErrors) =
     Ok (outTasks, if ec then scanErrors + 1 else scanErrors)"
| "scan_entries uninit keyword sid config dir [] acc = Ok acc"
| "scan_entries uninit keyword sid config dir ((name, nd) # es) acc =
     obind (scan_entry uninit keyword sid config (path_join dir name) nd acc)
       (scan_entries uninit keyword sid config dir es)"
| "ScanDirectoryRecursively uninit keyword sid config dir Unreadable (outTasks, scanErrors) =
     Ok (outTasks, scanErrors + 1)"
| "ScanDirectoryRecursively uninit keyword sid config dir (Listing es failed) acc =
     obind (scan_entries uninit keyword sid config dir es acc) (\<lambda>(outTasks, scanErrors).
       Ok (outTasks, if failed then scanErrors + 1 else scanErrors))"
  by pat_completeness auto
termination
  by (relation "measure (\<lambda>x. case x of Inl (_, _, _, _, _, nd, _) \<Rightarrow> size nd
      | Inr (Inl (_, _, _, _, _, es, _)) \<Rightarrow> size_list (size_prod (\<lambda>_. 0) size) es
      | Inr (Inr (_, _, _, _, _, d, _)) \<Rightarrow> size d)") auto

text \<open>The guard of \<^verbatim>\<open>ProcessSingleFile\<close> keeps \<^verbatim>\<open>CreateChunkTask\<close> from throwing, so the walk never does.\<close>

lemma ProcessSingleFile_no_throw [simp]: "ProcessSingleFile u path sz k s c out \<noteq> Throw e"
  by (simp add: ProcessSingleFile_def CreateChunkTask_def EnqueueFileChunks_def obind_iffs
      split: option.split)

lemma scan_no_throw:
  "scan_entry u k s c path nd acc \<noteq> Throw e"
  "scan_entries u k s c dir es acc \<noteq> Throw e"
  "ScanDirectoryRecursively u k s c dir d acc \<noteq> Throw e"
proof (induction u k s c path nd acc and u k s c dir es acc and u k s c dir d acc
    rule: scan_entry_scan_entries_ScanDirectoryRecursively.induct)
  case (4 u k s c path sz out err)
  then show ?case by (simp add: obind_eq_Throw split_beta)
qed (auto simp: obind_eq_Throw split_beta)

section \<open>Reference: ranges and files\<close>

definition chunk_count :: "nat \<Rightarrow> nat" where
  "chunk_count n = (n + unat CHUNK_SIZE - 1) div unat CHUNK_SIZE"

definition chunk_range :: "nat \<Rightarrow> nat \<Rightarrow> nat \<times> nat" where
  "chunk_range n i = (i * unat CHUNK_SIZE, min (Suc i * unat CHUNK_SIZE) n)"

text \<open>The tasks of a file: the template with the ranges that cut \<open>n\<close> bytes.\<close>

definition chunk_task :: "TaskPayload \<Rightarrow> nat \<Rightarrow> nat \<Rightarrow> TaskPayload" where
  "chunk_task base n i = base\<lparr>tp_start_offset := of_nat (fst (chunk_range n i)),
     tp_end_offset := of_nat (snd (chunk_range n i))\<rparr>"

definition file_tasks :: "TaskPayload \<Rightarrow> nat \<Rightarrow> TaskPayload list" where
  "file_tasks base n = map (chunk_task base n) [0..<chunk_count n]"

lemma unat_CHUNK_SIZE: "unat CHUNK_SIZE = 5242880"
  by (simp add: CHUNK_SIZE_def)

lemma chunk_count_gt: "k < chunk_count n \<longleftrightarrow> k * unat CHUNK_SIZE < n"
proof -
  have "k < chunk_count n \<longleftrightarrow> Suc k \<le> (n + 5242879) div 5242880"
    by (simp add: chunk_count_def unat_CHUNK_SIZE Suc_le_eq add.commute)
  also have "\<dots> \<longleftrightarrow> Suc k * 5242880 \<le> n + 5242879"
    by (rule less_eq_div_iff_mult_less_eq) simp
  also have "\<dots> \<longleftrightarrow> k * 5242880 < n" by auto
  finally show ?thesis by (simp add: unat_CHUNK_SIZE)
qed

text \<open>Sizes the loop can cut: adding one chunk to them stays in 64 bits.\<close>

definition small_size :: "u64 \<Rightarrow> bool" where
  "small_size sz \<longleftrightarrow> unat sz + unat CHUNK_SIZE < 2 ^ 64"

lemma chunk_loop_closed:
  assumes "unat sz + unat CHUNK_SIZE < 2 ^ 64" and "k \<le> chunk_count (unat sz)"
  shows "chunk_loop sz (base\<lparr>tp_start_offset := a, tp_end_offset := b\<rparr>) (of_nat (k * unat CHUNK_SIZE)) out
    = Some (out @ map (chunk_task base (unat sz)) [k..<chunk_count (unat sz)])"
  using assms(2)
proof (induction "chunk_count (unat sz) - k" arbitrary: k a b out)
  case 0
  then have k: "k = chunk_count (unat sz)" by simp
  have "chunk_count (unat sz) * unat CHUNK_SIZE < unat sz + unat CHUNK_SIZE"
    using div_times_less_eq_dividend [of "unat sz + 5242879" 5242880]
    unfolding chunk_count_def unat_CHUNK_SIZE by simp
  then have "unat (of_nat (k * unat CHUNK_SIZE) :: u64) = k * unat CHUNK_SIZE"
    using assms(1) k by (intro unat_of_nat_u64) simp
  moreover have "\<not> k * unat CHUNK_SIZE < unat sz" using k chunk_count_gt [of k "unat sz"] by simp
  ultimately have "\<not> of_nat (k * unat CHUNK_SIZE) < sz" by (simp add: word_less_nat_alt)
  then show ?case using k by (subst chunk_loop.simps) simp
next
  case (Suc d)
  have "k < chunk_count (unat sz)" using Suc.hyps(2) by simp
  then have lt: "k * unat CHUNK_SIZE < unat sz" unfolding chunk_count_gt .
  have nat1: "unat (of_nat (k * unat CHUNK_SIZE) :: u64) = k * unat CHUNK_SIZE"
    using assms(1) lt by (intro unat_of_nat_u64) simp
  have nat2: "unat (of_nat (Suc k * unat CHUNK_SIZE) :: u64) = Suc k * unat CHUNK_SIZE"
    using assms(1) lt by (intro unat_of_nat_u64) simp
  have next_byte: "of_nat (k * unat CHUNK_SIZE) + CHUNK_SIZE = (of_nat (Suc k * unat CHUNK_SIZE) :: u64)"
    by simp
  have end_byte: "min (of_nat (Suc k * unat CHUNK_SIZE)) sz = (of_nat (min (Suc k * unat CHUNK_SIZE) (unat sz)) :: u64)"
    unfolding min_def word_le_nat_alt nat2 by (simp del: of_nat_mult of_nat_Suc mult_Suc)
  have "[k..<chunk_count (unat sz)] = k # [Suc k..<chunk_count (unat sz)]"
    using Suc.hyps(2) by (intro upt_conv_Cons) simp
  moreover have "of_nat (k * unat CHUNK_SIZE) < sz" using lt nat1 by (simp add: word_less_nat_alt)
  ultimately show ?case
    using Suc.hyps(1) [of "Suc k"] Suc.hyps(2)
    by (subst chunk_loop.simps)
      (simp add: Let_def next_byte end_byte chunk_task_def chunk_range_def del: of_nat_mult of_nat_Suc mult_Suc)
qed

lemma EnqueueFileChunks_closed:
  assumes "small_size sz"
  shows "EnqueueFileChunks sz base out = Ok (out @ file_tasks base (unat sz))"
  using chunk_loop_closed [where sz = sz and k = 0 and base = base and a = "tp_start_offset base"
      and b = "tp_end_offset base" and out = out] assms
  by (simp add: EnqueueFileChunks_def small_size_def file_tasks_def)

text \<open>The template \<^verbatim>\<open>CreateChunkTask\<close> builds when the path fits.\<close>

definition task_template :: "TaskPayload \<Rightarrow> string \<Rightarrow> string \<Rightarrow> u64 \<Rightarrow> SearchConfig \<Rightarrow> TaskPayload" where
  "task_template uninit filepath keyword searchId config =
     uninit\<lparr>tp_search_id := searchId, tp_max_results := max_results config,
        tp_filename := (strncpy filepath filename_size)[filename_size - 1 := NUL],
        tp_keyword := (strncpy keyword keyword_size)[keyword_size - 1 := NUL]\<rparr>"

lemma CreateChunkTask_template:
  "length path < filename_size \<Longrightarrow>
   CreateChunkTask uninit path keyword sid config = Ok (task_template uninit path keyword sid config)"
  by (simp add: CreateChunkTask_def task_template_def)

text \<open>What a regular file contributes: its tasks, or a fault.\<close>

definition file_fault :: "string \<times> u64 option \<Rightarrow> bool" where
  "file_fault f = (case snd f of None \<Rightarrow> True
     | Some sz \<Rightarrow> sz \<noteq> 0 \<and> filename_size \<le> length (fst f))"

definition entry_tasks ::
  "TaskPayload \<Rightarrow> string \<Rightarrow> u64 \<Rightarrow> SearchConfig \<Rightarrow> string \<times> u64 option \<Rightarrow> TaskPayload list" where
  "entry_tasks uninit keyword sid config f = (case snd f of None \<Rightarrow> []
     | Some sz \<Rightarrow> if file_fault f then []
         else file_tasks (task_template uninit (fst f) keyword sid config) (unat sz))"

text \<open>The file systems of interest: no file within one chunk of the 64-bit limit.\<close>

definition small_file :: "string \<times> u64 option \<Rightarrow> bool" where
  "small_file f = (case snd f of None \<Rightarrow> True | Some sz \<Rightarrow> small_size sz)"

lemma file_tasks_0 [simp]: "file_tasks base 0 = []"
  by (simp add: file_tasks_def chunk_count_def unat_CHUNK_SIZE)

lemma ProcessSingleFile_closed:
  assumes "small_file (path, sz)"
  shows "ProcessSingleFile uninit path sz keyword sid config out
    = Ok (\<not> file_fault (path, sz), out @ entry_tasks uninit keyword sid config (path, sz))"
  using assms
  by (cases sz) (auto simp: ProcessSingleFile_def small_file_def file_fault_def entry_tasks_def
      CreateChunkTask_template EnqueueFileChunks_closed not_le)

text \<open>The regular files below a directory in the order the walk meets them (symbolic links are not
  followed), and what it could not examine on the way.\<close>

function (sequential) node_files :: "string \<Rightarrow> node \<Rightarrow> (string \<times> u64 option) list"
and list_files :: "string \<Rightarrow> (string \<times> node) list \<Rightarrow> (string \<times> u64 option) list"
and dir_files :: "string \<Rightarrow> dir_obs \<Rightarrow> (string \<times> u64 option) list" where
  "node_files path (Subdir d) = dir_files path d"
| "node_files path (Regular sz) = [(path, sz)]"
| "node_files path nd = []"
| "list_files dir [] = []"
| "list_files dir ((name, nd) # es) = node_files (path_join dir name) nd @ list_files dir es"
| "dir_files dir Unreadable = []"
| "dir_files dir (Listing es failed) = list_files dir es"
  by pat_completeness auto
termination
  by (relation "measure (\<lambda>x. case x of Inl (_, nd) \<Rightarrow> size nd
      | Inr (Inl (_, es)) \<Rightarrow> size_list (size_prod (\<lambda>_. 0) size) es
      | Inr (Inr (_, d)) \<Rightarrow> size d)") auto

function (sequential) node_faults :: "node \<Rightarrow> nat" and list_faults :: "(string \<times> node) list \<Rightarrow> nat"
and dir_faults :: "dir_obs \<Rightarrow> nat" where
  "node_faults (Subdir d) = dir_faults d"
| "node_faults Link_unknown = 1"
| "node_faults (Special ec) = (if ec then 1 else 0)"
| "node_faults nd = 0"
| "list_faults [] = 0"
| "list_faults ((name, nd) # es) = node_faults nd + list_faults es"
| "dir_faults Unreadable = 1"
| "dir_faults (Listing es failed) = list_faults es + (if failed then 1 else 0)"
  by pat_completeness auto
termination
  by (relation "measure (\<lambda>x. case x of Inl nd \<Rightarrow> size nd
      | Inr (Inl es) \<Rightarrow> size_list (size_prod (\<lambda>_. 0) size) es
      | Inr (Inr d) \<Rightarrow> size d)") auto

text \<open>What a list of files and a number of faults add to the walk's accumulator.\<close>

definition scanned :: "TaskPayload \<Rightarrow> string \<Rightarrow> u64 \<Rightarrow> SearchConfig \<Rightarrow> (string \<times> u64 option) list \<Rightarrow> nat
    \<Rightarrow> TaskPayload list \<times> u64 \<Rightarrow> TaskPayload list \<times> u64" where
  "scanned uninit keyword sid config fs n acc =
     (fst acc @ concat (map (entry_tasks uninit keyword sid config) fs),
      snd acc + of_nat (n + length (filter file_fault fs)))"

lemma scanned_compose:
  "scanned u k s c fs' n' (scanned u k s c fs n acc) = scanned u k s c (fs @ fs') (n + n') acc"
  by (simp add: scanned_def algebra_simps)

lemma scan_closed:
  shows "\<forall>f \<in> set (node_files path nd). small_file f \<Longrightarrow>
      scan_entry u k s c path nd acc = Ok (scanned u k s c (node_files path nd) (node_faults nd) acc)"
    and "\<forall>f \<in> set (list_files dir es). small_file f \<Longrightarrow>
      scan_entries u k s c dir es acc = Ok (scanned u k s c (list_files dir es) (list_faults es) acc)"
    and "\<forall>f \<in> set (dir_files dir d). small_file f \<Longrightarrow>
      ScanDirectoryRecursively u k s c dir d acc = Ok (scanned u k s c (dir_files dir d) (dir_faults d) acc)"
proof (induction u k s c path nd acc and u k s c dir es acc and u k s c dir d acc
    rule: scan_entry_scan_entries_ScanDirectoryRecursively.induct)
  case (4 u k s c path sz out e)
  then show ?case by (auto simp: ProcessSingleFile_closed scanned_def)
next
  case (7 u k s c dir name nd es acc)
  then show ?case by (simp add: scanned_compose)
next
  case (9 u k s c dir es failed acc)
  then show ?case by (simp add: scanned_def)
qed (simp_all add: scanned_def)

section \<open>Facts about the tasks\<close>

lemma wf_template [simp]: "wf_task (task_template uninit path keyword sid config)"
  by (simp add: wf_task_def task_template_def)

lemma template_fields [simp]:
  "tp_search_id (task_template uninit path keyword sid config) = sid"
  "tp_max_results (task_template uninit path keyword sid config) = max_results config"
  by (simp_all add: task_template_def)

lemma template_keyword:
  "c_str (tp_keyword (task_template uninit path keyword sid config))
     = Some (take 63 (takeWhile (\<lambda>c. c \<noteq> NUL) keyword))"
  using c_str_strncpy_terminated [of keyword_size keyword]
  by (simp add: task_template_def keyword_size_def)

lemma template_filename:
  "length path < filename_size \<Longrightarrow> NUL \<notin> set path \<Longrightarrow>
   c_str (tp_filename (task_template uninit path keyword sid config)) = Some path"
  using c_str_strncpy_terminated [of filename_size path]
  by (simp add: task_template_def filename_size_def takeWhile_all)

lemma chunk_task_fields [simp]:
  "tp_search_id (chunk_task base n i) = tp_search_id base"
  "tp_max_results (chunk_task base n i) = tp_max_results base"
  "tp_keyword (chunk_task base n i) = tp_keyword base"
  "tp_filename (chunk_task base n i) = tp_filename base"
  "tp_task_id (chunk_task base n i) = tp_task_id base"
  "wf_task (chunk_task base n i) = wf_task base"
  by (simp_all add: chunk_task_def wf_task_def)

lemma chunk_task_range:
  assumes "small_size sz" and "i < chunk_count (unat sz)"
  shows "(unat (tp_start_offset (chunk_task base (unat sz) i)),
      unat (tp_end_offset (chunk_task base (unat sz) i))) = chunk_range (unat sz) i"
proof -
  have "i * unat CHUNK_SIZE < unat sz" using assms(2) unfolding chunk_count_gt .
  then have "unat (of_nat (fst (chunk_range (unat sz) i)) :: u64) = fst (chunk_range (unat sz) i)"
    "unat (of_nat (snd (chunk_range (unat sz) i)) :: u64) = snd (chunk_range (unat sz) i)"
    using unat_u64_less [of sz] unfolding chunk_range_def
    by (auto intro!: unat_of_nat_u64 simp del: of_nat_mult)
  then show ?thesis by (simp add: chunk_task_def)
qed

lemma chunk_range_bounds:
  assumes "i < chunk_count n"
  shows "fst (chunk_range n i) < snd (chunk_range n i)"
    and "snd (chunk_range n i) - fst (chunk_range n i) \<le> unat CHUNK_SIZE"
    and "snd (chunk_range n i) \<le> n"
    and "Suc i < chunk_count n \<Longrightarrow> snd (chunk_range n i) = fst (chunk_range n (Suc i))"
    and "Suc i = chunk_count n \<Longrightarrow> snd (chunk_range n i) = n"
proof -
  have "i * unat CHUNK_SIZE < n" using assms unfolding chunk_count_gt .
  then show "fst (chunk_range n i) < snd (chunk_range n i)"
    "snd (chunk_range n i) - fst (chunk_range n i) \<le> unat CHUNK_SIZE"
    "snd (chunk_range n i) \<le> n"
    by (auto simp: chunk_range_def unat_CHUNK_SIZE)
  show "snd (chunk_range n i) = fst (chunk_range n (Suc i))" if "Suc i < chunk_count n"
    using that unfolding chunk_count_gt by (simp add: chunk_range_def)
  show "snd (chunk_range n i) = n" if "Suc i = chunk_count n"
  proof -
    have "\<not> Suc i * unat CHUNK_SIZE < n" using that chunk_count_gt [of "Suc i" n] by simp
    then show ?thesis by (simp add: chunk_range_def)
  qed
qed

lemma entry_tasks_fields:
  assumes "t \<in> set (entry_tasks uninit keyword sid config f)"
  shows "tp_search_id t = sid" "tp_max_results t = max_results config" "wf_task t"
    "c_str (tp_keyword t) = Some (take 63 (takeWhile (\<lambda>c. c \<noteq> NUL) keyword))"
    "NUL \<notin> set (fst f) \<Longrightarrow> c_str (tp_filename t) = Some (fst f)"
  using assms
  by (auto simp: entry_tasks_def file_tasks_def file_fault_def template_keyword template_filename
      chunk_count_gt split: option.splits if_splits)

section \<open>Properties\<close>

text \<open>Cutting a file ends, and cuts it exactly: the loop appends tasks that differ from the template
  in their offsets only, whose ranges are non-empty, at most one chunk long, start at 0, follow one
  another without gap or overlap, and end at the file's size.\<close>

theorem EnqueueFileChunks_partition:
  assumes "small_size sz"
  shows "\<exists>ts. EnqueueFileChunks sz base out = Ok (out @ ts)
    \<and> length ts = chunk_count (unat sz)
    \<and> (\<forall>i < length ts. ts ! i = base\<lparr>tp_start_offset := tp_start_offset (ts ! i),
          tp_end_offset := tp_end_offset (ts ! i)\<rparr>
        \<and> unat (tp_start_offset (ts ! i)) = i * unat CHUNK_SIZE
        \<and> tp_start_offset (ts ! i) < tp_end_offset (ts ! i)
        \<and> unat (tp_end_offset (ts ! i)) - unat (tp_start_offset (ts ! i)) \<le> unat CHUNK_SIZE
        \<and> tp_end_offset (ts ! i) = (if Suc i < length ts then tp_start_offset (ts ! Suc i) else sz))"
proof (intro exI conjI allI impI)
  let ?ts = "file_tasks base (unat sz)"
  show "EnqueueFileChunks sz base out = Ok (out @ ?ts)" by (rule EnqueueFileChunks_closed [OF assms])
  show len: "length ?ts = chunk_count (unat sz)" by (simp add: file_tasks_def)
  fix i
  assume "i < length ?ts"
  then have i: "i < chunk_count (unat sz)" and nth: "?ts ! i = chunk_task base (unat sz) i"
    by (simp_all add: file_tasks_def)
  note range = chunk_task_range [OF assms i, of base]
  note b = chunk_range_bounds [OF i]
  show "?ts ! i = base\<lparr>tp_start_offset := tp_start_offset (?ts ! i), tp_end_offset := tp_end_offset (?ts ! i)\<rparr>"
    by (simp add: nth chunk_task_def)
  show "unat (tp_start_offset (?ts ! i)) = i * unat CHUNK_SIZE"
    using range by (simp add: nth chunk_range_def)
  show "tp_start_offset (?ts ! i) < tp_end_offset (?ts ! i)"
    using b(1) unfolding range [symmetric] by (simp add: nth word_less_nat_alt)
  show "unat (tp_end_offset (?ts ! i)) - unat (tp_start_offset (?ts ! i)) \<le> unat CHUNK_SIZE"
    using b(2) unfolding range [symmetric] by (simp add: nth)
  show "tp_end_offset (?ts ! i) = (if Suc i < length ?ts then tp_start_offset (?ts ! Suc i) else sz)"
  proof (cases "Suc i < chunk_count (unat sz)")
    case True
    then have "?ts ! Suc i = chunk_task base (unat sz) (Suc i)" by (simp add: file_tasks_def)
    with True b(4) len show ?thesis by (simp add: nth chunk_task_def)
  next
    case False
    with i have "Suc i = chunk_count (unat sz)" by simp
    from b(5) [OF this] False len show ?thesis by (simp add: nth chunk_task_def)
  qed
qed

theorem EnqueueFileChunks_partition_witness:
  "\<exists>ts. EnqueueFileChunks 6000000 new_task [] = Ok ([] @ ts) \<and> length ts = 2"
proof -
  have "small_size 6000000" by (simp add: small_size_def unat_CHUNK_SIZE)
  from EnqueueFileChunks_partition [OF this, of new_task "[]"] show ?thesis
    by (force simp: chunk_count_def unat_CHUNK_SIZE)
qed

text \<open>The walk of a directory is total and exact: it appends the tasks of every regular file below
  it in the order met, those behind an unexaminable entry or after an error in a sibling included,
  and adds to the error counter one for each file whose size cannot be read or whose path does
  not fit, each entry or directory that cannot be examined, and each listing cut short; symbolic
  links and special files add nothing.\<close>

theorem ScanDirectoryRecursively_exact:
  assumes "\<forall>f \<in> set (dir_files dir d). small_file f"
  shows "ScanDirectoryRecursively uninit keyword sid config dir d (out, errs)
    = Ok (out @ concat (map (entry_tasks uninit keyword sid config) (dir_files dir d)),
        errs + of_nat (dir_faults d + length (filter file_fault (dir_files dir d))))"
  using scan_closed(3) [OF assms] by (simp add: scanned_def)

theorem ScanDirectoryRecursively_exact_witness:
  "ScanDirectoryRecursively new_task ''k'' 0 default_config ''/d''
      (Listing [(''a'', Link_unknown), (''b'', Symlink), (''c'', Regular None)] True) ([], 0) = Ok ([], 3)"
  using ScanDirectoryRecursively_exact
    [where d = "Listing [(''a'', Link_unknown), (''b'', Symlink), (''c'', Regular None)] True" and dir = "''/d''"
      and uninit = new_task and keyword = "''k''" and sid = 0 and config = default_config and out = "[]" and errs = 0]
  by (simp add: small_file_def entry_tasks_def file_fault_def)

text \<open>A task's strings are always terminated: the path is carried whole (a longer one is refused),
  the pattern is cut to its first 63 characters without notice, so two patterns that agree that
  far are the same search.\<close>

theorem CreateChunkTask_strings:
  assumes "length path < 256" and "NUL \<notin> set path" and "NUL \<notin> set keyword"
  shows "\<exists>t. CreateChunkTask uninit path keyword sid config = Ok t \<and> wf_task t
    \<and> c_str (tp_filename t) = Some path \<and> c_str (tp_keyword t) = Some (take 63 keyword)
    \<and> (take 63 keyword = take 63 keyword' \<and> NUL \<notin> set keyword' \<longrightarrow>
        CreateChunkTask uninit path keyword' sid config = Ok t)"
proof -
  have path: "length path < filename_size" using assms(1) by (simp add: filename_size_def)
  have cut: "(strncpy k keyword_size)[keyword_size - 1 := NUL]
      = take 63 k @ replicate (63 - length k) NUL @ [NUL]" if "NUL \<notin> set k" for k
    unfolding strncpy_def takeWhile_all [OF that]
    by (simp add: keyword_size_def upd_conv_take_nth_drop min_def)
  have "length (take 63 k :: string) = length (take 63 k') \<Longrightarrow> 63 - length k = 63 - length k'"
    for k k' :: string by auto
  then have "take 63 keyword = take 63 keyword' \<Longrightarrow> 63 - length keyword = 63 - length keyword'"
    by metis
  then have "take 63 keyword = take 63 keyword' \<and> NUL \<notin> set keyword' \<longrightarrow>
      task_template uninit path keyword' sid config = task_template uninit path keyword sid config"
    using cut [OF assms(3)] cut [of keyword'] by (simp add: task_template_def)
  then show ?thesis
    using template_filename [OF path assms(2)] assms(3)
    by (auto simp: CreateChunkTask_template [OF path] template_keyword takeWhile_all)
qed

theorem CreateChunkTask_strings_witness:
  "\<exists>t. CreateChunkTask new_task ''/a'' (replicate 64 CHR ''x'') 0 default_config = Ok t
    \<and> CreateChunkTask new_task ''/a'' (replicate 65 CHR ''x'') 0 default_config = Ok t
    \<and> c_str (tp_keyword t) = Some (replicate 63 CHR ''x'')"
  using CreateChunkTask_strings [where path = "''/a''" and keyword = "replicate 64 CHR ''x''" and uninit = new_task
      and sid = 0 and config = default_config and keyword' = "replicate 65 CHR ''x''"]
  by (auto simp: NUL_def)

end
