(* ===== verification/MasterDispatch.thy ===== *)
theory MasterDispatch
  imports MasterState
begin

text \<open>
  The scheduler of \<^verbatim>\<open>NetServer/src/MasterServer.cpp\<close>: \<^verbatim>\<open>DispatchNextTask\<close>, \<^verbatim>\<open>AssignIdleWorkers\<close>,
  \<^verbatim>\<open>OnClientConnect\<close>, \<^verbatim>\<open>OnClientDisconnect\<close> and the two worker messages' effect on it. The first
  invariant is conservation: the multiset of tasks waiting or in flight changes only when a task
  is published or acknowledged. The second is that the scheduler never leaves a free slot beside a
  waiting task.
\<close>

section \<open>Operations\<close>

text \<open>\<^verbatim>\<open>m_inFlightTasks[clientID][taskId] = task\<close>\<close>

definition register_task :: "u32 \<Rightarrow> u64 \<Rightarrow> TaskPayload \<Rightarrow> inflight \<Rightarrow> inflight" where
  "register_task clientID taskId task fl = AList.update clientID
     (AList.update taskId task (case map_of fl clientID of None \<Rightarrow> [] | Some ts \<Rightarrow> ts)) fl"

definition task_message :: "TaskPayload \<Rightarrow> message" where
  "task_message task = push_pod task_bytes
     (new_message\<lparr>header := (header new_message)\<lparr>hdr_id := msg_id Server_SearchTask\<rparr>\<rparr>) task"

definition DispatchNextTask :: "u32 \<Rightarrow> master \<Rightarrow> bool \<times> master" where
  "DispatchNextTask client m =
     (case m_workersFreeSlots m client of
        None \<Rightarrow> (False, m)
      | Some slots \<Rightarrow>
          (case m_pendingTasks m of
             task # rest \<Rightarrow>
               (let newTaskId = m_nextTaskId m + 1;
                    task = task\<lparr>tp_task_id := newTaskId\<rparr>
                in (True, m\<lparr>m_pendingTasks := rest, m_nextTaskId := newTaskId,
                     m_inFlightTasks := register_task client newTaskId task (m_inFlightTasks m),
                     m_workersFreeSlots := (m_workersFreeSlots m)(client \<mapsto> slots - 1),
                     m_sent := m_sent m @ [(client, task_message task)]\<rparr>))
           | [] \<Rightarrow>
               if client \<notin> m_idleWorkersIds m
               then (False, m\<lparr>m_idleWorkers := m_idleWorkers m @ [client],
                              m_idleWorkersIds := insert client (m_idleWorkersIds m)\<rparr>)
               else (False, m)))"

text \<open>The loop that offers a worker up to \<open>n\<close> tasks and stops at the first refusal.\<close>

fun dispatch_loop :: "nat \<Rightarrow> u32 \<Rightarrow> master \<Rightarrow> master" where
  "dispatch_loop 0 client m = m"
| "dispatch_loop (Suc n) client m =
     (case DispatchNextTask client m of (sent, m') \<Rightarrow> if sent then dispatch_loop n client m' else m')"

lemma dispatch_loop_idle:
  "m_pendingTasks (dispatch_loop n client m) \<noteq> [] \<Longrightarrow> m_idleWorkers (dispatch_loop n client m) = m_idleWorkers m"
  by (induction n arbitrary: m)
    (auto simp: DispatchNextTask_def Let_def split: option.splits list.splits prod.splits if_splits)

function AssignIdleWorkers :: "master \<Rightarrow> master" where
  "AssignIdleWorkers m =
     (if m_pendingTasks m = [] \<or> m_idleWorkers m = [] then m
      else let worker = hd (m_idleWorkers m);
               m = m\<lparr>m_idleWorkers := tl (m_idleWorkers m)\<rparr>
        in (case m_workersFreeSlots m worker of
              None \<Rightarrow> AssignIdleWorkers m
            | Some threadsCount \<Rightarrow> AssignIdleWorkers (dispatch_loop (unat threadsCount) worker
                (m\<lparr>m_idleWorkersIds := m_idleWorkersIds m - {worker}\<rparr>))))"
  by pat_completeness auto
termination
proof (relation "measure (\<lambda>m. if m_pendingTasks m = [] then 0 else Suc (length (m_idleWorkers m)))")
  fix m :: master and worker m' k
  assume run: "\<not> (m_pendingTasks m = [] \<or> m_idleWorkers m = [])"
    and m': "m' = m\<lparr>m_idleWorkers := tl (m_idleWorkers m)\<rparr>"
  let ?d = "dispatch_loop (unat k) worker (m'\<lparr>m_idleWorkersIds := m_idleWorkersIds m' - {worker}\<rparr>)"
  have "m_pendingTasks ?d \<noteq> [] \<Longrightarrow> m_idleWorkers ?d = tl (m_idleWorkers m)"
    by (drule dispatch_loop_idle) (simp add: m')
  with run show "(?d, m) \<in> measure (\<lambda>m. if m_pendingTasks m = [] then 0 else Suc (length (m_idleWorkers m)))"
    by auto
qed auto

declare AssignIdleWorkers.simps [simp del]

definition OnClientConnect :: "u32 \<Rightarrow> master \<Rightarrow> bool \<times> master" where
  "OnClientConnect client m = (True, m)"

text \<open>\<open>order\<close>: the order in which the library walks the inner map of the lost worker.\<close>

definition OnClientDisconnect ::
  "((u64 \<times> TaskPayload) list \<Rightarrow> (u64 \<times> TaskPayload) list) \<Rightarrow> u32 \<Rightarrow> master \<Rightarrow> master" where
  "OnClientDisconnect order clientID m =
     (let m = m\<lparr>m_workersFreeSlots := (m_workersFreeSlots m)(clientID := None),
                m_idleWorkersIds := m_idleWorkersIds m - {clientID}\<rparr>;
          m = (case map_of (m_inFlightTasks m) clientID of
                 None \<Rightarrow> m
               | Some ts \<Rightarrow>
                   m\<lparr>m_pendingTasks := foldl (\<lambda>pending task. snd task # pending) (m_pendingTasks m) (order ts),
                     m_inFlightTasks := AList.delete clientID (m_inFlightTasks m)\<rparr>)
      in AssignIdleWorkers m)"

text \<open>\<^verbatim>\<open>Worker_Hello\<close>: the capacity is registered, and the worker's threads are saturated.\<close>

definition register_worker :: "u32 \<Rightarrow> u64 \<Rightarrow> master \<Rightarrow> master" where
  "register_worker client threadsCount m = dispatch_loop (unat threadsCount) client
     (m\<lparr>m_workersFreeSlots := (m_workersFreeSlots m)(client \<mapsto> threadsCount)\<rparr>)"

text \<open>\<^verbatim>\<open>Worker_TaskDone\<close>, the first lock section: the task's search, if the task is in flight on this
  worker, after which it is no longer, and its slot is free.\<close>

definition acknowledge :: "u32 \<Rightarrow> u64 \<Rightarrow> master \<Rightarrow> (u64 \<times> master) option" where
  "acknowledge client taskId m =
     (case map_of (m_inFlightTasks m) client of
        None \<Rightarrow> None
      | Some ts \<Rightarrow>
          (case map_of ts taskId of
             None \<Rightarrow> None
           | Some task \<Rightarrow>
               (let ts = AList.delete taskId ts;
                    slots = (case m_workersFreeSlots m client of None \<Rightarrow> 0 | Some k \<Rightarrow> k)
                in Some (tp_search_id task, m\<lparr>
                     m_inFlightTasks := (if ts = [] then AList.delete client (m_inFlightTasks m)
                                         else AList.update client ts (m_inFlightTasks m)),
                     m_workersFreeSlots := (m_workersFreeSlots m)(client \<mapsto> slots + 1)\<rparr>))))"

section \<open>Conservation of tasks\<close>

text \<open>The tasks the master holds, waiting or in flight, without the number a dispatch gives them.\<close>

definition strip_id :: "TaskPayload \<Rightarrow> TaskPayload" where
  "strip_id t = t\<lparr>tp_task_id := 0\<rparr>"

definition work :: "master \<Rightarrow> TaskPayload multiset" where
  "work m = image_mset strip_id (mset (m_pendingTasks m) + mset (flight_tasks (m_inFlightTasks m)))"

text \<open>The registry of tasks in flight: keys are distinct, and every task is registered under its own
  number, which the counter has passed.\<close>

definition flight_ok :: "master \<Rightarrow> bool" where
  "flight_ok m \<longleftrightarrow> wf_flight (m_inFlightTasks m)
     \<and> (\<forall>(w, ts) \<in> set (m_inFlightTasks m). \<forall>(i, t) \<in> set ts. unat i \<le> unat (m_nextTaskId m) \<and> tp_task_id t = i)"

text \<open>Room for a new number for every waiting task: the 64-bit counter does not wrap.\<close>

definition room :: "master \<Rightarrow> bool" where
  "room m \<longleftrightarrow> unat (m_nextTaskId m) + length (m_pendingTasks m) < 2 ^ 64"

lemma strip_id_simps [simp]:
  "strip_id (t\<lparr>tp_task_id := i\<rparr>) = strip_id t" "tp_search_id (strip_id t) = tp_search_id t"
  by (simp_all add: strip_id_def)

lemma set_AList_delete: "set (AList.delete k al) = {p \<in> set al. fst p \<noteq> k}"
  by (induction al) auto

lemma delete_absent: "map_of al k = None \<Longrightarrow> AList.delete k al = al"
  by (induction al) (auto split: if_splits)

lemma set_update_subset: "set (AList.update k v al) \<subseteq> insert (k, v) (set al)"
  by (induction al) auto

lemma distinct_delete: "distinct (map fst al) \<Longrightarrow> distinct (map fst (AList.delete k al))"
  by (induction al) (auto simp: set_AList_delete)

lemma distinct_update: "distinct (map fst al) \<Longrightarrow> distinct (map fst (AList.update k v al))"
  by (rule AList.distinct_update)

lemma update_nonempty [simp]: "AList.update k v al \<noteq> []"
  by (cases al) auto

lemma Dispatch_unregistered:
  "m_workersFreeSlots m c = None \<Longrightarrow> DispatchNextTask c m = (False, m)"
  by (simp add: DispatchNextTask_def)

lemma Dispatch_empty:
  "m_pendingTasks m = [] \<Longrightarrow> m_workersFreeSlots m c = Some k \<Longrightarrow> DispatchNextTask c m = (False,
     if c \<in> m_idleWorkersIds m then m
     else m\<lparr>m_idleWorkers := m_idleWorkers m @ [c], m_idleWorkersIds := insert c (m_idleWorkersIds m)\<rparr>)"
  by (simp add: DispatchNextTask_def)

lemma Dispatch_sent:
  "m_pendingTasks m = t # ts \<Longrightarrow> m_workersFreeSlots m c = Some k \<Longrightarrow> DispatchNextTask c m = (True,
     m\<lparr>m_pendingTasks := ts, m_nextTaskId := m_nextTaskId m + 1,
       m_inFlightTasks := register_task c (m_nextTaskId m + 1) (t\<lparr>tp_task_id := m_nextTaskId m + 1\<rparr>) (m_inFlightTasks m),
       m_workersFreeSlots := (m_workersFreeSlots m)(c \<mapsto> k - 1),
       m_sent := m_sent m @ [(c, task_message (t\<lparr>tp_task_id := m_nextTaskId m + 1\<rparr>))]\<rparr>)"
  by (simp add: DispatchNextTask_def Let_def)

lemmas dispatch_simps = Dispatch_unregistered Dispatch_empty Dispatch_sent

lemma dispatch_cases [case_names unregistered empty sent]:
  assumes "m_workersFreeSlots m c = None \<Longrightarrow> P"
    and "\<And>k. m_workersFreeSlots m c = Some k \<Longrightarrow> m_pendingTasks m = [] \<Longrightarrow> P"
    and "\<And>k t ts. m_workersFreeSlots m c = Some k \<Longrightarrow> m_pendingTasks m = t # ts \<Longrightarrow> P"
  shows P
  using assms by (cases "m_workersFreeSlots m c"; cases "m_pendingTasks m") auto

lemma dispatch_loop_inv:
  "(\<And>m. P m \<Longrightarrow> P (snd (DispatchNextTask c m))) \<Longrightarrow> P m \<Longrightarrow> P (dispatch_loop n c m)"
proof (induction n arbitrary: m)
  case (Suc n)
  have "P (snd (DispatchNextTask c m))" by (intro Suc.prems)
  with Suc show ?case by (cases "DispatchNextTask c m") simp
qed simp

lemma assign_stop: "m_pendingTasks m = [] \<or> m_idleWorkers m = [] \<Longrightarrow> AssignIdleWorkers m = m"
  by (subst AssignIdleWorkers.simps) auto

lemma assign_skip:
  "m_pendingTasks m \<noteq> [] \<Longrightarrow> m_idleWorkers m \<noteq> [] \<Longrightarrow> m_workersFreeSlots m (hd (m_idleWorkers m)) = None \<Longrightarrow>
   AssignIdleWorkers m = AssignIdleWorkers (m\<lparr>m_idleWorkers := tl (m_idleWorkers m)\<rparr>)"
  by (subst AssignIdleWorkers.simps) (simp add: Let_def)

lemma assign_step:
  "m_pendingTasks m \<noteq> [] \<Longrightarrow> m_idleWorkers m \<noteq> [] \<Longrightarrow> m_workersFreeSlots m (hd (m_idleWorkers m)) = Some k \<Longrightarrow>
   AssignIdleWorkers m = AssignIdleWorkers (dispatch_loop (unat k) (hd (m_idleWorkers m))
     (m\<lparr>m_idleWorkers := tl (m_idleWorkers m), m_idleWorkersIds := m_idleWorkersIds m - {hd (m_idleWorkers m)}\<rparr>))"
  by (subst AssignIdleWorkers.simps) (simp add: Let_def)

text \<open>Rule for what assigning keeps: a property that dispatching keeps and the idle queue does not touch.\<close>

lemma assign_inv:
  assumes disp: "\<And>c m. P m \<Longrightarrow> P (snd (DispatchNextTask c m))"
    and idle: "\<And>m q ids. P m \<Longrightarrow> P (m\<lparr>m_idleWorkers := q, m_idleWorkersIds := ids\<rparr>)"
    and "P m"
  shows "P (AssignIdleWorkers m)"
  using \<open>P m\<close>
proof (induction m rule: AssignIdleWorkers.induct)
  case (1 m)
  show ?case
  proof (cases "m_pendingTasks m = [] \<or> m_idleWorkers m = []")
    case True
    then show ?thesis using 1 by (simp add: assign_stop)
  next
    case False
    let ?m = "m\<lparr>m_idleWorkers := tl (m_idleWorkers m)\<rparr>" and ?w = "hd (m_idleWorkers m)"
    have P: "P ?m" using idle [OF "1.prems", where q = "tl (m_idleWorkers m)" and ids = "m_idleWorkersIds m"] by simp
    show ?thesis
    proof (cases "m_workersFreeSlots ?m ?w")
      case None
      with 1(1) [OF False refl refl None P] False show ?thesis by (simp add: assign_skip)
    next
      case (Some k)
      have "P (?m\<lparr>m_idleWorkersIds := m_idleWorkersIds ?m - {?w}\<rparr>)"
        using idle [OF "1.prems", where q = "tl (m_idleWorkers m)" and ids = "m_idleWorkersIds m - {?w}"] by simp
      then have "P (dispatch_loop (unat k) ?w (?m\<lparr>m_idleWorkersIds := m_idleWorkersIds ?m - {?w}\<rparr>))"
        by (rule dispatch_loop_inv [rotated]) (rule disp)
      from 1(2) [OF False refl refl Some this] False Some show ?thesis by (simp add: assign_step)
    qed
  qed
qed

lemma flight_tasks_register:
  assumes "flight_ok m" and "unat i = unat (m_nextTaskId m) + 1"
  shows "mset (flight_tasks (register_task c i t (m_inFlightTasks m)))
    = add_mset t (mset (flight_tasks (m_inFlightTasks m)))"
proof (cases "map_of (m_inFlightTasks m) c")
  case None
  then show ?thesis by (simp add: register_task_def flight_tasks_update_fresh)
next
  case (Some ts)
  have "(c, ts) \<in> set (m_inFlightTasks m)" using Some by (rule map_of_SomeD)
  with assms have "i \<notin> fst ` set ts" by (fastforce simp: flight_ok_def)
  then have "mset (map snd (AList.update i t ts)) = add_mset t (mset (map snd ts))"
    by (simp add: update_mset_fresh)
  with flight_tasks_update [of "m_inFlightTasks m" c ts "AList.update i t ts"] Some assms(1)
  show ?thesis by (simp add: register_task_def flight_ok_def wf_flight_def)
qed

lemma flight_ok_register:
  assumes ok: "flight_ok m" and i: "unat i = unat (m_nextTaskId m) + 1" and t: "tp_task_id t = i"
    and fl: "m_inFlightTasks m' = register_task c i t (m_inFlightTasks m)" and n: "m_nextTaskId m' = i"
  shows "flight_ok m'"
proof -
  have "(\<forall>(j, u) \<in> set ts. unat j \<le> unat i \<and> tp_task_id u = j) \<and> distinct (map fst ts) \<and> ts \<noteq> []"
    if "(w, ts) \<in> set (m_inFlightTasks m')" for w ts
  proof -
    define old where "old = (case map_of (m_inFlightTasks m) c of None \<Rightarrow> [] | Some ts \<Rightarrow> ts)"
    have entry: "(\<forall>(j, u) \<in> set us. unat j \<le> unat i \<and> tp_task_id u = j) \<and> distinct (map fst us)"
      if "(w, us) \<in> set (m_inFlightTasks m)" for w us
      using ok i that by (fastforce simp: flight_ok_def wf_flight_def)
    have "(c, old) \<in> set (m_inFlightTasks m) \<or> old = []"
      by (cases "map_of (m_inFlightTasks m) c") (auto simp: old_def dest: map_of_SomeD)
    then have "(\<forall>(j, u) \<in> set old. unat j \<le> unat i \<and> tp_task_id u = j) \<and> distinct (map fst old)"
      using entry [of c old] by auto
    then have upd: "(\<forall>(j, u) \<in> set (AList.update i t old). unat j \<le> unat i \<and> tp_task_id u = j)
        \<and> distinct (map fst (AList.update i t old))"
      using t set_update_subset [of i t old] by (auto intro: distinct_update)
    from that fl have "(w, ts) \<in> insert (c, AList.update i t old) (set (m_inFlightTasks m))"
      using set_update_subset [of c "AList.update i t old" "m_inFlightTasks m"]
      by (auto simp: register_task_def old_def)
    then show ?thesis using upd ok entry by (fastforce simp: flight_ok_def wf_flight_def)
  qed
  moreover have "distinct (map fst (m_inFlightTasks m'))"
    using ok by (simp add: fl register_task_def distinct_update flight_ok_def wf_flight_def)
  ultimately show ?thesis using n unfolding flight_ok_def wf_flight_def by blast
qed

lemma dispatch_conserves:
  assumes "flight_ok m" and "room m"
  shows "flight_ok (snd (DispatchNextTask c m)) \<and> room (snd (DispatchNextTask c m))
    \<and> work (snd (DispatchNextTask c m)) = work m"
proof (cases m c rule: dispatch_cases)
  case (sent k t ts)
  have n: "unat (m_nextTaskId m + 1) = unat (m_nextTaskId m) + 1"
    using assms(2) sent by (intro unat_plus_1) (simp add: room_def)
  let ?t = "t\<lparr>tp_task_id := m_nextTaskId m + 1\<rparr>"
  show ?thesis
  proof (intro conjI)
    show "flight_ok (snd (DispatchNextTask c m))"
      by (rule flight_ok_register [OF assms(1) n, of ?t]) (simp_all add: Dispatch_sent [OF sent(2,1)])
    show "room (snd (DispatchNextTask c m))"
      using assms(2) by (simp add: Dispatch_sent [OF sent(2,1)] room_def n sent)
    show "work (snd (DispatchNextTask c m)) = work m"
      using flight_tasks_register [OF assms(1) n, of c ?t]
      by (simp add: Dispatch_sent [OF sent(2,1)] work_def sent)
  qed
qed (use assms in \<open>simp_all add: dispatch_simps flight_ok_def room_def work_def\<close>)

text \<open>What every scheduling operation keeps, relative to a state before it.\<close>

definition conserved :: "master \<Rightarrow> master \<Rightarrow> bool" where
  "conserved m0 m \<longleftrightarrow> flight_ok m \<and> room m \<and> work m = work m0 \<and> m_sessions m = m_sessions m0
     \<and> m_nextSearchId m = m_nextSearchId m0 \<and> m_base_dir m = m_base_dir m0
     \<and> m_input_dir m = m_input_dir m0 \<and> m_disk m = m_disk m0"

lemma dispatch_frame [frame_simps]:
  "m_sessions (snd (DispatchNextTask c m)) = m_sessions m"
  "m_nextSearchId (snd (DispatchNextTask c m)) = m_nextSearchId m"
  "m_base_dir (snd (DispatchNextTask c m)) = m_base_dir m"
  "m_input_dir (snd (DispatchNextTask c m)) = m_input_dir m"
  "m_disk (snd (DispatchNextTask c m)) = m_disk m"
  by (cases m c rule: dispatch_cases; simp add: dispatch_simps)+

lemma conserved_refl: "flight_ok m \<Longrightarrow> room m \<Longrightarrow> conserved m m"
  by (simp add: conserved_def)

lemma conserved_dispatch: "conserved m0 m \<Longrightarrow> conserved m0 (snd (DispatchNextTask c m))"
  using dispatch_conserves [of m c] by (simp add: conserved_def frame_simps)

lemma conserved_idle: "conserved m0 m \<Longrightarrow> conserved m0 (m\<lparr>m_idleWorkers := q, m_idleWorkersIds := ids\<rparr>)"
  by (simp add: conserved_def flight_ok_def room_def work_def)

lemma conserved_loop: "conserved m0 m \<Longrightarrow> conserved m0 (dispatch_loop n c m)"
  by (rule dispatch_loop_inv [where P = "conserved m0", OF conserved_dispatch])

lemma conserved_assign: "conserved m0 m \<Longrightarrow> conserved m0 (AssignIdleWorkers m)"
  by (rule assign_inv [where P = "conserved m0", OF conserved_dispatch conserved_idle])

lemma conserved_register:
  "flight_ok m \<Longrightarrow> room m \<Longrightarrow> conserved m (register_worker c n m)"
  unfolding register_worker_def
  by (rule conserved_loop) (simp add: conserved_def flight_ok_def room_def work_def)

text \<open>Which task an acknowledgement takes off the registry.\<close>

lemma acknowledge_task:
  assumes ack: "acknowledge c i m = Some (sid, m')" and ok: "flight_ok m"
  obtains ts t where "map_of (m_inFlightTasks m) c = Some ts" and "map_of ts i = Some t" and "sid = tp_search_id t"
    and "m_inFlightTasks m' = (if AList.delete i ts = [] then AList.delete c (m_inFlightTasks m)
      else AList.update c (AList.delete i ts) (m_inFlightTasks m))"
    and "mset (flight_tasks (m_inFlightTasks m)) = add_mset t (mset (flight_tasks (m_inFlightTasks m')))"
proof -
  let ?fl = "m_inFlightTasks m"
  from ack obtain ts t where ts: "map_of ?fl c = Some ts" and t: "map_of ts i = Some t" "sid = tp_search_id t"
    by (auto simp: acknowledge_def Let_def split: option.splits)
  let ?ts = "AList.delete i ts"
  from ack ts t have fl': "m_inFlightTasks m' = (if ?ts = [] then AList.delete c ?fl else AList.update c ?ts ?fl)"
    by (auto simp: acknowledge_def Let_def)
  have "(c, ts) \<in> set ?fl" using ts by (rule map_of_SomeD)
  with ok have dts: "distinct (map fst ts)" and dfl: "distinct (map fst ?fl)"
    by (auto simp: flight_ok_def wf_flight_def)
  have "mset ts = add_mset (i, t) (mset ?ts)" by (rule delete_mset [OF dts t(1)])
  then have "mset (map snd ts) = add_mset t (mset (map snd ?ts))" by simp
  then have "mset (flight_tasks ?fl) = add_mset t (mset (flight_tasks (m_inFlightTasks m')))"
    using flight_tasks_delete [OF dfl ts] flight_tasks_update [OF dfl ts, of ?ts] by (auto simp: fl')
  with ts t fl' show thesis by (rule that)
qed

lemma acknowledge_conserves:
  assumes ack: "acknowledge c i m = Some (sid, m')" and ok: "flight_ok m"
  shows "flight_ok m' \<and> m_pendingTasks m' = m_pendingTasks m \<and> m_nextTaskId m' = m_nextTaskId m
    \<and> (\<exists>t. tp_search_id t = sid \<and> t \<in> set (flight_tasks (m_inFlightTasks m))
        \<and> work m = add_mset (strip_id t) (work m'))
    \<and> m_sessions m' = m_sessions m \<and> m_nextSearchId m' = m_nextSearchId m
    \<and> m_base_dir m' = m_base_dir m \<and> m_input_dir m' = m_input_dir m \<and> m_disk m' = m_disk m"
proof -
  let ?fl = "m_inFlightTasks m"
  obtain ts t where ts: "map_of ?fl c = Some ts" and t: "map_of ts i = Some t" "sid = tp_search_id t"
    and fl': "m_inFlightTasks m' = (if AList.delete i ts = [] then AList.delete c ?fl else AList.update c (AList.delete i ts) ?fl)"
    and fewer: "mset (flight_tasks ?fl) = add_mset t (mset (flight_tasks (m_inFlightTasks m')))"
    by (rule acknowledge_task [OF ack ok])
  let ?ts = "AList.delete i ts"
  from ack ts t have rest: "m_pendingTasks m' = m_pendingTasks m" "m_nextTaskId m' = m_nextTaskId m"
      "m_sessions m' = m_sessions m" "m_nextSearchId m' = m_nextSearchId m" "m_base_dir m' = m_base_dir m"
      "m_input_dir m' = m_input_dir m" "m_disk m' = m_disk m"
    by (auto simp: acknowledge_def Let_def)
  have in_fl: "(c, ts) \<in> set ?fl" using ts by (rule map_of_SomeD)
  with ok have dfl: "distinct (map fst ?fl)" by (auto simp: flight_ok_def wf_flight_def)
  note fewer
  moreover from this have "t \<in> set (flight_tasks ?fl)" by (metis set_mset_mset union_single_eq_member)
  moreover have "flight_ok m'"
  proof -
    have entry: "(\<forall>(j, u) \<in> set us. unat j \<le> unat (m_nextTaskId m) \<and> tp_task_id u = j)
        \<and> distinct (map fst us) \<and> us \<noteq> []" if "(w, us) \<in> set ?fl" for w us
      using ok that by (fastforce simp: flight_ok_def wf_flight_def)
    have "(\<forall>(j, u) \<in> set ?ts. unat j \<le> unat (m_nextTaskId m) \<and> tp_task_id u = j) \<and> distinct (map fst ?ts)"
      using entry [OF in_fl] by (auto simp: set_AList_delete distinct_delete)
    moreover have "set (m_inFlightTasks m') \<subseteq> set ?fl \<union> (if ?ts = [] then {} else {(c, ?ts)})"
      using set_update_subset [of c ?ts ?fl] by (auto simp: fl' set_AList_delete)
    ultimately have "(\<forall>(j, u) \<in> set us. unat j \<le> unat (m_nextTaskId m) \<and> tp_task_id u = j)
        \<and> distinct (map fst us) \<and> us \<noteq> []" if "(w, us) \<in> set (m_inFlightTasks m')" for w us
      using entry [of w us] that by (auto split: if_splits)
    moreover have "distinct (map fst (m_inFlightTasks m'))"
      using dfl by (simp add: fl' distinct_delete distinct_update)
    ultimately show ?thesis unfolding flight_ok_def wf_flight_def rest(2) by blast
  qed
  ultimately show ?thesis using rest t(2) by (auto simp: work_def)
qed

lemma foldl_push_front: "foldl (\<lambda>pending task. snd task # pending) p ts = rev (map snd ts) @ p"
  by (induction ts arbitrary: p) simp_all

text \<open>The state in which a disconnection has been recorded, before the reclaimed tasks are assigned.\<close>

definition reclaim ::
  "((u64 \<times> TaskPayload) list \<Rightarrow> (u64 \<times> TaskPayload) list) \<Rightarrow> u32 \<Rightarrow> master \<Rightarrow> master" where
  "reclaim order c m = m\<lparr>m_workersFreeSlots := (m_workersFreeSlots m)(c := None),
     m_idleWorkersIds := m_idleWorkersIds m - {c},
     m_pendingTasks := (case map_of (m_inFlightTasks m) c of None \<Rightarrow> m_pendingTasks m
        | Some ts \<Rightarrow> rev (map snd (order ts)) @ m_pendingTasks m),
     m_inFlightTasks := AList.delete c (m_inFlightTasks m)\<rparr>"

lemma OnClientDisconnect_reclaim: "OnClientDisconnect order c m = AssignIdleWorkers (reclaim order c m)"
proof (cases "map_of (m_inFlightTasks m) c")
  case None
  then have "AList.delete c (m_inFlightTasks m) = m_inFlightTasks m" by (rule delete_absent)
  with None show ?thesis by (simp add: OnClientDisconnect_def reclaim_def Let_def)
qed (simp add: OnClientDisconnect_def reclaim_def Let_def foldl_push_front)

lemma reclaim_conserves:
  assumes "flight_ok m" and "unat (m_nextTaskId m) + size (work m) < 2 ^ 64"
    and order: "\<And>ts. mset (order ts) = mset ts"
  shows "conserved m (reclaim order c m)"
proof -
  have fl: "flight_ok (reclaim order c m)"
    using assms(1) by (auto simp: flight_ok_def wf_flight_def reclaim_def set_AList_delete distinct_delete)
  have work: "work (reclaim order c m) = work m"
  proof (cases "map_of (m_inFlightTasks m) c")
    case None
    then have "AList.delete c (m_inFlightTasks m) = m_inFlightTasks m" by (rule delete_absent)
    with None show ?thesis by (simp add: work_def reclaim_def)
  next
    case (Some ts)
    have "mset (map snd (order ts)) = mset (map snd ts)" by (simp add: order)
    then show ?thesis
      using flight_tasks_delete [of "m_inFlightTasks m" c ts] Some assms(1)
      by (simp add: work_def reclaim_def flight_ok_def wf_flight_def del: mset_map)
  qed
  have "length (m_pendingTasks (reclaim order c m)) \<le> size (work (reclaim order c m))"
    by (simp add: work_def)
  with assms(2) fl work show ?thesis by (simp add: conserved_def room_def) (simp add: reclaim_def)
qed

section \<open>Saturation\<close>

text \<open>What the idle set means: its members are queued and registered, a worker with tasks in flight is
  registered, and a worker with a free slot is in it (the worker \<open>x\<close> may be excepted).\<close>

definition sched_but :: "u32 set \<Rightarrow> master \<Rightarrow> bool" where
  "sched_but x m \<longleftrightarrow> m_idleWorkersIds m \<subseteq> set (m_idleWorkers m)
     \<and> m_idleWorkersIds m \<subseteq> dom (m_workersFreeSlots m)
     \<and> fst ` set (m_inFlightTasks m) \<subseteq> dom (m_workersFreeSlots m)
     \<and> (\<forall>w k. m_workersFreeSlots m w = Some k \<longrightarrow> k \<noteq> 0 \<longrightarrow> w \<notin> x \<longrightarrow> w \<in> m_idleWorkersIds m)"

text \<open>Between two events the scheduler is moreover work-conserving.\<close>

definition saturated :: "master \<Rightarrow> bool" where
  "saturated m \<longleftrightarrow> sched_but {} m \<and> (m_pendingTasks m = [] \<or> m_idleWorkers m = [])"

lemma fst_register: "fst ` set (register_task c i t fl) = insert c (fst ` set fl)"
  by (simp add: register_task_def AList.dom_update)

lemma sched_dispatch:
  assumes "sched_but x m" and "c \<in> x" and "m_workersFreeSlots m c = Some k"
  shows "sched_but x (snd (DispatchNextTask c m))"
  using assms by (cases "m_pendingTasks m") (auto simp: dispatch_simps sched_but_def fst_register split: if_splits)

lemma sched_drop:
  "sched_but {c} m \<Longrightarrow> (\<And>k. m_workersFreeSlots m c = Some k \<Longrightarrow> k \<noteq> 0 \<Longrightarrow> c \<in> m_idleWorkersIds m)
    \<Longrightarrow> sched_but {} m"
  unfolding sched_but_def by (metis singletonD)

text \<open>Offering a worker as many tasks as it has free slots uses them up, or makes it idle.\<close>

lemma sched_loop:
  "sched_but {c} m \<Longrightarrow> m_workersFreeSlots m c = Some k \<Longrightarrow> unat k = n \<Longrightarrow> sched_but {} (dispatch_loop n c m)"
proof (induction n arbitrary: m k)
  case 0
  then show ?case by (auto intro: sched_drop simp: unat_eq_0)
next
  case (Suc n)
  have keep: "sched_but {c} (snd (DispatchNextTask c m))"
    using Suc.prems by (intro sched_dispatch) auto
  show ?case
  proof (cases "m_pendingTasks m")
    case Nil
    have "c \<in> m_idleWorkersIds (snd (DispatchNextTask c m))" using Nil Suc.prems by (simp add: dispatch_simps)
    with keep have "sched_but {} (snd (DispatchNextTask c m))" by (auto intro: sched_drop)
    then show ?thesis using Nil Suc.prems by (simp add: dispatch_simps)
  next
    case (Cons t ts)
    have "unat (k - 1) = n" using Suc.prems(3) by (subst unat_minus_1) auto
    with Suc.IH [OF keep, of "k - 1"] Cons Suc.prems show ?thesis by (simp add: dispatch_simps)
  qed
qed

lemma dispatch_loop_pending: "m_pendingTasks m = [] \<Longrightarrow> m_pendingTasks (dispatch_loop n c m) = []"
proof (rule dispatch_loop_inv)
  show "m_pendingTasks (snd (DispatchNextTask c m)) = []" if "m_pendingTasks m = []" for m
    using that by (cases m c rule: dispatch_cases) (simp_all add: dispatch_simps)
qed

lemma loop_work_conserving:
  "m_pendingTasks m = [] \<or> m_idleWorkers m = [] \<Longrightarrow>
   m_pendingTasks (dispatch_loop n c m) = [] \<or> m_idleWorkers (dispatch_loop n c m) = []"
  using dispatch_loop_pending [of m n c] dispatch_loop_idle [of n c m] by metis

lemma assign_saturates: "sched_but {} m \<Longrightarrow> saturated (AssignIdleWorkers m)"
proof (induction m rule: AssignIdleWorkers.induct)
  case (1 m)
  show ?case
  proof (cases "m_pendingTasks m = [] \<or> m_idleWorkers m = []")
    case True
    then show ?thesis using 1(3) by (simp add: assign_stop saturated_def)
  next
    case False
    then obtain w q where q: "m_idleWorkers m = w # q" by (cases "m_idleWorkers m") auto
    let ?m = "m\<lparr>m_idleWorkers := tl (m_idleWorkers m)\<rparr>"
    show ?thesis
    proof (cases "m_workersFreeSlots ?m (hd (m_idleWorkers m))")
      case None
      have "sched_but {} ?m" using 1(3) None q by (auto simp: sched_but_def)
      from 1(1) [OF False refl refl None this] False None show ?thesis by (simp add: assign_skip)
    next
      case (Some k)
      have "sched_but {w} (?m\<lparr>m_idleWorkersIds := m_idleWorkersIds m - {w}\<rparr>)"
        using 1(3) q by (auto simp: sched_but_def)
      then have "sched_but {} (dispatch_loop (unat k) w (?m\<lparr>m_idleWorkersIds := m_idleWorkersIds ?m - {w}\<rparr>))"
        using Some q by (intro sched_loop [where k = k]) simp_all
      from 1(2) [OF False refl refl Some] this False Some q show ?thesis by (simp add: assign_step)
    qed
  qed
qed

lemma register_saturates:
  assumes "saturated m"
  shows "saturated (register_worker c n m)"
proof -
  let ?m = "m\<lparr>m_workersFreeSlots := (m_workersFreeSlots m)(c \<mapsto> n)\<rparr>"
  have "sched_but {c} ?m" using assms by (auto simp: saturated_def sched_but_def)
  then have "sched_but {} (dispatch_loop (unat n) c ?m)" by (intro sched_loop [where k = n]) simp_all
  with loop_work_conserving [of ?m "unat n" c] assms show ?thesis
    by (simp add: register_worker_def saturated_def)
qed

lemma acknowledge_saturates:
  assumes sat: "saturated m" and ack: "acknowledge c i m = Some (sid, m')"
  shows "saturated (snd (DispatchNextTask c m'))"
proof -
  have ids: "m_idleWorkersIds m \<subseteq> set (m_idleWorkers m)" "m_idleWorkersIds m \<subseteq> dom (m_workersFreeSlots m)"
    and flight: "fst ` set (m_inFlightTasks m) \<subseteq> dom (m_workersFreeSlots m)"
    and free: "\<And>w k. m_workersFreeSlots m w = Some k \<Longrightarrow> k \<noteq> 0 \<Longrightarrow> w \<in> m_idleWorkersIds m"
    and cons: "m_pendingTasks m = [] \<or> m_idleWorkers m = []"
    using sat by (auto simp: saturated_def sched_but_def)
  obtain ts where ts: "map_of (m_inFlightTasks m) c = Some ts"
    using ack by (auto simp: acknowledge_def split: option.splits)
  then have c: "c \<in> fst ` set (m_inFlightTasks m)" by (force dest: map_of_SomeD)
  with flight obtain k where k: "m_workersFreeSlots m c = Some k" by auto
  from ack ts k have slots: "m_workersFreeSlots m' = (m_workersFreeSlots m)(c \<mapsto> k + 1)"
    and same: "m_pendingTasks m' = m_pendingTasks m" "m_idleWorkers m' = m_idleWorkers m"
      "m_idleWorkersIds m' = m_idleWorkersIds m"
    by (auto simp: acknowledge_def Let_def split: option.splits)
  have "m_inFlightTasks m' \<in> {AList.delete c (m_inFlightTasks m), AList.update c (AList.delete i ts) (m_inFlightTasks m)}"
    using ack ts by (auto simp: acknowledge_def Let_def split: option.splits)
  then have "fst ` set (m_inFlightTasks m') \<subseteq> fst ` set (m_inFlightTasks m)"
    using c by (elim insertE emptyE) (auto simp: set_AList_delete AList.dom_update)
  then have flight': "fst ` set (m_inFlightTasks m') \<subseteq> dom (m_workersFreeSlots m')"
    using flight unfolding slots by (simp add: subset_iff)
  have but: "sched_but {c} m'"
    using ids flight' free by (auto simp: sched_but_def same slots)
  have disp: "sched_but {c} (snd (DispatchNextTask c m'))"
    using but slots by (intro sched_dispatch) auto
  show ?thesis
  proof (cases "m_pendingTasks m")
    case Nil
    then have "sched_but {} (snd (DispatchNextTask c m'))"
      using slots same by (intro sched_drop [OF disp]) (simp add: dispatch_simps)
    with Nil slots same show ?thesis by (simp add: saturated_def dispatch_simps)
  next
    case (Cons t us)
    then have "m_idleWorkersIds m = {}" using ids(1) cons by simp
    with free [OF k] have "k = 0" by blast
    then have "m_workersFreeSlots (snd (DispatchNextTask c m')) c = Some 0"
      using Cons slots same by (simp add: dispatch_simps)
    then have "sched_but {} (snd (DispatchNextTask c m'))" by (intro sched_drop [OF disp]) simp
    with Cons slots same cons show ?thesis by (simp add: saturated_def dispatch_simps)
  qed
qed

lemma disconnect_saturates:
  assumes "saturated m"
  shows "saturated (OnClientDisconnect order c m)"
  unfolding OnClientDisconnect_reclaim
  by (rule assign_saturates) (use assms in \<open>auto simp: saturated_def sched_but_def reclaim_def set_AList_delete\<close>)

end
