(* ===== verification/MasterResults.thy ===== *)
theory MasterResults
  imports MasterState
begin

text \<open>
  The results half of \<^verbatim>\<open>NetServer/src/MasterServer.cpp\<close>: reading a worker's batch
  (\<^verbatim>\<open>DeserializeBatch\<close>), counting and capping it (\<^verbatim>\<open>AggregateTaskResult\<close>), appending it to the
  session's file (\<^verbatim>\<open>WriteResults\<close>, \<^verbatim>\<open>OpenResultFile\<close>), and choosing that file inside the output
  directory (\<^verbatim>\<open>MakeRelative\<close>, \<^verbatim>\<open>CreateSessionFilePath\<close>).
\<close>

section \<open>Reading a batch\<close>

text \<open>The loop that reads lines from the front of the body. Its \<^verbatim>\<open>memcpy\<close> and its string construction
  are unchecked: running past the end of the body is undefined.\<close>

fun read_lines :: "u8 list \<Rightarrow> nat \<Rightarrow> nat \<Rightarrow> string list \<Rightarrow> string list outcome" where
  "read_lines bs offset 0 lines = Ok lines"
| "read_lines bs offset (Suc n) lines =
     (if length bs < offset + 4 then Undef
      else let len = unat (u32_of_bytes (slice offset 4 bs)); offset = offset + 4 in
        if length bs < offset + len then Undef
        else read_lines bs (offset + len) n (lines @ [map byte_char (slice offset len bs)]))"

definition DeserializeBatch :: "message \<Rightarrow> (ChunkResult \<times> message) outcome" where
  "DeserializeBatch msg =
     obind (pop_pod 8 u64_of_bytes msg) (\<lambda>(searchId, msg).
     obind (pop_pod 8 u64_of_bytes msg) (\<lambda>(totalMatches, msg).
     obind (pop_pod 4 u32_of_bytes msg) (\<lambda>(lineCount, msg).
     obind (read_lines (body msg) 0 (unat lineCount) []) (\<lambda>lines.
       Ok (new_chunk_result\<lparr>cr_search_id := searchId, cr_total_matches := totalMatches,
             cr_lines_found := lineCount, cr_lines := lines\<rparr>, msg)))))"

section \<open>Writing results\<close>

definition OpenResultFile :: "os \<Rightarrow> string \<Rightarrow> string option" where
  "OpenResultFile os filename = (if os_can_open os filename then Some filename else None)"

definition WriteResults :: "os \<Rightarrow> string list \<Rightarrow> u64 \<Rightarrow> master \<Rightarrow> master" where
  "WriteResults os lines searchId m =
     (case m_sessions m searchId of
        None \<Rightarrow> m
      | Some session \<Rightarrow>
          (case OpenResultFile os (ss_path session) of
             None \<Rightarrow> m
           | Some file \<Rightarrow> m\<lparr>m_disk := (m_disk m)(file := m_disk m file
               @ concat (map (\<lambda>line. line @ [CHR 0x0A]) lines))\<rparr>))"

text \<open>The counting under the lock: the session afterwards and the number of lines to write. The sizes
  are compared as 64-bit numbers.\<close>

definition count_batch :: "ChunkResult \<Rightarrow> SearchSession \<Rightarrow> SearchSession \<times> u64" where
  "count_batch batch session =
     (let session = session\<lparr>ss_total_matches := ss_total_matches session + cr_total_matches batch\<rparr> in
      if ss_line_count session < ss_max_results session
      then let needed = ss_max_results session - ss_line_count session;
               linesToWrite = min (of_nat (length (cr_lines batch))) needed
           in (session\<lparr>ss_line_count := ss_line_count session + linesToWrite\<rparr>, linesToWrite)
      else (session, 0))"

text \<open>Every exception is raised before the first change to the state.\<close>

definition AggregateTaskResult :: "os \<Rightarrow> message \<Rightarrow> u64 \<Rightarrow> master \<Rightarrow> master outcome" where
  "AggregateTaskResult os msg authoritativeSearchId m =
     obind (DeserializeBatch msg) (\<lambda>(batch, _).
       let batch = batch\<lparr>cr_search_id := authoritativeSearchId\<rparr> in
       (case m_sessions m (cr_search_id batch) of
          None \<Rightarrow> Throw (Runtime_Error (''[MASTER] Unknown search_id:'' @ nat_dec (unat (cr_search_id batch))))
        | Some session \<Rightarrow>
            (case count_batch batch session of (session, linesToWrite) \<Rightarrow>
               let m = m\<lparr>m_sessions := (m_sessions m)(cr_search_id batch \<mapsto> session)\<rparr> in
               Ok (if 0 < linesToWrite
                   then let batch = (if linesToWrite < of_nat (length (cr_lines batch))
                                     then batch\<lparr>cr_lines := take (unat linesToWrite) (cr_lines batch)\<rparr>
                                     else batch)
                        in WriteResults os (cr_lines batch) (cr_search_id batch) m
                   else m))))"

section \<open>The output sandbox\<close>

definition MakeRelative :: "string \<Rightarrow> string" where
  "MakeRelative path = (let path = dropWhile (\<lambda>c. c = CHR ''/'' \<or> c = CHR 0x5C) path
     in if path = [] then ''.'' else path)"

definition CreateSessionFilePath :: "os \<Rightarrow> string \<Rightarrow> string \<Rightarrow> u64 \<Rightarrow> string outcome" where
  "CreateSessionFilePath os base_dir userDir searchId =
     (let timestamp = os_now os;
          filename = ''search_'' @ nat_dec (unat searchId) @ ''_'' @ int_dec timestamp @ ''.log'';
          basePath = lexically_normal base_dir;
          relUserDir = MakeRelative userDir;
          fullFilePath = lexically_normal (path_join (path_join basePath relUserDir) filename)
      in if \<not> starts_with fullFilePath basePath
         then Throw (Runtime_Error ''[MASTER] Security Alert: Path Traversal attempt blocked!'')
         else if \<not> os_create_directories os (parent_path fullFilePath)
         then Throw (Filesystem_Error (parent_path fullFilePath))
         else Ok fullFilePath)"

section \<open>Facts\<close>

lemma count_batch_bound:
  "ss_line_count s \<le> ss_max_results s \<Longrightarrow> ss_line_count (fst (count_batch b s)) \<le> ss_max_results (fst (count_batch b s))"
proof -
  assume le: "ss_line_count s \<le> ss_max_results s"
  have "c + min x (mx - c) \<le> mx" if "c \<le> mx" for c mx x :: u64
  proof -
    have "unat (mx - c) = unat mx - unat c" using that by (rule unat_sub)
    moreover have "unat c \<le> unat mx" using that by (simp add: word_le_nat_alt)
    moreover have "unat (min x (mx - c)) \<le> unat (mx - c)"
      by (metis min.cobounded2 word_le_nat_alt)
    ultimately show ?thesis
      using unat_u64_less [of mx] by (simp add: word_le_nat_alt unat_word_ariths)
  qed
  with le show ?thesis by (simp add: count_batch_def Let_def)
qed

lemma count_batch_fields [frame_simps]:
  "ss_path (fst (count_batch b s)) = ss_path s"
  "ss_search_id (fst (count_batch b s)) = ss_search_id s"
  "ss_max_results (fst (count_batch b s)) = ss_max_results s"
  "ss_scan_errors (fst (count_batch b s)) = ss_scan_errors s"
  "ss_chunks_total (fst (count_batch b s)) = ss_chunks_total s"
  "ss_chunks_done (fst (count_batch b s)) = ss_chunks_done s"
  "ss_total_matches (fst (count_batch b s)) = ss_total_matches s + cr_total_matches b"
  by (simp_all add: count_batch_def Let_def)

lemma WriteResults_frame [frame_simps]:
  "m_pendingTasks (WriteResults os ls sid m) = m_pendingTasks m"
  "m_inFlightTasks (WriteResults os ls sid m) = m_inFlightTasks m"
  "m_idleWorkers (WriteResults os ls sid m) = m_idleWorkers m"
  "m_idleWorkersIds (WriteResults os ls sid m) = m_idleWorkersIds m"
  "m_sessions (WriteResults os ls sid m) = m_sessions m"
  "m_workersFreeSlots (WriteResults os ls sid m) = m_workersFreeSlots m"
  "m_nextSearchId (WriteResults os ls sid m) = m_nextSearchId m"
  "m_nextTaskId (WriteResults os ls sid m) = m_nextTaskId m"
  "m_base_dir (WriteResults os ls sid m) = m_base_dir m"
  "m_input_dir (WriteResults os ls sid m) = m_input_dir m"
  "m_sent (WriteResults os ls sid m) = m_sent m"
  by (simp_all add: WriteResults_def split: option.split)

text \<open>Aggregation changes one session, by counting one batch, and the disk.\<close>

lemma Aggregate_Ok:
  assumes "AggregateTaskResult os msg sid m = Ok m'"
  obtains batch session where "m_sessions m sid = Some session"
    and "m' = m\<lparr>m_sessions := (m_sessions m)(sid \<mapsto> fst (count_batch batch session)), m_disk := m_disk m'\<rparr>"
proof -
  from assms obtain batch msg' session where d: "DeserializeBatch msg = Ok (batch, msg')"
    and s: "m_sessions m sid = Some session"
    by (auto simp: AggregateTaskResult_def obind_iffs Let_def split: option.splits)
  let ?b = "batch\<lparr>cr_search_id := sid\<rparr>"
  let ?m = "m\<lparr>m_sessions := (m_sessions m)(sid \<mapsto> fst (count_batch ?b session))\<rparr>"
  from assms d s obtain ls where "m' = WriteResults os ls sid ?m \<or> m' = ?m"
    by (cases "count_batch ?b session") (auto simp: AggregateTaskResult_def Let_def split: if_splits)
  then have "m' = ?m\<lparr>m_disk := m_disk m'\<rparr>"
    by (auto simp: WriteResults_def split: option.splits)
  then show thesis by (intro that [of session ?b]) (simp_all add: s)
qed

subsection \<open>Paths of result files\<close>

lemma MakeRelative_relative: "\<not> is_absolute (MakeRelative path)"
proof -
  let ?d = "dropWhile (\<lambda>c. c = CHR ''/'' \<or> c = CHR 0x5C) path"
  have "?d \<noteq> [] \<Longrightarrow> hd ?d \<noteq> CHR ''/''"
    using hd_dropWhile [of "\<lambda>c. c = CHR ''/'' \<or> c = CHR 0x5C" path] by blast
  then show ?thesis by (auto simp: MakeRelative_def Let_def is_absolute_def SLASH_def)
qed

definition session_filename :: "os \<Rightarrow> u64 \<Rightarrow> string" where
  "session_filename os searchId = ''search_'' @ nat_dec (unat searchId) @ ''_'' @ int_dec (os_now os) @ ''.log''"

lemma int_dec_no_slash: "SLASH \<notin> set (int_dec i)"
proof -
  have "SLASH \<noteq> CHR ''-''" by (simp add: SLASH_def)
  then show ?thesis by (simp add: int_dec_def nat_dec_no_slash)
qed

lemma filename_no_slash: "SLASH \<notin> set (session_filename os sid)"
  unfolding session_filename_def set_append Un_iff de_Morgan_disj
  by (intro conjI nat_dec_no_slash int_dec_no_slash) (simp_all add: SLASH_def)

lemma filename_start: "\<exists>rest. session_filename os sid = CHR ''s'' # CHR ''e'' # rest"
  by (simp add: session_filename_def)

lemma filename_name:
  "session_filename os sid \<noteq> []" "session_filename os sid \<noteq> dot" "session_filename os sid \<noteq> dotdot"
  "\<not> is_absolute (session_filename os sid)"
  using filename_start [of os sid] by (auto simp: SLASH_def dot_def dotdot_def is_absolute_def)

text \<open>The path that is checked and returned.\<close>

definition session_path :: "os \<Rightarrow> string \<Rightarrow> string \<Rightarrow> u64 \<Rightarrow> string" where
  "session_path os base_dir userDir searchId = lexically_normal
     (path_join (path_join (lexically_normal base_dir) (MakeRelative userDir)) (session_filename os searchId))"

lemma CreateSessionFilePath_Ok:
  "CreateSessionFilePath os base_dir userDir sid = Ok p \<longleftrightarrow>
   p = session_path os base_dir userDir sid \<and> starts_with p (lexically_normal base_dir)
   \<and> os_create_directories os (parent_path p)"
  by (auto simp: CreateSessionFilePath_def Let_def session_path_def session_filename_def)

lemma starts_with_names:
  assumes "starts_with p b" and "b \<noteq> []" and "last b = SLASH"
  shows "\<exists>ns. path_names p = path_names b @ ns"
proof -
  obtain q where "p = b @ q" using assms(1) by (auto simp: starts_with_iff)
  moreover obtain b' where "b = b' @ [SLASH]" using assms(2,3) by (metis append_butlast_last_id)
  ultimately show ?thesis by (auto simp: path_names_sep path_names_snoc_sep)
qed

text \<open>A file system on which everything succeeds.\<close>

definition plain_os :: os where
  "plain_os = \<lparr>os_canonical = (\<lambda>p. Some p), os_target = (\<lambda>_. Target_other),
     os_create_directories = (\<lambda>_. True), os_now = 0, os_can_open = (\<lambda>_. True)\<rparr>"

text \<open>The lines a session still takes of a batch, and what they add to its file.\<close>

definition accepted :: "SearchSession \<Rightarrow> string list \<Rightarrow> string list" where
  "accepted s ls = take (unat (ss_max_results s) - unat (ss_line_count s)) ls"

definition file_text :: "string list \<Rightarrow> string" where
  "file_text ls = concat (map (\<lambda>line. line @ [CHR 0x0A]) ls)"

lemma count_batch_exact:
  assumes "length (cr_lines b) < 2 ^ 64"
  shows "unat (snd (count_batch b s)) = length (accepted s (cr_lines b))
    \<and> unat (ss_line_count (fst (count_batch b s))) = unat (ss_line_count s) + length (accepted s (cr_lines b))"
proof (cases "ss_line_count s < ss_max_results s")
  case True
  let ?n = "min (of_nat (length (cr_lines b))) (ss_max_results s - ss_line_count s)"
  have diff: "unat (ss_max_results s - ss_line_count s) = unat (ss_max_results s) - unat (ss_line_count s)"
    using True by (intro unat_sub) simp
  have "unat (of_nat (length (cr_lines b)) :: u64) = length (cr_lines b)"
    using assms by (intro unat_of_nat_u64) simp
  then have n: "unat ?n = length (accepted s (cr_lines b))"
    by (simp add: accepted_def min_def word_le_nat_alt diff)
  have "unat (ss_line_count s) + unat ?n < 2 ^ 64"
    using True n unat_u64_less [of "ss_max_results s"]
    by (simp add: accepted_def word_less_nat_alt)
  then have "unat (ss_line_count s + ?n) = unat (ss_line_count s) + unat ?n"
    by (simp add: unat_word_ariths)
  with True n show ?thesis by (simp add: count_batch_def Let_def)
next
  case False
  then show ?thesis by (simp add: count_batch_def Let_def accepted_def word_less_nat_alt)
qed

lemma WriteResults_session:
  "m_sessions m sid = Some s \<Longrightarrow> os_can_open os (ss_path s) \<Longrightarrow>
   m_disk (WriteResults os ls sid m) = (m_disk m)(ss_path s := m_disk m (ss_path s) @ file_text ls)"
  by (simp add: WriteResults_def OpenResultFile_def file_text_def)

section \<open>Properties\<close>

text \<open>The output sandbox holds where the base directory is configured with a trailing separator:
  whatever directory the user names, with parent references or an absolute path, a result path
  that is accepted lies below the base directory.\<close>

theorem CreateSessionFilePath_contained:
  assumes "CreateSessionFilePath os base_dir userDir searchId = Ok p"
    and "lexically_normal base_dir \<noteq> []" and "last (lexically_normal base_dir) = SLASH"
  shows "\<exists>ns. path_names p = path_names (lexically_normal base_dir) @ ns"
  using assms by (auto simp: CreateSessionFilePath_Ok intro: starts_with_names)

theorem CreateSessionFilePath_contained_witness:
  "\<exists>ns. path_names ''/data/loggrid/b/search_0_0.log'' = path_names (lexically_normal ''/data/loggrid/'') @ ns"
proof -
  have "CreateSessionFilePath \<lparr>os_canonical = (\<lambda>p. Some p), os_target = (\<lambda>_. Target_other),
      os_create_directories = (\<lambda>_. True), os_now = 0, os_can_open = (\<lambda>_. True)\<rparr> ''/data/loggrid/'' ''a/../b'' 0
    = Ok ''/data/loggrid/b/search_0_0.log''" by code_simp
  moreover have "lexically_normal ''/data/loggrid/'' \<noteq> []" by code_simp
  moreover have "last (lexically_normal ''/data/loggrid/'') = SLASH" by code_simp
  ultimately show ?thesis by (rule CreateSessionFilePath_contained)
qed

text \<open>Without one (the default) it does not: the check compares characters, not path components, so a
  sibling whose name merely begins with the base directory's name is accepted.\<close>

theorem CreateSessionFilePath_sibling_escape:
  "CreateSessionFilePath plain_os ''/data/loggrid'' ''../loggrid-private'' 0
     = Ok ''/data/loggrid-private/search_0_0.log''
   \<and> path_names ''/data/loggrid-private/search_0_0.log'' = [''data'', ''loggrid-private'', ''search_0_0.log'']
   \<and> path_names ''/data/loggrid'' = [''data'', ''loggrid'']"
  by code_simp

text \<open>Aggregation writes what it counts: a readable batch for a known search adds its matches to the
  total, appends to the session's file exactly its first lines up to what is left of the limit, each
  followed by a newline, raises the line count by their number, and touches nothing else; when the
  file does not open the count is raised all the same.\<close>

theorem AggregateTaskResult_exact:
  assumes "DeserializeBatch msg = Ok (batch, rest)" and "m_sessions m sid = Some s"
    and "length (cr_lines batch) < 2 ^ 64"
  shows "\<exists>m' s'. AggregateTaskResult os msg sid m = Ok m'
    \<and> m' = m\<lparr>m_sessions := (m_sessions m)(sid \<mapsto> s'), m_disk := m_disk m'\<rparr>
    \<and> s' = s\<lparr>ss_total_matches := ss_total_matches s + cr_total_matches batch, ss_line_count := ss_line_count s'\<rparr>
    \<and> unat (ss_line_count s') = unat (ss_line_count s) + length (accepted s (cr_lines batch))
    \<and> m_disk m' = (if os_can_open os (ss_path s)
        then (m_disk m)(ss_path s := m_disk m (ss_path s) @ file_text (accepted s (cr_lines batch)))
        else m_disk m)"
proof -
  let ?b = "batch\<lparr>cr_search_id := sid\<rparr>"
  obtain s' n where cb: "count_batch ?b s = (s', n)" by (cases "count_batch ?b s")
  let ?m = "m\<lparr>m_sessions := (m_sessions m)(sid \<mapsto> s')\<rparr>"
  have n: "unat n = length (accepted s (cr_lines batch))"
    "unat (ss_line_count s') = unat (ss_line_count s) + length (accepted s (cr_lines batch))"
    using count_batch_exact [of ?b s] assms(3) cb by simp_all
  have s': "s' = s\<lparr>ss_total_matches := ss_total_matches s + cr_total_matches batch, ss_line_count := ss_line_count s'\<rparr>"
    using cb by (auto simp: count_batch_def Let_def split: if_splits)
  have path: "ss_path s' = ss_path s" by (subst s') simp
  have len: "unat (of_nat (length (cr_lines batch)) :: u64) = length (cr_lines batch)"
    using assms(3) by (intro unat_of_nat_u64) simp
  have lines: "(if n < of_nat (length (cr_lines batch)) then take (unat n) (cr_lines batch) else cr_lines batch)
      = accepted s (cr_lines batch)"
    using n(1) by (auto simp: word_less_nat_alt len accepted_def)
  let ?m' = "if 0 < n then WriteResults os (accepted s (cr_lines batch)) sid ?m else ?m"
  have run: "AggregateTaskResult os msg sid m = Ok ?m'"
    using assms(1,2) cb lines by (auto simp: AggregateTaskResult_def Let_def)
  have none: "\<not> 0 < n \<Longrightarrow> accepted s (cr_lines batch) = []" using n(1) by (simp add: word_gt_0)
  have ses: "m_sessions ?m sid = Some s'" by simp
  have disk: "m_disk ?m' = (if os_can_open os (ss_path s)
      then (m_disk m)(ss_path s := m_disk m (ss_path s) @ file_text (accepted s (cr_lines batch))) else m_disk m)"
    using WriteResults_session [OF ses] none path
    by (auto simp: file_text_def WriteResults_def OpenResultFile_def fun_upd_idem)
  have "?m' = ?m\<lparr>m_disk := m_disk ?m'\<rparr>" by (simp add: WriteResults_def split: option.split)
  with run s' n(2) disk show ?thesis by (intro exI [of _ ?m'] exI [of _ s'] conjI)
qed

theorem AggregateTaskResult_exact_witness:
  "\<exists>m'. AggregateTaskResult plain_os (push_pod u64_bytes (push_pod u64_bytes (push_pod u32_bytes new_message 0) 5) 0) 0
      ((new_master None None)\<lparr>m_sessions := [0 \<mapsto> new_session]\<rparr>) = Ok m'
    \<and> map_option ss_total_matches (m_sessions m' 0) = Some 5"
proof -
  let ?msg = "push_pod u64_bytes (push_pod u64_bytes (push_pod u32_bytes new_message 0) 5) 0"
  have d: "DeserializeBatch ?msg = Ok (new_chunk_result\<lparr>cr_total_matches := 5\<rparr>, set_size new_message)"
    by (simp add: DeserializeBatch_def pod_u64.pop_push_sized pod_u32.pop_push new_chunk_result_def)
  obtain m' s' where m': "AggregateTaskResult plain_os ?msg 0 ((new_master None None)\<lparr>m_sessions := [0 \<mapsto> new_session]\<rparr>) = Ok m'"
    and eq: "m' = (new_master None None)\<lparr>m_sessions := [0 \<mapsto> new_session, 0 \<mapsto> s'], m_disk := m_disk m'\<rparr>"
    and s': "s' = new_session\<lparr>ss_total_matches := ss_total_matches new_session + 5, ss_line_count := ss_line_count s'\<rparr>"
    using AggregateTaskResult_exact [OF d, of "(new_master None None)\<lparr>m_sessions := [0 \<mapsto> new_session]\<rparr>" 0 new_session plain_os]
    by (auto simp: new_chunk_result_def)
  have "ss_total_matches s' = 5" by (subst s') (simp add: new_session_def)
  moreover have "m_sessions m' 0 = Some s'" by (subst eq) simp
  ultimately show ?thesis using m' by simp
qed

text \<open>A batch that announces a line it does not hold makes the master read past the end of the message:
  the bounds of the line loop are not checked, unlike those of the plain fields, so the
  documented "logged and discarded" does not cover it.\<close>

theorem DeserializeBatch_reads_past_end:
  assumes "length (body m) < 4" and "0 < lineCount"
  shows "DeserializeBatch (push_pod u64_bytes (push_pod u64_bytes (push_pod u32_bytes m lineCount) totalMatches) sid) = Undef"
proof -
  obtain k where "unat lineCount = Suc k" using assms(2) by (metis gr0_conv_Suc unat_gt_0 word_gt_0)
  then show ?thesis
    using assms(1) by (simp add: DeserializeBatch_def pod_u64.pop_push_sized pod_u32.pop_push)
qed

theorem DeserializeBatch_reads_past_end_witness:
  "DeserializeBatch (push_pod u64_bytes (push_pod u64_bytes (push_pod u32_bytes new_message 1) 0) 0) = Undef"
  by (rule DeserializeBatch_reads_past_end) (simp_all add: new_message_def)

end
