(* ===== verification/MasterServer.thy ===== *)
theory MasterServer
  imports MasterScan MasterDispatch MasterResults
begin

text \<open>
  The master's interface (\<^verbatim>\<open>NetServer/src/MasterServer.cpp\<close>): \<^verbatim>\<open>StartSearch\<close>, \<^verbatim>\<open>GetStatus\<close> and
  \<^verbatim>\<open>OnMessage\<close>, composed of the scan, the scheduler and the results. The step relation runs them,
  and disconnections, one at a time and in any order; its invariant is proved once and the
  properties read it.
\<close>

section \<open>Starting a search\<close>

definition AllocateSearchId :: "master \<Rightarrow> u64 \<times> master" where
  "AllocateSearchId m = (m_nextSearchId m, m\<lparr>m_nextSearchId := m_nextSearchId m + 1\<rparr>)"

definition BuildSession :: "os \<Rightarrow> master \<Rightarrow> u64 \<Rightarrow> SearchConfig \<Rightarrow> SearchSession outcome" where
  "BuildSession os m searchId config =
     obind (CreateSessionFilePath os (m_base_dir m) (output_dir config) searchId) (\<lambda>path.
       Ok (new_session\<lparr>ss_search_id := searchId, ss_max_results := max_results config, ss_path := path\<rparr>))"

definition AddPendingTasks :: "SearchSession \<Rightarrow> TaskPayload list \<Rightarrow> master \<Rightarrow> master" where
  "AddPendingTasks session newTasks m =
     (let session = session\<lparr>ss_chunks_total := of_nat (length newTasks)\<rparr>
      in m\<lparr>m_sessions := (m_sessions m)(ss_search_id session \<mapsto> session),
           m_pendingTasks := m_pendingTasks m @ newTasks\<rparr>)"

text \<open>The tasks of a search and its scan errors, by what the target is.\<close>

definition collect_tasks ::
  "os \<Rightarrow> TaskPayload \<Rightarrow> string \<Rightarrow> string \<Rightarrow> string \<Rightarrow> u64 \<Rightarrow> SearchConfig
     \<Rightarrow> (TaskPayload list \<times> u64) outcome" where
  "collect_tasks os uninit targetCanon filepath keyword searchId config =
     (case os_target os targetCanon of
        Target_dir d \<Rightarrow> ScanDirectoryRecursively uninit keyword searchId config targetCanon d ([], 0)
      | Target_file sz \<Rightarrow>
          obind (ProcessSingleFile uninit targetCanon sz keyword searchId config []) (\<lambda>(ok, ts).
            if ok then Ok (ts, 0)
            else Throw (Runtime_Error (''[MASTER] Error occurred while reading a file: '' @ filepath)))
      | Target_other \<Rightarrow> Throw (Runtime_Error (''[MASTER] Unsupported path type: '' @ filepath))
      | Target_error what \<Rightarrow> Throw (Filesystem_Error what))"

text \<open>The real path of the target, if it is inside the real input directory.\<close>

definition resolve_target :: "os \<Rightarrow> string \<Rightarrow> string \<Rightarrow> string outcome" where
  "resolve_target os input_dir filepath =
     (case os_canonical os input_dir of
        None \<Rightarrow> Throw (Runtime_Error (''[MASTER] Input directory unavailable: '' @ input_dir))
      | Some baseCanon \<Rightarrow>
          (case os_canonical os (path_join baseCanon (MakeRelative filepath)) of
             None \<Rightarrow> Throw (Runtime_Error (''[MASTER] Path not found: '' @ filepath))
           | Some targetCanon \<Rightarrow>
               let baseStr = (if \<not> ends_with_char baseCanon SLASH then baseCanon @ [SLASH] else baseCanon)
               in if \<not> path_eq targetCanon baseCanon \<and> \<not> starts_with targetCanon baseStr
                  then Throw (Runtime_Error (''[MASTER] Path not found: '' @ filepath))
                  else Ok targetCanon))"

definition StartSearch ::
  "os \<Rightarrow> TaskPayload \<Rightarrow> string \<Rightarrow> string \<Rightarrow> SearchConfig \<Rightarrow> master \<Rightarrow> u64 outcome \<times> master" where
  "StartSearch os uninit filepath keyword config m =
     obind_st (resolve_target os (m_input_dir m) filepath) m (\<lambda>targetCanon.
       case AllocateSearchId m of (searchId, m) \<Rightarrow>
         obind_st (BuildSession os m searchId config) m (\<lambda>session.
         obind_st (collect_tasks os uninit targetCanon filepath keyword searchId config) m
           (\<lambda>(newTasks, scanErrors).
             let session = session\<lparr>ss_scan_errors := scanErrors\<rparr> in
             if newTasks = [] \<and> 0 < scanErrors
             then (Throw (Runtime_Error (''[MASTER] Could not scan path: '' @ filepath)), m)
             else (Ok searchId, AssignIdleWorkers (AddPendingTasks session newTasks m)))))"

section \<open>Status\<close>

definition GetStatus :: "u64 \<Rightarrow> master \<Rightarrow> SearchStatus option" where
  "GetStatus search_id m = map_option (\<lambda>session.
     \<lparr>st_state = (if ss_chunks_done session = ss_chunks_total session then Done else Running),
      st_lines_found = ss_line_count session, st_total_matches = ss_total_matches session,
      st_scan_errors = ss_scan_errors session, st_chunks_done = ss_chunks_done session,
      st_chunks_total = ss_chunks_total session\<rparr>) (m_sessions m search_id)"

section \<open>Messages from workers\<close>

text \<open>The last lock section of \<^verbatim>\<open>Worker_TaskDone\<close>; counting past the largest \<^verbatim>\<open>int\<close> is undefined.\<close>

definition finish_chunk :: "u64 \<Rightarrow> master \<Rightarrow> master outcome" where
  "finish_chunk sid m =
     (case m_sessions m sid of
        None \<Rightarrow> Ok m
      | Some session \<Rightarrow>
          if ss_chunks_done session = 0x7FFFFFFF then Undef
          else Ok (m\<lparr>m_sessions := (m_sessions m)(sid \<mapsto> session\<lparr>ss_chunks_done := ss_chunks_done session + 1\<rparr>)\<rparr>))"

text \<open>Each \<^verbatim>\<open>catch\<close> leaves the state at the throw, which is the state before the guarded call.\<close>

definition OnMessage :: "os \<Rightarrow> u32 \<Rightarrow> message \<Rightarrow> master \<Rightarrow> master outcome" where
  "OnMessage os client msg m = catch
     (case msg_kind (hdr_id (header msg)) of
        Some Worker_Hello \<Rightarrow> obind (pop_pod 8 hello_of_bytes msg) (\<lambda>(result, _).
          Ok (register_worker client (threads_available result) m))
      | Some Worker_TaskDone \<Rightarrow> obind (pop_pod 8 u64_of_bytes msg) (\<lambda>(taskId, msg).
          (case acknowledge client taskId m of
             None \<Rightarrow> Ok m
           | Some (authoritativeSearchId, m) \<Rightarrow>
               let m = snd (DispatchNextTask client m) in
               obind (catch (AggregateTaskResult os msg authoritativeSearchId m) m)
                 (finish_chunk authoritativeSearchId)))
      | _ \<Rightarrow> Ok m) m"

section \<open>Runs\<close>

text \<open>Sizes a POSIX file system reports are signed 64-bit numbers.\<close>

definition posix_sizes :: "os \<Rightarrow> bool" where
  "posix_sizes os \<longleftrightarrow> (\<forall>p. case os_target os p of
       Target_dir d \<Rightarrow> \<forall>f \<in> set (dir_files p d). small_file f
     | Target_file sz \<Rightarrow> small_file (p, sz)
     | _ \<Rightarrow> True)"

text \<open>The counters' bounds for a step that publishes \<open>n\<close> tasks: 64-bit task and search numbers, and
  fewer than \<open>2 ^ 31\<close> chunks in one search.\<close>

definition within :: "master \<Rightarrow> nat \<Rightarrow> bool" where
  "within m n \<longleftrightarrow> unat (m_nextTaskId m) + size (work m) + n < 2 ^ 64 \<and> n < 2 ^ 31
     \<and> unat (m_nextSearchId m) + 1 < 2 ^ 64"

inductive master_step :: "master \<Rightarrow> master \<Rightarrow> bool" where
  message: "OnMessage os client msg m = Ok m' \<Longrightarrow> within m 0 \<Longrightarrow> master_step m m'"
| search: "StartSearch os uninit filepath keyword config m = (r, m') \<Longrightarrow> posix_sizes os \<Longrightarrow> within m 0
    \<Longrightarrow> (\<And>target ts errs. resolve_target os (m_input_dir m) filepath = Ok target
        \<Longrightarrow> collect_tasks os uninit target filepath keyword (m_nextSearchId m) config = Ok (ts, errs)
        \<Longrightarrow> within m (length ts))
    \<Longrightarrow> master_step m m'"
| disconnect: "(\<And>ts. mset (order ts) = mset ts) \<Longrightarrow> within m 0
    \<Longrightarrow> master_step m (OnClientDisconnect order client m)"

inductive master_reachable :: "master \<Rightarrow> bool" where
  start: "master_reachable (new_master envInput envOutput)"
| step: "master_reachable m \<Longrightarrow> master_step m m' \<Longrightarrow> master_reachable m'"

inductive_cases master_stepE: "master_step m m'"

section \<open>The invariant\<close>

text \<open>The chunks of a search the master still holds.\<close>

definition held :: "u64 \<Rightarrow> TaskPayload multiset \<Rightarrow> nat" where
  "held sid w = size (filter_mset (\<lambda>t. tp_search_id t = sid) w)"

definition session_ok :: "u64 \<Rightarrow> SearchSession \<Rightarrow> master \<Rightarrow> bool" where
  "session_ok sid s m \<longleftrightarrow> ss_search_id s = sid \<and> unat sid < unat (m_nextSearchId m)
     \<and> ss_line_count s \<le> ss_max_results s \<and> unat (ss_chunks_total s) < 2 ^ 31
     \<and> unat (ss_chunks_total s) = unat (ss_chunks_done s) + held sid (work m)"

definition sessions_ok :: "master \<Rightarrow> bool" where
  "sessions_ok m \<longleftrightarrow> (\<forall>t \<in># work m. tp_search_id t \<in> dom (m_sessions m))
     \<and> (\<forall>sid s. m_sessions m sid = Some s \<longrightarrow> session_ok sid s m)"

definition master_inv :: "master \<Rightarrow> bool" where
  "master_inv m \<longleftrightarrow> flight_ok m \<and> saturated m \<and> sessions_ok m"

lemma held_simps [simp]:
  "held sid {#} = 0"
  "held sid (add_mset t w) = (if tp_search_id t = sid then 1 else 0) + held sid w"
  "held sid (v + w) = held sid v + held sid w"
  by (simp_all add: held_def)

lemma held_le_size: "held sid w \<le> size w"
  by (simp add: held_def size_filter_mset_lesseq)

lemma room_of_within: "within m n \<Longrightarrow> room m"
  by (simp add: within_def room_def work_def)

lemma sessions_ok_cong:
  "work m = work m' \<Longrightarrow> m_sessions m = m_sessions m' \<Longrightarrow> m_nextSearchId m = m_nextSearchId m' \<Longrightarrow>
   sessions_ok m \<longleftrightarrow> sessions_ok m'"
  by (simp only: sessions_ok_def session_ok_def)

lemma sessions_ok_conserved: "conserved m0 m \<Longrightarrow> sessions_ok m0 \<Longrightarrow> sessions_ok m"
  by (rule iffD1 [OF sessions_ok_cong, of m0]) (simp_all add: conserved_def)

subsection \<open>Messages\<close>

text \<open>A handler's answer is a state, or undefined behaviour: never an exception, never a loop.\<close>

lemma pop_pod_not_Hang [simp]: "pop_pod n dec msg \<noteq> Hang"
  by (simp add: pop_pod_def Let_def)

lemma read_lines_no_throw [simp]: "read_lines bs off n ls \<noteq> Throw e" "read_lines bs off n ls \<noteq> Hang"
  by (induction bs off n ls rule: read_lines.induct) (auto simp: Let_def)

lemma Deserialize_not_Hang [simp]: "DeserializeBatch msg \<noteq> Hang"
  by (auto simp: DeserializeBatch_def obind_iffs)

lemma Aggregate_not_Hang [simp]: "AggregateTaskResult os msg sid m \<noteq> Hang"
  by (auto simp: AggregateTaskResult_def obind_iffs Let_def split: option.splits prod.splits)

lemma catch_Hang: "catch m y = Hang \<longleftrightarrow> m = Hang"
  by (cases m) simp_all

lemma finish_chunk_cases: "finish_chunk sid m \<noteq> Throw e \<and> finish_chunk sid m \<noteq> Hang"
  by (simp add: finish_chunk_def split: option.split)

text \<open>The shape of a task-done message's effect.\<close>

lemma OnMessage_done:
  assumes "msg_kind (hdr_id (header msg)) = Some Worker_TaskDone"
    and "pop_pod 8 u64_of_bytes msg = Ok (taskId, rest)" and "acknowledge c taskId m = Some (sid, m1)"
  shows "OnMessage os c msg m = obind (catch (AggregateTaskResult os rest sid (snd (DispatchNextTask c m1)))
      (snd (DispatchNextTask c m1))) (finish_chunk sid)"
proof -
  let ?m = "snd (DispatchNextTask c m1)"
  have "catch (obind (catch (AggregateTaskResult os rest sid ?m) ?m) (finish_chunk sid)) m
      = obind (catch (AggregateTaskResult os rest sid ?m) ?m) (finish_chunk sid)"
    using finish_chunk_cases
    by (cases "AggregateTaskResult os rest sid ?m"; simp)
      (metis catch.simps outcome.exhaust)+
  with assms show ?thesis by (simp add: OnMessage_def Let_def)
qed

lemma OnMessage_cases:
  assumes "OnMessage os c msg m = Ok m'"
  obtains (same) "m' = m"
    | (hello) h rest where "msg_kind (hdr_id (header msg)) = Some Worker_Hello"
        "pop_pod 8 hello_of_bytes msg = Ok (h, rest)" "m' = register_worker c (threads_available h) m"
    | (finished) taskId rest sid m1 where "acknowledge c taskId m = Some (sid, m1)"
        "obind (catch (AggregateTaskResult os rest sid (snd (DispatchNextTask c m1)))
          (snd (DispatchNextTask c m1))) (finish_chunk sid) = Ok m'"
proof (cases "msg_kind (hdr_id (header msg))")
  case None
  with assms that show ?thesis by (simp add: OnMessage_def)
next
  case (Some k)
  show ?thesis
  proof (cases k)
    case Worker_Hello
    with Some assms same hello show ?thesis
      by (cases "pop_pod 8 hello_of_bytes msg") (auto simp: OnMessage_def)
  next
    case Worker_TaskDone
    show ?thesis
    proof (cases "pop_pod 8 u64_of_bytes msg")
      case (Ok p)
      obtain taskId rest where p: "p = (taskId, rest)" by (cases p)
      show ?thesis
      proof (cases "acknowledge c taskId m")
        case None
        with Some Worker_TaskDone Ok p assms that show ?thesis by (simp add: OnMessage_def)
      next
        case (Some a)
        obtain sid m1 where "a = (sid, m1)" by (cases a)
        with Some \<open>msg_kind (hdr_id (header msg)) = Some k\<close> Worker_TaskDone Ok p assms that(3)
        show ?thesis by (metis OnMessage_done)
      qed
    qed (use Some Worker_TaskDone assms that in \<open>auto simp: OnMessage_def\<close>)
  qed (use Some assms that in \<open>simp_all add: OnMessage_def\<close>)
qed

text \<open>Counting a chunk of a session whose books are one chunk short balances them.\<close>

lemma finish_restores:
  assumes agg: "catch (AggregateTaskResult os rest sid m) m = Ok m2" and fin: "finish_chunk sid m2 = Ok m3"
    and ses: "\<forall>t \<in># add_mset t0 (work m). tp_search_id t \<in> dom (m_sessions m)" and t0: "tp_search_id t0 = sid"
    and ok: "\<And>i s. m_sessions m i = Some s \<Longrightarrow> ss_search_id s = i \<and> unat i < unat (m_nextSearchId m)
      \<and> ss_line_count s \<le> ss_max_results s \<and> unat (ss_chunks_total s) < 2 ^ 31
      \<and> unat (ss_chunks_total s) = unat (ss_chunks_done s) + held i (add_mset t0 (work m))"
  shows "sessions_ok m3 \<and> work m3 = work m \<and> (\<exists>f d. m3 = m\<lparr>m_sessions := f, m_disk := d\<rparr>)"
proof -
  from ses t0 obtain s where s: "m_sessions m sid = Some s" by auto
  obtain s2 d where m2: "m2 = m\<lparr>m_sessions := (m_sessions m)(sid \<mapsto> s2), m_disk := d\<rparr>"
    and s2: "s2 = s \<or> (\<exists>b. s2 = fst (count_batch b s))"
  proof (cases "AggregateTaskResult os rest sid m")
    case (Ok x)
    with agg have "AggregateTaskResult os rest sid m = Ok m2" by simp
    then obtain b session where "m_sessions m sid = Some session"
      and "m2 = m\<lparr>m_sessions := (m_sessions m)(sid \<mapsto> fst (count_batch b session)), m_disk := m_disk m2\<rparr>"
      by (rule Aggregate_Ok)
    with s show ?thesis by (intro that [of "m_disk m2" "fst (count_batch b session)"]) auto
  next
    case (Throw e)
    with agg s show ?thesis by (intro that [of "m_disk m" s]) (simp_all add: fun_upd_idem)
  qed (use agg in simp_all)
  have cb: "ss_line_count s2 \<le> ss_max_results s2 \<and> ss_search_id s2 = sid
      \<and> ss_chunks_total s2 = ss_chunks_total s \<and> ss_chunks_done s2 = ss_chunks_done s"
    using s2 ok [OF s] count_batch_bound [of s] by (auto simp: frame_simps)
  have tot: "unat (ss_chunks_total s) = unat (ss_chunks_done s) + 1 + held sid (work m)"
    "unat (ss_chunks_total s) < 2 ^ 31" using ok [OF s] t0 by auto
  then have done1: "unat (ss_chunks_done s + 1) = unat (ss_chunks_done s) + 1"
    by (intro unat_plus_1) simp
  let ?s3 = "s2\<lparr>ss_chunks_done := ss_chunks_done s2 + 1\<rparr>"
  from fin m2 have m3: "m3 = m\<lparr>m_sessions := (m_sessions m)(sid \<mapsto> ?s3), m_disk := d\<rparr>"
    by (auto simp: finish_chunk_def split: if_splits)
  have work: "work m3 = work m" by (simp add: m3 work_def)
  have "session_ok i si m3" if "m_sessions m3 i = Some si" for i si
  proof (cases "i = sid")
    case True
    with that cb tot done1 work ok [OF s] show ?thesis by (auto simp: session_ok_def m3 cong del: if_weak_cong)
  next
    case False
    with that have "m_sessions m i = Some si" by (simp add: m3)
    from ok [OF this] False t0 work show ?thesis by (auto simp: session_ok_def m3)
  qed
  moreover have "\<forall>t \<in># work m3. tp_search_id t \<in> dom (m_sessions m3)"
    using ses unfolding work by (auto simp: m3)
  ultimately have "sessions_ok m3" unfolding sessions_ok_def by blast
  with work m3 show ?thesis by blast
qed

lemma inv_message:
  assumes inv: "master_inv m" and room: "room m" and run: "OnMessage os c msg m = Ok m'"
  shows "master_inv m'"
  using run
proof (cases rule: OnMessage_cases)
  case same
  with inv show ?thesis by simp
next
  case (hello h rest)
  with inv room conserved_register [of m c "threads_available h"] register_saturates [of m c "threads_available h"]
  show ?thesis
    by (auto simp: master_inv_def conserved_def intro: sessions_ok_conserved)
next
  case (finished taskId rest sid m1)
  let ?m2 = "snd (DispatchNextTask c m1)"
  from inv have fl: "flight_ok m" and sat: "saturated m" and ses: "sessions_ok m"
    by (simp_all add: master_inv_def)
  note ack = acknowledge_conserves [OF finished(1) fl]
  then obtain t where t: "tp_search_id (strip_id t) = sid" and w: "work m = add_mset (strip_id t) (work m1)"
    by auto
  have "room m1" using ack room by (simp add: room_def)
  with ack have c2: "conserved m1 ?m2" by (intro conserved_dispatch conserved_refl) simp_all
  obtain m2 where agg: "catch (AggregateTaskResult os rest sid ?m2) ?m2 = Ok m2" and fin: "finish_chunk sid m2 = Ok m'"
    using finished(2) by (auto simp: obind_eq_Ok)
  have same: "m_sessions ?m2 = m_sessions m" "m_nextSearchId ?m2 = m_nextSearchId m" "work m = add_mset (strip_id t) (work ?m2)"
    using ack c2 w by (simp_all add: conserved_def)
  have "sessions_ok m' \<and> work m' = work ?m2 \<and> (\<exists>f d. m' = ?m2\<lparr>m_sessions := f, m_disk := d\<rparr>)"
    using ses unfolding sessions_ok_def session_ok_def same(3) same(1) [symmetric] same(2) [symmetric]
    by (intro finish_restores [OF agg fin _ t, unfolded sessions_ok_def session_ok_def]) (blast, blast)
  moreover have "saturated ?m2" by (rule acknowledge_saturates [OF sat finished(1)])
  moreover have "flight_ok ?m2" using c2 by (simp add: conserved_def)
  ultimately show ?thesis
    by (elim conjE exE) (simp add: master_inv_def flight_ok_def saturated_def sched_but_def)
qed

lemma inv_disconnect:
  assumes inv: "master_inv m" and room: "within m 0" and order: "\<And>ts. mset (order ts) = mset ts"
  shows "conserved m (OnClientDisconnect order c m) \<and> master_inv (OnClientDisconnect order c m)"
proof -
  have "conserved m (reclaim order c m)"
    by (rule reclaim_conserves) (use inv room order in \<open>auto simp: master_inv_def within_def\<close>)
  then have "conserved m (OnClientDisconnect order c m)"
    unfolding OnClientDisconnect_reclaim by (rule conserved_assign)
  moreover from this inv have "sessions_ok (OnClientDisconnect order c m)"
    by (auto simp: master_inv_def intro: sessions_ok_conserved)
  moreover have "saturated (OnClientDisconnect order c m)"
    using inv by (simp add: master_inv_def disconnect_saturates)
  ultimately show ?thesis by (simp add: master_inv_def conserved_def)
qed

subsection \<open>Searches\<close>

text \<open>A search either fails and leaves all but its number, or publishes a session and its tasks.\<close>

lemma StartSearch_cases:
  assumes "StartSearch os uninit filepath keyword config m = (r, m')"
  obtains (failed) "\<And>x. r \<noteq> Ok x" "m' = m \<or> m' = m\<lparr>m_nextSearchId := m_nextSearchId m + 1\<rparr>"
    | (started) target path ts errs where "r = Ok (m_nextSearchId m)"
        "resolve_target os (m_input_dir m) filepath = Ok target"
        "CreateSessionFilePath os (m_base_dir m) (output_dir config) (m_nextSearchId m) = Ok path"
        "collect_tasks os uninit target filepath keyword (m_nextSearchId m) config = Ok (ts, errs)"
        "\<not> (ts = [] \<and> 0 < errs)"
        "m' = AssignIdleWorkers (AddPendingTasks (new_session\<lparr>ss_search_id := m_nextSearchId m,
            ss_max_results := max_results config, ss_path := path, ss_scan_errors := errs\<rparr>) ts
          (m\<lparr>m_nextSearchId := m_nextSearchId m + 1\<rparr>))"
proof (cases "resolve_target os (m_input_dir m) filepath")
  case target: (Ok target)
  let ?m = "m\<lparr>m_nextSearchId := m_nextSearchId m + 1\<rparr>"
  show ?thesis
  proof (cases "CreateSessionFilePath os (m_base_dir m) (output_dir config) (m_nextSearchId m)")
    case path: (Ok path)
    show ?thesis
    proof (cases "collect_tasks os uninit target filepath keyword (m_nextSearchId m) config")
      case tasks: (Ok x)
      obtain ts errs where x: "x = (ts, errs)" by (cases x)
      show ?thesis
      proof (cases "ts = [] \<and> 0 < errs")
        case True
        with assms target path tasks x show ?thesis
          by (intro failed) (auto simp: StartSearch_def AllocateSearchId_def BuildSession_def)
      next
        case False
        with assms target path tasks x show ?thesis
          by (intro started [of target path ts errs]) (auto simp: StartSearch_def AllocateSearchId_def BuildSession_def)
      qed
    qed (use assms target path in \<open>(intro failed; auto simp: StartSearch_def AllocateSearchId_def BuildSession_def)+\<close>)
  qed (use assms target in \<open>(intro failed; auto simp: StartSearch_def AllocateSearchId_def BuildSession_def)+\<close>)
qed (use assms in \<open>(intro failed; auto simp: StartSearch_def)+\<close>)

lemma collect_closed:
  assumes "posix_sizes os" and "collect_tasks os uninit target filepath keyword sid config = Ok (ts, errs)"
  shows "\<exists>files faults. ts = concat (map (entry_tasks uninit keyword sid config) files)
    \<and> errs = of_nat (faults + length (filter file_fault files))
    \<and> (case os_target os target of Target_dir d \<Rightarrow> files = dir_files target d \<and> faults = dir_faults d
       | Target_file sz \<Rightarrow> files = [(target, sz)] \<and> faults = 0 \<and> \<not> file_fault (target, sz)
       | _ \<Rightarrow> False)"
proof (cases "os_target os target")
  case (Target_dir d)
  then have "\<forall>f \<in> set (dir_files target d). small_file f" using assms(1) by (force simp: posix_sizes_def split: target.splits)
  from scan_closed(3) [OF this] assms(2) Target_dir show ?thesis
    by (simp add: collect_tasks_def scanned_def)
next
  case (Target_file sz)
  then have "small_file (target, sz)" using assms(1) by (force simp: posix_sizes_def split: target.splits)
  from ProcessSingleFile_closed [OF this] assms(2) Target_file show ?thesis
    by (auto simp: collect_tasks_def split: if_splits)
qed (use assms in \<open>simp_all add: collect_tasks_def\<close>)

lemma collect_search_id:
  assumes "posix_sizes os" and "collect_tasks os uninit target filepath keyword sid config = Ok (ts, errs)"
    and "t \<in> set ts"
  shows "tp_search_id t = sid" "tp_max_results t = max_results config" "wf_task t"
  using collect_closed [OF assms(1,2)] assms(3) by (auto dest: entry_tasks_fields)

lemma inv_publish:
  assumes inv: "master_inv m" and n: "within m (length ts)"
    and sid: "ss_search_id s = m_nextSearchId m" "ss_line_count s = 0" "ss_chunks_done s = 0"
    and ts: "\<And>t. t \<in> set ts \<Longrightarrow> tp_search_id t = m_nextSearchId m"
    and m': "m' = AddPendingTasks s ts (m\<lparr>m_nextSearchId := m_nextSearchId m + 1\<rparr>)"
  shows "flight_ok m' \<and> room m' \<and> sched_but {} m' \<and> sessions_ok m'
    \<and> work m' = work m + image_mset strip_id (mset ts)"
proof -
  have work: "work m' = work m + image_mset strip_id (mset ts)"
    by (simp add: m' AddPendingTasks_def work_def Let_def)
  have nxt: "unat (m_nextSearchId m + 1) = unat (m_nextSearchId m) + 1"
    using n by (intro unat_plus_1) (simp add: within_def)
  have fresh: "m_sessions m i = Some si \<Longrightarrow> unat i < unat (m_nextSearchId m)" for i si
    using inv by (auto simp: master_inv_def sessions_ok_def session_ok_def)
  have held_new: "held i (image_mset strip_id (mset ts)) = (if i = m_nextSearchId m then length ts else 0)" for i
    using ts by (induction ts) auto
  have held_old: "held (m_nextSearchId m) (work m) = 0"
  proof -
    have "tp_search_id t \<noteq> m_nextSearchId m" if "t \<in># work m" for t
      using inv that fresh by (fastforce simp: master_inv_def sessions_ok_def)
    then show ?thesis by (simp add: held_def filter_mset_eq_conv)
  qed
  let ?s = "s\<lparr>ss_chunks_total := of_nat (length ts)\<rparr>"
  have ses: "m_sessions m' = (m_sessions m)(m_nextSearchId m \<mapsto> ?s)" and nx: "m_nextSearchId m' = m_nextSearchId m + 1"
    by (simp_all add: m' AddPendingTasks_def sid Let_def)
  have "session_ok i si m'" if "m_sessions m' i = Some si" for i si
  proof (cases "i = m_nextSearchId m")
    case True
    have "unat (of_nat (length ts) :: cint) = length ts"
      using n by (intro unat_of_nat_u32) (simp add: within_def)
    with True that ses nx nxt sid held_new held_old n work show ?thesis
      by (auto simp: session_ok_def within_def)
  next
    case False
    with that ses have si: "m_sessions m i = Some si" by simp
    with inv have "session_ok i si m" by (simp add: master_inv_def sessions_ok_def)
    with False held_new work nx nxt show ?thesis by (simp add: session_ok_def)
  qed
  moreover have "\<forall>t \<in># work m'. tp_search_id t \<in> dom (m_sessions m')"
    using inv ts by (auto simp: work ses master_inv_def sessions_ok_def)
  ultimately have "sessions_ok m'" unfolding sessions_ok_def by blast
  moreover have "flight_ok m'" "sched_but {} m'" "room m'"
    using inv n by (auto simp: m' AddPendingTasks_def Let_def master_inv_def flight_ok_def saturated_def
        sched_but_def room_def within_def work_def)
  ultimately show ?thesis using work by blast
qed

lemma inv_search:
  assumes inv: "master_inv m" and run: "StartSearch os uninit filepath keyword config m = (r, m')"
    and posix: "posix_sizes os" and w0: "within m 0"
    and wn: "\<And>target ts errs. resolve_target os (m_input_dir m) filepath = Ok target
        \<Longrightarrow> collect_tasks os uninit target filepath keyword (m_nextSearchId m) config = Ok (ts, errs)
        \<Longrightarrow> within m (length ts)"
  shows "master_inv m'"
  using run
proof (cases rule: StartSearch_cases)
  case failed
  have "unat (m_nextSearchId m + 1) = unat (m_nextSearchId m) + 1"
    using w0 by (intro unat_plus_1) (simp add: within_def)
  then have "sessions_ok m \<Longrightarrow> sessions_ok (m\<lparr>m_nextSearchId := m_nextSearchId m + 1\<rparr>)"
    by (force simp: sessions_ok_def session_ok_def work_def)
  with failed(2) inv show ?thesis
    by (elim disjE) (simp_all add: master_inv_def flight_ok_def saturated_def sched_but_def)
next
  case (started target path ts errs)
  let ?s = "new_session\<lparr>ss_search_id := m_nextSearchId m, ss_max_results := max_results config,
    ss_path := path, ss_scan_errors := errs\<rparr>"
  let ?pm = "AddPendingTasks ?s ts (m\<lparr>m_nextSearchId := m_nextSearchId m + 1\<rparr>)"
  have pub: "flight_ok ?pm \<and> room ?pm \<and> sched_but {} ?pm \<and> sessions_ok ?pm"
    using inv_publish [OF inv wn [OF started(2,4)], of ?s ?pm] collect_search_id(1) [OF posix started(4)]
    by (simp add: new_session_def)
  then have "conserved ?pm (AssignIdleWorkers ?pm)" by (intro conserved_assign conserved_refl) simp_all
  with pub started(6) show ?thesis
    by (auto simp: master_inv_def conserved_def assign_saturates intro: sessions_ok_conserved [of ?pm])
qed

lemma inv_step: "master_inv m \<Longrightarrow> master_step m m' \<Longrightarrow> master_inv m'"
proof (erule master_stepE)
  fix os client msg
  assume "master_inv m" "OnMessage os client msg m = Ok m'" "within m 0"
  then show "master_inv m'" by (intro inv_message [of m os client msg m'] room_of_within [of m 0])
next
  fix os uninit filepath keyword config r
  assume "master_inv m" "StartSearch os uninit filepath keyword config m = (r, m')" "posix_sizes os" "within m 0"
    and "\<And>target ts errs. resolve_target os (m_input_dir m) filepath = Ok target
        \<Longrightarrow> collect_tasks os uninit target filepath keyword (m_nextSearchId m) config = Ok (ts, errs)
        \<Longrightarrow> within m (length ts)"
  then show "master_inv m'" by (rule inv_search)
next
  fix order :: "(u64 \<times> TaskPayload) list \<Rightarrow> (u64 \<times> TaskPayload) list" and client
  assume "master_inv m" "m' = OnClientDisconnect order client m" "\<And>ts. mset (order ts) = mset ts" "within m 0"
  then show "master_inv m'" using inv_disconnect [of m order client] by blast
qed

lemma inv_start: "master_inv (new_master envInput envOutput)"
  by (simp add: master_inv_def new_master_def flight_ok_def wf_flight_def saturated_def sched_but_def
      sessions_ok_def work_def)

lemma reachable_inv: "master_reachable m \<Longrightarrow> master_inv m"
  by (induction rule: master_reachable.induct) (auto intro: inv_start inv_step)

section \<open>The master is a search service\<close>

lemma assign_sessions: "m_sessions (AssignIdleWorkers m) = m_sessions m"
  by (rule assign_inv [where P = "\<lambda>m'. m_sessions m' = m_sessions m"]) (simp_all add: frame_simps)

lemma reports_simps [simp]:
  "reports (Ok v)" "reports (Throw (Runtime_Error what))" "reports (Throw (Filesystem_Error what))"
  "reports Undef" "reports Hang"
  by (simp_all add: reports_def)

lemma reports_obind: "reports x \<Longrightarrow> (\<And>v. reports (f v)) \<Longrightarrow> reports (obind x f)"
  by (cases x) (auto simp: reports_def)

lemma reports_obind_st: "reports x \<Longrightarrow> (\<And>v. reports (fst (f v))) \<Longrightarrow> reports (fst (obind_st x m f))"
  by (cases x) (auto simp: reports_def)

lemma reports_collect: "reports (collect_tasks os uninit target filepath keyword sid config)"
  by (auto simp: collect_tasks_def reports_def scan_no_throw obind_eq_Throw split: target.splits if_splits)

lemma reports_StartSearch: "reports (fst (StartSearch os uninit filepath keyword config m))"
proof -
  have "reports (resolve_target os d p)" for d p
    by (simp add: resolve_target_def Let_def split: option.split)
  moreover have "reports (BuildSession os m sid config)" for m sid
    unfolding BuildSession_def by (intro reports_obind) (simp_all add: CreateSessionFilePath_def Let_def)
  ultimately show ?thesis
    unfolding StartSearch_def AllocateSearchId_def prod.case
    by (intro reports_obind_st reports_collect) (auto simp: Let_def split: prod.split)
qed

interpretation master: search_service "StartSearch os uninit" GetStatus
proof
  fix p k c s sid s' i e
  show "\<exists>st. GetStatus sid s' = Some st" if "StartSearch os uninit p k c s = (Ok sid, s')"
    using that by (cases rule: StartSearch_cases)
      (auto simp: GetStatus_def assign_sessions AddPendingTasks_def Let_def)
  show "GetStatus i s' = GetStatus i s" if "StartSearch os uninit p k c s = (Ok sid, s')" "i \<noteq> sid"
    using that(1) by (cases rule: StartSearch_cases)
      (use that(2) in \<open>auto simp: GetStatus_def assign_sessions AddPendingTasks_def Let_def\<close>)
  show "GetStatus i s' = GetStatus i s" if "StartSearch os uninit p k c s = (Throw e, s')"
    using that by (cases rule: StartSearch_cases) (auto simp: GetStatus_def)
  show "reports (fst (StartSearch os uninit p k c s))" by (rule reports_StartSearch)
qed

end
