(* ===== verification/MasterGuarantees.thy ===== *)
theory MasterGuarantees
  imports MasterServer
begin

text \<open>
  What the master guarantees, read off the invariant of \<open>MasterServer\<close>: the accounting and the
  scheduling of every reachable state, what each message does, and what a search publishes and from
  where. The first section is a small run (one file of ten bytes, one worker of two threads) at
  which the statements are evaluated.
\<close>

section \<open>A small run\<close>

definition demo_os :: os where
  "demo_os = \<lparr>os_canonical = (\<lambda>p. if p \<in> {''/app/data'', ''/app/data/x.log''} then Some p else None), os_target = (\<lambda>_. Target_file (Some 10)),
     os_create_directories = (\<lambda>_. True), os_now = 0, os_can_open = (\<lambda>_. True)\<rparr>"

definition demo_master :: master where
  "demo_master = snd (StartSearch demo_os new_task ''/x.log'' ''k'' default_config (new_master None None))"

definition demo_hello :: message where
  "demo_hello = push_pod hello_bytes
     (new_message\<lparr>header := (header new_message)\<lparr>hdr_id := msg_id Worker_Hello\<rparr>\<rparr>) \<lparr>threads_available = 2\<rparr>"

definition demo_busy :: master where
  "demo_busy = register_worker 7 2 demo_master"

lemma demo_search:
  "fst (StartSearch demo_os new_task ''/x.log'' ''k'' default_config (new_master None None)) = Ok 0"
  by code_simp

lemma demo_status: "GetStatus 0 demo_master = Some \<lparr>st_state = Running, st_lines_found = 0,
    st_total_matches = 0, st_scan_errors = 0, st_chunks_done = 0, st_chunks_total = 1\<rparr>"
  by code_simp

lemma demo_fields:
  "length (m_pendingTasks demo_master) = 1" "m_idleWorkers demo_master = []" "m_inFlightTasks demo_master = []"
  "m_nextTaskId demo_master = 0" "m_nextSearchId demo_master = 1" "7 \<notin> m_idleWorkersIds demo_master"
  "map tp_search_id (m_pendingTasks demo_master) = [0]"
  by code_simp+

lemma demo_posix: "posix_sizes demo_os"
  by (simp add: posix_sizes_def demo_os_def small_file_def small_size_def unat_CHUNK_SIZE)

lemma demo_one:
  "collect_tasks demo_os new_task target p k sid c = Ok (ts, errs) \<Longrightarrow> length ts = 1"
  using collect_closed [OF demo_posix, of new_task target p k sid c ts errs]
  by (auto simp: demo_os_def entry_tasks_def file_tasks_def chunk_count_def unat_CHUNK_SIZE)

lemma within_new: "n < 2 ^ 31 \<Longrightarrow> within (new_master i o') n"
  by (simp add: within_def new_master_def work_def)

lemma demo_run: "StartSearch demo_os new_task ''/x.log'' ''k'' default_config (new_master None None) = (Ok 0, demo_master)"
  using demo_search by (simp add: demo_master_def prod_eq_iff)

lemma demo_reachable: "master_reachable demo_master"
proof -
  have "master_step (new_master None None) demo_master"
    by (rule master_step.search [OF demo_run demo_posix within_new]) (use demo_one in \<open>auto intro: within_new\<close>)
  then show ?thesis by (rule master_reachable.step [OF master_reachable.start])
qed

lemma OnMessage_hello:
  assumes "hdr_id (header msg) = msg_id Worker_Hello"
  shows "OnMessage os c (push_pod hello_bytes msg h) m = Ok (register_worker c (threads_available h) m)"
proof -
  have "msg_kind (hdr_id (header msg)) = Some Worker_Hello" by (simp only: assms msg_kind_msg_id)
  then show ?thesis using pod_hello.pop_push [where x = h and m = msg] by (simp add: OnMessage_def)
qed

lemma demo_hello_kind: "msg_kind (hdr_id (header demo_hello)) = Some Worker_Hello"
  by (simp add: demo_hello_def msg_kind_def)

lemma demo_hello_pop: "pop_pod 8 hello_of_bytes demo_hello = Ok (\<lparr>threads_available = 2\<rparr>,
    set_size (new_message\<lparr>header := (header new_message)\<lparr>hdr_id := msg_id Worker_Hello\<rparr>\<rparr>))"
  unfolding demo_hello_def by (rule pod_hello.pop_push) simp

lemma demo_hello_run: "OnMessage demo_os 7 demo_hello demo_master = Ok demo_busy"
  unfolding demo_hello_def demo_busy_def by (subst OnMessage_hello) simp_all

lemma demo_master_within: "within demo_master 0"
  using demo_fields by (simp add: within_def work_def)

lemma demo_unregistered: "m_workersFreeSlots demo_master 7 = None"
  by code_simp

lemma demo_busy_reachable: "master_reachable demo_busy"
  by (rule master_reachable.step [OF demo_reachable master_step.message [OF demo_hello_run demo_master_within]])

lemma demo_busy_fields:
  "m_pendingTasks demo_busy = []" "m_idleWorkers demo_busy = [7]" "m_workersFreeSlots demo_busy 7 = Some 1"
  "m_nextTaskId demo_busy = 1" "m_nextSearchId demo_busy = 1"
  "\<exists>t. m_inFlightTasks demo_busy = [(7, [(1, t)])] \<and> tp_search_id t = 0"
proof -
  obtain t where t: "m_pendingTasks demo_master = [t]" "tp_search_id t = 0"
    using demo_fields(1,7) by (auto simp: length_Suc_conv)
  have two: "unat (2 :: u64) = Suc (Suc 0)" by simp
  show "m_pendingTasks demo_busy = []" "m_idleWorkers demo_busy = [7]" "m_workersFreeSlots demo_busy 7 = Some 1"
    "m_nextTaskId demo_busy = 1" "m_nextSearchId demo_busy = 1"
    "\<exists>t. m_inFlightTasks demo_busy = [(7, [(1, t)])] \<and> tp_search_id t = 0"
    using t demo_fields unfolding demo_busy_def register_worker_def two
    by (simp_all add: dispatch_simps register_task_def)
qed

lemma demo_busy_within: "within demo_busy 0"
proof -
  obtain t where "m_inFlightTasks demo_busy = [(7, [(1, t)])]" using demo_busy_fields(6) by auto
  then show ?thesis using demo_busy_fields by (simp add: within_def work_def)
qed

text \<open>The report of the run's only task: no lines, three matches.\<close>

definition demo_done :: message where
  "demo_done = push_pod u64_bytes (push_pod u64_bytes (push_pod u64_bytes (push_pod u32_bytes
     (new_message\<lparr>header := (header new_message)\<lparr>hdr_id := msg_id Worker_TaskDone\<rparr>\<rparr>) 0) 3) 0) 1"

lemma demo_ack: "\<exists>m1. acknowledge 7 1 demo_busy = Some (0, m1) \<and> m_sessions m1 = m_sessions demo_busy"
proof -
  obtain t where "m_inFlightTasks demo_busy = [(7, [(1, t)])]" "tp_search_id t = 0" using demo_busy_fields(6) by auto
  then show ?thesis by (simp add: acknowledge_def)
qed

lemma demo_done_pop:
  "msg_kind (hdr_id (header demo_done)) = Some Worker_TaskDone"
  "\<exists>rest. pop_pod 8 u64_of_bytes demo_done = Ok (1, rest)"
  unfolding demo_done_def by (simp_all add: msg_kind_def pod_u64.pop_push_sized)

lemma demo_done_Ok: "\<exists>m'. OnMessage demo_os 7 demo_done demo_busy = Ok m'"
proof -
  obtain m1 where ack: "acknowledge 7 1 demo_busy = Some (0, m1)" "m_sessions m1 = m_sessions demo_busy" using demo_ack by auto
  obtain rest where rest: "pop_pod 8 u64_of_bytes demo_done = Ok (1, rest)" using demo_done_pop(2) by auto
  have body: "OnMessage demo_os 7 demo_done demo_busy = obind (catch (AggregateTaskResult demo_os rest 0
      (snd (DispatchNextTask 7 m1))) (snd (DispatchNextTask 7 m1))) (finish_chunk 0)"
    by (rule OnMessage_done [OF demo_done_pop(1) rest ack(1)])
  have "rest = push_pod u64_bytes (push_pod u64_bytes (push_pod u32_bytes
      (new_message\<lparr>header := (header new_message)\<lparr>hdr_id := msg_id Worker_TaskDone\<rparr>\<rparr>) 0) 3) 0"
    using rest unfolding demo_done_def by (simp add: pod_u64.pop_push_sized)
  then have "\<exists>b r. DeserializeBatch rest = Ok (b, r) \<and> cr_lines b = []"
    by (simp add: DeserializeBatch_def pod_u64.pop_push_sized pod_u32.pop_push)
  then obtain b r where b: "DeserializeBatch rest = Ok (b, r)" "cr_lines b = []" by blast
  obtain s where s: "m_sessions demo_busy 0 = Some s" "ss_chunks_done s = 0"
  proof -
    have "m_sessions demo_busy = m_sessions demo_master"
      using conserved_register [of demo_master 7 2] reachable_inv [OF demo_reachable] demo_fields
      by (simp add: demo_busy_def conserved_def master_inv_def room_def)
    with demo_status that show thesis by (auto simp: GetStatus_def)
  qed
  have "m_sessions (snd (DispatchNextTask 7 m1)) 0 = Some s" by (simp add: frame_simps ack(2) s)
  with b s(2) show ?thesis
    unfolding body by (simp add: AggregateTaskResult_def count_batch_def finish_chunk_def Let_def split: if_split)
qed

section \<open>Facts about the task-done message\<close>

text \<open>After its first lock section the master touches sessions and files only, and no total.\<close>

lemma done_frame:
  assumes "catch (AggregateTaskResult os rest sid m) m = Ok m2" and "finish_chunk sid m2 = Ok m3"
  shows "\<exists>f d. m3 = m\<lparr>m_sessions := f, m_disk := d\<rparr>"
proof -
  have "\<exists>f d. m2 = m\<lparr>m_sessions := f, m_disk := d\<rparr>"
  proof (cases "AggregateTaskResult os rest sid m")
    case (Ok x)
    with assms(1) show ?thesis by (auto elim!: Aggregate_Ok)
  next
    case (Throw e)
    with assms(1) have "m2 = m\<lparr>m_sessions := m_sessions m, m_disk := m_disk m\<rparr>" by simp
    then show ?thesis by blast
  qed (use assms(1) in simp_all)
  then obtain f d where m2: "m2 = m\<lparr>m_sessions := f, m_disk := d\<rparr>" by blast
  then have "m3 = m\<lparr>m_sessions := m_sessions m3, m_disk := d\<rparr>"
    using assms(2) by (auto simp: finish_chunk_def split: option.splits if_splits)
  then show ?thesis by blast
qed

lemma done_total:
  assumes "catch (AggregateTaskResult os rest sid m) m = Ok m2" and "finish_chunk sid m2 = Ok m3"
    and "m_sessions m sid = Some s"
  shows "\<exists>s'. m_sessions m3 sid = Some s' \<and> ss_chunks_total s' = ss_chunks_total s"
proof -
  have "\<exists>s'. m_sessions m2 sid = Some s' \<and> ss_chunks_total s' = ss_chunks_total s"
  proof (cases "AggregateTaskResult os rest sid m")
    case (Ok x)
    with assms(1) have "AggregateTaskResult os rest sid m = Ok m2" by simp
    then obtain b session where old: "m_sessions m sid = Some session"
      and "m2 = m\<lparr>m_sessions := (m_sessions m)(sid \<mapsto> fst (count_batch b session)), m_disk := m_disk m2\<rparr>"
      by (rule Aggregate_Ok)
    from arg_cong [OF this(2), of m_sessions] have "m_sessions m2 sid = Some (fst (count_batch b session))" by simp
    with assms(3) old show ?thesis by (simp add: frame_simps)
  qed (use assms in simp_all)
  with assms(2) show ?thesis by (auto simp: finish_chunk_def split: if_splits)
qed

lemma acknowledged_gone:
  assumes ack: "acknowledge c i m = Some (sid, m1)" and ok: "flight_ok m"
    and nxt: "unat (m_nextTaskId m1 + 1) = unat (m_nextTaskId m1) + 1"
    and ts: "map_of (m_inFlightTasks (snd (DispatchNextTask c m1))) c = Some ts"
  shows "map_of ts i = None"
proof -
  obtain us t where us: "map_of (m_inFlightTasks m) c = Some us" and t: "map_of us i = Some t"
    using ack by (auto simp: acknowledge_def split: option.splits)
  have gone: "map_of vs i = None" if "map_of (m_inFlightTasks m1) c = Some vs" for vs
    using ack us t that by (auto simp: acknowledge_def Let_def map_of_adelete split: option.splits if_splits)
  have "(c, us) \<in> set (m_inFlightTasks m)" "(i, t) \<in> set us" using us t by (auto dest: map_of_SomeD)
  then have "unat i \<le> unat (m_nextTaskId m)" using ok by (fastforce simp: flight_ok_def)
  then have fresh: "i \<noteq> m_nextTaskId m1 + 1"
    using nxt acknowledge_conserves [OF ack ok] by auto
  show ?thesis
    using ts gone fresh
    by (cases m1 c rule: dispatch_cases) (auto simp: dispatch_simps register_task_def split: if_splits option.splits)
qed

section \<open>Facts about starting a search\<close>

text \<open>The regular files of a target, and the tasks a file becomes, written out in full.\<close>

definition target_files :: "os \<Rightarrow> string \<Rightarrow> (string \<times> u64 option) list" where
  "target_files os target = (case os_target os target of Target_dir d \<Rightarrow> dir_files target d
     | Target_file sz \<Rightarrow> [(target, sz)] | _ \<Rightarrow> [])"

definition file_search_tasks ::
  "string \<Rightarrow> u64 \<Rightarrow> SearchConfig \<Rightarrow> string \<times> u64 option \<Rightarrow> TaskPayload list" where
  "file_search_tasks keyword sid config f = (case f of (path, sz) \<Rightarrow>
     (case sz of None \<Rightarrow> []
      | Some n \<Rightarrow> if file_fault f then [] else map (\<lambda>i. \<lparr>tp_search_id = sid, tp_task_id = 0,
          tp_max_results = max_results config,
          tp_start_offset = of_nat (fst (chunk_range (unat n) i)),
          tp_end_offset = of_nat (snd (chunk_range (unat n) i)),
          tp_keyword = (strncpy keyword 64)[63 := NUL],
          tp_filename = (strncpy path 256)[255 := NUL]\<rparr>) [0..<chunk_count (unat n)]))"

definition search_tasks :: "os \<Rightarrow> string \<Rightarrow> string \<Rightarrow> u64 \<Rightarrow> SearchConfig \<Rightarrow> TaskPayload list" where
  "search_tasks os target keyword sid config =
     concat (map (file_search_tasks keyword sid config) (target_files os target))"

lemma strip_entry_tasks:
  "map strip_id (entry_tasks uninit keyword sid config f) = file_search_tasks keyword sid config f"
  by (cases f; cases "snd f")
    (auto simp: entry_tasks_def file_search_tasks_def file_tasks_def chunk_task_def task_template_def
      strip_id_def filename_size_def keyword_size_def)

lemma collect_tasks_search:
  assumes "posix_sizes os" and "collect_tasks os uninit target filepath keyword sid config = Ok (ts, errs)"
  shows "map strip_id ts = search_tasks os target keyword sid config"
  using collect_closed [OF assms]
  by (auto simp: search_tasks_def target_files_def map_concat comp_def strip_entry_tasks split: target.splits)

lemma search_published:
  assumes reach: "master_reachable m" and posix: "posix_sizes os"
    and room: "\<And>target. within m (length (search_tasks os target keyword (m_nextSearchId m) config))"
    and run: "StartSearch os uninit filepath keyword config m = (Ok sid, m')"
  obtains target ts errs where "resolve_target os (m_input_dir m) filepath = Ok target"
    and "collect_tasks os uninit target filepath keyword sid config = Ok (ts, errs)"
    and "sid = m_nextSearchId m" and "work m' = work m + mset (search_tasks os target keyword sid config)"
    and "m_sessions m' sid = Some (new_session\<lparr>ss_search_id := sid, ss_max_results := max_results config,
        ss_path := session_path os (m_base_dir m) (output_dir config) sid, ss_scan_errors := errs,
        ss_chunks_total := of_nat (length (search_tasks os target keyword sid config))\<rparr>)"
    and "m_nextSearchId m' = m_nextSearchId m + 1"
  using run
proof (cases rule: StartSearch_cases)
  case (started target path ts errs)
  let ?s = "new_session\<lparr>ss_search_id := m_nextSearchId m, ss_max_results := max_results config,
    ss_path := path, ss_scan_errors := errs\<rparr>"
  let ?pm = "AddPendingTasks ?s ts (m\<lparr>m_nextSearchId := m_nextSearchId m + 1\<rparr>)"
  have strip: "map strip_id ts = search_tasks os target keyword (m_nextSearchId m) config"
    by (rule collect_tasks_search [OF posix started(4)])
  then have len: "length ts = length (search_tasks os target keyword (m_nextSearchId m) config)" by (metis length_map)
  have pub: "flight_ok ?pm \<and> room ?pm \<and> sched_but {} ?pm \<and> sessions_ok ?pm
      \<and> work ?pm = work m + image_mset strip_id (mset ts)"
    by (rule inv_publish [OF reachable_inv [OF reach]])
      (use room [of target] len collect_search_id(1) [OF posix started(4)] in \<open>simp_all add: new_session_def\<close>)
  then have "conserved ?pm (AssignIdleWorkers ?pm)" by (intro conserved_assign conserved_refl) simp_all
  then have c: "work m' = work ?pm" "m_sessions m' = m_sessions ?pm" "m_nextSearchId m' = m_nextSearchId ?pm"
    using started(6) by (simp_all add: conserved_def)
  have "image_mset strip_id (mset ts) = mset (search_tasks os target keyword (m_nextSearchId m) config)"
    unfolding strip [symmetric] by simp
  moreover have "path = session_path os (m_base_dir m) (output_dir config) (m_nextSearchId m)"
    using started(3) by (simp add: CreateSessionFilePath_Ok)
  ultimately show thesis
    using started(1,2,4) pub c len
    by (intro that [of target ts errs]) (simp_all add: AddPendingTasks_def Let_def new_session_def)
qed blast

text \<open>The outcomes the service reports: a value or one of two exceptions.\<close>

definition reported :: "'a outcome \<Rightarrow> bool" where
  "reported x \<longleftrightarrow> (\<exists>v. x = Ok v) \<or> (\<exists>what. x \<in> {Throw (Runtime_Error what), Throw (Filesystem_Error what)})"

lemma reported_simps [simp]:
  "reported (Ok v)" "reported (Throw (Runtime_Error what))" "reported (Throw (Filesystem_Error what))"
  by (simp_all add: reported_def)

lemma reported_obind: "reported x \<Longrightarrow> (\<And>v. reported (f v)) \<Longrightarrow> reported (obind x f)"
  by (cases x) (auto simp: reported_def)

lemma reported_obind_st: "reported x \<Longrightarrow> (\<And>v. reported (fst (f v))) \<Longrightarrow> reported (fst (obind_st x m f))"
  by (cases x) (auto simp: reported_def)

lemma reported_target: "reported (resolve_target os d p)"
  by (simp add: resolve_target_def Let_def split: option.split)

lemma reported_session: "reported (BuildSession os m sid config)"
  unfolding BuildSession_def by (intro reported_obind) (simp_all add: CreateSessionFilePath_def Let_def)

lemma reported_collect: "posix_sizes os \<Longrightarrow> reported (collect_tasks os uninit target filepath keyword sid config)"
proof (cases "os_target os target")
  case (Target_dir d)
  assume "posix_sizes os"
  with Target_dir have "\<forall>f \<in> set (dir_files target d). small_file f" by (force simp: posix_sizes_def split: target.splits)
  from scan_closed(3) [OF this] Target_dir show ?thesis by (simp add: collect_tasks_def)
next
  case (Target_file sz)
  assume "posix_sizes os"
  with Target_file have "small_file (target, sz)" by (force simp: posix_sizes_def split: target.splits)
  from ProcessSingleFile_closed [OF this] Target_file show ?thesis by (simp add: collect_tasks_def)
qed (simp_all add: collect_tasks_def)

subsection \<open>Where the files of a search lie\<close>

text \<open>What POSIX promises of directory entries and of canonical paths.\<close>

definition name_ok :: "string \<Rightarrow> bool" where
  "name_ok n \<longleftrightarrow> n \<noteq> [] \<and> SLASH \<notin> set n \<and> n \<noteq> dot \<and> n \<noteq> dotdot \<and> NUL \<notin> set n"

function (sequential) node_ok :: "node \<Rightarrow> bool" and list_ok :: "(string \<times> node) list \<Rightarrow> bool"
and dir_ok :: "dir_obs \<Rightarrow> bool" where
  "node_ok (Subdir d) = dir_ok d"
| "node_ok nd = True"
| "list_ok [] = True"
| "list_ok ((name, nd) # es) = (name_ok name \<and> node_ok nd \<and> list_ok es)"
| "dir_ok Unreadable = True"
| "dir_ok (Listing es failed) = list_ok es"
  by pat_completeness auto
termination
  by (relation "measure (\<lambda>x. case x of Inl nd \<Rightarrow> size nd
      | Inr (Inl es) \<Rightarrow> size_list (size_prod (\<lambda>_. 0) size) es
      | Inr (Inr d) \<Rightarrow> size d)") auto

definition posix_paths :: "os \<Rightarrow> bool" where
  "posix_paths os \<longleftrightarrow> (\<forall>p q. os_canonical os p = Some q \<longrightarrow> is_absolute q \<and> dotdot \<notin> set (path_names q) \<and> NUL \<notin> set q)
     \<and> (\<forall>p d. os_target os p = Target_dir d \<longrightarrow> dir_ok d)"

text \<open>A path reached from another by going down only.\<close>

definition below :: "string \<Rightarrow> string \<Rightarrow> bool" where
  "below base f \<longleftrightarrow> (\<exists>ns. path_names f = path_names base @ ns \<and> dotdot \<notin> set ns)"

lemma below_refl [simp]: "below p p"
  by (simp add: below_def)

lemma below_trans: "below p q \<Longrightarrow> below q r \<Longrightarrow> below p r"
  by (auto simp: below_def)

lemma below_join: "name_ok n \<Longrightarrow> below p (path_join p n) \<and> (NUL \<notin> set p \<longrightarrow> NUL \<notin> set (path_join p n))"
proof -
  assume n: "name_ok n"
  then have rel: "\<not> is_absolute n" by (cases n) (auto simp: name_ok_def is_absolute_def)
  have "path_names (path_join p n) = path_names p @ [n]"
    using n path_names_join [OF rel] by (simp add: name_ok_def path_names_name)
  moreover have "NUL \<noteq> SLASH" by (simp add: NUL_def SLASH_def)
  ultimately show ?thesis using n by (auto simp: below_def name_ok_def path_join_def)
qed

lemma files_below:
  shows "node_ok nd \<Longrightarrow> NUL \<notin> set p \<Longrightarrow> f \<in> set (node_files p nd) \<Longrightarrow> below p (fst f) \<and> NUL \<notin> set (fst f)"
    and "list_ok es \<Longrightarrow> NUL \<notin> set p \<Longrightarrow> f \<in> set (list_files p es) \<Longrightarrow> below p (fst f) \<and> NUL \<notin> set (fst f)"
    and "dir_ok d \<Longrightarrow> NUL \<notin> set p \<Longrightarrow> f \<in> set (dir_files p d) \<Longrightarrow> below p (fst f) \<and> NUL \<notin> set (fst f)"
proof (induction p nd and p es and p d rule: node_files_list_files_dir_files.induct)
  case (5 p name nd es)
  then show ?case using below_join [of name p] below_trans by fastforce
qed auto

lemma target_below:
  assumes "posix_paths os" and "os_canonical os d = Some base" and "resolve_target os d filepath = Ok target"
  shows "below base target \<and> NUL \<notin> set target"
proof -
  let ?b = "if \<not> ends_with_char base SLASH then base @ [SLASH] else base"
  from assms(2,3) have t: "os_canonical os (path_join base (MakeRelative filepath)) = Some target"
    and inside: "path_eq target base \<or> starts_with target ?b"
    by (auto simp: resolve_target_def Let_def split: option.splits if_splits)
  have up: "dotdot \<notin> set (path_names target)" "NUL \<notin> set target" using assms(1) t by (auto simp: posix_paths_def)
  have "path_names ?b = path_names base" by (simp add: path_names_snoc_sep)
  moreover have "?b \<noteq> [] \<and> last ?b = SLASH" by (auto simp: ends_with_char_def)
  ultimately have "\<exists>ns. path_names target = path_names base @ ns"
    using inside starts_with_names [of target ?b] by (auto simp: path_eq_def)
  with up show ?thesis by (auto simp: below_def)
qed

lemma search_task_below:
  assumes "posix_paths os" and "below base target" and "NUL \<notin> set target"
    and "t \<in> set (search_tasks os target keyword sid config)"
  shows "\<exists>f. c_str (tp_filename t) = Some f \<and> below base f"
proof -
  obtain path sz where f: "(path, sz) \<in> set (target_files os target)"
    and t: "t \<in> set (file_search_tasks keyword sid config (path, sz))"
    using assms(4) by (force simp: search_tasks_def)
  have "below target path \<and> NUL \<notin> set path"
  proof (cases "os_target os target")
    case (Target_dir d)
    then have "dir_ok d" using assms(1) by (simp add: posix_paths_def)
    from files_below(3) [OF this assms(3)] f Target_dir show ?thesis by (force simp: target_files_def)
  qed (use f assms(3) in \<open>simp_all add: target_files_def\<close>)
  moreover have "length path < 256 \<and> tp_filename t = (strncpy path 256)[255 := NUL]"
    using t by (auto simp: file_search_tasks_def file_fault_def filename_size_def chunk_count_gt split: option.splits if_splits)
  ultimately show ?thesis
    using below_trans [OF assms(2)] c_str_strncpy_terminated [of 256 path] by (auto simp: takeWhile_all)
qed

subsection \<open>The small run's search\<close>

lemma demo_target: "resolve_target demo_os (m_input_dir (new_master None None)) ''/x.log'' = Ok ''/app/data/x.log''"
  by code_simp

lemma demo_room:
  "within (new_master None None) (length (search_tasks demo_os target ''k''
     (m_nextSearchId (new_master None None)) default_config))"
proof -
  have le: "length (search_tasks demo_os target ''k'' sid default_config) \<le> 1" for sid
    by (simp add: search_tasks_def target_files_def demo_os_def file_search_tasks_def
        chunk_count_def unat_CHUNK_SIZE)
  show ?thesis by (rule within_new, rule le_less_trans [OF le]) simp
qed

lemma demo_paths: "posix_paths demo_os"
proof -
  have "is_absolute ''/app/data'' \<and> dotdot \<notin> set (path_names ''/app/data'') \<and> NUL \<notin> set ''/app/data''"
    "is_absolute ''/app/data/x.log'' \<and> dotdot \<notin> set (path_names ''/app/data/x.log'') \<and> NUL \<notin> set ''/app/data/x.log''"
    by code_simp+
  then show ?thesis by (simp add: posix_paths_def demo_os_def)
qed

section \<open>Properties\<close>

text \<open>C2: the books of every search balance in every reachable state: a search exists for every task
  held; its chunk total is the sum of its chunks done and its chunks waiting or in flight, so it is
  reported done exactly when the master holds none of its chunks; and the number of lines delivered
  never exceeds the limit asked for.\<close>

theorem search_accounting:
  assumes "master_reachable m" and "GetStatus sid m = Some st"
  shows "unat (st_chunks_total st) = unat (st_chunks_done st) + held sid (work m)
    \<and> (st_state st = Done \<longleftrightarrow> held sid (work m) = 0)
    \<and> (\<exists>s. m_sessions m sid = Some s \<and> st_lines_found st = ss_line_count s
        \<and> ss_line_count s \<le> ss_max_results s)"
proof -
  from assms(2) obtain s where s: "m_sessions m sid = Some s" by (auto simp: GetStatus_def)
  with reachable_inv [OF assms(1)] have ok: "session_ok sid s m" by (simp add: master_inv_def sessions_ok_def)
  then have "ss_chunks_done s = ss_chunks_total s \<longleftrightarrow> held sid (work m) = 0"
    unfolding word_eq_unat session_ok_def by linarith
  moreover from assms(2) s have "st_chunks_total st = ss_chunks_total s" "st_chunks_done st = ss_chunks_done s"
    "st_lines_found st = ss_line_count s"
    "st_state st = (if ss_chunks_done s = ss_chunks_total s then Done else Running)"
    by (auto simp: GetStatus_def)
  ultimately show ?thesis using s ok by (simp add: session_ok_def)
qed

theorem search_accounting_witness:
  "master_reachable demo_master \<and> held 0 (work demo_master) = 1"
  using demo_reachable search_accounting [OF demo_reachable demo_status] by simp

text \<open>C4: as long as the calls on the master are serialised, one ending before the next one begins (which is what
  \<open>master_reachable\<close> demands), the scheduler never leaves a free slot beside a waiting task: between two calls, where a
  task waits no registered worker has a free slot, and a worker with a free slot is in the idle queue, where the next
  search will find it. The code itself does not serialise them: \<^verbatim>\<open>AssignIdleWorkers\<close> gives up the lock inside, and
  \<open>MasterCapacity.AssignIdleWorkers_lock_gap\<close> is what can happen then.\<close>

theorem no_idle_slot_while_work_waits:
  assumes "master_reachable m" and "m_workersFreeSlots m w = Some k" and "k \<noteq> 0"
  shows "m_pendingTasks m = [] \<and> w \<in> set (m_idleWorkers m) \<and> w \<in> m_idleWorkersIds m"
  using reachable_inv [OF assms(1)] assms(2,3)
  unfolding master_inv_def saturated_def sched_but_def by fastforce

theorem no_idle_slot_while_work_waits_witness:
  "m_workersFreeSlots demo_busy 7 = Some 1 \<and> m_pendingTasks demo_busy = [] \<and> 7 \<in> set (m_idleWorkers demo_busy)"
  using no_idle_slot_while_work_waits [OF demo_busy_reachable demo_busy_fields(3)] demo_busy_fields(3) by simp

text \<open>C7: losing a worker loses no work: the tasks the master holds are the same before and after a
  disconnection, whatever the order the lost tasks are walked in, and none is registered to the
  lost worker, which is given no further task.\<close>

theorem disconnect_reclaims:
  assumes "master_reachable m" and "within m 0" and "\<And>ts. mset (order ts) = mset ts"
  shows "work (OnClientDisconnect order c m) = work m
    \<and> c \<notin> fst ` set (m_inFlightTasks (OnClientDisconnect order c m))
    \<and> c \<notin> dom (m_workersFreeSlots (OnClientDisconnect order c m))"
proof -
  have inv: "conserved m (OnClientDisconnect order c m) \<and> master_inv (OnClientDisconnect order c m)"
    using inv_disconnect reachable_inv assms by blast
  have "m_workersFreeSlots (AssignIdleWorkers (reclaim order c m)) c = None"
  proof (rule assign_inv [where P = "\<lambda>m. m_workersFreeSlots m c = None"])
    show "m_workersFreeSlots (snd (DispatchNextTask d m)) c = None" if "m_workersFreeSlots m c = None" for d m
      using that by (cases m d rule: dispatch_cases) (auto simp: dispatch_simps)
  qed (simp_all add: reclaim_def)
  then have none: "c \<notin> dom (m_workersFreeSlots (OnClientDisconnect order c m))"
    by (simp add: OnClientDisconnect_reclaim domIff)
  with inv show ?thesis unfolding master_inv_def saturated_def sched_but_def conserved_def by blast
qed

theorem disconnect_reclaims_witness:
  "work (OnClientDisconnect rev 7 demo_busy) = work demo_busy
    \<and> 7 \<notin> fst ` set (m_inFlightTasks (OnClientDisconnect rev 7 demo_busy))"
  using disconnect_reclaims [OF demo_busy_reachable demo_busy_within, of rev 7] by simp

text \<open>C37: no message takes the master down with an exception or a loop that does not end, whatever bytes
  a worker sends, and one too short for its first field changes nothing. What is left is undefined
  behaviour, which an unchecked line count can reach.\<close>

theorem OnMessage_no_exception:
  "(\<forall>e. OnMessage os c msg m \<noteq> Throw e) \<and> OnMessage os c msg m \<noteq> Hang
    \<and> (length (body msg) < 8 \<longrightarrow> OnMessage os c msg m = Ok m)"
proof (intro conjI allI impI)
  show "OnMessage os c msg m \<noteq> Throw e" for e by (simp add: OnMessage_def)
  show "OnMessage os c msg m \<noteq> Hang"
    using finish_chunk_cases
    by (auto simp: OnMessage_def catch_Hang obind_iffs Let_def split: option.splits LogSearchMsg.splits)
  show "length (body msg) < 8 \<Longrightarrow> OnMessage os c msg m = Ok m"
    using pod_hello.pop_short [of msg] pod_u64.pop_short [of msg]
    by (simp add: OnMessage_def split: option.split LogSearchMsg.split)
qed

theorem OnMessage_no_exception_witness:
  "OnMessage demo_os 7 new_message demo_master = Ok demo_master"
  using OnMessage_no_exception [of demo_os 7 new_message demo_master] by (simp add: new_message_def)

text \<open>C19: a worker's results are counted once: the message that reports a task in flight takes exactly that
  task out of the master's hands and adds one to its search's completed chunks, and the same message
  sent again changes nothing.\<close>

theorem task_done_counted_once:
  assumes "master_reachable m" and "within m 0"
    and "msg_kind (hdr_id (header msg)) = Some Worker_TaskDone"
    and "pop_pod 8 u64_of_bytes msg = Ok (taskId, rest)"
    and "acknowledge c taskId m = Some (sid, m1)" and "OnMessage os c msg m = Ok m'"
  shows "(\<exists>t. tp_search_id t = sid \<and> work m = add_mset t (work m'))
    \<and> map_option (\<lambda>s. unat (ss_chunks_done s)) (m_sessions m' sid)
        = map_option (\<lambda>s. unat (ss_chunks_done s) + 1) (m_sessions m sid)
    \<and> OnMessage os c msg m' = Ok m'"
proof -
  let ?m2 = "snd (DispatchNextTask c m1)"
  have inv: "master_inv m" and inv': "master_inv m'"
    using reachable_inv assms(1) inv_message [OF reachable_inv [OF assms(1)] room_of_within [OF assms(2)] assms(6)] by auto
  then have fl: "flight_ok m" by (simp add: master_inv_def)
  note ack = acknowledge_conserves [OF assms(5) fl]
  have c2: "conserved m1 ?m2"
    using ack room_of_within [OF assms(2)] by (intro conserved_dispatch conserved_refl) (simp_all add: room_def)
  obtain m3 where agg: "catch (AggregateTaskResult os rest sid ?m2) ?m2 = Ok m3" and fin: "finish_chunk sid m3 = Ok m'"
    using OnMessage_done [OF assms(3-5)] assms(6) by (auto simp: obind_eq_Ok)
  have m': "\<exists>f d. m' = ?m2\<lparr>m_sessions := f, m_disk := d\<rparr>" using done_frame [OF agg fin] .
  then have work': "work m' = work ?m2" and fl': "m_inFlightTasks m' = m_inFlightTasks ?m2"
    by (auto simp: work_def)
  obtain t0 where "tp_search_id t0 = sid" "work m = add_mset (strip_id t0) (work m1)" using ack by auto
  then obtain t where t: "tp_search_id t = sid" and w: "work m = add_mset t (work m')"
    using c2 work' that [of "strip_id t0"] by (simp add: conserved_def)
  have "unat (m_nextTaskId m1 + 1) = unat (m_nextTaskId m1) + 1"
    using ack assms(2) w by (intro unat_plus_1) (simp add: within_def)
  then have "acknowledge c taskId m' = None"
    using acknowledged_gone [OF assms(5) fl] fl' by (simp add: acknowledge_def split: option.split)
  then have again: "OnMessage os c msg m' = Ok m'" using assms(3,4) by (simp add: OnMessage_def)
  have "t \<in># work m" by (simp add: w)
  then obtain s where s: "m_sessions m sid = Some s"
    using inv t by (auto simp: master_inv_def sessions_ok_def)
  then obtain s' where s': "m_sessions m' sid = Some s'" "ss_chunks_total s' = ss_chunks_total s"
    using done_total [OF agg fin] ack c2 by (auto simp: conserved_def)
  have "session_ok sid s m" "session_ok sid s' m'"
    using inv inv' s s' by (simp_all add: master_inv_def sessions_ok_def)
  then have "unat (ss_chunks_done s') = unat (ss_chunks_done s) + 1"
    using s'(2) t by (simp add: session_ok_def w)
  with s s' t w again show ?thesis by auto
qed

theorem task_done_counted_once_witness:
  "\<exists>m'. OnMessage demo_os 7 demo_done demo_busy = Ok m' \<and> OnMessage demo_os 7 demo_done m' = Ok m'
    \<and> (\<exists>t. work demo_busy = add_mset t (work m'))"
proof -
  obtain m' m1 rest where "OnMessage demo_os 7 demo_done demo_busy = Ok m'"
    "acknowledge 7 1 demo_busy = Some (0, m1)" "pop_pod 8 u64_of_bytes demo_done = Ok (1, rest)"
    using demo_done_Ok demo_ack demo_done_pop(2) by auto
  with task_done_counted_once [OF demo_busy_reachable demo_busy_within demo_done_pop(1)] show ?thesis by blast
qed

text \<open>C17: a search that starts publishes exactly its target: a fresh number, one session with nothing
  done yet, and, added to the tasks the master held before, one task for each chunk of each
  regular file of the target that can be examined, with every field fixed by the request (none by
  what uninitialised memory held).\<close>

theorem StartSearch_publishes:
  assumes "master_reachable m" and "posix_sizes os"
    and "\<And>target. within m (length (search_tasks os target keyword (m_nextSearchId m) config))"
    and "StartSearch os uninit filepath keyword config m = (Ok sid, m')"
  shows "m_sessions m sid = None \<and> (\<exists>target. resolve_target os (m_input_dir m) filepath = Ok target
    \<and> work m' = work m + mset (search_tasks os target keyword sid config)
    \<and> (\<exists>errs. GetStatus sid m' = Some \<lparr>
          st_state = (if search_tasks os target keyword sid config = [] then Done else Running),
          st_lines_found = 0, st_total_matches = 0, st_scan_errors = errs, st_chunks_done = 0,
          st_chunks_total = of_nat (length (search_tasks os target keyword sid config))\<rparr>))"
proof -
  obtain target ts errs where r: "resolve_target os (m_input_dir m) filepath = Ok target"
    and sid: "sid = m_nextSearchId m" and w: "work m' = work m + mset (search_tasks os target keyword sid config)"
    and s: "m_sessions m' sid = Some (new_session\<lparr>ss_search_id := sid, ss_max_results := max_results config,
        ss_path := session_path os (m_base_dir m) (output_dir config) sid, ss_scan_errors := errs,
        ss_chunks_total := of_nat (length (search_tasks os target keyword sid config))\<rparr>)"
    by (rule search_published [OF assms])
  have "m_sessions m sid = None"
  proof (cases "m_sessions m sid")
    case (Some s)
    then have "session_ok sid s m" using reachable_inv [OF assms(1)] by (simp add: master_inv_def sessions_ok_def)
    then show ?thesis by (simp add: session_ok_def sid)
  qed
  moreover have "of_nat (length (search_tasks os target keyword sid config)) = (0 :: cint)
      \<longleftrightarrow> search_tasks os target keyword sid config = []"
    using assms(3) [of target] unfolding sid word_eq_unat within_def by (simp add: unat_of_nat_u32)
  ultimately show ?thesis using r w s by (auto simp: GetStatus_def new_session_def)
qed

theorem StartSearch_publishes_witness:
  "work demo_master = mset (search_tasks demo_os ''/app/data/x.log'' ''k'' 0 default_config)"
proof -
  have "work (new_master None None) = {#}" by (simp add: new_master_def work_def)
  with StartSearch_publishes [OF master_reachable.start demo_posix demo_room demo_run] demo_target show ?thesis by auto
qed

lemma StartSearch_reported:
  assumes "posix_sizes os"
  shows "reported (fst (StartSearch os uninit filepath keyword config m))"
  unfolding StartSearch_def AllocateSearchId_def prod.case
  by (intro reported_obind_st reported_target reported_session reported_collect [OF assms])
    (auto simp: reported_def Let_def split: prod.split)

text \<open>A search that fails fails cleanly: on a file system with signed sizes it always ends, with a number
  or with one of the two exceptions the service reports, and a failure leaves the sessions, the
  tasks and the workers untouched, using up at most a number.\<close>

theorem StartSearch_fails_cleanly:
  assumes "posix_sizes os"
  shows "(\<exists>sid. fst (StartSearch os uninit filepath keyword config m) = Ok sid)
    \<or> ((\<exists>what. fst (StartSearch os uninit filepath keyword config m) \<in> {Throw (Runtime_Error what), Throw (Filesystem_Error what)})
      \<and> snd (StartSearch os uninit filepath keyword config m) \<in> {m, m\<lparr>m_nextSearchId := m_nextSearchId m + 1\<rparr>})"
proof -
  have "(\<exists>sid. fst (StartSearch os uninit filepath keyword config m) = Ok sid)
      \<or> snd (StartSearch os uninit filepath keyword config m) \<in> {m, m\<lparr>m_nextSearchId := m_nextSearchId m + 1\<rparr>}"
    by (rule StartSearch_cases [OF surjective_pairing]) auto
  with StartSearch_reported [OF assms] show ?thesis unfolding reported_def by blast
qed

theorem StartSearch_fails_cleanly_witness:
  "\<exists>what. fst (StartSearch (demo_os\<lparr>os_canonical := (\<lambda>_. None)\<rparr>) new_task ''/x.log'' ''k'' default_config demo_master)
     \<in> {Throw (Runtime_Error what), Throw (Filesystem_Error what)}"
proof -
  have "posix_sizes (demo_os\<lparr>os_canonical := (\<lambda>_. None)\<rparr>)" using demo_posix by (simp add: posix_sizes_def demo_os_def)
  from StartSearch_fails_cleanly [OF this, of new_task "''/x.log''" "''k''" default_config demo_master]
  show ?thesis by (auto simp: StartSearch_def resolve_target_def)
qed

text \<open>C18: no search reads outside the input directory: every task of a search that starts names a file
  reached from the real input directory by going down, whatever path the user asked for and
  whatever links it went through; workers are never told of any other file.\<close>

theorem StartSearch_contained:
  assumes "master_reachable m" and "posix_sizes os"
    and "\<And>target. within m (length (search_tasks os target keyword (m_nextSearchId m) config))"
    and "StartSearch os uninit filepath keyword config m = (Ok sid, m')"
    and "posix_paths os" and "os_canonical os (m_input_dir m) = Some base"
    and "t \<in># work m'" and "tp_search_id t = sid"
  shows "\<exists>f. c_str (tp_filename t) = Some f \<and> below base f"
proof -
  obtain target ts errs where r: "resolve_target os (m_input_dir m) filepath = Ok target"
    and sid: "sid = m_nextSearchId m" and w: "work m' = work m + mset (search_tasks os target keyword sid config)"
    by (rule search_published [OF assms(1-4)])
  have "tp_search_id t \<noteq> m_nextSearchId m" if t: "t \<in># work m"
  proof -
    have inv: "sessions_ok m" using reachable_inv [OF assms(1)] by (simp add: master_inv_def)
    with t obtain s where "m_sessions m (tp_search_id t) = Some s" by (auto simp: sessions_ok_def)
    with inv have "session_ok (tp_search_id t) s m" by (simp add: sessions_ok_def)
    then show ?thesis by (auto simp: session_ok_def)
  qed
  then have "t \<in> set (search_tasks os target keyword sid config)" using assms(7,8) w sid by auto
  with search_task_below [OF assms(5)] target_below [OF assms(5,6) r] show ?thesis by blast
qed

theorem StartSearch_contained_witness:
  "\<exists>t f. t \<in># work demo_master \<and> c_str (tp_filename t) = Some f \<and> below ''/app/data'' f"
proof -
  obtain t where "m_pendingTasks demo_master = [t]" "tp_search_id t = 0"
    using demo_fields(1,7) by (auto simp: length_Suc_conv)
  then have t: "strip_id t \<in># work demo_master" "tp_search_id (strip_id t) = 0" by (simp_all add: work_def)
  have base: "os_canonical demo_os (m_input_dir (new_master None None)) = Some ''/app/data''"
    by (simp add: demo_os_def new_master_def)
  from StartSearch_contained [OF master_reachable.start demo_posix demo_room demo_run demo_paths base t] t(1)
  show ?thesis by blast
qed

end
