(* ===== verification/MasterCapacity.thy ===== *)
theory MasterCapacity
  imports MasterGuarantees
begin

text \<open>
  How many tasks a worker is given. Between handlers a registered worker's free slots and its tasks
  in flight add up to the threads it announced, so it never holds more tasks than threads; this
  needs workers that announce themselves once. Inside \<^verbatim>\<open>AssignIdleWorkers\<close> the lock is released
  between reading the free slots and using them, and the last section shows what a second
  thread can do in that gap.
\<close>

section \<open>Free slots and load\<close>

definition capacity_ok :: "(u32 \<Rightarrow> nat) \<Rightarrow> master \<Rightarrow> bool" where
  "capacity_ok cap m \<longleftrightarrow> (\<forall>w. cap w < 2 ^ 64)
     \<and> (\<forall>w. m_workersFreeSlots m w = None \<longrightarrow> worker_load (m_inFlightTasks m) w = 0)
     \<and> (\<forall>w k. m_workersFreeSlots m w = Some k \<longrightarrow> unat k + worker_load (m_inFlightTasks m) w = cap w)"

lemma length_update_fresh: "map_of al k = None \<Longrightarrow> length (AList.update k v al) = Suc (length al)"
  by (induction al) (auto split: if_splits)

lemma length_delete: "distinct (map fst al) \<Longrightarrow> map_of al k = Some v \<Longrightarrow> length al = Suc (length (AList.delete k al))"
proof -
  assume "distinct (map fst al)" "map_of al k = Some v"
  then have "size (mset al) = size (add_mset (k, v) (mset (AList.delete k al)))" by (simp only: delete_mset)
  then show ?thesis by simp
qed

lemma load_register:
  assumes "flight_ok m" and "unat i = unat (m_nextTaskId m) + 1"
  shows "worker_load (register_task c i t (m_inFlightTasks m)) w
    = worker_load (m_inFlightTasks m) w + (if w = c then 1 else 0)"
proof (cases "map_of (m_inFlightTasks m) c")
  case None
  then show ?thesis by (simp add: worker_load_def register_task_def)
next
  case (Some ts)
  have "map_of ts i = None"
  proof (cases "map_of ts i")
    case (Some u)
    then have "(i, u) \<in> set ts" by (rule map_of_SomeD)
    moreover have "(c, ts) \<in> set (m_inFlightTasks m)" using \<open>map_of (m_inFlightTasks m) c = Some ts\<close> by (rule map_of_SomeD)
    ultimately show ?thesis using assms by (fastforce simp: flight_ok_def)
  qed
  with Some show ?thesis by (simp add: worker_load_def register_task_def length_update_fresh)
qed

lemma cap_dispatch:
  assumes cap: "capacity_ok cap m" and ok: "flight_ok m" "room m"
    and free: "m_pendingTasks m \<noteq> [] \<Longrightarrow> m_workersFreeSlots m c \<noteq> Some 0"
  shows "capacity_ok cap (snd (DispatchNextTask c m))"
proof (cases m c rule: dispatch_cases)
  case (sent k t ts)
  have n: "unat (m_nextTaskId m + 1) = unat (m_nextTaskId m) + 1"
    using ok(2) sent by (intro unat_plus_1) (simp add: room_def)
  have k: "k \<noteq> 0" using free sent by simp
  then have "unat (k - 1) + 1 = unat k" using unat_minus_1 [OF k] by (simp add: unat_gt_0 Suc_leI)
  moreover have "unat k + worker_load (m_inFlightTasks m) c = cap c" using cap sent(1) by (auto simp: capacity_ok_def)
  ultimately have "Suc (unat (k - 1) + worker_load (m_inFlightTasks m) c) = cap c" by linarith
  with cap sent(1) show ?thesis
    unfolding capacity_ok_def
    by (auto simp: Dispatch_sent [OF sent(2,1)] load_register [OF ok(1) n])
qed (use cap in \<open>simp_all add: dispatch_simps capacity_ok_def\<close>)

text \<open>The combination the loops keep.\<close>

definition cap_inv :: "(u32 \<Rightarrow> nat) \<Rightarrow> master \<Rightarrow> bool" where
  "cap_inv cap m \<longleftrightarrow> capacity_ok cap m \<and> flight_ok m \<and> room m"

lemma cap_inv_dispatch:
  "cap_inv cap m \<Longrightarrow> (m_pendingTasks m \<noteq> [] \<Longrightarrow> m_workersFreeSlots m c \<noteq> Some 0) \<Longrightarrow>
   cap_inv cap (snd (DispatchNextTask c m))"
  using dispatch_conserves [of m c] cap_dispatch [of cap m c] by (simp add: cap_inv_def)

lemma cap_inv_loop:
  "cap_inv cap m \<Longrightarrow> m_workersFreeSlots m c = Some k \<Longrightarrow> unat k = n \<Longrightarrow> cap_inv cap (dispatch_loop n c m)"
proof (induction n arbitrary: m k)
  case (Suc n)
  have k: "k \<noteq> 0" using Suc.prems(3) by auto
  have inv: "cap_inv cap (snd (DispatchNextTask c m))"
    using Suc.prems k by (intro cap_inv_dispatch) auto
  show ?case
  proof (cases "m_pendingTasks m")
    case Nil
    with inv Suc.prems show ?thesis by (simp add: dispatch_simps)
  next
    case (Cons t ts)
    have "unat (k - 1) = n" using Suc.prems(3) by (subst unat_minus_1) auto
    with Suc.IH [OF inv, of "k - 1"] Cons Suc.prems show ?thesis by (simp add: dispatch_simps)
  qed
qed simp

lemma cap_inv_idle: "cap_inv cap m \<Longrightarrow> cap_inv cap (m\<lparr>m_idleWorkers := q, m_idleWorkersIds := ids\<rparr>)"
  by (simp add: cap_inv_def capacity_ok_def flight_ok_def room_def)

lemma cap_inv_assign: "cap_inv cap m \<Longrightarrow> cap_inv cap (AssignIdleWorkers m)"
proof (induction m rule: AssignIdleWorkers.induct)
  case (1 m)
  show ?case
  proof (cases "m_pendingTasks m = [] \<or> m_idleWorkers m = []")
    case True
    then show ?thesis using 1 by (simp add: assign_stop)
  next
    case False
    let ?m = "m\<lparr>m_idleWorkers := tl (m_idleWorkers m)\<rparr>" and ?w = "hd (m_idleWorkers m)"
    show ?thesis
    proof (cases "m_workersFreeSlots ?m ?w")
      case None
      have "cap_inv cap ?m"
        using cap_inv_idle [OF "1.prems", where q = "tl (m_idleWorkers m)" and ids = "m_idleWorkersIds m"] by simp
      from 1(1) [OF False refl refl None this] False None show ?thesis by (simp add: assign_skip)
    next
      case (Some k)
      have "cap_inv cap (?m\<lparr>m_idleWorkersIds := m_idleWorkersIds ?m - {?w}\<rparr>)"
        using cap_inv_idle [OF "1.prems", where q = "tl (m_idleWorkers m)" and ids = "m_idleWorkersIds m - {?w}"] by simp
      then have "cap_inv cap (dispatch_loop (unat k) ?w (?m\<lparr>m_idleWorkersIds := m_idleWorkersIds ?m - {?w}\<rparr>))"
        using Some by (intro cap_inv_loop [where k = k]) simp_all
      from 1(2) [OF False refl refl Some this] False Some show ?thesis by (simp add: assign_step)
    qed
  qed
qed

section \<open>Handlers\<close>

lemma cap_hello:
  assumes "capacity_ok cap m" and "flight_ok m" and "room m" and "m_workersFreeSlots m c = None"
  shows "capacity_ok (cap(c := unat n)) (register_worker c n m)"
proof -
  have "capacity_ok (cap(c := unat n)) (m\<lparr>m_workersFreeSlots := (m_workersFreeSlots m)(c \<mapsto> n)\<rparr>)"
    using assms(1,4) unat_u64_less [of n] by (auto simp: capacity_ok_def)
  then have "cap_inv (cap(c := unat n)) (m\<lparr>m_workersFreeSlots := (m_workersFreeSlots m)(c \<mapsto> n)\<rparr>)"
    using assms(2,3) by (simp add: cap_inv_def flight_ok_def room_def)
  then have "cap_inv (cap(c := unat n)) (register_worker c n m)"
    unfolding register_worker_def by (rule cap_inv_loop) simp_all
  then show ?thesis by (simp add: cap_inv_def)
qed

lemma cap_acknowledge:
  assumes cap: "capacity_ok cap m" and ok: "flight_ok m" and ack: "acknowledge c i m = Some (sid, m1)"
  shows "capacity_ok cap m1 \<and> m_workersFreeSlots m1 c \<noteq> Some 0"
proof -
  let ?fl = "m_inFlightTasks m"
  obtain ts t where ts: "map_of ?fl c = Some ts" and t: "map_of ts i = Some t"
    using ack by (auto simp: acknowledge_def split: option.splits)
  let ?ts = "AList.delete i ts"
  have in_fl: "(c, ts) \<in> set ?fl" using ts by (rule map_of_SomeD)
  have "distinct (map fst ts)" using ok in_fl by (auto simp: flight_ok_def wf_flight_def)
  then have len: "length ts = Suc (length ?ts)" using t by (rule length_delete)
  then have load: "worker_load ?fl c = Suc (length ?ts)" by (simp add: worker_load_def ts)
  then obtain k where k: "m_workersFreeSlots m c = Some k"
    using cap unfolding capacity_ok_def by (cases "m_workersFreeSlots m c") auto
  then have sum: "unat k + worker_load ?fl c = cap c" "cap c < 2 ^ 64"
    using cap by (auto simp: capacity_ok_def)
  then have k1: "unat (k + 1) = unat k + 1" using load by (intro unat_plus_1) simp
  have m1: "m_workersFreeSlots m1 = (m_workersFreeSlots m)(c \<mapsto> k + 1)"
    "m_inFlightTasks m1 = (if ?ts = [] then AList.delete c ?fl else AList.update c ?ts ?fl)"
    using ack ts t k by (auto simp: acknowledge_def Let_def)
  have "worker_load (m_inFlightTasks m1) w = (if w = c then length ?ts else worker_load ?fl w)" for w
    by (simp add: m1 worker_load_def map_of_adelete)
  then have "capacity_ok cap m1"
    using cap sum load k1 unfolding capacity_ok_def by (auto simp: m1(1))
  moreover have "k + 1 \<noteq> 0" using k1 by auto
  ultimately show ?thesis by (simp add: m1)
qed

lemma cap_disconnect:
  assumes "capacity_ok cap m" and "flight_ok m" and "within m 0" and "\<And>ts. mset (order ts) = mset ts"
  shows "capacity_ok cap (OnClientDisconnect order c m)"
proof -
  have "capacity_ok cap (reclaim order c m)"
    using assms(1) by (simp add: capacity_ok_def reclaim_def worker_load_def map_of_adelete)
  moreover have "conserved m (reclaim order c m)"
    by (rule reclaim_conserves) (use assms in \<open>simp_all add: within_def\<close>)
  ultimately have "cap_inv cap (reclaim order c m)" by (simp add: cap_inv_def conserved_def)
  from cap_inv_assign [OF this] show ?thesis by (simp add: OnClientDisconnect_reclaim cap_inv_def)
qed

section \<open>Workers that announce themselves once\<close>

text \<open>Runs of the master in which a worker's hello comes once, while it is not registered; the other
  messages are arbitrary. The first argument is what each worker has announced.\<close>

inductive capacity_run :: "(u32 \<Rightarrow> nat) \<Rightarrow> master \<Rightarrow> bool" where
  start: "capacity_run (\<lambda>_. 0) (new_master envInput envOutput)"
| hello: "capacity_run cap m \<Longrightarrow> msg_kind (hdr_id (header msg)) = Some Worker_Hello \<Longrightarrow>
    pop_pod 8 hello_of_bytes msg = Ok (h, rest) \<Longrightarrow> m_workersFreeSlots m c = None \<Longrightarrow>
    OnMessage os c msg m = Ok m' \<Longrightarrow> within m 0 \<Longrightarrow>
    capacity_run (cap(c := unat (threads_available h))) m'"
| message: "capacity_run cap m \<Longrightarrow> msg_kind (hdr_id (header msg)) \<noteq> Some Worker_Hello \<Longrightarrow>
    OnMessage os c msg m = Ok m' \<Longrightarrow> within m 0 \<Longrightarrow> capacity_run cap m'"
| search: "capacity_run cap m \<Longrightarrow> StartSearch os uninit filepath keyword config m = (r, m') \<Longrightarrow> posix_sizes os \<Longrightarrow>
    within m 0 \<Longrightarrow>
    (\<And>target ts errs. resolve_target os (m_input_dir m) filepath = Ok target
        \<Longrightarrow> collect_tasks os uninit target filepath keyword (m_nextSearchId m) config = Ok (ts, errs)
        \<Longrightarrow> within m (length ts)) \<Longrightarrow> capacity_run cap m'"
| disconnect: "capacity_run cap m \<Longrightarrow> (\<And>ts. mset (order ts) = mset ts) \<Longrightarrow> within m 0 \<Longrightarrow>
    capacity_run cap (OnClientDisconnect order client m)"

lemma capacity_run_reachable: "capacity_run cap m \<Longrightarrow> master_reachable m"
  by (induction rule: capacity_run.induct)
    (blast intro: master_reachable.intros master_step.intros)+

lemma cap_message:
  assumes "capacity_ok cap m" and "flight_ok m" and "room m"
    and "msg_kind (hdr_id (header msg)) \<noteq> Some Worker_Hello" and "OnMessage os c msg m = Ok m'"
  shows "capacity_ok cap m'"
  using assms(5)
proof (cases rule: OnMessage_cases)
  case (finished taskId rest sid m1)
  let ?m2 = "snd (DispatchNextTask c m1)"
  note ack = acknowledge_conserves [OF finished(1) assms(2)]
  have "capacity_ok cap ?m2"
    using cap_acknowledge [OF assms(1,2) finished(1)] ack assms(3)
    by (intro cap_dispatch) (simp_all add: room_def)
  moreover obtain m2 where "catch (AggregateTaskResult os rest sid ?m2) ?m2 = Ok m2" "finish_chunk sid m2 = Ok m'"
    using finished(2) by (auto simp: obind_eq_Ok)
  then have "\<exists>f d. m' = ?m2\<lparr>m_sessions := f, m_disk := d\<rparr>" by (rule done_frame)
  ultimately show ?thesis by (auto simp: capacity_ok_def)
qed (use assms in auto)

lemma cap_search:
  assumes "capacity_ok cap m" and inv: "master_inv m"
    and run: "StartSearch os uninit filepath keyword config m = (r, m')" and posix: "posix_sizes os"
    and wn: "\<And>target ts errs. resolve_target os (m_input_dir m) filepath = Ok target
        \<Longrightarrow> collect_tasks os uninit target filepath keyword (m_nextSearchId m) config = Ok (ts, errs)
        \<Longrightarrow> within m (length ts)"
  shows "capacity_ok cap m'"
  using run
proof (cases rule: StartSearch_cases)
  case failed
  with assms(1) show ?thesis by (auto simp: capacity_ok_def)
next
  case (started target path ts errs)
  let ?s = "new_session\<lparr>ss_search_id := m_nextSearchId m, ss_max_results := max_results config,
    ss_path := path, ss_scan_errors := errs\<rparr>"
  let ?pm = "AddPendingTasks ?s ts (m\<lparr>m_nextSearchId := m_nextSearchId m + 1\<rparr>)"
  have "flight_ok ?pm \<and> room ?pm"
    using inv_publish [OF inv wn [OF started(2,4)], of ?s ?pm] collect_search_id(1) [OF posix started(4)]
    by (simp add: new_session_def)
  moreover have "capacity_ok cap ?pm" using assms(1) by (simp add: capacity_ok_def AddPendingTasks_def Let_def)
  ultimately have "cap_inv cap ?pm" by (simp add: cap_inv_def)
  from cap_inv_assign [OF this] started(6) show ?thesis by (simp add: cap_inv_def)
qed

lemma capacity_run_ok: "capacity_run cap m \<Longrightarrow> capacity_ok cap m"
proof (induction rule: capacity_run.induct)
  case (start envInput envOutput)
  show ?case by (simp add: capacity_ok_def new_master_def worker_load_def)
next
  case (hello cap m msg h rest c os m')
  have "flight_ok m" using reachable_inv [OF capacity_run_reachable [OF hello(1)]] by (simp add: master_inv_def)
  moreover have "m' = register_worker c (threads_available h) m"
    using hello(2,3,5) by (simp add: OnMessage_def)
  ultimately show ?case
    using cap_hello [OF hello.IH _ room_of_within [OF hello(6)] hello(4)] by (simp only:)
next
  case (message cap m msg os c m')
  have "flight_ok m" using reachable_inv [OF capacity_run_reachable [OF message(1)]] by (simp add: master_inv_def)
  then show ?case using cap_message [OF message.IH _ room_of_within [OF message(4)] message(2,3)] by blast
next
  case (search cap m os uninit filepath keyword config r m')
  show ?case
    by (rule cap_search [OF search.IH reachable_inv [OF capacity_run_reachable [OF search(1)]] search(2,3)])
      (rule search(5))
next
  case (disconnect cap m order client)
  have "flight_ok m" using reachable_inv [OF capacity_run_reachable [OF disconnect(1)]] by (simp add: master_inv_def)
  then show ?case using cap_disconnect [OF disconnect.IH] disconnect(2,3) by blast
qed

lemma demo_busy_capacity: "capacity_run ((\<lambda>_. 0)(7 := 2)) demo_busy"
proof -
  have first: "capacity_run (\<lambda>_. 0) demo_master"
    by (rule capacity_run.search [OF capacity_run.start demo_run demo_posix within_new])
      (use demo_one in \<open>auto intro: within_new\<close>)
  have "capacity_run ((\<lambda>_. 0)(7 := unat (threads_available \<lparr>threads_available = 2\<rparr>))) demo_busy"
    by (rule capacity_run.hello [OF first demo_hello_kind demo_hello_pop demo_unregistered demo_hello_run demo_master_within])
  then show ?thesis by simp
qed

section \<open>The gap in the assignment loop\<close>

text \<open>The locked block of \<^verbatim>\<open>AssignIdleWorkers\<close>: \<open>None\<close> when the loop ends, otherwise the worker to wake and
  its free slots (\<open>None\<close> if it is gone). The dispatches that use this number come after the lock
  has been released.\<close>

definition assign_pop :: "master \<Rightarrow> ((u32 \<times> u64) option \<times> master) option" where
  "assign_pop m =
     (if m_pendingTasks m = [] \<or> m_idleWorkers m = [] then None
      else let worker = hd (m_idleWorkers m); m = m\<lparr>m_idleWorkers := tl (m_idleWorkers m)\<rparr>
        in (case m_workersFreeSlots m worker of
              None \<Rightarrow> Some (None, m)
            | Some threadsCount \<Rightarrow> Some (Some (worker, threadsCount),
                m\<lparr>m_idleWorkersIds := m_idleWorkersIds m - {worker}\<rparr>)))"

text \<open>Without interference the loop is this block and the dispatches, over and over.\<close>

lemma assign_by_pop:
  "AssignIdleWorkers m = (case assign_pop m of
       None \<Rightarrow> m
     | Some (None, m') \<Rightarrow> AssignIdleWorkers m'
     | Some (Some (worker, threadsCount), m') \<Rightarrow> AssignIdleWorkers (dispatch_loop (unat threadsCount) worker m'))"
  by (subst AssignIdleWorkers.simps) (simp add: assign_pop_def Let_def split: option.split)

section \<open>Properties\<close>

text \<open>C11: as long as the calls on the master are serialised, one ending before the next one begins (which is what
  \<open>capacity_run\<close> demands), a worker is never given more tasks than it has threads: with workers that announce
  themselves once and any other messages, searches and disconnections, one after the other in any order, a registered
  worker's free slots and tasks in flight add up to the threads it announced, and one that is not registered has no
  task. Calls of two threads that overlap break the bound, as the next theorem shows.\<close>

theorem worker_load_within_capacity:
  assumes "capacity_run cap m"
  shows "(case m_workersFreeSlots m w of
       None \<Rightarrow> worker_load (m_inFlightTasks m) w = 0
     | Some k \<Rightarrow> unat k + worker_load (m_inFlightTasks m) w = cap w \<and> worker_load (m_inFlightTasks m) w \<le> cap w)"
proof (cases "m_workersFreeSlots m w")
  case (Some k)
  then have "unat k + worker_load (m_inFlightTasks m) w = cap w"
    using capacity_run_ok [OF assms] by (simp add: capacity_ok_def)
  moreover from this have "worker_load (m_inFlightTasks m) w \<le> cap w" by linarith
  ultimately show ?thesis using Some by simp
qed (use capacity_run_ok [OF assms] in \<open>simp add: capacity_ok_def\<close>)

theorem worker_load_within_capacity_witness:
  "capacity_run ((\<lambda>_. 0)(7 := 2)) demo_busy \<and> worker_load (m_inFlightTasks demo_busy) 7 \<le> 2"
  using demo_busy_capacity worker_load_within_capacity [OF demo_busy_capacity, of 7] demo_busy_fields(3) by simp

text \<open>That bound rests on the assignment loop not being interfered with. It releases the lock between
  reading a worker's free slots and dispatching that many tasks, and dispatching does not look at
  the slots again. In this run of lock sections a thread pops a two-thread worker with one free
  slot (\<open>m1\<close>); the worker reports its task and is handed the waiting one (\<open>m2\<close>), reports that one
  and is idle again (\<open>m3\<close>); a second search publishes three tasks and fills it (\<open>m4\<close>); then the
  first thread goes on with the number it read, and dispatches to a worker without a free slot,
  which now holds three tasks and whose counter has wrapped to \<open>2 ^ 64 - 1\<close>.\<close>

theorem AssignIdleWorkers_lock_gap:
  assumes "m_pendingTasks m = [t]" and "m_idleWorkers m = [w]" and "m_idleWorkersIds m = {w}"
    and "m_workersFreeSlots m w = Some 1" and "m_inFlightTasks m = [(w, [(1, u)])]" and "m_nextTaskId m = 1"
  shows "\<exists>m1 a1 m2 a2 m3 m4 m5. assign_pop m = Some (Some (w, 1), m1)
    \<and> acknowledge w 1 m1 = Some (tp_search_id u, a1) \<and> m2 = snd (DispatchNextTask w a1)
    \<and> acknowledge w 2 m2 = Some (tp_search_id t, a2) \<and> m3 = snd (DispatchNextTask w a2)
    \<and> m4 = AssignIdleWorkers (AddPendingTasks s [ta, tb, tc] m3)
    \<and> m5 = dispatch_loop (unat (1 :: u64)) w m4
    \<and> m_workersFreeSlots m4 w = Some 0 \<and> m_workersFreeSlots m5 w = Some (- 1)
    \<and> worker_load (m_inFlightTasks m5) w = 3"
proof -
  define m1 where "m1 = m\<lparr>m_idleWorkers := [], m_idleWorkersIds := {}\<rparr>"
  have m1: "assign_pop m = Some (Some (w, 1), m1)" by (simp add: assign_pop_def assms Let_def m1_def)
  obtain a1 where a1: "acknowledge w 1 m1 = Some (tp_search_id u, a1)" and f1: "m_pendingTasks a1 = [t]"
    "m_idleWorkers a1 = []" "m_idleWorkersIds a1 = {}" "m_inFlightTasks a1 = []" "m_workersFreeSlots a1 w = Some 2"
    "m_nextTaskId a1 = 1" by (simp add: acknowledge_def assms Let_def m1_def)
  define m2 where "m2 = snd (DispatchNextTask w a1)"
  have f2: "m_pendingTasks m2 = []" "m_idleWorkers m2 = []" "m_idleWorkersIds m2 = {}" "m_nextTaskId m2 = 2"
    "m_inFlightTasks m2 = [(w, [(2, t\<lparr>tp_task_id := 2\<rparr>)])]" "m_workersFreeSlots m2 w = Some 1"
    using f1 by (simp_all add: m2_def DispatchNextTask_def Let_def register_task_def)
  obtain a2 where a2: "acknowledge w 2 m2 = Some (tp_search_id t, a2)" and f3: "m_pendingTasks a2 = []"
    "m_idleWorkers a2 = []" "m_idleWorkersIds a2 = {}" "m_inFlightTasks a2 = []" "m_workersFreeSlots a2 w = Some 2"
    "m_nextTaskId a2 = 2" using f2 by (simp add: acknowledge_def Let_def)
  define p where "p = AddPendingTasks s [ta, tb, tc] (snd (DispatchNextTask w a2))"
  have p: "m_pendingTasks p = [ta, tb, tc]" "m_idleWorkers p = [w]" "m_workersFreeSlots p w = Some 2"
    "m_inFlightTasks p = []" "m_nextTaskId p = 2"
    using f3 by (simp_all add: p_def AddPendingTasks_def Let_def DispatchNextTask_def)
  define d where "d = dispatch_loop (Suc (Suc 0)) w (p\<lparr>m_idleWorkers := [], m_idleWorkersIds := m_idleWorkersIds p - {w}\<rparr>)"
  have d: "m_pendingTasks d = [tc]" "m_idleWorkers d = []" "m_workersFreeSlots d w = Some 0" "m_nextTaskId d = 4"
    "m_inFlightTasks d = [(w, [(3, ta\<lparr>tp_task_id := 3\<rparr>), (4, tb\<lparr>tp_task_id := 4\<rparr>)])]"
    by (simp_all add: d_def dispatch_simps p register_task_def)
  have two: "unat (2 :: u64) = Suc (Suc 0)" by simp
  have "AssignIdleWorkers p = AssignIdleWorkers d"
    unfolding d_def two [symmetric] using p by (subst assign_step [where k = 2]) (simp_all del: dispatch_loop.simps)
  then have m4: "AssignIdleWorkers p = d" using assign_stop [of d] d(2) by simp
  have m5: "m_workersFreeSlots (dispatch_loop (Suc 0) w d) w = Some (- 1)"
    "worker_load (m_inFlightTasks (dispatch_loop (Suc 0) w d)) w = 3"
    by (simp_all add: Dispatch_sent [OF d(1,3)] d register_task_def worker_load_def)
  have one: "unat (1 :: u64) = Suc 0" by simp
  show ?thesis
    unfolding one
    using m1 a1 m2_def a2 m4 [unfolded p_def] d(3) m5 by blast
qed

theorem AssignIdleWorkers_lock_gap_witness:
  "\<exists>m1 m4. assign_pop (AddPendingTasks new_session [new_task] demo_busy) = Some (Some (7, 1), m1)
    \<and> m_workersFreeSlots m4 7 = Some 0
    \<and> m_workersFreeSlots (dispatch_loop (unat (1 :: u64)) 7 m4) 7 = Some (- 1)
    \<and> worker_load (m_inFlightTasks (dispatch_loop (unat (1 :: u64)) 7 m4)) 7 = 3"
proof -
  obtain u where u: "m_inFlightTasks demo_busy = [(7, [(1, u)])]" using demo_busy_fields(6) by auto
  have ids: "m_idleWorkersIds demo_busy = {7}"
    using reachable_inv [OF demo_busy_reachable] demo_busy_fields(2,3)
    unfolding master_inv_def saturated_def sched_but_def by fastforce
  show ?thesis
    using AssignIdleWorkers_lock_gap [where t = new_task and w = 7 and u = u and s = new_session
        and ta = new_task and tb = new_task and tc = new_task and m = "AddPendingTasks new_session [new_task] demo_busy"]
      demo_busy_fields u ids
    by (fastforce simp: AddPendingTasks_def Let_def)
qed

end
