(* ===== verification/MasterThreads.thy ===== *)
theory MasterThreads
  imports MasterCapacity
begin

text \<open>
  The threads of the master (\<^verbatim>\<open>NetServer/src/MasterServer.cpp\<close>). \<open>MasterServer\<close> takes a call of
  \<^verbatim>\<open>StartSearch\<close>, \<^verbatim>\<open>OnMessage\<close> or \<^verbatim>\<open>OnClientDisconnect\<close> as one step; in the program the thread of \<^verbatim>\<open>main\<close>
  handles messages while the threads of the HTTP server start searches, and a call gives up \<^verbatim>\<open>m_stateMutex\<close>
  between its sections. Here a thread is where it stands between two sections with the local
  variables it still needs, and a step is one section of one thread, in any order. Run alone the
  sections make up the calls.
\<close>

section \<open>Sections\<close>

text \<open>
  \<open>Searching\<close>: in \<^verbatim>\<open>StartSearch\<close>, after \<^verbatim>\<open>AllocateSearchId\<close>. \<open>Assigning\<close> and \<open>Waking\<close>: in \<^verbatim>\<open>AssignIdleWorkers\<close>, at
  the head of its loop and in the inner one, with the rounds left. \<open>Greeting\<close>: in the loop of
  \<^verbatim>\<open>Worker_Hello\<close>. The others are the places of \<^verbatim>\<open>Worker_TaskDone\<close>: after the task has been taken off the
  registry, before \<^verbatim>\<open>AggregateTaskResult\<close>, before \<^verbatim>\<open>WriteResults\<close>, and before the chunk is counted.
\<close>

datatype pc =
    Idle
  | Searching string string SearchConfig string u64
  | Assigning
  | Waking u32 nat
  | Greeting u32 nat
  | Acked u32 message u64
  | Aggregating message u64
  | Writing "string list" u64
  | Finishing u64

text \<open>\<^verbatim>\<open>StartSearch\<close> up to the first section, which takes a number.\<close>

definition begin_search :: "os \<Rightarrow> string \<Rightarrow> string \<Rightarrow> SearchConfig \<Rightarrow> master \<Rightarrow> (pc \<times> master) outcome" where
  "begin_search os filepath keyword config m =
     obind (resolve_target os (m_input_dir m) filepath) (\<lambda>targetCanon.
       case AllocateSearchId m of (searchId, m) \<Rightarrow> Ok (Searching filepath keyword config targetCanon searchId, m))"

text \<open>What \<^verbatim>\<open>StartSearch\<close> does without the lock: the session and the tasks to publish.\<close>

definition prepare_search ::
  "os \<Rightarrow> TaskPayload \<Rightarrow> master \<Rightarrow> string \<Rightarrow> string \<Rightarrow> SearchConfig \<Rightarrow> string \<Rightarrow> u64
     \<Rightarrow> (SearchSession \<times> TaskPayload list) outcome" where
  "prepare_search os uninit m filepath keyword config targetCanon searchId =
     obind (BuildSession os m searchId config) (\<lambda>session.
     obind (collect_tasks os uninit targetCanon filepath keyword searchId config) (\<lambda>(newTasks, scanErrors).
       if newTasks = [] \<and> 0 < scanErrors
       then Throw (Runtime_Error (''[MASTER] Could not scan path: '' @ filepath))
       else Ok (session\<lparr>ss_scan_errors := scanErrors\<rparr>, newTasks)))"

text \<open>\<^verbatim>\<open>OnMessage\<close> up to the end of its first section.\<close>

definition begin_message :: "u32 \<Rightarrow> message \<Rightarrow> master \<Rightarrow> pc \<times> master" where
  "begin_message client msg m =
     (case msg_kind (hdr_id (header msg)) of
        Some Worker_Hello \<Rightarrow>
          (case pop_pod 8 hello_of_bytes msg of
             Ok (result, _) \<Rightarrow> (Greeting client (unat (threads_available result)),
               m\<lparr>m_workersFreeSlots := (m_workersFreeSlots m)(client \<mapsto> threads_available result)\<rparr>)
           | _ \<Rightarrow> (Idle, m))
      | Some Worker_TaskDone \<Rightarrow>
          (case pop_pod 8 u64_of_bytes msg of
             Ok (taskId, msg) \<Rightarrow>
               (case acknowledge client taskId m of
                  None \<Rightarrow> (Idle, m)
                | Some (authoritativeSearchId, m) \<Rightarrow> (Acked client msg authoritativeSearchId, m))
           | _ \<Rightarrow> (Idle, m))
      | _ \<Rightarrow> (Idle, m))"

text \<open>The section of \<^verbatim>\<open>AggregateTaskResult\<close>: the lines to write, or \<open>None\<close> for a search it does not know.\<close>

definition count_section :: "ChunkResult \<Rightarrow> u64 \<Rightarrow> master \<Rightarrow> (string list \<times> master) option" where
  "count_section batch sid m =
     (case m_sessions m sid of
        None \<Rightarrow> None
      | Some session \<Rightarrow>
          (case count_batch batch session of (session, linesToWrite) \<Rightarrow>
             Some (if 0 < linesToWrite
                   then if linesToWrite < of_nat (length (cr_lines batch)) then take (unat linesToWrite) (cr_lines batch)
                     else cr_lines batch
                   else [],
                   m\<lparr>m_sessions := (m_sessions m)(sid \<mapsto> session)\<rparr>)))"

text \<open>The next section of a thread, with what it does on its way there: where the thread stands then, and
  the state. An exception ends a search; in \<^verbatim>\<open>Worker_TaskDone\<close> the chunk is counted all the same.\<close>

fun lock_section :: "os \<Rightarrow> TaskPayload \<Rightarrow> pc \<Rightarrow> master \<Rightarrow> (pc \<times> master) outcome" where
  "lock_section os uninit Idle m = Ok (Idle, m)"
| "lock_section os uninit (Searching filepath keyword config targetCanon searchId) m =
     (case prepare_search os uninit m filepath keyword config targetCanon searchId of
        Ok (session, newTasks) \<Rightarrow> Ok (Assigning, AddPendingTasks session newTasks m)
      | Throw e \<Rightarrow> Ok (Idle, m) | Undef \<Rightarrow> Undef | Hang \<Rightarrow> Hang)"
| "lock_section os uninit Assigning m =
     (case assign_pop m of
        None \<Rightarrow> Ok (Idle, m)
      | Some (None, m) \<Rightarrow> Ok (Assigning, m)
      | Some (Some (worker, threadsCount), m) \<Rightarrow> Ok (Waking worker (unat threadsCount), m))"
| "lock_section os uninit (Waking worker 0) m = Ok (Assigning, m)"
| "lock_section os uninit (Waking worker (Suc n)) m =
     (case DispatchNextTask worker m of (sent, m) \<Rightarrow> Ok (if sent then Waking worker n else Assigning, m))"
| "lock_section os uninit (Greeting client 0) m = Ok (Idle, m)"
| "lock_section os uninit (Greeting client (Suc n)) m =
     (case DispatchNextTask client m of (sent, m) \<Rightarrow> Ok (if sent then Greeting client n else Idle, m))"
| "lock_section os uninit (Acked client msg sid) m = Ok (Aggregating msg sid, snd (DispatchNextTask client m))"
| "lock_section os uninit (Aggregating msg sid) m =
     (case DeserializeBatch msg of
        Ok (batch, _) \<Rightarrow>
          (case count_section batch sid m of
             None \<Rightarrow> Ok (Finishing sid, m)
           | Some (lines, m) \<Rightarrow> Ok (if lines = [] then Finishing sid else Writing lines sid, m))
      | Throw e \<Rightarrow> Ok (Finishing sid, m) | Undef \<Rightarrow> Undef | Hang \<Rightarrow> Hang)"
| "lock_section os uninit (Writing lines sid) m = Ok (Finishing sid, WriteResults os lines sid m)"
| "lock_section os uninit (Finishing sid) m = obind (finish_chunk sid m) (\<lambda>m. Ok (Idle, m))"

lemma begin_message_cases [case_names hello acked none]:
  obtains h :: HelloMessage where "begin_message c msg m = (Greeting c (unat (threads_available h)),
      m\<lparr>m_workersFreeSlots := (m_workersFreeSlots m)(c \<mapsto> threads_available h)\<rparr>)"
    | i rest sid m1 where "msg_kind (hdr_id (header msg)) = Some Worker_TaskDone" "pop_pod 8 u64_of_bytes msg = Ok (i, rest)"
        "acknowledge c i m = Some (sid, m1)" "begin_message c msg m = (Acked c rest sid, m1)"
    | "begin_message c msg m = (Idle, m)"
proof (cases "msg_kind (hdr_id (header msg))")
  case (Some k)
  show ?thesis
  proof (cases k)
    case Worker_Hello
    show ?thesis
    proof (cases "pop_pod 8 hello_of_bytes msg")
      case (Ok x)
      with Some Worker_Hello show ?thesis by (intro that(1) [of "fst x"]) (simp add: begin_message_def split: prod.split)
    qed (use Some Worker_Hello that in \<open>simp_all add: begin_message_def\<close>)
  next
    case Worker_TaskDone
    show ?thesis
    proof (cases "pop_pod 8 u64_of_bytes msg")
      case (Ok x)
      obtain i rest where x: "x = (i, rest)" by (cases x)
      show ?thesis
      proof (cases "acknowledge c i m")
        case None
        with Some Worker_TaskDone Ok x show ?thesis by (intro that(3)) (simp add: begin_message_def)
      next
        case (Some a)
        obtain sid m1 where "a = (sid, m1)" by (cases a)
        with Some \<open>msg_kind (hdr_id (header msg)) = Some k\<close> Worker_TaskDone Ok x show ?thesis
          by (intro that(2) [of i rest sid m1]) (simp_all add: begin_message_def)
      qed
    qed (use Some Worker_TaskDone that in \<open>simp_all add: begin_message_def\<close>)
  qed (use Some that in \<open>simp_all add: begin_message_def\<close>)
qed (use that in \<open>simp add: begin_message_def\<close>)

section \<open>A thread alone\<close>

inductive runs_to :: "os \<Rightarrow> TaskPayload \<Rightarrow> pc \<Rightarrow> master \<Rightarrow> master \<Rightarrow> bool" for os uninit where
  stop: "runs_to os uninit Idle m m"
| go: "p \<noteq> Idle \<Longrightarrow> lock_section os uninit p m = Ok (p1, m1) \<Longrightarrow> runs_to os uninit p1 m1 m' \<Longrightarrow> runs_to os uninit p m m'"

inductive_simps runs_to_Idle [simp]: "runs_to os uninit Idle m m'"

lemma runs_to_step:
  "p \<noteq> Idle \<Longrightarrow> runs_to os uninit p m m' \<longleftrightarrow>
    (\<exists>p1 m1. lock_section os uninit p m = Ok (p1, m1) \<and> runs_to os uninit p1 m1 m')"
  by (subst runs_to.simps) auto

lemma runs_to_Greeting: "runs_to os uninit (Greeting c n) m m' \<longleftrightarrow> m' = dispatch_loop n c m"
  by (induction n arbitrary: m) (auto simp: runs_to_step split: prod.splits)

lemma runs_to_Waking: "runs_to os uninit (Waking w n) m m' \<longleftrightarrow> runs_to os uninit Assigning (dispatch_loop n w m) m'"
  by (induction n arbitrary: m) (auto simp: runs_to_step [where p = "Waking w n" for n] split: prod.splits)

lemma runs_to_Assigning: "runs_to os uninit Assigning m m' \<longleftrightarrow> m' = AssignIdleWorkers m"
proof (induction m rule: AssignIdleWorkers.induct)
  case (1 m)
  show ?case
  proof (cases "m_pendingTasks m = [] \<or> m_idleWorkers m = []")
    case True
    then have "assign_pop m = None" "AssignIdleWorkers m = m" by (simp_all add: assign_pop_def assign_stop)
    then show ?thesis by (auto simp: runs_to_step [where p = Assigning and m = m])
  next
    case False
    show ?thesis
    proof (cases "m_workersFreeSlots m (hd (m_idleWorkers m))")
      case None
      with 1(1) [OF False refl refl] False show ?thesis
        by (simp add: runs_to_step [where p = Assigning and m = m] assign_pop_def Let_def assign_skip)
    next
      case (Some k)
      with 1(2) [OF False refl refl, of k] False show ?thesis
        by (simp add: runs_to_step [where p = Assigning and m = m] assign_pop_def Let_def assign_step runs_to_Waking)
    qed
  qed
qed

text \<open>What aggregation is made of.\<close>

lemma count_batch_bounded: "snd (count_batch b s) \<le> of_nat (length (cr_lines b))"
  by (simp add: count_batch_def Let_def)

lemma Aggregate_sections:
  "AggregateTaskResult os msg sid m = obind (DeserializeBatch msg) (\<lambda>(batch, _).
     (case count_section batch sid m of
        None \<Rightarrow> Throw (Runtime_Error (''[MASTER] Unknown search_id:'' @ nat_dec (unat sid)))
      | Some (lines, m) \<Rightarrow> Ok (if lines = [] then m else WriteResults os lines sid m)))"
proof (cases "DeserializeBatch msg")
  case (Ok p)
  obtain b r where p: "p = (b, r)" by (cases p)
  show ?thesis
  proof (cases "m_sessions m sid")
    case None
    with Ok p show ?thesis by (simp add: AggregateTaskResult_def count_section_def)
  next
    case (Some s)
    obtain s' n where cb: "count_batch b s = (s', n)" by (cases "count_batch b s")
    have cb': "count_batch (b\<lparr>cr_search_id := sid\<rparr>) s = (s', n)" unfolding cb [symmetric] by (simp add: count_batch_def Let_def)
    have n: "n \<le> of_nat (length (cr_lines b))" using count_batch_bounded [of b s] cb by simp
    have "cr_lines b \<noteq> []" if "0 < n" using n that by auto
    moreover have "0 < unat n" if "0 < n" using that by (simp add: unat_gt_0 word_gt_0)
    ultimately show ?thesis using Ok p Some cb cb'
      by (cases "0 < n") (auto simp: AggregateTaskResult_def count_section_def Let_def)
  qed
qed (simp_all add: AggregateTaskResult_def)

lemma runs_to_Finishing: "runs_to os uninit (Finishing sid) m m' \<longleftrightarrow> finish_chunk sid m = Ok m'"
  by (auto simp: runs_to_step [where p = "Finishing sid"] obind_eq_Ok)

lemma runs_to_Aggregating:
  "runs_to os uninit (Aggregating msg sid) m m'
    \<longleftrightarrow> obind (catch (AggregateTaskResult os msg sid m) m) (finish_chunk sid) = Ok m'"
proof -
  have written: "runs_to os uninit (Writing ls sid) m m' \<longleftrightarrow> finish_chunk sid (WriteResults os ls sid m) = Ok m'" for ls m
    by (simp add: runs_to_step [where p = "Writing ls sid"] runs_to_Finishing)
  show ?thesis
    by (cases "DeserializeBatch msg")
      (auto simp: runs_to_step [where p = "Aggregating msg sid"] Aggregate_sections runs_to_Finishing written
        split: option.splits prod.splits)
qed

lemma pop_pod_defined [simp]: "pop_pod n dec msg \<noteq> Undef"
  by (simp add: pop_pod_def Let_def)

lemma runs_to_message:
  "(case begin_message c msg m of (p, m1) \<Rightarrow> runs_to os uninit p m1 m') \<longleftrightarrow> OnMessage os c msg m = Ok m'"
proof (cases "msg_kind (hdr_id (header msg))")
  case (Some k)
  show ?thesis
  proof (cases k)
    case Worker_Hello
    with Some show ?thesis
      by (cases "pop_pod 8 hello_of_bytes msg")
        (auto simp: OnMessage_def begin_message_def runs_to_Greeting register_worker_def)
  next
    case Worker_TaskDone
    show ?thesis
    proof (cases "pop_pod 8 u64_of_bytes msg")
      case (Ok x)
      obtain i rest where x: "x = (i, rest)" by (cases x)
      show ?thesis
      proof (cases "acknowledge c i m")
        case (Some a)
        obtain sid m1 where a: "a = (sid, m1)" by (cases a)
        note OnMessage_done [OF _ Ok [unfolded x] Some [unfolded a], of os]
        with \<open>msg_kind (hdr_id (header msg)) = Some k\<close> Worker_TaskDone Ok x Some a show ?thesis
          by (simp add: begin_message_def runs_to_step [where p = "Acked c rest sid"] runs_to_Aggregating)
      qed (use Some Worker_TaskDone Ok x in \<open>auto simp: OnMessage_def begin_message_def\<close>)
    qed (use Some Worker_TaskDone in \<open>auto simp: OnMessage_def begin_message_def\<close>)
  qed (use Some in \<open>auto simp: OnMessage_def begin_message_def\<close>)
qed (auto simp: OnMessage_def begin_message_def)

lemma prepare_keeps: "prepare_search os uninit (m\<lparr>m_nextSearchId := i\<rparr>) f k c t sid = prepare_search os uninit m f k c t sid"
  by (simp add: prepare_search_def BuildSession_def)

lemma StartSearch_sections:
  "StartSearch os uninit filepath keyword config m =
    (case begin_search os filepath keyword config m of
       Ok (Searching _ _ _ target sid, m1) \<Rightarrow>
         obind_st (prepare_search os uninit m1 filepath keyword config target sid) m1 (\<lambda>(session, ts).
           (Ok sid, AssignIdleWorkers (AddPendingTasks session ts m1)))
     | Throw e \<Rightarrow> (Throw e, m) | Undef \<Rightarrow> (Undef, m) | Hang \<Rightarrow> (Hang, m))"
proof (cases "resolve_target os (m_input_dir m) filepath")
  case (Ok target)
  let ?m = "m\<lparr>m_nextSearchId := m_nextSearchId m + 1\<rparr>"
  show ?thesis
  proof (cases "BuildSession os ?m (m_nextSearchId m) config")
    case s: (Ok session)
    show ?thesis
      by (cases "collect_tasks os uninit target filepath keyword (m_nextSearchId m) config")
        (use Ok s in \<open>auto simp: StartSearch_def begin_search_def prepare_search_def AllocateSearchId_def Let_def\<close>)
  qed (use Ok in \<open>auto simp: StartSearch_def begin_search_def prepare_search_def AllocateSearchId_def\<close>)
qed (simp_all add: StartSearch_def begin_search_def)

section \<open>All threads\<close>

text \<open>Thread 0 is the one of \<^verbatim>\<open>main\<close>, the others belong to the HTTP server. \<open>world\<close> are the answers the file
  system may give; they may differ from section to section.\<close>

record runtime =
  rt_master :: master
  rt_threads :: "nat \<Rightarrow> pc"

definition advance :: "nat \<Rightarrow> pc \<times> master \<Rightarrow> runtime \<Rightarrow> runtime" where
  "advance i pm rt = rt\<lparr>rt_master := snd pm, rt_threads := (rt_threads rt)(i := fst pm)\<rparr>"

definition new_runtime :: "master \<Rightarrow> runtime" where
  "new_runtime m = \<lparr>rt_master = m, rt_threads = (\<lambda>_. Idle)\<rparr>"

text \<open>How many tasks a section publishes.\<close>

fun publishes :: "os \<Rightarrow> TaskPayload \<Rightarrow> pc \<Rightarrow> master \<Rightarrow> nat" where
  "publishes os uninit (Searching filepath keyword config targetCanon searchId) m =
     (case prepare_search os uninit m filepath keyword config targetCanon searchId of
        Ok (session, newTasks) \<Rightarrow> length newTasks | _ \<Rightarrow> 0)"
| "publishes os uninit p m = 0"

inductive own_step :: "(os \<Rightarrow> bool) \<Rightarrow> runtime \<Rightarrow> runtime \<Rightarrow> bool" for world where
  request: "world os \<Longrightarrow> i \<noteq> 0 \<Longrightarrow> rt_threads rt i = Idle \<Longrightarrow> within (rt_master rt) 0
    \<Longrightarrow> begin_search os filepath keyword config (rt_master rt) = Ok pm \<Longrightarrow> own_step world rt (advance i pm rt)"
| proceed: "world os \<Longrightarrow> posix_sizes os \<Longrightarrow> rt_threads rt i = p
    \<Longrightarrow> within (rt_master rt) (publishes os uninit p (rt_master rt))
    \<Longrightarrow> lock_section os uninit p (rt_master rt) = Ok pm \<Longrightarrow> own_step world rt (advance i pm rt)"
| lost: "rt_threads rt 0 = Idle \<Longrightarrow> (\<And>ts. mset (order ts) = mset ts) \<Longrightarrow> within (rt_master rt) 0
    \<Longrightarrow> own_step world rt (advance 0 (Assigning, reclaim order client (rt_master rt)) rt)"

inductive runtime_step :: "(os \<Rightarrow> bool) \<Rightarrow> runtime \<Rightarrow> runtime \<Rightarrow> bool" for world where
  own: "own_step world rt rt' \<Longrightarrow> runtime_step world rt rt'"
| message: "rt_threads rt 0 = Idle \<Longrightarrow> within (rt_master rt) 0
    \<Longrightarrow> runtime_step world rt (advance 0 (begin_message client msg (rt_master rt)) rt)"

inductive runtime_reachable :: "(os \<Rightarrow> bool) \<Rightarrow> runtime \<Rightarrow> bool" for world where
  start: "runtime_reachable world (new_runtime (new_master envInput envOutput))"
| step: "runtime_reachable world rt \<Longrightarrow> runtime_step world rt rt' \<Longrightarrow> runtime_reachable world rt'"

inductive_cases own_stepE: "own_step world rt rt'"

section \<open>Properties\<close>

text \<open>C8: The sections of a call, run one after the other, are the call: the message handler, the start of a
  search and the handler of a disconnection have the effect that \<open>MasterServer\<close> and \<open>MasterDispatch\<close> say, and
  a handler that runs into undefined behaviour has no such run.\<close>

theorem sections_make_calls:
  assumes "posix_sizes os"
  shows "((case begin_message c msg m of (p, m1) \<Rightarrow> runs_to os uninit p m1 m') \<longleftrightarrow> OnMessage os c msg m = Ok m')
    \<and> (case begin_search os filepath keyword config m of
         Ok (p, m1) \<Rightarrow> runs_to os uninit p m1 m' \<longleftrightarrow> m' = snd (StartSearch os uninit filepath keyword config m)
       | Throw e \<Rightarrow> StartSearch os uninit filepath keyword config m = (Throw e, m)
       | _ \<Rightarrow> False)
    \<and> (runs_to os uninit Assigning (reclaim order c m) m' \<longleftrightarrow> m' = OnClientDisconnect order c m)"
proof (intro conjI)
  show "(case begin_message c msg m of (p, m1) \<Rightarrow> runs_to os uninit p m1 m') \<longleftrightarrow> OnMessage os c msg m = Ok m'"
    by (rule runs_to_message)
  show "runs_to os uninit Assigning (reclaim order c m) m' \<longleftrightarrow> m' = OnClientDisconnect order c m"
    by (simp add: runs_to_Assigning OnClientDisconnect_reclaim)
  have "reported (begin_search os filepath keyword config m)"
    unfolding begin_search_def by (intro reported_obind reported_target) (simp add: AllocateSearchId_def)
  moreover have "runs_to os uninit p m1 m' \<longleftrightarrow> m' = snd (StartSearch os uninit filepath keyword config m)"
    if start: "begin_search os filepath keyword config m = Ok (p, m1)" for p m1
  proof -
    obtain target sid where p: "p = Searching filepath keyword config target sid"
      using start by (auto simp: begin_search_def AllocateSearchId_def obind_eq_Ok)
    have "reported (prepare_search os uninit m1 filepath keyword config target sid)"
      unfolding prepare_search_def
      by (intro reported_obind reported_session reported_collect [OF assms]) (auto split: prod.split)
    then show ?thesis
      by (cases "prepare_search os uninit m1 filepath keyword config target sid")
        (auto simp: StartSearch_sections start p reported_def runs_to_step [where p = "Searching f k c t s" for f k c t s] runs_to_Assigning)
  qed
  ultimately show "(case begin_search os filepath keyword config m of
         Ok (p, m1) \<Rightarrow> runs_to os uninit p m1 m' \<longleftrightarrow> m' = snd (StartSearch os uninit filepath keyword config m)
       | Throw e \<Rightarrow> StartSearch os uninit filepath keyword config m = (Throw e, m)
       | _ \<Rightarrow> False)"
    by (cases "begin_search os filepath keyword config m") (auto simp: reported_def StartSearch_sections)
qed

theorem sections_make_calls_witness:
  "(case begin_message 7 demo_hello demo_master of (p, m1) \<Rightarrow> runs_to demo_os new_task p m1 demo_busy)
   \<and> (case begin_search demo_os ''/x.log'' ''k'' default_config (new_master None None) of
        Ok (p, m1) \<Rightarrow> runs_to demo_os new_task p m1 demo_master | _ \<Rightarrow> False)"
proof -
  note calls = sections_make_calls [OF demo_posix, where uninit = new_task]
  have "case begin_message 7 demo_hello demo_master of (p, m1) \<Rightarrow> runs_to demo_os new_task p m1 demo_busy"
    using conjunct1 [OF calls [where c = 7 and msg = demo_hello and m = demo_master and m' = demo_busy]] demo_hello_run
    by (simp only: simp_thms)
  moreover have "case begin_search demo_os ''/x.log'' ''k'' default_config (new_master None None) of
        Ok (p, m1) \<Rightarrow> runs_to demo_os new_task p m1 demo_master | _ \<Rightarrow> False"
    using calls [where filepath = "''/x.log''" and keyword = "''k''" and config = default_config
        and m = "new_master None None" and m' = demo_master] demo_run
    by (auto split: outcome.splits)
  ultimately show ?thesis ..
qed

end
