(* ===== verification/MasterBooks.thy ===== *)
theory MasterBooks
  imports MasterThreads
begin

text \<open>
  The books of the searches while the master's threads run in any order
  (\<^verbatim>\<open>NetServer/src/MasterServer.cpp\<close>): the invariant of \<open>MasterServer\<close>, stated between two lock sections of
  \<open>MasterThreads\<close>, where a task may be in the hand of the thread that handles messages and a number in the
  hand of one that starts a search.
\<close>

section \<open>The books\<close>

text \<open>The search whose task a thread has taken off the registry and not counted yet, and the search whose
  number a thread has taken.\<close>

primrec in_hand :: "pc \<Rightarrow> u64 option" where
  "in_hand Idle = None"
| "in_hand (Searching filepath keyword config target sid) = None"
| "in_hand Assigning = None"
| "in_hand (Waking w n) = None"
| "in_hand (Greeting c n) = None"
| "in_hand (Acked c msg sid) = Some sid"
| "in_hand (Aggregating msg sid) = Some sid"
| "in_hand (Writing ls sid) = Some sid"
| "in_hand (Finishing sid) = Some sid"

definition hand :: "u64 \<Rightarrow> pc \<Rightarrow> nat" where
  "hand sid p = (if in_hand p = Some sid then 1 else 0)"

fun searching :: "pc \<Rightarrow> u64 option" where
  "searching (Searching filepath keyword config target sid) = Some sid"
| "searching p = None"

definition session_books :: "u64 \<Rightarrow> SearchSession \<Rightarrow> master \<Rightarrow> pc \<Rightarrow> bool" where
  "session_books sid s m p \<longleftrightarrow> ss_search_id s = sid \<and> unat sid < unat (m_nextSearchId m)
     \<and> ss_line_count s \<le> ss_max_results s
     \<and> unat (ss_chunks_done s) + held sid (work m) + hand sid p < 2 ^ 31
     \<and> unat (ss_chunks_total s) = unat (ss_chunks_done s) + held sid (work m) + hand sid p"

definition books :: "master \<Rightarrow> pc \<Rightarrow> bool" where
  "books m p \<longleftrightarrow> flight_ok m \<and> (\<forall>t \<in># work m. tp_search_id t \<in> dom (m_sessions m))
     \<and> (\<forall>sid. in_hand p = Some sid \<longrightarrow> sid \<in> dom (m_sessions m))
     \<and> (\<forall>sid s. m_sessions m sid = Some s \<longrightarrow> session_books sid s m p)"

definition taken :: "runtime \<Rightarrow> bool" where
  "taken rt \<longleftrightarrow> (\<forall>i sid. searching (rt_threads rt i) = Some sid \<longrightarrow> sid \<notin> dom (m_sessions (rt_master rt))
       \<and> unat sid < unat (m_nextSearchId (rt_master rt)))
     \<and> (\<forall>i j sid. searching (rt_threads rt i) = Some sid \<longrightarrow> searching (rt_threads rt j) = Some sid \<longrightarrow> i = j)"

definition runtime_inv :: "runtime \<Rightarrow> bool" where
  "runtime_inv rt \<longleftrightarrow> books (rt_master rt) (rt_threads rt 0) \<and> taken rt
     \<and> (\<forall>i. i \<noteq> 0 \<longrightarrow> in_hand (rt_threads rt i) = None)"

definition same_books :: "master \<Rightarrow> master \<Rightarrow> bool" where
  "same_books m m' \<longleftrightarrow> flight_ok m' \<and> work m' = work m \<and> m_sessions m' = m_sessions m
     \<and> m_nextSearchId m' = m_nextSearchId m"

lemma booksD:
  assumes "books m p"
  shows "flight_ok m" "t \<in># work m \<Longrightarrow> tp_search_id t \<in> dom (m_sessions m)"
    "in_hand p = Some sid \<Longrightarrow> sid \<in> dom (m_sessions m)" "m_sessions m sid = Some s \<Longrightarrow> session_books sid s m p"
  using assms unfolding books_def by blast+

lemma booksI:
  assumes "flight_ok m" and "\<And>t. t \<in># work m \<Longrightarrow> tp_search_id t \<in> dom (m_sessions m)"
    and "\<And>sid. in_hand p = Some sid \<Longrightarrow> sid \<in> dom (m_sessions m)"
    and "\<And>sid s. m_sessions m sid = Some s \<Longrightarrow> session_books sid s m p"
  shows "books m p"
  using assms unfolding books_def by blast

lemma flight_ok_frame:
  "m_inFlightTasks m' = m_inFlightTasks m \<Longrightarrow> m_nextTaskId m' = m_nextTaskId m \<Longrightarrow> flight_ok m' \<longleftrightarrow> flight_ok m"
  by (simp add: flight_ok_def)

lemma work_frame:
  "m_inFlightTasks m' = m_inFlightTasks m \<Longrightarrow> m_pendingTasks m' = m_pendingTasks m \<Longrightarrow> work m' = work m"
  by (simp add: work_def)

text \<open>One session of a state is replaced by another with balanced books.\<close>

lemma books_update:
  assumes ok: "books m p" and m': "m' = m\<lparr>m_sessions := (m_sessions m)(sid \<mapsto> s')\<rparr>"
    and s: "m_sessions m sid = Some s" and s': "session_books sid s' m p'"
    and others: "\<And>i. i \<noteq> sid \<Longrightarrow> hand i p' = hand i p" and "\<And>i. in_hand p' = Some i \<Longrightarrow> in_hand p = Some i"
  shows "books m' p'" "m_nextSearchId m' = m_nextSearchId m" "dom (m_sessions m') = dom (m_sessions m)"
proof -
  have work: "work m' = work m" and fl: "flight_ok m' \<longleftrightarrow> flight_ok m" unfolding m' by (intro work_frame flight_ok_frame, simp_all)+
  have dom: "dom (m_sessions m') = dom (m_sessions m)" using s by (auto simp: m')
  have "session_books i t m' p'" if "m_sessions m' i = Some t" for i t
  proof (cases "i = sid")
    case True
    with that s' show ?thesis unfolding session_books_def work by (simp add: m')
  next
    case False
    with that have "session_books i t m p" using ok by (simp add: books_def m')
    with others [OF False] show ?thesis unfolding session_books_def work by (simp add: m')
  qed
  with ok assms(6) show "books m' p'" unfolding books_def work fl dom by blast
  show "m_nextSearchId m' = m_nextSearchId m" "dom (m_sessions m') = dom (m_sessions m)" using dom by (simp_all add: m')
qed

lemma books_same: "books m p \<Longrightarrow> same_books m m' \<Longrightarrow> in_hand p' = in_hand p \<Longrightarrow> books m' p'"
  by (simp add: books_def same_books_def session_books_def hand_def)

lemma same_books_conserved: "conserved m m' \<Longrightarrow> same_books m m'"
  by (simp add: conserved_def same_books_def)

lemma same_books_dispatch: "flight_ok m \<Longrightarrow> room m \<Longrightarrow> same_books m (snd (DispatchNextTask c m))"
  by (intro same_books_conserved conserved_dispatch conserved_refl)

lemma same_books_pop: "flight_ok m \<Longrightarrow> assign_pop m = Some (x, m') \<Longrightarrow> same_books m m'"
  by (auto simp: assign_pop_def Let_def same_books_def flight_ok_frame [of "m\<lparr>m_idleWorkers := q\<rparr>" m for q]
      flight_ok_frame [of "m\<lparr>m_idleWorkers := q, m_idleWorkersIds := i\<rparr>" m for q i] work_def
      split: if_splits option.splits)

lemma same_books_write: "flight_ok m \<Longrightarrow> same_books m (WriteResults os ls sid m)"
  using flight_ok_frame [of "WriteResults os ls sid m" m] work_frame [of "WriteResults os ls sid m" m]
  by (simp add: same_books_def frame_simps)

lemma acknowledge_books:
  assumes ok: "books m p" "in_hand p = None" and ack: "acknowledge c i m = Some (sid, m')" and p': "in_hand p' = Some sid"
  shows "books m' p'" and "m_sessions m' = m_sessions m" and "m_nextSearchId m' = m_nextSearchId m"
proof -
  note eff = acknowledge_conserves [OF ack booksD(1) [OF ok(1)]]
  then obtain t where t: "tp_search_id (strip_id t) = sid" and w: "work m = add_mset (strip_id t) (work m')" by auto
  show ses: "m_sessions m' = m_sessions m" and nxt: "m_nextSearchId m' = m_nextSearchId m" using eff by blast+
  have dom: "tp_search_id u \<in> dom (m_sessions m)" if "u \<in># add_mset (strip_id t) (work m')" for u
    using booksD(2) [OF ok(1)] that unfolding w .
  show "books m' p'"
  proof (rule booksI)
    show "flight_ok m'" using eff by blast
    show "tp_search_id u \<in> dom (m_sessions m')" if "u \<in># work m'" for u unfolding ses by (rule dom) (simp add: that)
    show "j \<in> dom (m_sessions m')" if "in_hand p' = Some j" for j
      using dom [of "strip_id t"] t that p' unfolding ses by simp
    show "session_books j s m' p'" if s: "m_sessions m' j = Some s" for j s
    proof -
      have "session_books j s m p" using booksD(4) [OF ok(1)] s ses by simp
      then show ?thesis
        using t ok(2) p' by (cases "j = sid") (simp_all add: session_books_def hand_def w nxt)
    qed
  qed
qed

lemma count_books:
  assumes ok: "books m p" and run: "count_section b sid m = Some (ls, m')" and p': "in_hand p' = in_hand p"
  shows "books m' p'" and "m_nextSearchId m' = m_nextSearchId m" and "dom (m_sessions m') = dom (m_sessions m)"
proof -
  from run obtain s where s: "m_sessions m sid = Some s"
    and m': "m' = m\<lparr>m_sessions := (m_sessions m)(sid \<mapsto> fst (count_batch b s))\<rparr>"
    by (auto simp: count_section_def split: option.splits prod.splits)
  have "session_books sid s m p" using booksD(4) [OF ok s] .
  then have "session_books sid (fst (count_batch b s)) m p'"
    using count_batch_bound [of s b] p' by (simp add: session_books_def frame_simps hand_def)
  note keep = books_update [OF ok m' s this]
  show "books m' p'" "m_nextSearchId m' = m_nextSearchId m" "dom (m_sessions m') = dom (m_sessions m)"
    by (rule keep; simp add: hand_def p')+
qed

lemma finish_books:
  assumes ok: "books m p" and hand: "in_hand p = Some sid" and fin: "finish_chunk sid m = Ok m'" and p': "in_hand p' = None"
  shows "books m' p'" and "m_nextSearchId m' = m_nextSearchId m" and "dom (m_sessions m') = dom (m_sessions m)"
proof -
  from booksD(3) [OF ok hand] obtain s where s: "m_sessions m sid = Some s" by blast
  let ?s = "s\<lparr>ss_chunks_done := ss_chunks_done s + 1\<rparr>"
  from fin s have m': "m' = m\<lparr>m_sessions := (m_sessions m)(sid \<mapsto> ?s)\<rparr>"
    by (auto simp: finish_chunk_def split: if_splits)
  have b: "session_books sid s m p" using booksD(4) [OF ok s] .
  then have "unat (ss_chunks_done s + 1) = unat (ss_chunks_done s) + 1"
    using hand by (intro unat_plus_1) (simp add: session_books_def hand_def)
  with b hand p' have "session_books sid ?s m p'" by (simp add: session_books_def hand_def)
  note keep = books_update [OF ok m' s this]
  show "books m' p'" "m_nextSearchId m' = m_nextSearchId m" "dom (m_sessions m') = dom (m_sessions m)"
    by (rule keep; simp add: hand_def p' hand)+
qed

lemma prepare_Ok:
  assumes "prepare_search os uninit m filepath keyword config target sid = Ok (session, ts)"
  obtains path errs where "session = new_session\<lparr>ss_search_id := sid, ss_max_results := max_results config,
      ss_path := path, ss_scan_errors := errs\<rparr>"
    and "CreateSessionFilePath os (m_base_dir m) (output_dir config) sid = Ok path"
    and "collect_tasks os uninit target filepath keyword sid config = Ok (ts, errs)"
  using assms by (auto simp: prepare_search_def BuildSession_def obind_eq_Ok split: if_splits)

lemma publish_books:
  assumes ok: "books m p" and prep: "prepare_search os uninit m filepath keyword config target sid = Ok (session, ts)"
    and posix: "posix_sizes os" and n: "within m (length ts)"
    and sid: "sid \<notin> dom (m_sessions m)" "unat sid < unat (m_nextSearchId m)"
  shows "books (AddPendingTasks session ts m) p" "m_nextSearchId (AddPendingTasks session ts m) = m_nextSearchId m"
    "dom (m_sessions (AddPendingTasks session ts m)) = insert sid (dom (m_sessions m))"
    "work (AddPendingTasks session ts m) = work m + image_mset strip_id (mset ts)"
proof -
  let ?m = "AddPendingTasks session ts m" and ?s = "session\<lparr>ss_chunks_total := of_nat (length ts)\<rparr>"
  obtain path errs where session: "session = new_session\<lparr>ss_search_id := sid, ss_max_results := max_results config,
      ss_path := path, ss_scan_errors := errs\<rparr>"
    and coll: "collect_tasks os uninit target filepath keyword sid config = Ok (ts, errs)"
    using prep by (rule prepare_Ok)
  have m: "?m = m\<lparr>m_sessions := (m_sessions m)(sid \<mapsto> ?s), m_pendingTasks := m_pendingTasks m @ ts\<rparr>"
    by (simp add: AddPendingTasks_def session Let_def)
  show work: "work ?m = work m + image_mset strip_id (mset ts)" by (simp add: m work_def)
  show nxt: "m_nextSearchId ?m = m_nextSearchId m" and dom: "dom (m_sessions ?m) = insert sid (dom (m_sessions m))"
    by (simp_all add: m)
  have held_new: "held i (image_mset strip_id (mset ts)) = (if i = sid then length ts else 0)" for i
    using collect_search_id(1) [OF posix coll] by (induction ts) auto
  have none: "tp_search_id t \<noteq> sid" if "t \<in># work m" for t using booksD(2) [OF ok that] sid(1) by auto
  have "filter_mset (\<lambda>t. tp_search_id t = sid) (work m) = filter_mset (\<lambda>_. False) (work m)"
    using none by (intro filter_mset_cong) auto
  then have held_old: "held sid (work m) = 0" by (simp add: held_def)
  have idle: "in_hand p \<noteq> Some sid" using booksD(3) [OF ok] sid(1) by blast
  show "books ?m p"
  proof (rule booksI)
    show "flight_ok ?m" using flight_ok_frame [of ?m m] booksD(1) [OF ok] by (simp add: m)
    show "tp_search_id t \<in> dom (m_sessions ?m)" if "t \<in># work ?m" for t
      using that booksD(2) [OF ok] collect_search_id(1) [OF posix coll] unfolding work dom by (auto simp: strip_id_def)
    show "i \<in> dom (m_sessions ?m)" if "in_hand p = Some i" for i using booksD(3) [OF ok that] unfolding dom by simp
    show "session_books i s ?m p" if s: "m_sessions ?m i = Some s" for i s
    proof (cases "i = sid")
      case True
      have "unat (of_nat (length ts) :: cint) = length ts"
        using n by (intro unat_of_nat_u32) (simp add: within_def)
      have "s = ?s" using s True unfolding m by simp
      moreover have "session_books sid ?s ?m p"
        unfolding session_books_def work nxt using \<open>unat (of_nat (length ts) :: cint) = length ts\<close> held_old idle n sid(2)
        by (simp add: session new_session_def held_new hand_def within_def)
      ultimately show ?thesis using True by simp
    next
      case False
      with s have "session_books i s m p" by (intro booksD(4) [OF ok]) (simp add: m)
      with False show ?thesis unfolding session_books_def work by (simp add: held_new) (simp add: m)
    qed
  qed
qed

lemma takenD:
  assumes "taken rt" and "searching (rt_threads rt i) = Some sid"
  shows "sid \<notin> dom (m_sessions (rt_master rt))" "unat sid < unat (m_nextSearchId (rt_master rt))"
    "searching (rt_threads rt j) = Some sid \<Longrightarrow> j = i"
  using assms unfolding taken_def by blast+

lemma advance_simps [simp]:
  "rt_master (advance i pm rt) = snd pm" "rt_threads (advance i pm rt) = (rt_threads rt)(i := fst pm)"
  by (simp_all add: advance_def)

lemma taken_advance:
  assumes ok: "taken rt" and p: "searching (fst pm) \<noteq> None \<Longrightarrow> searching (fst pm) = searching (rt_threads rt i)"
    and m: "dom (m_sessions (snd pm)) = dom (m_sessions (rt_master rt))" "m_nextSearchId (snd pm) = m_nextSearchId (rt_master rt)"
  shows "taken (advance i pm rt)"
proof -
  have old: "searching (((rt_threads rt)(i := fst pm)) j) = Some sid \<Longrightarrow> searching (rt_threads rt j) = Some sid" for j sid
    using p by (cases "j = i") auto
  show ?thesis unfolding taken_def advance_simps m using takenD [OF ok old] old by blast
qed

lemma taken_publish:
  assumes ok: "taken rt" and old: "searching (rt_threads rt i) = Some sid" and new: "searching (fst pm) = None"
    and m: "dom (m_sessions (snd pm)) = insert sid (dom (m_sessions (rt_master rt)))"
      "m_nextSearchId (snd pm) = m_nextSearchId (rt_master rt)"
  shows "taken (advance i pm rt)"
proof -
  have keep: "searching (rt_threads rt j) = Some k \<and> j \<noteq> i" if "searching (((rt_threads rt)(i := fst pm)) j) = Some k" for j k
    using that new by (cases "j = i") auto
  then have "k \<noteq> sid" if "searching (((rt_threads rt)(i := fst pm)) j) = Some k" for j k
    using that takenD(3) [OF ok old] by blast
  then show ?thesis unfolding taken_def advance_simps m using takenD [OF ok] keep by (metis insert_iff)
qed

lemma taken_request:
  assumes ok: "taken rt" and n: "within (rt_master rt) 0"
    and run: "begin_search os filepath keyword config (rt_master rt) = Ok pm"
    and old: "\<And>sid. sid \<in> dom (m_sessions (rt_master rt)) \<Longrightarrow> unat sid < unat (m_nextSearchId (rt_master rt))"
  shows "taken (advance i pm rt)"
proof -
  let ?m = "rt_master rt"
  obtain target where pm: "pm = (Searching filepath keyword config target (m_nextSearchId ?m),
      ?m\<lparr>m_nextSearchId := m_nextSearchId ?m + 1\<rparr>)"
    using run by (auto simp: begin_search_def AllocateSearchId_def obind_eq_Ok)
  have nxt: "unat (m_nextSearchId ?m + 1) = unat (m_nextSearchId ?m) + 1"
    using n by (intro unat_plus_1) (simp add: within_def)
  have new: "j = i \<and> sid = m_nextSearchId ?m \<or> j \<noteq> i \<and> searching (rt_threads rt j) = Some sid"
    if "searching (((rt_threads rt)(i := fst pm)) j) = Some sid" for j sid
    using that by (cases "j = i") (auto simp: pm)
  have "sid \<notin> dom (m_sessions ?m) \<and> unat sid < unat (m_nextSearchId ?m) + 1"
    if "searching (((rt_threads rt)(i := fst pm)) j) = Some sid" for j sid
    using new [OF that] takenD(1,2) [OF ok] old by (metis less_irrefl less_Suc_eq Suc_eq_plus1)
  moreover have "j = k" if "searching (((rt_threads rt)(i := fst pm)) j) = Some sid"
    "searching (((rt_threads rt)(i := fst pm)) k) = Some sid" for j k sid
    using new [OF that(1)] new [OF that(2)] takenD(2,3) [OF ok] by (metis less_irrefl)
  moreover have "dom (m_sessions (snd pm)) = dom (m_sessions ?m)"
    "unat (m_nextSearchId (snd pm)) = unat (m_nextSearchId ?m) + 1" by (simp_all add: pm nxt)
  ultimately show ?thesis unfolding taken_def advance_simps by (simp only:) blast
qed

lemma runtime_invD:
  assumes "runtime_inv rt"
  shows "books (rt_master rt) (rt_threads rt 0)" "taken rt" "i \<noteq> 0 \<Longrightarrow> in_hand (rt_threads rt i) = None"
  using assms unfolding runtime_inv_def by blast+

text \<open>A section that leaves the books alone, and one of thread 0 that keeps them.\<close>

lemma inv_same:
  assumes inv: "runtime_inv rt" and same: "same_books (rt_master rt) (snd pm)"
    and p: "in_hand (fst pm) = in_hand (rt_threads rt i)"
      "searching (fst pm) \<noteq> None \<Longrightarrow> searching (fst pm) = searching (rt_threads rt i)"
  shows "runtime_inv (advance i pm rt)"
proof -
  have "books (snd pm) (rt_threads (advance i pm rt) 0)"
    by (rule books_same [OF runtime_invD(1) [OF inv] same]) (use p(1) in simp)
  moreover have "taken (advance i pm rt)"
    by (rule taken_advance [OF runtime_invD(2) [OF inv] p(2)]) (use same in \<open>simp_all add: same_books_def\<close>)
  moreover have "in_hand (rt_threads (advance i pm rt) j) = None" if "j \<noteq> 0" for j
    using runtime_invD(3) [OF inv that] p(1) by auto
  ultimately show ?thesis unfolding runtime_inv_def by simp
qed

lemma inv_main:
  assumes inv: "runtime_inv rt" and ok: "books (snd pm) (fst pm)" and p: "searching (fst pm) = None"
    and m: "dom (m_sessions (snd pm)) = dom (m_sessions (rt_master rt))" "m_nextSearchId (snd pm) = m_nextSearchId (rt_master rt)"
  shows "runtime_inv (advance 0 pm rt)"
proof -
  have "taken (advance 0 pm rt)" by (rule taken_advance [OF runtime_invD(2) [OF inv] _ m]) (use p in simp)
  with ok runtime_invD(3) [OF inv] show ?thesis by (simp add: runtime_inv_def)
qed

lemma inv_publish_section:
  assumes inv: "runtime_inv rt" and p: "rt_threads rt i = Searching filepath keyword config target sid"
    and prep: "prepare_search os uninit (rt_master rt) filepath keyword config target sid = Ok (session, ts)"
    and posix: "posix_sizes os" and n: "within (rt_master rt) (length ts)"
  shows "runtime_inv (advance i (Assigning, AddPendingTasks session ts (rt_master rt)) rt)"
proof -
  have old: "searching (rt_threads rt i) = Some sid" by (simp add: p)
  note tk = takenD [OF runtime_invD(2) [OF inv] old]
  note pub = publish_books [OF runtime_invD(1) [OF inv] prep posix n tk(1,2)]
  have "in_hand (((rt_threads rt)(i := Assigning)) 0) = in_hand (rt_threads rt 0)" using p by (cases "i = 0") simp_all
  then have "books (AddPendingTasks session ts (rt_master rt)) (((rt_threads rt)(i := Assigning)) 0)"
    using pub(1) by (simp add: books_def session_books_def hand_def)
  moreover have "taken (advance i (Assigning, AddPendingTasks session ts (rt_master rt)) rt)"
    by (rule taken_publish [OF runtime_invD(2) [OF inv] old]) (use pub(2,3) in simp_all)
  moreover have "in_hand (((rt_threads rt)(i := Assigning)) j) = None" if "j \<noteq> 0" for j
    using runtime_invD(3) [OF inv that] by simp
  ultimately show ?thesis unfolding runtime_inv_def by simp
qed

lemma inv_proceed:
  assumes inv: "runtime_inv rt" and posix: "posix_sizes os" and p: "rt_threads rt i = p"
    and n: "within (rt_master rt) (publishes os uninit p (rt_master rt))"
    and run: "lock_section os uninit p (rt_master rt) = Ok pm"
  shows "runtime_inv (advance i pm rt)"
proof -
  let ?m = "rt_master rt"
  note ok = booksD(1) [OF runtime_invD(1) [OF inv]] and room = room_of_within [OF n]
  have refl: "same_books ?m ?m" using ok by (simp add: same_books_def)
  note disp = same_books_dispatch [OF ok room]
  have main: "i = 0" if "in_hand p \<noteq> None" using runtime_invD(3) [OF inv, of i] that p by force
  note same = inv_same [OF inv, of pm i]
  show ?thesis
  proof (cases p)
    case (Searching f k c t sid)
    with run show ?thesis
    proof (cases "prepare_search os uninit ?m f k c t sid")
      case (Ok x)
      obtain session ts where x: "x = (session, ts)" by (cases x)
      with Searching Ok run p n posix show ?thesis
        using inv_publish_section [OF inv, of i f k c t sid os uninit session ts] by auto
    qed (use Searching run p refl in \<open>(intro same; force)+\<close>)
  next
    case Assigning
    with run p refl show ?thesis
      by (intro same) (auto dest: same_books_pop [OF ok] split: option.splits prod.splits)
  next
    case (Waking w k)
    with run p refl disp [of w] show ?thesis by (cases k; intro same) (auto split: prod.splits if_splits)
  next
    case (Greeting c k)
    with run p refl disp [of c] show ?thesis by (cases k; intro same) (auto split: prod.splits if_splits)
  next
    case (Aggregating msg sid)
    then have i: "i = 0" using main by simp
    show ?thesis
    proof (cases "DeserializeBatch msg")
      case (Ok x)
      obtain batch r where x: "x = (batch, r)" by (cases x)
      show ?thesis
      proof (cases "count_section batch sid ?m")
        case None
        with run Aggregating Ok x p refl show ?thesis by (intro same) auto
      next
        case (Some y)
        obtain ls m1 where y: "y = (ls, m1)" by (cases y)
        have pm: "snd pm = m1" "in_hand (fst pm) = in_hand p" "searching (fst pm) = None"
          using run Aggregating Ok x Some y by (auto split: if_splits)
        note counted = count_books [OF runtime_invD(1) [OF inv] Some [unfolded y]]
        show ?thesis unfolding i
          by (rule inv_main [OF inv]) (use counted pm p i in simp_all)
      qed
    qed (use run Aggregating p refl in \<open>(intro same; force)+\<close>)
  next
    case (Finishing sid)
    then have i: "i = 0" using main by simp
    from run Finishing obtain m1 where fin: "finish_chunk sid ?m = Ok m1" and pm: "pm = (Idle, m1)"
      by (auto simp: obind_eq_Ok)
    have "in_hand (rt_threads rt 0) = Some sid" "in_hand Idle = None" using Finishing p i by simp_all
    note finished = finish_books [OF runtime_invD(1) [OF inv] this(1) fin this(2)]
    show ?thesis unfolding i pm by (rule inv_main [OF inv]) (use finished in simp_all)
  qed (use run p refl disp same_books_write [OF ok] in \<open>(intro same; force)+\<close>)
qed

lemma inv_own:
  assumes inv: "runtime_inv rt" and step: "own_step world rt rt'"
  shows "runtime_inv rt'"
  using step
proof cases
  case (request os i filepath keyword config pm)
  note rt' = request(1) and i = request(3,4) and n = request(5) and run = request(6)
  let ?m = "rt_master rt"
  obtain target where pm: "pm = (Searching filepath keyword config target (m_nextSearchId ?m),
      ?m\<lparr>m_nextSearchId := m_nextSearchId ?m + 1\<rparr>)"
    using run by (auto simp: begin_search_def AllocateSearchId_def obind_eq_Ok)
  have nxt: "unat (m_nextSearchId ?m + 1) = unat (m_nextSearchId ?m) + 1"
    using n by (intro unat_plus_1) (simp add: within_def)
  have old: "unat sid < unat (m_nextSearchId ?m)" if "sid \<in> dom (m_sessions ?m)" for sid
    using that booksD(4) [OF runtime_invD(1) [OF inv]] by (auto simp: session_books_def)
  note ok = runtime_invD(1) [OF inv]
  have "books (snd pm) (rt_threads rt 0)"
  proof (rule booksI)
    show "flight_ok (snd pm)" using booksD(1) [OF ok] flight_ok_frame [of "snd pm" ?m] by (simp add: pm)
    show "tp_search_id t \<in> dom (m_sessions (snd pm))" if "t \<in># work (snd pm)" for t
      using that booksD(2) [OF ok] work_frame [of "snd pm" ?m] by (simp add: pm)
    show "sid \<in> dom (m_sessions (snd pm))" if "in_hand (rt_threads rt 0) = Some sid" for sid
      using booksD(3) [OF ok that] by (simp add: pm)
    show "session_books sid s (snd pm) (rt_threads rt 0)" if "m_sessions (snd pm) sid = Some s" for sid s
      using booksD(4) [OF ok, of sid s] that work_frame [of "snd pm" ?m] nxt by (simp add: pm session_books_def)
  qed
  then show "runtime_inv rt'"
    using taken_request [OF runtime_invD(2) [OF inv] n run old] runtime_invD(3) [OF inv] i
    unfolding runtime_inv_def rt' by (simp add: pm)
next
  case (proceed os i p uninit pm)
  then show ?thesis using inv_proceed [OF inv] by simp
next
  case (lost order client)
  note idle = lost(2) and order = lost(3) and n = lost(4)
  have "conserved (rt_master rt) (reclaim order client (rt_master rt))"
    by (rule reclaim_conserves) (use n order booksD(1) [OF runtime_invD(1) [OF inv]] in \<open>simp_all add: within_def\<close>)
  then show "runtime_inv rt'"
    unfolding lost(1) using idle by (intro inv_same [OF inv]) (simp_all add: same_books_conserved)
qed

lemma inv_begin_message:
  assumes inv: "runtime_inv rt" and idle: "rt_threads rt 0 = Idle"
  shows "runtime_inv (advance 0 (begin_message client msg (rt_master rt)) rt)"
proof -
  let ?m = "rt_master rt"
  note ok = runtime_invD(1) [OF inv]
  show ?thesis
  proof (cases rule: begin_message_cases [of client msg ?m])
    case (hello h)
    have "same_books ?m (snd (begin_message client msg ?m))"
      unfolding hello using booksD(1) [OF ok] by (simp add: same_books_def work_def flight_ok_def)
    with hello idle show ?thesis by (intro inv_same [OF inv]) simp_all
  next
    case (acked i rest sid m1)
    have "in_hand (rt_threads rt 0) = None" "in_hand (Acked client rest sid) = Some sid" using idle by simp_all
    note ack = acknowledge_books [OF ok this(1) acked(3) this(2)]
    show ?thesis unfolding acked(4) by (rule inv_main [OF inv]) (use ack in simp_all)
  next
    case none
    have "same_books ?m ?m" using booksD(1) [OF ok] by (simp add: same_books_def)
    with none idle show ?thesis by (intro inv_same [OF inv]) simp_all
  qed
qed

lemma inv_runtime_step: "runtime_step world rt rt' \<Longrightarrow> runtime_inv rt \<Longrightarrow> runtime_inv rt'"
  by (induction rule: runtime_step.induct) (simp_all add: inv_own inv_begin_message)

lemma inv_new: "runtime_inv (new_runtime (new_master envInput envOutput))"
  using inv_start [of envInput envOutput]
  by (simp add: runtime_inv_def new_runtime_def books_def taken_def master_inv_def new_master_def work_def)

lemma reachable_runtime_inv: "runtime_reachable world rt \<Longrightarrow> runtime_inv rt"
  by (induction rule: runtime_reachable.induct) (auto intro: inv_new inv_runtime_step)

section \<open>The small run, section by section\<close>

lemma demo_prepared:
  "case prepare_search demo_os new_task (new_master None None) ''/x.log'' ''k'' default_config ''/app/data/x.log'' 0 of
     Ok x \<Rightarrow> True | _ \<Rightarrow> False"
  by code_simp

lemma demo_asks:
  "begin_search demo_os ''/x.log'' ''k'' default_config (new_master None None)
    = Ok (Searching ''/x.log'' ''k'' default_config ''/app/data/x.log'' 0, (new_master None None)\<lparr>m_nextSearchId := 1\<rparr>)"
  using demo_target by (simp add: begin_search_def AllocateSearchId_def new_master_def)

lemma demo_request:
  "own_step (\<lambda>os. os = demo_os) (new_runtime (new_master None None))
    (advance 1 (Searching ''/x.log'' ''k'' default_config ''/app/data/x.log'' 0, (new_master None None)\<lparr>m_nextSearchId := 1\<rparr>)
      (new_runtime (new_master None None)))"
  by (rule own_step.request [where os = demo_os and filepath = "''/x.log''" and keyword = "''k''" and config = default_config])
    (use demo_asks in \<open>simp_all add: new_runtime_def within_new\<close>)

section \<open>Properties\<close>

text \<open>C3: The books of a search are right at every moment, whatever the threads do in between: its total is
  its chunks done, waiting and in flight and the one the message thread has in hand, so that it is
  reported done only when none of its chunks is anywhere; and it never has more lines than its limit.\<close>

theorem interleaved_accounting:
  assumes "runtime_reachable world rt" and "GetStatus sid (rt_master rt) = Some st"
  shows "unat (st_chunks_total st) = unat (st_chunks_done st) + held sid (work (rt_master rt)) + hand sid (rt_threads rt 0)
    \<and> (st_state st = Done \<longleftrightarrow> held sid (work (rt_master rt)) = 0 \<and> in_hand (rt_threads rt 0) \<noteq> Some sid)
    \<and> (\<exists>s. m_sessions (rt_master rt) sid = Some s \<and> st_lines_found st = ss_line_count s
        \<and> ss_line_count s \<le> ss_max_results s)"
proof -
  from assms(2) obtain s where s: "m_sessions (rt_master rt) sid = Some s" by (auto simp: GetStatus_def)
  then have ok: "session_books sid s (rt_master rt) (rt_threads rt 0)"
    by (rule booksD(4) [OF runtime_invD(1) [OF reachable_runtime_inv [OF assms(1)]]])
  then have "ss_chunks_done s = ss_chunks_total s \<longleftrightarrow> held sid (work (rt_master rt)) = 0 \<and> in_hand (rt_threads rt 0) \<noteq> Some sid"
    unfolding word_eq_unat session_books_def hand_def by (auto split: if_splits)
  moreover from assms(2) s have "st_chunks_total st = ss_chunks_total s" "st_chunks_done st = ss_chunks_done s"
    "st_lines_found st = ss_line_count s"
    "st_state st = (if ss_chunks_done s = ss_chunks_total s then Done else Running)"
    by (auto simp: GetStatus_def)
  ultimately show ?thesis using s ok by (simp add: session_books_def)
qed

theorem interleaved_accounting_witness:
  "\<exists>rt st. runtime_reachable (\<lambda>os. os = demo_os) rt \<and> GetStatus 0 (rt_master rt) = Some st \<and> st_chunks_total st = 1
    \<and> 1 = unat (st_chunks_done st) + held 0 (work (rt_master rt)) + hand 0 (rt_threads rt 0)"
proof -
  let ?start = "new_runtime (new_master None None)" and ?world = "\<lambda>os. os = demo_os"
  define m where "m = (new_master None None)\<lparr>m_nextSearchId := 1\<rparr>"
  define asked where "asked = advance 1 (Searching ''/x.log'' ''k'' default_config ''/app/data/x.log'' 0, m) ?start"
  obtain session ts where prep: "prepare_search demo_os new_task m ''/x.log'' ''k'' default_config ''/app/data/x.log'' 0 = Ok (session, ts)"
    unfolding m_def prepare_keeps using demo_prepared by (auto split: outcome.splits)
  then have ts: "length ts = 1" and session: "ss_search_id session = 0" by (auto elim!: prepare_Ok dest: demo_one)
  let ?rt = "advance 1 (Assigning, AddPendingTasks session ts m) asked"
  have "own_step ?world asked ?rt"
    by (rule own_step.proceed [where os = demo_os and uninit = new_task
          and p = "Searching ''/x.log'' ''k'' default_config ''/app/data/x.log'' 0"])
      (use prep ts demo_posix in \<open>simp_all add: asked_def m_def within_def work_def new_master_def\<close>)
  moreover have "runtime_reachable ?world asked"
    using demo_request unfolding asked_def m_def by (blast intro: runtime_reachable.intros runtime_step.own)
  ultimately have reach: "runtime_reachable ?world ?rt" by (blast intro: runtime_reachable.step runtime_step.own)
  obtain st where st: "GetStatus 0 (rt_master ?rt) = Some st" "st_chunks_total st = 1"
    using session ts by (simp add: GetStatus_def AddPendingTasks_def)
  with interleaved_accounting [OF reach st(1)] reach show ?thesis by (intro exI [of _ ?rt] exI [of _ st]) simp
qed

end
