(* ===== verification/FileProcessor.thy ===== *)
theory FileProcessor
  imports LogSearchCommon
begin

text \<open>
  \<^verbatim>\<open>NetClient/src/FileProcessor.hpp\<close>: the regex search of one byte range of a file, on a model of
  the \<^verbatim>\<open>std::ifstream\<close> operations it uses (position, end-of-file and fail bits, as the standard
  defines them for a binary file). What the file system and \<^verbatim>\<open>std::regex\<close> answer are arguments:
  \<open>fs\<close> gives the contents of a file that opens, \<open>compile\<close> the pattern or \<open>None\<close> for a
  \<^verbatim>\<open>regex_error\<close>, \<open>matches\<close> the verdict of \<^verbatim>\<open>regex_search\<close>. An uninitialised variable is an
  argument (\<open>junk\<close>). The main result is that a search of a range examines exactly the lines that
  start in it.
\<close>

section \<open>Input streams\<close>

record ifstream =
  content :: string
  pos :: nat
  eofbit :: bool
  failbit :: bool

definition NL :: char where
  "NL = CHR 0x0A"

definition CR :: char where
  "CR = CHR 0x0D"

definition good :: "ifstream \<Rightarrow> bool" where
  "good f \<longleftrightarrow> \<not> eofbit f \<and> \<not> failbit f"

definition ifstream_open :: "string \<Rightarrow> ifstream" where
  "ifstream_open s = \<lparr>content = s, pos = 0, eofbit = False, failbit = False\<rparr>"

text \<open>\<^verbatim>\<open>seekg\<close> clears the end-of-file bit; the offset is a signed 64-bit number, and a negative one
  fails. Positions beyond the end are allowed.\<close>

definition seekg :: "ifstream \<Rightarrow> u64 \<Rightarrow> ifstream" where
  "seekg f p = (let f = f\<lparr>eofbit := False\<rparr> in
     if failbit f then f
     else if 2 ^ 63 \<le> unat p then f\<lparr>failbit := True\<rparr> else f\<lparr>pos := unat p\<rparr>)"

text \<open>\<^verbatim>\<open>get(c)\<close>: \<open>None\<close> when \<open>c\<close> is left as it was.\<close>

definition get_char :: "ifstream \<Rightarrow> char option \<times> ifstream" where
  "get_char f =
     (if \<not> good f then (None, f\<lparr>failbit := True\<rparr>)
      else if pos f < length (content f) then (Some (content f ! pos f), f\<lparr>pos := pos f + 1\<rparr>)
      else (None, f\<lparr>eofbit := True, failbit := True\<rparr>))"

text \<open>\<^verbatim>\<open>std::getline(f, str)\<close>: the terminator is extracted and not stored; extracting nothing sets
  the fail bit.\<close>

definition getline :: "ifstream \<Rightarrow> string \<times> ifstream" where
  "getline f =
     (if \<not> good f then ([], f\<lparr>failbit := True\<rparr>)
      else let rest = drop (pos f) (content f); line = takeWhile (\<lambda>c. c \<noteq> NL) rest in
        if length line < length rest then (line, f\<lparr>pos := pos f + length line + 1\<rparr>)
        else if rest = [] then ([], f\<lparr>eofbit := True, failbit := True\<rparr>)
        else (line, f\<lparr>pos := length (content f), eofbit := True\<rparr>))"

text \<open>\<^verbatim>\<open>tellg\<close>: its sentry sets the fail bit of a stream that is not good, and then it answers -1.\<close>

definition tellg :: "ifstream \<Rightarrow> int \<times> ifstream" where
  "tellg f = (if good f then (int (pos f), f) else (-1, f\<lparr>failbit := True\<rparr>))"

lemmas stream_defs = good_def ifstream_open_def seekg_def get_char_def getline_def tellg_def

section \<open>The search loop\<close>

text \<open>For Windows format (CRLF) delete a trailing carriage return.\<close>

definition chomp_cr :: "string \<Rightarrow> string" where
  "chomp_cr line = (if line \<noteq> [] \<and> last line = CR then butlast line else line)"

definition found_line :: "string \<Rightarrow> string \<Rightarrow> string" where
  "found_line fname line = fname @ '': '' @ line"

text \<open>Line found: update the batch.\<close>

definition record_match :: "string \<Rightarrow> u64 \<Rightarrow> string \<Rightarrow> ChunkResult \<Rightarrow> ChunkResult" where
  "record_match fname maxLineCount line batch =
     (let batch = (if ucast (cr_lines_found batch) < maxLineCount
                   then batch\<lparr>cr_lines := cr_lines batch @ [found_line fname line],
                              cr_lines_found := cr_lines_found batch + 1\<rparr>
                   else batch)
      in batch\<lparr>cr_total_matches := cr_total_matches batch + 1\<rparr>)"

definition examine_line ::
  "(string \<Rightarrow> bool) \<Rightarrow> string \<Rightarrow> u64 \<Rightarrow> string \<Rightarrow> ChunkResult \<Rightarrow> ChunkResult" where
  "examine_line matches fname maxLineCount line batch =
     (let line = chomp_cr line in
      if matches line then record_match fname maxLineCount line batch else batch)"

function search_loop ::
  "(string \<Rightarrow> bool) \<Rightarrow> string \<Rightarrow> u64 \<Rightarrow> u64 \<Rightarrow> ifstream \<Rightarrow> u64 \<Rightarrow> ChunkResult \<Rightarrow> ChunkResult" where
  "search_loop matches fname maxLineCount endByte f currentPos batch =
     (if currentPos < endByte then
        (case getline f of (line, f') \<Rightarrow>
           if failbit f' then batch
           else let batch' = examine_line matches fname maxLineCount line batch in
             (case tellg f' of (p, f'') \<Rightarrow>
                if p = -1 then batch'
                else search_loop matches fname maxLineCount endByte f'' (word_of_int p) batch'))
      else batch)"
  by pat_completeness auto
termination
  by (relation "measure (\<lambda>(_, _, _, _, f, _, _). length (content f) - pos f)")
    (auto simp: stream_defs Let_def split: if_splits)

declare search_loop.simps [simp del]

text \<open>Positioning: a range that does not start the file steps back one byte, and skips the rest of
  a line the previous range has read.\<close>

definition position_start :: "char \<Rightarrow> u64 \<Rightarrow> ifstream \<Rightarrow> ifstream" where
  "position_start junk startByte f =
     (let f = seekg f startByte in
      if startByte \<noteq> 0 then
        (case get_char (seekg f (startByte - 1)) of (c, f) \<Rightarrow>
           let prevChar = (case c of None \<Rightarrow> junk | Some x \<Rightarrow> x) in
           if prevChar \<noteq> NL then snd (getline f) else f)
      else f)"

definition SearchTask ::
  "char \<Rightarrow> (string \<Rightarrow> string option) \<Rightarrow> (string \<Rightarrow> 'r option) \<Rightarrow> ('r \<Rightarrow> string \<Rightarrow> bool)
     \<Rightarrow> TaskPayload \<Rightarrow> u64 \<Rightarrow> ChunkResult outcome" where
  "SearchTask junk fs compile matches task maxLineCount =
     (case c_str (tp_filename task) of
        None \<Rightarrow> Undef
      | Some fname \<Rightarrow>
          (case fs fname of
             None \<Rightarrow> Ok new_chunk_result
           | Some bytes \<Rightarrow>
               (let f = position_start junk (tp_start_offset task) (ifstream_open bytes) in
                case tellg f of (p, f) \<Rightarrow>
                  (case c_str (tp_keyword task) of
                     None \<Rightarrow> Undef
                   | Some kw \<Rightarrow>
                       (case compile kw of
                          None \<Rightarrow> Ok new_chunk_result
                        | Some pattern \<Rightarrow>
                            Ok (search_loop (matches pattern) fname maxLineCount
                                  (tp_end_offset task) f (word_of_int p) new_chunk_result))))))"

section \<open>The lines of a file\<close>

text \<open>Reference: the lines of a text, each with the offset it starts at, counted from \<open>p\<close>.\<close>

function lines_at :: "nat \<Rightarrow> string \<Rightarrow> (nat \<times> string) list" where
  "lines_at p s =
     (if s = [] then []
      else let line = takeWhile (\<lambda>c. c \<noteq> NL) s
           in (p, line) # lines_at (p + length line + 1) (drop (length line + 1) s))"
  by pat_completeness auto
termination
  by (relation "measure (\<lambda>(_, s). length s)") auto

declare lines_at.simps [simp del]

definition file_lines :: "string \<Rightarrow> (nat \<times> string) list" where
  "file_lines s = lines_at 0 s"

text \<open>Reference: the batch a list of examined lines amounts to.\<close>

definition hits :: "(string \<Rightarrow> bool) \<Rightarrow> string list \<Rightarrow> string list" where
  "hits matches ls = filter matches (map chomp_cr ls)"

definition batch_of :: "(string \<Rightarrow> bool) \<Rightarrow> string \<Rightarrow> u64 \<Rightarrow> string list \<Rightarrow> ChunkResult" where
  "batch_of matches fname maxLineCount ls =
     foldl (\<lambda>b l. examine_line matches fname maxLineCount l b) new_chunk_result ls"

lemma lines_at_Nil [simp]: "lines_at p [] = []"
  by (simp add: lines_at.simps)

lemma lines_at_Cons:
  "s \<noteq> [] \<Longrightarrow> lines_at p s = (p, takeWhile (\<lambda>c. c \<noteq> NL) s)
     # lines_at (p + length (takeWhile (\<lambda>c. c \<noteq> NL) s) + 1)
         (drop (length (takeWhile (\<lambda>c. c \<noteq> NL) s) + 1) s)"
  by (subst lines_at.simps) (simp add: Let_def)

lemma lines_at_induct [case_names Nil Line]:
  assumes "\<And>p. P p []"
    and "\<And>p s. s \<noteq> [] \<Longrightarrow> P (p + length (takeWhile (\<lambda>c. c \<noteq> NL) s) + 1)
           (drop (length (takeWhile (\<lambda>c. c \<noteq> NL) s) + 1) s) \<Longrightarrow> P p s"
  shows "P p s"
proof (induction p s rule: lines_at.induct)
  case (1 p s)
  then show ?case using assms by (cases "s = []") auto
qed

lemma lines_at_pos_ge: "(q, l) \<in> set (lines_at p s) \<Longrightarrow> p \<le> q"
proof (induction p s rule: lines_at_induct)
  case (Line p s)
  from Line.prems Line.hyps have "q = p \<or> (q, l) \<in> set (lines_at
    (p + length (takeWhile (\<lambda>c. c \<noteq> NL) s) + 1) (drop (length (takeWhile (\<lambda>c. c \<noteq> NL) s) + 1) s))"
    by (auto simp: lines_at_Cons)
  then show ?case using Line.IH by fastforce
qed simp

lemma lines_at_pos_less: "(q, l) \<in> set (lines_at p s) \<Longrightarrow> q < p + length s"
proof (induction p s rule: lines_at_induct)
  case (Line p s)
  from Line.prems Line.hyps have "q = p \<or> (q, l) \<in> set (lines_at
    (p + length (takeWhile (\<lambda>c. c \<noteq> NL) s) + 1) (drop (length (takeWhile (\<lambda>c. c \<noteq> NL) s) + 1) s))"
    by (auto simp: lines_at_Cons)
  then show ?case
  proof
    assume "(q, l) \<in> set (lines_at
      (p + length (takeWhile (\<lambda>c. c \<noteq> NL) s) + 1) (drop (length (takeWhile (\<lambda>c. c \<noteq> NL) s) + 1) s))"
    moreover from this have "drop (length (takeWhile (\<lambda>c. c \<noteq> NL) s) + 1) s \<noteq> []" by force
    ultimately show ?thesis using Line.IH by fastforce
  qed (simp add: Line.hyps)
qed simp

lemma sorted_lines_at: "sorted_wrt (<) (map fst (lines_at p s))"
proof (induction p s rule: lines_at_induct)
  case (Line p s)
  have "p < q" if "(q, l) \<in> set (lines_at (p + length (takeWhile (\<lambda>c. c \<noteq> NL) s) + 1)
      (drop (length (takeWhile (\<lambda>c. c \<noteq> NL) s) + 1) s))" for q l
    using lines_at_pos_ge [OF that] by simp
  with Line show ?case by (auto simp: lines_at_Cons)
qed simp

text \<open>The lines that start at or after an offset inside the text: where positioning must land.\<close>

definition land :: "nat \<Rightarrow> string \<Rightarrow> nat" where
  "land k s = (if k = 0 then 0 else if s ! (k - 1) = NL then k
     else k + length (takeWhile (\<lambda>c. c \<noteq> NL) (drop k s)) + 1)"

lemma filter_lines_at_ge:
  "k \<le> length s \<Longrightarrow>
   filter (\<lambda>(q, _). p + k \<le> q) (lines_at p s) = lines_at (p + land k s) (drop (land k s) s)"
proof (induction p s arbitrary: k rule: lines_at_induct)
  case (Nil p)
  then show ?case by (simp add: land_def)
next
  case (Line p s)
  let ?l = "takeWhile (\<lambda>c. c \<noteq> NL) s" and ?rest = "drop (length (takeWhile (\<lambda>c. c \<noteq> NL) s) + 1) s"
  let ?m = "length ?l"
  have lm: "?m \<le> length s" by (rule length_takeWhile_le)
  have cons: "lines_at p s = (p, ?l) # lines_at (p + ?m + 1) ?rest"
    using Line.hyps by (rule lines_at_Cons)
  have all: "filter (\<lambda>(q, _). p + k \<le> q) (lines_at (p + ?m + 1) ?rest) = lines_at (p + ?m + 1) ?rest"
    if "k \<le> ?m + 1" for k
    using that by (intro filter_True) (auto dest: lines_at_pos_ge)
  consider "k = 0" | "0 < k" "k \<le> ?m" | "k = ?m + 1" | "?m + 1 < k" by linarith
  then show ?case
  proof cases
    case 1
    then show ?thesis using all [of 0] by (simp add: land_def cons)
  next
    case 2
    have split: "s = ?l @ dropWhile (\<lambda>c. c \<noteq> NL) s" by simp
    have "s ! (k - 1) = ?l ! (k - 1)" using 2 by (simp add: takeWhile_nth)
    moreover have "?l ! (k - 1) \<in> set ?l" using 2 by (intro nth_mem) simp
    ultimately have nth: "s ! (k - 1) \<noteq> NL" by (auto dest: set_takeWhileD)
    have "drop k s = drop k ?l @ dropWhile (\<lambda>c. c \<noteq> NL) s"
      using 2 by (subst split, subst drop_append) simp
    moreover have "takeWhile (\<lambda>c. c \<noteq> NL) (dropWhile (\<lambda>c. c \<noteq> NL) s) = []"
      by (induction s) auto
    then have "takeWhile (\<lambda>c. c \<noteq> NL) (drop k ?l @ dropWhile (\<lambda>c. c \<noteq> NL) s) = drop k ?l"
      by (subst takeWhile_append2) (auto dest!: in_set_dropD set_takeWhileD)
    ultimately have "land k s = ?m + 1" using nth 2 by (simp add: land_def)
    with 2 all [of k] show ?thesis by (simp add: cons)
  next
    case 3
    then have "?m < length s" using Line.prems by simp
    then have "s ! ?m = NL" by (metis (mono_tags, lifting) nth_length_takeWhile)
    with 3 have "land k s = ?m + 1" by (simp add: land_def)
    with 3 all [of k] show ?thesis by (simp add: cons)
  next
    case 4
    let ?k = "k - (?m + 1)"
    have k: "k = ?m + 1 + ?k" using 4 by simp
    obtain d where d: "k = ?m + 1 + Suc d" using 4 less_imp_Suc_add [of "?m + 1" k] by auto
    then have land: "land k s = ?m + 1 + land ?k ?rest"
      using Line.prems by (simp add: land_def add.commute)
    have "filter (\<lambda>(q, _). p + k \<le> q) (lines_at (p + ?m + 1) ?rest)
        = filter (\<lambda>(q, _). (p + ?m + 1) + ?k \<le> q) (lines_at (p + ?m + 1) ?rest)"
      using k by (simp add: add.assoc)
    also have "\<dots> = lines_at (p + ?m + 1 + land ?k ?rest) (drop (land ?k ?rest) ?rest)"
      using 4 Line.prems by (intro Line.IH) auto
    finally show ?thesis
      using 4 by (simp add: cons land add.assoc add.commute)
  qed
qed

section \<open>The loop against the reference\<close>

lemma getline_good:
  assumes "good f"
  shows "getline f =
    (let rest = drop (pos f) (content f); line = takeWhile (\<lambda>c. c \<noteq> NL) rest in
        if length line < length rest then (line, f\<lparr>pos := pos f + length line + 1\<rparr>)
        else if rest = [] then ([], f\<lparr>eofbit := True, failbit := True\<rparr>)
        else (line, f\<lparr>pos := length (content f), eofbit := True\<rparr>))"
  using assms by (simp add: getline_def)

lemma search_loop_stop:
  "\<not> currentPos < endByte \<Longrightarrow> search_loop m fname mx endByte f currentPos batch = batch"
  by (subst search_loop.simps) simp

lemma search_loop_good:
  assumes "good f" and "pos f \<le> length (content f)" and "length (content f) < 2 ^ 63"
  shows "search_loop m fname mx endByte f (of_nat (pos f)) batch
    = foldl (\<lambda>b l. examine_line m fname mx l b) batch
        (map snd (filter (\<lambda>(q, _). q < unat endByte) (lines_at (pos f) (drop (pos f) (content f)))))"
  using assms
proof (induction "length (content f) - pos f" arbitrary: f batch rule: less_induct)
  case less
  let ?s = "drop (pos f) (content f)"
  let ?l = "takeWhile (\<lambda>c. c \<noteq> NL) ?s"
  let ?m = "length ?l"
  have cur: "of_nat (pos f) < endByte \<longleftrightarrow> pos f < unat endByte"
    using less.prems by (simp add: word_less_nat_alt unat_of_nat_u64)
  have lm: "?m \<le> length ?s" by (rule length_takeWhile_le)
  show ?case
  proof (cases "pos f < unat endByte \<and> ?s \<noteq> []")
    case False
    then consider "\<not> pos f < unat endByte" | "?s = []" "pos f < unat endByte" by blast
    then show ?thesis
    proof cases
      case 1
      then have "filter (\<lambda>(q, _). q < unat endByte) (lines_at (pos f) ?s) = []"
        by (auto simp: filter_empty_conv dest: lines_at_pos_ge)
      with 1 cur show ?thesis by (simp add: search_loop_stop)
    next
      case 2
      with less.prems(1) show ?thesis
        by (subst search_loop.simps) (simp add: getline_good Let_def)
    qed
  next
    case True
    then have cons: "lines_at (pos f) ?s = (pos f, ?l) # lines_at (pos f + ?m + 1) (drop (?m + 1) ?s)"
      by (intro lines_at_Cons) simp
    show ?thesis
    proof (cases "?m < length ?s")
      case nl: True
      let ?f = "f\<lparr>pos := pos f + ?m + 1\<rparr>"
      have "search_loop m fname mx endByte ?f (of_nat (pos ?f)) (examine_line m fname mx ?l batch)
        = foldl (\<lambda>b l. examine_line m fname mx l b) (examine_line m fname mx ?l batch)
            (map snd (filter (\<lambda>(q, _). q < unat endByte) (lines_at (pos ?f) (drop (pos ?f) (content ?f)))))"
        using less.prems nl by (intro less.hyps) (auto simp: good_def)
      moreover have "search_loop m fname mx endByte f (of_nat (pos f)) batch
        = search_loop m fname mx endByte ?f (of_nat (pos ?f)) (examine_line m fname mx ?l batch)"
        using less.prems(1) True nl cur
        by (subst search_loop.simps) (simp add: getline_good Let_def tellg_def good_def)
      ultimately show ?thesis
        using True by (simp add: cons add.commute)
    next
      case False
      then have "drop (?m + 1) ?s = []" using lm by simp
      moreover have "search_loop m fname mx endByte f (of_nat (pos f)) batch
        = examine_line m fname mx ?l batch"
        using less.prems(1) True False cur
        by (subst search_loop.simps) (simp add: getline_good Let_def tellg_def good_def)
      ultimately show ?thesis using True by (simp add: cons)
    qed
  qed
qed

section \<open>Positioning\<close>

lemma position_start_spec:
  fixes s :: string and junk :: char and start :: u64
  assumes "length s < 2 ^ 63"
  defines "f \<equiv> position_start junk start (ifstream_open s)"
  shows "(good f \<and> content f = s \<and> pos f \<le> length s \<and>
            filter (\<lambda>(q, _). unat start \<le> q) (file_lines s) = lines_at (pos f) (drop (pos f) s))
       \<or> (\<not> good f \<and> filter (\<lambda>(q, _). unat start \<le> q) (file_lines s) = [])"
proof (cases "start = 0")
  case True
  have "filter (\<lambda>(q, _). True) (lines_at 0 s) = lines_at 0 s" by (intro filter_True) auto
  with True show ?thesis
    by (simp add: f_def position_start_def stream_defs file_lines_def)
next
  case nz: False
  then have pos: "0 < unat start" by (simp add: unat_gt_0_iff)
  have prev: "unat (start - 1) = unat start - 1" using nz by (rule unat_minus_1)
  show ?thesis
  proof (cases "unat start \<le> length s")
    case False
    then have "filter (\<lambda>(q, _). unat start \<le> q) (file_lines s) = []"
      unfolding file_lines_def by (auto simp: filter_empty_conv dest: lines_at_pos_less)
    moreover have "\<not> good f"
      using nz False prev assms(1)
      by (auto simp: f_def position_start_def stream_defs Let_def split: if_splits)
    ultimately show ?thesis by blast
  next
    case True
    then have small: "unat start < 2 ^ 63" using assms(1) by simp
    have lines: "filter (\<lambda>(q, _). unat start \<le> q) (file_lines s)
        = lines_at (land (unat start) s) (drop (land (unat start) s) s)"
      using filter_lines_at_ge [OF True, of 0] by (simp add: file_lines_def)
    let ?g = "\<lparr>content = s, pos = unat start, eofbit = False, failbit = False\<rparr>"
    have f: "f = (if s ! (unat start - 1) \<noteq> NL then snd (getline ?g) else ?g)"
      using nz small pos True prev
      by (simp add: f_def position_start_def stream_defs Let_def)
    let ?j = "length (takeWhile (\<lambda>c. c \<noteq> NL) (drop (unat start) s))"
    have j: "?j \<le> length (drop (unat start) s)" by (rule length_takeWhile_le)
    show ?thesis
    proof (cases "s ! (unat start - 1) = NL")
      case nl: True
      with True f lines pos show ?thesis by (simp add: land_def good_def)
    next
      case no: False
      then have land: "land (unat start) s = unat start + ?j + 1" using pos by (simp add: land_def)
      show ?thesis
      proof (cases "?j < length (drop (unat start) s)")
        case lt: True
        with no f lines land show ?thesis
          by (simp add: getline_def good_def Let_def)
      next
        case ge: False
        with j have "drop (unat start + ?j + 1) s = []" by simp
        with no f lines land ge show ?thesis
          by (auto simp: getline_def good_def Let_def)
      qed
    qed
  qed
qed

section \<open>The batch in closed form\<close>

text \<open>The lines of \<open>s\<close> that start in the range \<open>[a, b)\<close>.\<close>

definition lines_in :: "nat \<Rightarrow> nat \<Rightarrow> string \<Rightarrow> string list" where
  "lines_in a b s = map snd (filter (\<lambda>(q, _). a \<le> q \<and> q < b) (file_lines s))"

definition range_batch :: "(string \<Rightarrow> bool) \<Rightarrow> string \<Rightarrow> u64 \<Rightarrow> string list \<Rightarrow> ChunkResult" where
  "range_batch matches fname mx ls = (let h = hits matches ls in
     \<lparr>cr_lines = map (found_line fname) (take (unat mx) h), cr_search_id = 0, cr_task_id = 0,
      cr_total_matches = of_nat (length h), cr_lines_found = of_nat (min (unat mx) (length h))\<rparr>)"

lemma batch_of_closed:
  "length ls < 2 ^ 32 \<Longrightarrow> batch_of matches fname mx ls = range_batch matches fname mx ls"
proof (induction ls rule: rev_induct)
  case Nil
  then show ?case by (simp add: batch_of_def range_batch_def hits_def new_chunk_result_def)
next
  case (snoc l ls)
  let ?h = "hits matches ls"
  have "length ?h \<le> length ls" by (simp add: hits_def le_trans [OF length_filter_le])
  with snoc.prems have len: "length ?h < 4294967296" by simp
  have IH: "batch_of matches fname mx ls = range_batch matches fname mx ls"
    using snoc by simp
  have less: "ucast (of_nat (min (unat mx) (length ?h)) :: u32) < mx \<longleftrightarrow> length ?h < unat mx"
    using len by (simp add: word_less_nat_alt unat_of_nat_u32 min_def)
  have step: "batch_of matches fname mx (ls @ [l])
      = examine_line matches fname mx l (batch_of matches fname mx ls)"
    by (simp add: batch_of_def)
  show ?case
  proof (cases "matches (chomp_cr l)")
    case False
    then show ?thesis
      by (simp add: step IH examine_line_def range_batch_def hits_def Let_def)
  next
    case True
    then have h: "hits matches (ls @ [l]) = ?h @ [chomp_cr l]" by (simp add: hits_def)
    show ?thesis
    proof (cases "length ?h < unat mx")
      case lt: True
      then have "min (unat mx) (length ?h) = length ?h"
        and "min (unat mx) (Suc (length ?h)) = Suc (length ?h)" by simp_all
      with True less lt show ?thesis
        by (simp add: step IH examine_line_def record_match_def range_batch_def Let_def h)
    next
      case ge: False
      then have "min (unat mx) (length ?h) = unat mx"
        and "min (unat mx) (Suc (length ?h)) = unat mx" by simp_all
      with True less ge show ?thesis
        by (simp add: step IH examine_line_def record_match_def range_batch_def Let_def h)
    qed
  qed
qed

lemma lines_in_alt:
  "lines_in a b s = map snd (filter (\<lambda>(q, _). q < b) (filter (\<lambda>(q, _). a \<le> q) (file_lines s)))"
  by (simp add: lines_in_def) (rule arg_cong [where f = "map snd"], auto intro: filter_cong)

lemma length_lines_in: "length (lines_in a b s) \<le> b - a"
proof -
  let ?ps = "map fst (filter (\<lambda>(q, _). a \<le> q \<and> q < b) (file_lines s))"
  have "sorted_wrt (<) (map fst (file_lines s))"
    unfolding file_lines_def by (rule sorted_lines_at)
  then have "distinct (map fst (file_lines s))"
    by (simp add: strict_sorted_iff)
  then have "distinct ?ps"
    by (simp add: distinct_map inj_on_def)
  then have "length ?ps = card (set ?ps)"
    by (rule distinct_card [symmetric])
  also have "\<dots> \<le> card {a..<b}"
    by (intro card_mono) auto
  finally show ?thesis by (simp add: lines_in_def)
qed

lemma search_from_start:
  assumes "length s < 2 ^ 63"
  shows "(case tellg (position_start junk start (ifstream_open s)) of (p, f) \<Rightarrow>
            search_loop m fname mx endByte f (word_of_int p) new_chunk_result)
       = batch_of m fname mx (lines_in (unat start) (unat endByte) s)"
proof -
  let ?f = "position_start junk start (ifstream_open s)"
  consider (good) "good ?f" "content ?f = s" "pos ?f \<le> length s"
      "filter (\<lambda>(q, _). unat start \<le> q) (file_lines s) = lines_at (pos ?f) (drop (pos ?f) s)"
    | (bad) "\<not> good ?f" "filter (\<lambda>(q, _). unat start \<le> q) (file_lines s) = []"
    using position_start_spec [OF assms, where start = start and junk = junk] by blast
  then show ?thesis
  proof cases
    case good
    then show ?thesis
      using search_loop_good [of ?f m fname mx endByte new_chunk_result] assms
      by (simp add: tellg_def lines_in_alt batch_of_def)
  next
    case bad
    have "\<not> (word_of_int (-1) :: u64) < endByte" by (simp add: not_less)
    with bad show ?thesis
      by (simp add: tellg_def lines_in_alt batch_of_def search_loop_stop)
  qed
qed

section \<open>Properties\<close>

text \<open>C6: a worker's search of a byte range examines exactly the lines that start in the range, each
  once and in file order, whatever the uninitialised byte holds: the batch is the first
  \<open>max_results\<close> of the lines the pattern matches (with a trailing carriage return removed),
  each behind the file name, and the two counters are their exact numbers, with no wrap-around
  as long as the range is shorter than 4 GiB.\<close>

theorem SearchTask_exact:
  assumes "c_str (tp_filename task) = Some fname" and "fs fname = Some s" and "length s < 2 ^ 63"
    and "c_str (tp_keyword task) = Some kw" and "compile kw = Some pattern"
    and "unat (tp_end_offset task) - unat (tp_start_offset task) < 2 ^ 32"
  shows "SearchTask junk fs compile matches task mx
    = Ok (range_batch (matches pattern) fname mx
        (lines_in (unat (tp_start_offset task)) (unat (tp_end_offset task)) s))"
proof -
  have "length (lines_in (unat (tp_start_offset task)) (unat (tp_end_offset task)) s) < 2 ^ 32"
    using length_lines_in assms(6) by (rule le_less_trans)
  then show ?thesis
    using search_from_start [OF assms(3)] assms(1,2,4,5)
    by (simp add: SearchTask_def batch_of_closed Let_def split_beta)
qed

theorem SearchTask_exact_witness:
  "SearchTask CR (\<lambda>_. Some (''ab'' @ [NL] @ ''xb'' @ [NL] @ ''cb'')) Some (\<lambda>p l. hd p \<in> set l)
     \<lparr>tp_search_id = 0, tp_task_id = 1, tp_max_results = 1, tp_start_offset = 0, tp_end_offset = 4,
       tp_keyword = [CHR ''b'', NUL], tp_filename = [CHR ''f'', NUL]\<rparr> 1
   = Ok \<lparr>cr_lines = [''f: ab''], cr_search_id = 0, cr_task_id = 0, cr_total_matches = 2, cr_lines_found = 1\<rparr>"
proof -
  let ?t = "\<lparr>tp_search_id = 0, tp_task_id = 1, tp_max_results = 1, tp_start_offset = 0, tp_end_offset = 4,
       tp_keyword = [CHR ''b'', NUL], tp_filename = [CHR ''f'', NUL]\<rparr>"
  have "range_batch (\<lambda>l. hd ''b'' \<in> set l) ''f'' 1 (lines_in 0 4 (''ab'' @ [NL] @ ''xb'' @ [NL] @ ''cb''))
      = \<lparr>cr_lines = [''f: ab''], cr_search_id = 0, cr_task_id = 0, cr_total_matches = 2, cr_lines_found = 1\<rparr>"
    by code_simp
  then show ?thesis
    using SearchTask_exact [where task = ?t and fname = "''f''" and fs = "\<lambda>_. Some (''ab'' @ [NL] @ ''xb'' @ [NL] @ ''cb'')" and kw = "''b''"
        and compile = Some and pattern = "''b''" and s = "(''ab'' @ [NL] @ ''xb'' @ [NL] @ ''cb'')" and matches = "\<lambda>p l. hd p \<in> set l"
        and junk = CR and mx = 1]
    by (simp add: c_str_def NUL_def)
qed

end
