(* ===== verification/TsQueue.thy ===== *)
theory TsQueue
  imports Prelude
begin

text \<open>
  The thread-safe queue of \<^verbatim>\<open>NetCommon/include/net_tsqueue.hpp\<close> (\<open>tsqueue\<close>) and the FIFO
  contract its clients rely on. Every operation runs under the queue's own mutex, so one
  operation is one atomic step: the mutex itself has no state in the model. Reading or popping
  an empty \<^verbatim>\<open>std::deque\<close> is undefined behaviour, the outcome \<open>Undef\<close>.
\<close>

section \<open>The queue\<close>

record 'a tsqueue =
  deqQueue :: "'a list"

definition empty_tsqueue :: "'a tsqueue" where
  "empty_tsqueue = \<lparr>deqQueue = []\<rparr>"

definition front_q :: "'a tsqueue \<Rightarrow> 'a outcome" where
  "front_q q = (case deqQueue q of [] \<Rightarrow> Undef | x # _ \<Rightarrow> Ok x)"

definition back_q :: "'a tsqueue \<Rightarrow> 'a outcome" where
  "back_q q = (case deqQueue q of [] \<Rightarrow> Undef | _ # _ \<Rightarrow> Ok (last (deqQueue q)))"

definition push_back :: "'a tsqueue \<Rightarrow> 'a \<Rightarrow> 'a tsqueue" where
  "push_back q item = q\<lparr>deqQueue := deqQueue q @ [item]\<rparr>"

definition push_front :: "'a tsqueue \<Rightarrow> 'a \<Rightarrow> 'a tsqueue" where
  "push_front q item = q\<lparr>deqQueue := item # deqQueue q\<rparr>"

definition pop_front :: "'a tsqueue \<Rightarrow> ('a \<times> 'a tsqueue) outcome" where
  "pop_front q = (case deqQueue q of [] \<Rightarrow> Undef | x # xs \<Rightarrow> Ok (x, q\<lparr>deqQueue := xs\<rparr>))"

definition pop_back :: "'a tsqueue \<Rightarrow> ('a \<times> 'a tsqueue) outcome" where
  "pop_back q = (case deqQueue q of [] \<Rightarrow> Undef
     | _ # _ \<Rightarrow> Ok (last (deqQueue q), q\<lparr>deqQueue := butlast (deqQueue q)\<rparr>))"

definition clear_q :: "'a tsqueue \<Rightarrow> 'a tsqueue" where
  "clear_q q = q\<lparr>deqQueue := []\<rparr>"

definition count_q :: "'a tsqueue \<Rightarrow> u64" where
  "count_q q = of_nat (length (deqQueue q))"

definition empty_q :: "'a tsqueue \<Rightarrow> bool" where
  "empty_q q \<longleftrightarrow> deqQueue q = []"

lemmas tsqueue_defs = empty_tsqueue_def front_q_def back_q_def push_back_def push_front_def
  pop_front_def pop_back_def clear_q_def count_q_def empty_q_def

section \<open>The FIFO contract\<close>

text \<open>
  What the connection, the server's message pump, the thread pool and the master's worker queue
  ask of a queue: \<open>contents\<close> is the sequence of waiting items, \<open>enq\<close> appends, \<open>deq\<close> takes the
  oldest, and is only defined when something waits.
\<close>

locale fifo =
  fixes contents :: "'q \<Rightarrow> 'a list"
    and mt :: "'q"
    and enq :: "'q \<Rightarrow> 'a \<Rightarrow> 'q"
    and deq :: "'q \<Rightarrow> ('a \<times> 'q) outcome"
    and is_empty :: "'q \<Rightarrow> bool"
  assumes contents_mt: "contents mt = []"
    and contents_enq: "contents (enq q x) = contents q @ [x]"
    and deq_nil: "contents q = [] \<Longrightarrow> deq q = Undef"
    and deq_cons: "contents q = x # xs \<Longrightarrow> \<exists>q'. deq q = Ok (x, q') \<and> contents q' = xs"
    and is_empty_iff: "is_empty q \<longleftrightarrow> contents q = []"
begin

lemma contents_enqs: "contents (foldl enq q xs) = contents q @ xs"
  by (induction xs arbitrary: q) (simp_all add: contents_enq)

lemma deq_Ok_iff: "(\<exists>r. deq q = Ok r) \<longleftrightarrow> \<not> is_empty q"
  by (cases "contents q") (auto simp: deq_nil is_empty_iff dest: deq_cons)

lemma deq_contents: "deq q = Ok (x, q') \<Longrightarrow> contents q = x # contents q'"
  by (cases "contents q") (auto simp: deq_nil dest: deq_cons)

lemma deq_after_enqs:
  assumes "deq (foldl enq q (x # xs)) = Ok (y, q')"
  shows "y # contents q' = contents q @ x # xs"
  using deq_contents [OF assms] by (simp add: contents_enqs contents_enq)

lemma enq_not_empty: "\<not> is_empty (enq q x)"
  by (simp add: is_empty_iff contents_enq)

end

interpretation tsq: fifo deqQueue empty_tsqueue push_back pop_front empty_q
  by unfold_locales (auto simp: tsqueue_defs split: list.splits)


end
