(* ===== verification/ThreadPool.thy ===== *)
theory ThreadPool
  imports TsQueue
begin

text \<open>
  \<^verbatim>\<open>NetClient/src/ThreadPool.hpp\<close>: the fixed-size pool a worker runs its tasks on, at the
  granularity of its lock and its condition variable. A thread is about to evaluate the wait
  predicate under the lock (\<open>Checking\<close>), asleep in \<^verbatim>\<open>wait\<close> (\<open>Blocked\<close>), running a task outside the
  lock, or has left its loop. \<^verbatim>\<open>Enqueue\<close> and the destructor unlock before they notify, so a due
  notification is part of the state. Nothing keeps a caller from \<^verbatim>\<open>Enqueue\<close> after the stop. Any interleaving is a run of \<open>pool_step\<close>; the logs
  \<open>submitted\<close>, \<open>started\<close> and \<open>executed\<close> are what an observer of the calls sees.
\<close>

section \<open>State\<close>

datatype 'a thread = Checking | Blocked | Running 'a | Exited

record 'a pool =
  m_taskQueue :: "'a list"
  m_threadCount :: u64
  m_stop :: bool
  m_workerThreads :: "'a thread list"
  notify_one_due :: nat
  notify_all_due :: bool
  submitted :: "'a list"
  started :: "'a list"
  executed :: "'a list"

definition new_pool :: "u64 \<Rightarrow> 'a pool" where
  "new_pool numThreads = \<lparr>m_taskQueue = [], m_threadCount = numThreads, m_stop = False,
     m_workerThreads = replicate (unat numThreads) Checking, notify_one_due = 0,
     notify_all_due = False, submitted = [], started = [], executed = []\<rparr>"

definition pool_Size :: "'a pool \<Rightarrow> u64" where
  "pool_Size p = m_threadCount p"

section \<open>Operations\<close>

text \<open>\<^verbatim>\<open>Enqueue\<close> up to the release of the lock.\<close>

definition Enqueue :: "'a pool \<Rightarrow> 'a \<Rightarrow> 'a pool" where
  "Enqueue p task = p\<lparr>m_taskQueue := m_taskQueue p @ [task], notify_one_due := notify_one_due p + 1,
     submitted := submitted p @ [task]\<rparr>"

text \<open>The predicate given to \<^verbatim>\<open>wait\<close>.\<close>

definition wait_pred :: "'a pool \<Rightarrow> bool" where
  "wait_pred p \<longleftrightarrow> m_stop p \<or> m_taskQueue p \<noteq> []"

definition set_thread :: "'a pool \<Rightarrow> nat \<Rightarrow> 'a thread \<Rightarrow> 'a pool" where
  "set_thread p i t = p\<lparr>m_workerThreads := (m_workerThreads p)[i := t]\<rparr>"

text \<open>Thread \<open>i\<close> with the lock held: sleep, leave the loop, or take the oldest task.\<close>

definition thread_check :: "'a pool \<Rightarrow> nat \<Rightarrow> 'a pool" where
  "thread_check p i =
     (if \<not> wait_pred p then set_thread p i Blocked
      else if m_stop p \<and> m_taskQueue p = [] then set_thread p i Exited
      else case m_taskQueue p of
          [] \<Rightarrow> p
        | task # rest \<Rightarrow>
            (set_thread p i (Running task))\<lparr>m_taskQueue := rest, started := started p @ [task]\<rparr>)"

definition wake :: "'a thread \<Rightarrow> 'a thread" where
  "wake t = (case t of Blocked \<Rightarrow> Checking | _ \<Rightarrow> t)"

text \<open>\<^verbatim>\<open>notify_one\<close> with \<open>i\<close> the sleeping thread the library picks, if any sleeps.\<close>

definition notify_one :: "'a pool \<Rightarrow> nat option \<Rightarrow> 'a pool" where
  "notify_one p w = (let p = p\<lparr>notify_one_due := notify_one_due p - 1\<rparr> in
     case w of None \<Rightarrow> p | Some i \<Rightarrow> set_thread p i Checking)"

text \<open>The destructor: set \<^verbatim>\<open>m_stop\<close> under the lock, then \<^verbatim>\<open>notify_all\<close>, then join.\<close>

definition set_stop :: "'a pool \<Rightarrow> 'a pool" where
  "set_stop p = p\<lparr>m_stop := True, notify_all_due := True\<rparr>"

definition notify_all :: "'a pool \<Rightarrow> 'a pool" where
  "notify_all p = p\<lparr>m_workerThreads := map wake (m_workerThreads p), notify_all_due := False\<rparr>"

text \<open>The steps that are due: a thread that is awake goes on, and a notification that was called for arrives. A
  sleeping thread may also wake up for no reason, but nothing makes it: what must happen may not rest on that.\<close>

inductive due_step :: "'a pool \<Rightarrow> 'a pool \<Rightarrow> bool" where
  notify_some: "0 < notify_one_due p \<Longrightarrow> i < length (m_workerThreads p) \<Longrightarrow>
    m_workerThreads p ! i = Blocked \<Longrightarrow> due_step p (notify_one p (Some i))"
| notify_none: "0 < notify_one_due p \<Longrightarrow> Blocked \<notin> set (m_workerThreads p) \<Longrightarrow>
    due_step p (notify_one p None)"
| check: "i < length (m_workerThreads p) \<Longrightarrow> m_workerThreads p ! i = Checking \<Longrightarrow>
    due_step p (thread_check p i)"
| finish: "i < length (m_workerThreads p) \<Longrightarrow> m_workerThreads p ! i = Running task \<Longrightarrow>
    due_step p ((set_thread p i Checking)\<lparr>executed := executed p @ [task]\<rparr>)"
| notify_all: "notify_all_due p \<Longrightarrow> due_step p (notify_all p)"

inductive thread_step :: "'a pool \<Rightarrow> 'a pool \<Rightarrow> bool" where
  due: "due_step p q \<Longrightarrow> thread_step p q"
| spurious: "i < length (m_workerThreads p) \<Longrightarrow> m_workerThreads p ! i = Blocked \<Longrightarrow>
    thread_step p (set_thread p i Checking)"

inductive pool_step :: "'a pool \<Rightarrow> 'a pool \<Rightarrow> bool" where
  enqueue: "pool_step p (Enqueue p task)"
| stop: "pool_step p (set_stop p)"
| thread: "thread_step p q \<Longrightarrow> pool_step p q"

inductive pool_reachable :: "u64 \<Rightarrow> 'a pool \<Rightarrow> bool" for n where
  init: "pool_reachable n (new_pool n)"
| step: "pool_reachable n p \<Longrightarrow> pool_step p q \<Longrightarrow> pool_reachable n q"

lemmas pool_defs = Enqueue_def wait_pred_def set_thread_def thread_check_def notify_one_def
  set_stop_def notify_all_def Let_def

section \<open>Invariant\<close>

primrec running_of :: "'a thread \<Rightarrow> 'a list" where
  "running_of Checking = []"
| "running_of Blocked = []"
| "running_of (Running t) = [t]"
| "running_of Exited = []"

definition running :: "'a pool \<Rightarrow> 'a multiset" where
  "running p = mset (concat (map running_of (m_workerThreads p)))"

definition is_active :: "'a thread \<Rightarrow> bool" where
  "is_active t \<longleftrightarrow> t = Checking \<or> (\<exists>x. t = Running x)"

definition pool_inv :: "'a pool \<Rightarrow> bool" where
  "pool_inv p \<longleftrightarrow>
     submitted p = started p @ m_taskQueue p
   \<and> mset (started p) = mset (executed p) + running p
   \<and> (Exited \<in> set (m_workerThreads p) \<longrightarrow> m_stop p)
   \<and> (m_taskQueue p \<noteq> [] \<longrightarrow> Blocked \<in> set (m_workerThreads p) \<longrightarrow>
        (\<exists>t \<in> set (m_workerThreads p). is_active t) \<or> 0 < notify_one_due p \<or> notify_all_due p)
   \<and> (m_stop p \<longrightarrow> Blocked \<in> set (m_workerThreads p) \<longrightarrow> notify_all_due p)"

lemma running_set_thread:
  assumes "i < length ts"
  shows "mset (concat (map running_of (ts[i := t]))) + mset (running_of (ts ! i))
       = mset (concat (map running_of ts)) + mset (running_of t)"
  using assms
proof (induction ts arbitrary: i)
  case (Cons u ts)
  then show ?case by (cases i) auto
qed simp

lemma running_of_wake [simp]: "running_of (wake t) = running_of t"
  by (cases t) (simp_all add: wake_def)

lemma Blocked_wake [simp]: "Blocked \<noteq> wake t"
  by (cases t) (simp_all add: wake_def)

lemma Exited_wake [simp]: "wake t = Exited \<longleftrightarrow> t = Exited"
  by (cases t) (simp_all add: wake_def)

lemma Exited_wake_sym [simp]: "Exited = wake t \<longleftrightarrow> t = Exited"
  by (cases t) (simp_all add: wake_def)

lemma set_update_other: "u \<in> set (ts[i := t]) \<Longrightarrow> u \<noteq> t \<Longrightarrow> u \<in> set ts"
  using set_update_subset_insert [of ts i t] by auto

lemma mem_update_self: "i < length ts \<Longrightarrow> t \<in> set (ts[i := t])"
  by (rule set_update_memI)

lemma running_set:
  assumes "i < length (m_workerThreads p)" and "m_workerThreads p ! i = u"
  shows "running (set_thread p i t) + mset (running_of u) = running p + mset (running_of t)"
  using running_set_thread [OF assms(1), of t] assms(2) by (simp add: running_def set_thread_def)

lemma running_set_idle:
  assumes "i < length (m_workerThreads p)" and "m_workerThreads p ! i = u"
    and "running_of u = []" and "running_of t = []"
  shows "running (set_thread p i t) = running p"
  using running_set [OF assms(1,2), of t] assms(3,4) by simp

lemma running_upd [simp]:
  "running (p\<lparr>executed := e\<rparr>) = running p" "running (p\<lparr>m_taskQueue := q\<rparr>) = running p"
  "running (p\<lparr>started := s\<rparr>) = running p" "running (p\<lparr>notify_one_due := k\<rparr>) = running p"
  by (simp_all add: running_def)

lemma set_thread_sel [simp]:
  "m_taskQueue (set_thread p i t) = m_taskQueue p" "m_stop (set_thread p i t) = m_stop p"
  "submitted (set_thread p i t) = submitted p" "started (set_thread p i t) = started p"
  "executed (set_thread p i t) = executed p" "notify_all_due (set_thread p i t) = notify_all_due p"
  "notify_one_due (set_thread p i t) = notify_one_due p"
  "m_workerThreads (set_thread p i t) = (m_workerThreads p)[i := t]"
  "m_threadCount (set_thread p i t) = m_threadCount p"
  by (simp_all add: set_thread_def)

lemma active_Checking [simp]: "is_active Checking"
  by (simp add: is_active_def)

lemma active_Running [simp]: "is_active (Running x)"
  by (simp add: is_active_def)

lemma active_upd:
  "i < length ts \<Longrightarrow> is_active t \<Longrightarrow> \<exists>u \<in> set (ts[i := t]). is_active u"
  using mem_update_self by fast

lemma inv_Enqueue [inv_intros]: "pool_inv p \<Longrightarrow> pool_inv (Enqueue p task)"
  by (auto simp: pool_inv_def Enqueue_def running_def)

lemma inv_wake_thread [inv_intros]:
  assumes "pool_inv p" and i: "i < length (m_workerThreads p)" and "m_workerThreads p ! i = Blocked"
  shows "pool_inv (set_thread p i Checking)"
  using assms running_set_idle [OF i assms(3), of Checking] active_upd [OF i, of Checking]
  by (auto simp: pool_inv_def dest: set_update_other)

lemma inv_notify_some [inv_intros]:
  assumes "pool_inv p" and i: "i < length (m_workerThreads p)" and "m_workerThreads p ! i = Blocked"
  shows "pool_inv (notify_one p (Some i))"
proof -
  let ?q = "set_thread p i Checking"
  have "pool_inv ?q" using assms by (rule inv_wake_thread)
  moreover have "\<exists>t \<in> set (m_workerThreads ?q). is_active t"
    using active_upd [OF i, of Checking] by simp
  moreover have "notify_one p (Some i) = ?q\<lparr>notify_one_due := notify_one_due ?q - 1\<rparr>"
    by (simp add: notify_one_def set_thread_def)
  ultimately show ?thesis by (auto simp: pool_inv_def)
qed

lemma inv_notify_none [inv_intros]:
  "pool_inv p \<Longrightarrow> Blocked \<notin> set (m_workerThreads p) \<Longrightarrow> pool_inv (notify_one p None)"
  by (auto simp: pool_inv_def notify_one_def)

lemma inv_finish [inv_intros]:
  assumes "pool_inv p" and i: "i < length (m_workerThreads p)" and r: "m_workerThreads p ! i = Running task"
  shows "pool_inv ((set_thread p i Checking)\<lparr>executed := executed p @ [task]\<rparr>)"
  using assms running_set [OF i r, of Checking] active_upd [OF i, of Checking]
  by (auto simp: pool_inv_def dest: set_update_other)

lemma inv_set_stop [inv_intros]: "pool_inv p \<Longrightarrow> pool_inv (set_stop p)"
  by (auto simp: pool_inv_def set_stop_def running_def)

lemma inv_notify_all [inv_intros]: "pool_inv p \<Longrightarrow> pool_inv (notify_all p)"
  by (auto simp: pool_inv_def notify_all_def running_def comp_def)

lemma inv_check [inv_intros]:
  assumes "pool_inv p" and i: "i < length (m_workerThreads p)" and c: "m_workerThreads p ! i = Checking"
  shows "pool_inv (thread_check p i)"
proof (cases "m_taskQueue p")
  case Nil
  show ?thesis
  proof (cases "m_stop p")
    case True
    with assms Nil show ?thesis
      using running_set_idle [OF i c, of Exited]
      by (auto simp: pool_inv_def thread_check_def wait_pred_def dest: set_update_other)
  next
    case False
    with assms Nil show ?thesis
      using running_set_idle [OF i c, of Blocked]
      by (auto simp: pool_inv_def thread_check_def wait_pred_def dest: set_update_other)
  qed
next
  case (Cons task rest)
  have "thread_check p i = (set_thread p i (Running task))
      \<lparr>m_taskQueue := rest, started := started p @ [task]\<rparr>"
    by (simp add: thread_check_def wait_pred_def Cons)
  then show ?thesis
    using assms Cons running_set [OF i c, of "Running task"] active_upd [OF i, of "Running task"]
    by (auto simp: pool_inv_def dest: set_update_other)
qed

lemma pool_inv_thread [inv_intros]: "thread_step p q \<Longrightarrow> pool_inv p \<Longrightarrow> pool_inv q"
  by (induction rule: thread_step.induct, erule due_step.cases) (auto intro: inv_intros)

lemma pool_inv_step: "pool_step p q \<Longrightarrow> pool_inv p \<Longrightarrow> pool_inv q"
  by (induction rule: pool_step.induct) (auto intro: inv_intros)

lemma pool_inv_new: "pool_inv (new_pool n)"
  by (auto simp: pool_inv_def new_pool_def running_def concat_replicate_trivial)

lemma reachable_pool_inv: "pool_reachable n p \<Longrightarrow> pool_inv p"
  by (induction rule: pool_reachable.induct) (auto intro: pool_inv_new pool_inv_step)

section \<open>The number of threads, and a pool of one thread\<close>

lemma length_thread_step: "thread_step p q \<Longrightarrow> length (m_workerThreads q) = length (m_workerThreads p)"
  by (induction rule: thread_step.induct, erule due_step.cases) (auto simp: pool_defs split: list.split)

lemma length_threads_step: "pool_step p q \<Longrightarrow> length (m_workerThreads q) = length (m_workerThreads p)"
  by (induction rule: pool_step.induct) (auto simp: pool_defs length_thread_step)

lemma length_threads: "pool_reachable n p \<Longrightarrow> length (m_workerThreads p) = unat n"
  by (induction rule: pool_reachable.induct) (auto simp: new_pool_def length_threads_step)

definition serial_inv :: "'a pool \<Rightarrow> bool" where
  "serial_inv p \<longleftrightarrow> (\<exists>t. m_workerThreads p = [t] \<and> started p = executed p @ running_of t)"

lemma serial_inv_thread: "thread_step p q \<Longrightarrow> serial_inv p \<Longrightarrow> serial_inv q"
  by (induction rule: thread_step.induct, erule due_step.cases)
    (auto simp: serial_inv_def pool_defs wake_def split: list.split thread.split)

lemma serial_inv_step: "pool_step p q \<Longrightarrow> serial_inv p \<Longrightarrow> serial_inv q"
proof (induction rule: pool_step.induct)
  case (thread p q)
  then show ?case by (rule serial_inv_thread)
qed (simp_all add: serial_inv_def pool_defs)

lemma serial_inv_reachable: "pool_reachable 1 p \<Longrightarrow> serial_inv p"
  by (induction rule: pool_reachable.induct) (auto simp: serial_inv_def new_pool_def intro: serial_inv_step [unfolded serial_inv_def])

section \<open>Shutdown\<close>

primrec thread_weight :: "'a thread \<Rightarrow> nat" where
  "thread_weight Exited = 0"
| "thread_weight Checking = 1"
| "thread_weight Blocked = 2"
| "thread_weight (Running t) = 2"

text \<open>What is left to do once the destructor has set \<^verbatim>\<open>m_stop\<close>.\<close>

definition pool_measure :: "'a pool \<Rightarrow> nat" where
  "pool_measure p = 2 * length (m_taskQueue p) + sum_list (map thread_weight (m_workerThreads p))
     + notify_one_due p + (if notify_all_due p then 1 else 0)"

lemma weight_update:
  "i < length ts \<Longrightarrow> sum_list (map thread_weight (ts[i := t])) + thread_weight (ts ! i)
     = sum_list (map thread_weight ts) + thread_weight t"
proof (induction ts arbitrary: i)
  case (Cons u ts)
  then show ?case by (cases i) auto
qed simp

lemma weight_wake: "sum_list (map thread_weight (map wake ts)) \<le> sum_list (map thread_weight ts)"
  by (induction ts) (auto simp: wake_def split: thread.split)

lemma stop_due_step: "due_step p q \<Longrightarrow> m_stop p \<Longrightarrow> m_stop q \<and> pool_measure q < pool_measure p"
proof (induction rule: due_step.induct)
  case (check i p)
  show ?case
  proof (cases "m_taskQueue p")
    case Nil
    with check show ?thesis
      using weight_update [of i "m_workerThreads p" Exited]
      by (simp add: pool_measure_def thread_check_def wait_pred_def)
  next
    case (Cons task rest)
    with check show ?thesis
      using weight_update [of i "m_workerThreads p" "Running task"]
      by (simp add: pool_measure_def thread_check_def wait_pred_def)
  qed
next
  case (notify_all p)
  then show ?case
    using weight_wake [of "m_workerThreads p"] by (simp add: pool_measure_def notify_all_def)
next
  case (notify_some p i)
  then show ?case
    using weight_update [of i "m_workerThreads p" Checking] by (simp add: pool_measure_def notify_one_def)
next
  case (finish i p task)
  then show ?case
    using weight_update [of i "m_workerThreads p" Checking] by (simp add: pool_measure_def)
qed (simp_all add: pool_measure_def notify_one_def)

lemma stop_step: "thread_step p q \<Longrightarrow> m_stop p \<Longrightarrow> m_stop q \<and> pool_measure q < pool_measure p"
proof (induction rule: thread_step.induct)
  case (spurious i p)
  then show ?case
    using weight_update [of i "m_workerThreads p" Checking] by (simp add: pool_measure_def)
qed (rule stop_due_step)

text \<open>No thread leaves before the queue is empty, and the threads add nothing to it.\<close>

definition drained :: "'a pool \<Rightarrow> bool" where
  "drained p \<longleftrightarrow> (Exited \<in> set (m_workerThreads p) \<longrightarrow> m_taskQueue p = [])"

lemma drained_step: "thread_step p q \<Longrightarrow> drained p \<Longrightarrow> drained q \<and> submitted q = submitted p"
  by (induction rule: thread_step.induct, erule due_step.cases)
    (auto simp: drained_def notify_one_def notify_all_def thread_check_def wait_pred_def Let_def
      dest: set_update_other split: list.split option.split)

lemma stop_steps:
  "(thread_step ^^ k) p q \<Longrightarrow> m_stop p \<Longrightarrow> drained p \<Longrightarrow>
    m_stop q \<and> pool_measure q + k \<le> pool_measure p \<and> drained q \<and> submitted q = submitted p"
proof (induction k arbitrary: q)
  case (Suc k)
  then obtain r where "(thread_step ^^ k) p r" "thread_step r q" by auto
  with Suc show ?case using stop_step [of r q] drained_step [of r q] by fastforce
qed simp

lemma stuck_all_exited:
  assumes "pool_inv p" and "m_stop p" and "\<And>q. \<not> due_step p q" and "t \<in> set (m_workerThreads p)"
  shows "t = Exited"
proof -
  from assms(4) obtain i where i: "i < length (m_workerThreads p)" "m_workerThreads p ! i = t"
    by (auto simp: in_set_conv_nth)
  show ?thesis
  proof (cases t)
    case Checking
    with i assms(3) show ?thesis by (blast intro: due_step.check)
  next
    case Blocked
    with assms(1,2,4) have "notify_all_due p" by (simp add: pool_inv_def)
    with assms(3) show ?thesis by (blast intro: due_step.notify_all)
  next
    case (Running x)
    with i assms(3) show ?thesis by (blast intro: due_step.finish)
  qed
qed

lemma reachable_steps: "(thread_step ^^ k) p q \<Longrightarrow> pool_reachable n p \<Longrightarrow> pool_reachable n q"
  by (induction k arbitrary: q) (auto intro: pool_reachable.step pool_step.thread)

lemma all_exited_done:
  assumes "pool_inv p" and "drained p" and "m_workerThreads p \<noteq> []" and "\<forall>t \<in> set (m_workerThreads p). t = Exited"
  shows "mset (executed p) = mset (submitted p) \<and> m_taskQueue p = []"
proof -
  have "running_of t = []" if "t \<in> set (m_workerThreads p)" for t
    using assms(4) that by fastforce
  then have "running p = {#}" by (simp add: running_def)
  moreover have "Exited \<in> set (m_workerThreads p)"
    using assms(3,4) by (metis last_in_set)
  ultimately show ?thesis using assms(1,2) by (simp add: pool_inv_def drained_def)
qed

section \<open>A small pool\<close>

text \<open>One thread, one submitted task: where the statements below are evaluated.\<close>

definition demo_pool :: "nat pool" where
  "demo_pool = Enqueue (new_pool 1) 5"

lemma demo_pool_reachable: "pool_reachable 1 demo_pool"
  unfolding demo_pool_def by (intro pool_reachable.step [OF pool_reachable.init] pool_step.enqueue)

lemma demo_pool_check: "thread_step (set_stop demo_pool) (thread_check (set_stop demo_pool) 0)"
  by (rule thread_step.due [OF due_step.check]; simp add: demo_pool_def pool_defs new_pool_def)

section \<open>Properties\<close>

text \<open>C36: shutting the pool down terminates and loses nothing: from the moment the destructor sets
  \<^verbatim>\<open>m_stop\<close>, the threads take at most \<open>pool_measure\<close> steps in whatever order, and when none is due any more,
  every thread has left its loop (so the joins return) and the tasks executed are exactly the tasks submitted before,
  each once. No thread is left asleep to be woken by chance: a step is due as long as one sleeps.\<close>

theorem pool_shutdown:
  assumes "pool_reachable n p" and "n \<noteq> 0" and "\<not> m_stop p" and "(thread_step ^^ k) (set_stop p) q"
  shows "k \<le> pool_measure (set_stop p) \<and>
    ((\<forall>r. \<not> due_step q r) \<longrightarrow> (\<forall>t \<in> set (m_workerThreads q). t = Exited)
       \<and> mset (executed q) = mset (submitted p) \<and> m_taskQueue q = [])"
proof -
  have reach: "pool_reachable n (set_stop p)" using assms(1) by (blast intro: pool_reachable.step pool_step.stop)
  have "drained (set_stop p)" "m_stop (set_stop p)"
    using reachable_pool_inv [OF assms(1)] assms(3) by (auto simp: pool_inv_def drained_def set_stop_def)
  with stop_steps [OF assms(4)] have q: "m_stop q" "k \<le> pool_measure (set_stop p)" "drained q"
    "submitted q = submitted p" by (auto simp: set_stop_def)
  have "pool_reachable n q" using assms(4) reach by (rule reachable_steps)
  then have inv: "pool_inv q" and "length (m_workerThreads q) = unat n"
    by (rule reachable_pool_inv, rule length_threads)
  then have "m_workerThreads q \<noteq> []" using assms(2) by (auto simp: unat_eq_0)
  with inv q show ?thesis using stuck_all_exited all_exited_done by metis
qed

theorem pool_shutdown_witness: "m_stop (set_stop demo_pool) \<and> 1 \<le> pool_measure (set_stop demo_pool)"
proof -
  have "(thread_step ^^ 1) (set_stop demo_pool) (thread_check (set_stop demo_pool) 0)"
    unfolding relpowp_1 by (rule demo_pool_check)
  from pool_shutdown [OF demo_pool_reachable _ _ this] show ?thesis
    by (simp add: set_stop_def demo_pool_def Enqueue_def new_pool_def)
qed

text \<open>No wake-up is lost: while a task waits and the pool is not stopped, some thread is awake or a notification that will
  wake one is still due, although \<^verbatim>\<open>Enqueue\<close> notifies only after releasing the lock.\<close>

theorem pool_no_lost_wakeup:
  assumes "pool_reachable n p" and "n \<noteq> 0" and "\<not> m_stop p" and "m_taskQueue p \<noteq> []"
  shows "(\<exists>t \<in> set (m_workerThreads p). is_active t) \<or> 0 < notify_one_due p \<or> notify_all_due p"
proof -
  have inv: "pool_inv p" and "length (m_workerThreads p) = unat n"
    using assms(1) by (rule reachable_pool_inv, intro length_threads)
  then obtain t where t: "t \<in> set (m_workerThreads p)"
    using assms(2) by (metis length_greater_0_conv nth_mem unat_gt_0)
  with inv assms(3,4) show ?thesis
    by (cases t) (auto simp: pool_inv_def is_active_def)
qed

theorem pool_no_lost_wakeup_witness:
  "m_taskQueue demo_pool = [5] \<and>
    ((\<exists>t \<in> set (m_workerThreads demo_pool). is_active t) \<or> 0 < notify_one_due demo_pool \<or> notify_all_due demo_pool)"
proof -
  have "m_taskQueue demo_pool = [5]" by (simp add: demo_pool_def Enqueue_def new_pool_def)
  then show ?thesis using pool_no_lost_wakeup [OF demo_pool_reachable]
    by (simp add: demo_pool_def Enqueue_def new_pool_def)
qed

text \<open>Tasks are taken in submission order, and a pool of one thread also finishes them in that
  order: at any time what it has executed is a prefix of what was submitted.\<close>

theorem pool_fifo:
  assumes "pool_reachable n p"
  shows "submitted p = started p @ m_taskQueue p \<and>
    (n = 1 \<longrightarrow> (\<exists>rest. submitted p = executed p @ rest))"
  using reachable_pool_inv [OF assms] serial_inv_reachable [of p] assms
  by (auto simp: pool_inv_def serial_inv_def)

theorem pool_fifo_witness: "submitted demo_pool = started demo_pool @ [5]"
  using pool_fifo [OF demo_pool_reachable] by (simp add: demo_pool_def Enqueue_def new_pool_def)

end
