(* ===== verification/NetConnection.thy ===== *)
theory NetConnection
  imports NetMessage TsQueue
begin

text \<open>
  \<^verbatim>\<open>NetCommon/include/net_connection.hpp\<close>: one connection as a machine driven by the completions
  of the asynchronous operations it starts. What ASIO does is not modelled beyond its documented
  behaviour: \<^verbatim>\<open>async_read\<close> completes with exactly the bytes asked for or with an error,
  \<^verbatim>\<open>async_write\<close> after writing the whole buffer or with an error and the number of bytes written.
  The outstanding read and write are part of the state, and \<open>wire_out\<close> logs the bytes written.
  All handlers and posted lambdas of a connection run on the single context thread.
\<close>

section \<open>State\<close>

datatype owner = Owner_server | Owner_client

datatype read_op = No_read | Read_header | Read_body nat

datatype write_op = No_write | Write_header | Write_body

record connection =
  conn_id :: u32
  m_nOwnerType :: owner
  socket_open :: bool
  m_qMessagesOut :: "message tsqueue"
  m_msgTemporaryIn :: message
  m_msgCallback :: bool
  pending_read :: read_op
  pending_write :: write_op
  wire_out :: "u8 list"

text \<open>How \<open>AddToIncomingMessageQueue\<close> hands a message on: to the shared queue with the connection
  as its sender, to the queue without a sender, or to the callback.\<close>

datatype incoming = Queue_owned message | Queue_unowned message | Callback message

definition new_connection :: "owner \<Rightarrow> bool \<Rightarrow> connection" where
  "new_connection parent opened = \<lparr>conn_id = 0, m_nOwnerType = parent, socket_open = opened,
     m_qMessagesOut = empty_tsqueue, m_msgTemporaryIn = new_message, m_msgCallback = False,
     pending_read = No_read, pending_write = No_write, wire_out = []\<rparr>"

definition GetID :: "connection \<Rightarrow> u32" where
  "GetID c = conn_id c"

definition IsConnected :: "connection \<Rightarrow> bool" where
  "IsConnected c \<longleftrightarrow> socket_open c"

definition SetMsgCallback :: "connection \<Rightarrow> connection" where
  "SetMsgCallback c = c\<lparr>m_msgCallback := True\<rparr>"

definition close_socket :: "connection \<Rightarrow> connection" where
  "close_socket c = c\<lparr>socket_open := False\<rparr>"

text \<open>\<^verbatim>\<open>Disconnect\<close>, with the posted lambda run.\<close>

definition Disconnect :: "connection \<Rightarrow> connection" where
  "Disconnect c = (if IsConnected c then close_socket c else c)"

section \<open>Writing\<close>

definition WriteHeader :: "connection \<Rightarrow> connection" where
  "WriteHeader c = c\<lparr>pending_write := Write_header\<rparr>"

definition WriteBody :: "connection \<Rightarrow> connection" where
  "WriteBody c = c\<lparr>pending_write := Write_body\<rparr>"

text \<open>The lambda \<^verbatim>\<open>Send\<close> posts.\<close>

definition Send :: "connection \<Rightarrow> message \<Rightarrow> connection" where
  "Send c msg = (let bWrittingMessage = \<not> empty_q (m_qMessagesOut c);
       c = c\<lparr>m_qMessagesOut := push_back (m_qMessagesOut c) msg\<rparr>
     in if \<not> bWrittingMessage then WriteHeader c else c)"

text \<open>\<^verbatim>\<open>m_qMessagesOut.pop_front(); if (!m_qMessagesOut.empty()) WriteHeader();\<close>\<close>

definition finish_message :: "connection \<Rightarrow> connection outcome" where
  "finish_message c = obind (pop_front (m_qMessagesOut c)) (\<lambda>(_, q).
     let c = c\<lparr>m_qMessagesOut := q\<rparr> in
     Ok (if \<not> empty_q q then WriteHeader c else c))"

text \<open>Completion of \<^verbatim>\<open>WriteHeader\<close>'s write: \<open>ec\<close> says it failed, \<open>n\<close> how many bytes went out.\<close>

definition on_header_written :: "bool \<Rightarrow> nat \<Rightarrow> connection \<Rightarrow> connection outcome" where
  "on_header_written ec n c = obind (front_q (m_qMessagesOut c)) (\<lambda>msg.
     let buf = header_bytes (header msg);
         c = c\<lparr>pending_write := No_write,
               wire_out := wire_out c @ (if ec then take n buf else buf)\<rparr>
     in if \<not> ec then
          (if 0 < length (body msg) then Ok (WriteBody c) else finish_message c)
        else Ok (close_socket c))"

definition on_body_written :: "bool \<Rightarrow> nat \<Rightarrow> connection \<Rightarrow> connection outcome" where
  "on_body_written ec n c = obind (front_q (m_qMessagesOut c)) (\<lambda>msg.
     let buf = body msg;
         c = c\<lparr>pending_write := No_write,
               wire_out := wire_out c @ (if ec then take n buf else buf)\<rparr>
     in if \<not> ec then finish_message c else Ok c)"

section \<open>Reading\<close>

definition ReadHeader :: "connection \<Rightarrow> connection" where
  "ReadHeader c = c\<lparr>pending_read := Read_header\<rparr>"

definition ReadBody :: "connection \<Rightarrow> connection" where
  "ReadBody c = c\<lparr>pending_read := Read_body (length (body (m_msgTemporaryIn c)))\<rparr>"

text \<open>\<^verbatim>\<open>body.resize(n)\<close>\<close>

definition resize :: "nat \<Rightarrow> u8 list \<Rightarrow> u8 list" where
  "resize n bs = take n bs @ replicate (n - length bs) 0"

text \<open>\<open>cb\<close> is what the callback leaves in the message it gets by reference.\<close>

definition AddToIncomingMessageQueue ::
  "(message \<Rightarrow> message) \<Rightarrow> connection \<Rightarrow> connection \<times> incoming" where
  "AddToIncomingMessageQueue cb c =
     (let msg = m_msgTemporaryIn c in
      if m_nOwnerType c = Owner_server then (ReadHeader c, Queue_owned msg)
      else if m_msgCallback c then
        (ReadHeader (c\<lparr>m_msgTemporaryIn := cb msg\<rparr>), Callback msg)
      else (ReadHeader c, Queue_unowned msg))"

definition on_header_read ::
  "(message \<Rightarrow> message) \<Rightarrow> bool \<Rightarrow> u8 list \<Rightarrow> connection \<Rightarrow> connection \<times> incoming option" where
  "on_header_read cb ec bs c = (let c = c\<lparr>pending_read := No_read\<rparr> in
     if \<not> ec then
       (let c = c\<lparr>m_msgTemporaryIn := (m_msgTemporaryIn c)\<lparr>header := header_of_bytes bs\<rparr>\<rparr>;
            n = hdr_size (header (m_msgTemporaryIn c))
        in if 0 < n then
             (ReadBody (c\<lparr>m_msgTemporaryIn := (m_msgTemporaryIn c)
                \<lparr>body := resize (unat n) (body (m_msgTemporaryIn c))\<rparr>\<rparr>), None)
           else apsnd Some (AddToIncomingMessageQueue cb c))
     else (close_socket c, None))"

text \<open>On failure \<open>bs\<close> is what arrived before it, copied over the front of the body.\<close>

definition on_body_read ::
  "(message \<Rightarrow> message) \<Rightarrow> bool \<Rightarrow> u8 list \<Rightarrow> connection \<Rightarrow> connection \<times> incoming option" where
  "on_body_read cb ec bs c = (let old = body (m_msgTemporaryIn c);
       c = c\<lparr>pending_read := No_read, m_msgTemporaryIn := (m_msgTemporaryIn c)
              \<lparr>body := bs @ drop (length bs) old\<rparr>\<rparr>
     in if \<not> ec then apsnd Some (AddToIncomingMessageQueue cb c) else (close_socket c, None))"

section \<open>Connecting\<close>

definition ConnectToClient :: "u32 \<Rightarrow> connection \<Rightarrow> connection" where
  "ConnectToClient uid c = (if m_nOwnerType c = Owner_server \<and> socket_open c
     then ReadHeader (c\<lparr>conn_id := uid\<rparr>) else c)"

text \<open>The completion of \<^verbatim>\<open>ConnectToServer\<close>'s \<^verbatim>\<open>async_connect\<close>; the flag is \<^verbatim>\<open>funcHandler\<close>'s argument.\<close>

definition on_connected :: "bool \<Rightarrow> connection \<Rightarrow> connection \<times> bool" where
  "on_connected ec c = (if \<not> ec then (ReadHeader c, True) else (close_socket c, False))"

lemma body_read_reads_header:
  "on_body_read cb False bs c = (c', m) \<Longrightarrow> pending_read c' = Read_header"
  by (auto simp: on_body_read_def AddToIncomingMessageQueue_def ReadHeader_def Let_def
      split: if_splits)

text \<open>The read handlers over a stream of bytes: as long as the outstanding read can be satisfied it
  completes and the next one starts. The last component is what the stream still holds.\<close>

function receive ::
  "(message \<Rightarrow> message) \<Rightarrow> connection \<Rightarrow> u8 list \<Rightarrow> connection \<times> incoming list \<times> u8 list" where
  "receive cb c bs = (case pending_read c of
       No_read \<Rightarrow> (c, [], bs)
     | Read_header \<Rightarrow>
         if length bs < 8 then (c, [], bs)
         else (case on_header_read cb False (take 8 bs) c of (c', m) \<Rightarrow>
           case receive cb c' (drop 8 bs) of (c'', ms, rest) \<Rightarrow>
             (c'', (case m of None \<Rightarrow> [] | Some x \<Rightarrow> [x]) @ ms, rest))
     | Read_body n \<Rightarrow>
         if length bs < n then (c, [], bs)
         else (case on_body_read cb False (take n bs) c of (c', m) \<Rightarrow>
           case receive cb c' (drop n bs) of (c'', ms, rest) \<Rightarrow>
             (c'', (case m of None \<Rightarrow> [] | Some x \<Rightarrow> [x]) @ ms, rest)))"
  by pat_completeness auto

termination
  by (relation "measure (\<lambda>(_, c, bs). 2 * length bs + (if pending_read c = Read_header then 0 else 1))")
    (auto dest: body_read_reads_header [OF sym])

declare receive.simps [simp del]

section \<open>What reaches the wire\<close>

definition msg_bytes :: "message \<Rightarrow> u8 list" where
  "msg_bytes m = header_bytes (header m) @ body m"

definition stream_of :: "message list \<Rightarrow> u8 list" where
  "stream_of ms = concat (map msg_bytes ms)"

text \<open>A connection whose writes all succeed: any interleaving of \<open>Send\<close>s and completions, with the
  messages sent so far.\<close>

inductive writer :: "connection \<Rightarrow> message list \<Rightarrow> bool" where
  fresh: "deqQueue (m_qMessagesOut c) = [] \<Longrightarrow> pending_write c = No_write \<Longrightarrow> wire_out c = [] \<Longrightarrow>
    writer c []"
| send: "writer c sent \<Longrightarrow> writer (Send c m) (sent @ [m])"
| header_out: "writer c sent \<Longrightarrow> pending_write c = Write_header \<Longrightarrow>
    on_header_written False n c = Ok c' \<Longrightarrow> writer c' sent"
| body_out: "writer c sent \<Longrightarrow> pending_write c = Write_body \<Longrightarrow>
    on_body_written False n c = Ok c' \<Longrightarrow> writer c' sent"

text \<open>The bytes the queue still owes the wire.\<close>

definition unsent :: "connection \<Rightarrow> u8 list" where
  "unsent c = (case pending_write c of
       No_write \<Rightarrow> []
     | Write_header \<Rightarrow> stream_of (deqQueue (m_qMessagesOut c))
     | Write_body \<Rightarrow> (case deqQueue (m_qMessagesOut c) of
           [] \<Rightarrow> [] | m # ms \<Rightarrow> body m @ stream_of ms))"

definition writer_inv :: "connection \<Rightarrow> message list \<Rightarrow> bool" where
  "writer_inv c sent \<longleftrightarrow> wire_out c @ unsent c = stream_of sent
     \<and> (deqQueue (m_qMessagesOut c) = [] \<longleftrightarrow> pending_write c = No_write)"

lemma stream_of_simps [simp]:
  "stream_of [] = []" "stream_of (m # ms) = msg_bytes m @ stream_of ms"
  "stream_of (ms @ ms') = stream_of ms @ stream_of ms'"
  by (simp_all add: stream_of_def)

lemmas queue_facts = tsq.contents_enq tsq.is_empty_iff tsq.deq_nil

lemma front_q_Ok: "front_q q = Ok m \<longleftrightarrow> (\<exists>ms. deqQueue q = m # ms)"
  by (auto simp: front_q_def split: list.splits)

lemma finish_message_Ok:
  assumes "deqQueue (m_qMessagesOut c) = m # ms"
  shows "\<exists>q. deqQueue q = ms \<and> finish_message c = Ok (if ms = [] then c\<lparr>m_qMessagesOut := q\<rparr>
      else WriteHeader (c\<lparr>m_qMessagesOut := q\<rparr>))"
proof -
  obtain q where q: "pop_front (m_qMessagesOut c) = Ok (m, q)" "deqQueue q = ms"
    using tsq.deq_cons [OF assms] by blast
  then have "empty_q q \<longleftrightarrow> ms = []" by (simp add: tsq.is_empty_iff)
  with q show ?thesis by (intro exI [of _ q]) (simp add: finish_message_def)
qed

lemma unsent_push:
  assumes "deqQueue (m_qMessagesOut c) = x # xs" and "pending_write c \<noteq> No_write"
  shows "unsent (c\<lparr>m_qMessagesOut := push_back (m_qMessagesOut c) m\<rparr>) = unsent c @ msg_bytes m"
  using assms by (cases "pending_write c") (simp_all add: unsent_def tsq.contents_enq)

lemma writer_inv_send:
  assumes "writer_inv c sent"
  shows "writer_inv (Send c m) (sent @ [m])"
proof (cases "deqQueue (m_qMessagesOut c)")
  case Nil
  with assms have "wire_out c = stream_of sent" "pending_write c = No_write"
    by (auto simp: writer_inv_def unsent_def)
  with Nil show ?thesis
    by (simp add: Send_def writer_inv_def unsent_def WriteHeader_def queue_facts)
next
  case (Cons x xs)
  let ?c = "c\<lparr>m_qMessagesOut := push_back (m_qMessagesOut c) m\<rparr>"
  from Cons assms have pw: "pending_write c \<noteq> No_write" by (auto simp: writer_inv_def)
  have w: "wire_out c @ unsent c = stream_of sent" using assms by (simp add: writer_inv_def)
  have "Send c m = ?c" using Cons by (simp add: Send_def tsq.is_empty_iff)
  moreover have "wire_out ?c @ unsent ?c = stream_of (sent @ [m])"
    using w by (simp add: unsent_push [OF Cons pw] append_assoc [symmetric] del: append_assoc)
  moreover have "deqQueue (m_qMessagesOut ?c) \<noteq> []" by (simp add: tsq.contents_enq)
  ultimately show ?thesis using pw by (simp add: writer_inv_def)
qed

text \<open>What remains after the front message has gone out completely.\<close>

lemma writer_inv_finish:
  assumes "deqQueue (m_qMessagesOut c) = m # ms" and "pending_write c = No_write"
    and "wire_out c @ stream_of ms = stream_of sent" and "finish_message c = Ok c'"
  shows "writer_inv c' sent"
  using finish_message_Ok [OF assms(1)] assms(2-4)
  by (auto simp: writer_inv_def unsent_def WriteHeader_def split: if_splits)

lemma writer_inv_header:
  assumes inv: "writer_inv c sent" and pw: "pending_write c = Write_header"
    and ok: "on_header_written False n c = Ok c'"
  shows "writer_inv c' sent"
proof -
  from inv pw obtain m ms where q: "deqQueue (m_qMessagesOut c) = m # ms"
    by (cases "deqQueue (m_qMessagesOut c)") (auto simp: writer_inv_def)
  let ?c = "c\<lparr>pending_write := No_write, wire_out := wire_out c @ header_bytes (header m)\<rparr>"
  have w: "wire_out c @ header_bytes (header m) @ body m @ stream_of ms = stream_of sent"
    using inv pw q by (simp add: writer_inv_def unsent_def msg_bytes_def)
  have front: "front_q (m_qMessagesOut c) = Ok m" using q by (simp add: front_q_Ok)
  show ?thesis
  proof (cases "body m = []")
    case True
    with ok front have "finish_message ?c = Ok c'" by (simp add: on_header_written_def)
    then show ?thesis by (rule writer_inv_finish [rotated 3]) (use q w True in simp_all)
  next
    case False
    with ok front have "c' = WriteBody ?c" by (simp add: on_header_written_def)
    with w q show ?thesis by (simp add: writer_inv_def unsent_def WriteBody_def)
  qed
qed

lemma writer_inv_body:
  assumes inv: "writer_inv c sent" and pw: "pending_write c = Write_body"
    and ok: "on_body_written False n c = Ok c'"
  shows "writer_inv c' sent"
proof -
  from inv pw obtain m ms where q: "deqQueue (m_qMessagesOut c) = m # ms"
    by (cases "deqQueue (m_qMessagesOut c)") (auto simp: writer_inv_def)
  let ?c = "c\<lparr>pending_write := No_write, wire_out := wire_out c @ body m\<rparr>"
  have w: "wire_out c @ body m @ stream_of ms = stream_of sent"
    using inv pw q by (simp add: writer_inv_def unsent_def)
  have "front_q (m_qMessagesOut c) = Ok m" using q by (simp add: front_q_Ok)
  with ok have "finish_message ?c = Ok c'" by (simp add: on_body_written_def)
  then show ?thesis by (rule writer_inv_finish [rotated 3]) (use q w in simp_all)
qed

lemma writer_invariant: "writer c sent \<Longrightarrow> writer_inv c sent"
proof (induction rule: writer.induct)
  case (fresh c)
  then show ?case by (simp add: writer_inv_def unsent_def)
qed (auto intro: writer_inv_send writer_inv_header writer_inv_body)

section \<open>What the other side reads\<close>

text \<open>A message the framing can carry: its header tells its length, and it has a body.\<close>

definition framed :: "message \<Rightarrow> bool" where
  "framed m \<longleftrightarrow> sized m \<and> 0 < length (body m) \<and> length (body m) < 2 ^ 32"

definition owned :: "connection \<Rightarrow> message \<Rightarrow> incoming" where
  "owned c m = (if m_nOwnerType c = Owner_server then Queue_owned m
     else if m_msgCallback c then Callback m else Queue_unowned m)"

lemma receive_message:
  assumes "framed m" and "pending_read c = Read_header"
  shows "\<exists>c'. pending_read c' = Read_header \<and> m_nOwnerType c' = m_nOwnerType c
      \<and> m_msgCallback c' = m_msgCallback c
      \<and> receive cb c (msg_bytes m @ bs) =
         (case receive cb c' bs of (c'', ms, rest) \<Rightarrow> (c'', owned c m # ms, rest))"
proof -
  let ?t = "m_msgTemporaryIn c" and ?n = "length (body m)"
  let ?c1 = "c\<lparr>m_msgTemporaryIn := ?t\<lparr>header := header m, body := resize ?n (body ?t)\<rparr>,
      pending_read := Read_body ?n\<rparr>"
  let ?c2 = "?c1\<lparr>m_msgTemporaryIn := (if m_nOwnerType c = Owner_client \<and> m_msgCallback c
      then cb m else m), pending_read := Read_header\<rparr>"
  have size: "hdr_size (header m) = of_nat ?n" and n: "unat (of_nat ?n :: u32) = ?n"
    using assms(1) by (auto simp: framed_def sized_hdr_size unat_of_nat_u32)
  then have pos: "0 < hdr_size (header m)" "unat (hdr_size (header m)) = ?n"
    using assms(1) by (auto simp: framed_def word_less_nat_alt)
  have hdr: "take 8 (msg_bytes m @ bs) = header_bytes (header m)"
    and rest: "drop 8 (msg_bytes m @ bs) = body m @ bs"
    and len: "\<not> length (msg_bytes m @ bs) < 8"
    using pod_header.length_enc [of "header m"] by (simp_all add: msg_bytes_def)
  have res: "length (resize ?n (body ?t)) = ?n" by (simp add: resize_def)
  have h: "on_header_read cb False (header_bytes (header m)) c = (?c1, None)"
    using pos pod_header.dec_enc [of "header m"] res
    by (simp add: on_header_read_def ReadBody_def Let_def)
  have eq: "?t\<lparr>header := header m, body := body m\<rparr> = m" by simp
  have b: "on_body_read cb False (body m) ?c1 = (?c2, Some (owned c m))"
    using res
    by (cases "m_nOwnerType c")
      (simp_all add: on_body_read_def AddToIncomingMessageQueue_def ReadHeader_def owned_def eq)
  have "receive cb c (msg_bytes m @ bs) = receive cb ?c1 (body m @ bs)"
    using assms(2) hdr rest len h
    by (subst receive.simps) (simp split: prod.split)
  also have "\<dots> = (case receive cb ?c2 bs of (c'', ms, r) \<Rightarrow> (c'', owned c m # ms, r))"
    using b by (subst receive.simps) simp
  finally show ?thesis
    by (intro exI [of _ ?c2]) simp
qed

lemma receive_stream:
  assumes "\<forall>m \<in> set ms. framed m" and "pending_read c = Read_header"
  shows "\<exists>c'. pending_read c' = Read_header \<and> receive cb c (stream_of ms) = (c', map (owned c) ms, [])"
  using assms
proof (induction ms arbitrary: c)
  case Nil
  then show ?case by (subst receive.simps) simp
next
  case (Cons m ms)
  then obtain c1 where c1: "pending_read c1 = Read_header" "m_nOwnerType c1 = m_nOwnerType c"
      "m_msgCallback c1 = m_msgCallback c" "receive cb c (msg_bytes m @ stream_of ms) =
         (case receive cb c1 (stream_of ms) of (c'', ms', rest) \<Rightarrow> (c'', owned c m # ms', rest))"
    using receive_message [of m c cb "stream_of ms"] by auto
  from c1(2,3) have "owned c1 = owned c" by (simp add: fun_eq_iff owned_def)
  with Cons.IH [of c1] Cons.prems c1 show ?case by auto
qed

section \<open>A small message\<close>

text \<open>Four bytes of body, and a client connection with it queued: where the statements below are evaluated.\<close>

definition demo_msg :: message where
  "demo_msg = push_pod u32_bytes new_message 7"

definition demo_conn :: connection where
  "demo_conn = new_connection Owner_client True"

lemma demo_msg_facts: "framed demo_msg" "length (body demo_msg) = 4"
  by (simp_all add: framed_def demo_msg_def new_message_def)

lemma demo_writer: "writer (Send demo_conn demo_msg) [demo_msg]"
proof -
  have "writer demo_conn []" by (rule writer.fresh) (simp_all add: demo_conn_def new_connection_def empty_tsqueue_def)
  then show ?thesis using writer.send [of demo_conn "[]" demo_msg] by simp
qed

lemma demo_front: "front_q (m_qMessagesOut (Send demo_conn demo_msg)) = Ok demo_msg"
  "pending_write (Send demo_conn demo_msg) = Write_header"
  by (simp_all add: Send_def demo_conn_def new_connection_def empty_tsqueue_def front_q_Ok push_back_def
      empty_q_def WriteHeader_def)

section \<open>Properties\<close>

lemma writer_progress:
  assumes "writer c sent"
  shows "(pending_write c = Write_header \<longrightarrow> (\<exists>c'. on_header_written False n c = Ok c'))
    \<and> (pending_write c = Write_body \<longrightarrow> (\<exists>c'. on_body_written False n c = Ok c'))"
proof (cases "deqQueue (m_qMessagesOut c)")
  case Nil
  with writer_invariant [OF assms] show ?thesis by (simp add: writer_inv_def)
next
  case (Cons m ms)
  then have front: "front_q (m_qMessagesOut c) = Ok m" by (simp add: front_q_Ok)
  have "\<exists>d. finish_message (c\<lparr>pending_write := No_write, wire_out := w\<rparr>) = Ok d" for w
    using finish_message_Ok [of "c\<lparr>pending_write := No_write, wire_out := w\<rparr>" m ms] Cons by auto
  with front show ?thesis by (simp add: on_header_written_def on_body_written_def Let_def)
qed

text \<open>C20: the wire carries the messages in the order they were sent, each whole and uninterleaved:
  after any interleaving of sends and write completions, the bytes written are a prefix of the
  concatenated messages; a write is outstanding exactly while the queue is not empty, so none is
  started over another; when none is, everything sent has been written; and no completion
  handler ever reads or pops an empty queue.\<close>

theorem wire_is_sent_stream:
  assumes "writer c sent"
  shows "\<exists>rest. stream_of sent = wire_out c @ rest \<and>
    (pending_write c = No_write \<longleftrightarrow> empty_q (m_qMessagesOut c)) \<and>
    (pending_write c = No_write \<longrightarrow> rest = []) \<and>
    (pending_write c = Write_header \<longrightarrow> (\<exists>c'. on_header_written False n c = Ok c')) \<and>
    (pending_write c = Write_body \<longrightarrow> (\<exists>c'. on_body_written False n c = Ok c'))"
  using writer_invariant [OF assms] writer_progress [OF assms]
  by (intro exI [of _ "unsent c"]) (auto simp: writer_inv_def tsq.is_empty_iff unsent_def)

theorem wire_is_sent_stream_witness:
  "pending_write (Send demo_conn demo_msg) = Write_header
    \<and> (\<exists>c'. on_header_written False 8 (Send demo_conn demo_msg) = Ok c')"
  using wire_is_sent_stream [OF demo_writer, of 8] demo_front(2) by auto

text \<open>C26: framing is a round trip: a reader that gets the bytes of any sequence of messages with
  bodies (each shorter than 4 GiB and with a truthful header) hands on exactly those messages, in
  order, through the path its role prescribes, and waits for the next header.\<close>

theorem framing_roundtrip:
  assumes "\<forall>m \<in> set ms. framed m" and "pending_read c = Read_header"
  shows "\<exists>c'. pending_read c' = Read_header \<and> receive cb c (stream_of ms) = (c', map (owned c) ms, [])"
  using assms by (rule receive_stream)

theorem framing_roundtrip_witness:
  "snd (receive id (ReadHeader demo_conn) (stream_of [demo_msg, demo_msg]))
    = ([Queue_unowned demo_msg, Queue_unowned demo_msg], [])"
proof -
  have "\<forall>m \<in> set [demo_msg, demo_msg]. framed m" by (simp add: demo_msg_facts)
  moreover have "pending_read (ReadHeader demo_conn) = Read_header" by (simp add: ReadHeader_def)
  ultimately show ?thesis
    using framing_roundtrip [of "[demo_msg, demo_msg]" "ReadHeader demo_conn" id]
    by (auto simp: owned_def demo_conn_def new_connection_def ReadHeader_def)
qed

text \<open>A message without a body is not read back as it was sent: the reader keeps the previous
  message's bytes as its body, under a header that says 0, because only a header with a size
  touches the body.\<close>

theorem bodyless_message_keeps_stale_body:
  assumes "pending_read c = Read_header" and "m_nOwnerType c = Owner_server"
  shows "snd (on_header_read cb False (header_bytes \<lparr>hdr_id = i, hdr_size = 0\<rparr>) c)
    = Some (Queue_owned \<lparr>header = \<lparr>hdr_id = i, hdr_size = 0\<rparr>, body = body (m_msgTemporaryIn c)\<rparr>)"
  using assms(2) pod_header.dec_enc [of "\<lparr>hdr_id = i, hdr_size = 0\<rparr>"]
  by (simp add: on_header_read_def AddToIncomingMessageQueue_def Let_def)

theorem bodyless_message_keeps_stale_body_witness:
  "\<exists>m. snd (on_header_read id False (header_bytes \<lparr>hdr_id = 3, hdr_size = 0\<rparr>)
      (ReadHeader ((new_connection Owner_server True)\<lparr>m_msgTemporaryIn := demo_msg\<rparr>)))
    = Some (Queue_owned m) \<and> hdr_size (header m) = 0 \<and> length (body m) = 4"
  using bodyless_message_keeps_stale_body
    [of "ReadHeader ((new_connection Owner_server True)\<lparr>m_msgTemporaryIn := demo_msg\<rparr>)" id 3] demo_msg_facts(2)
  by (simp add: ReadHeader_def new_connection_def)

text \<open>A failed body write wedges the connection: unlike a failed header write it neither closes
  the socket nor clears the queue, so the connection still counts as connected, and no later
  \<open>Send\<close> ever starts a write again.\<close>


theorem failed_body_write_wedges:
  assumes "front_q (m_qMessagesOut c) = Ok m" and "on_body_written True n c = Ok c'"
  shows "IsConnected c' = IsConnected c \<and> pending_write (foldl Send c' ms) = No_write
    \<and> wire_out (foldl Send c' ms) = wire_out c' \<and> IsConnected (foldl Send c' ms) = IsConnected c"
proof -
  have c': "deqQueue (m_qMessagesOut c') \<noteq> []" "pending_write c' = No_write"
      "IsConnected c' = IsConnected c"
    using assms by (auto simp: on_body_written_def front_q_Ok IsConnected_def obind_eq_Ok)
  have "deqQueue (m_qMessagesOut d) \<noteq> [] \<Longrightarrow> pending_write (foldl Send d ms) = pending_write d
    \<and> wire_out (foldl Send d ms) = wire_out d \<and> IsConnected (foldl Send d ms) = IsConnected d" for d
    by (induction ms arbitrary: d)
      (simp_all add: Send_def IsConnected_def tsq.is_empty_iff tsq.contents_enq)
  with c' show ?thesis by simp
qed

theorem failed_body_write_wedges_witness:
  "\<exists>c'. on_body_written True 2 (Send demo_conn demo_msg) = Ok c'
    \<and> IsConnected (Send c' demo_msg) \<and> pending_write (Send c' demo_msg) = No_write"
proof -
  obtain c' where c': "on_body_written True 2 (Send demo_conn demo_msg) = Ok c'"
    using demo_front(1) by (simp add: on_body_written_def Let_def)
  have "IsConnected (Send demo_conn demo_msg)"
    by (simp add: IsConnected_def Send_def demo_conn_def new_connection_def empty_tsqueue_def empty_q_def WriteHeader_def)
  with failed_body_write_wedges [OF demo_front(1) c', of "[demo_msg]"] c' show ?thesis by simp
qed

end
