(* ===== verification/NetServer.thy ===== *)
theory NetServer
  imports NetConnection
begin

text \<open>
  \<^verbatim>\<open>NetCommon/include/net_server.hpp\<close> and \<^verbatim>\<open>net_client.hpp\<close>: the two interfaces the master and
  the worker derive from. A \<^verbatim>\<open>shared_ptr\<close> to a connection is an optional address into a heap of
  connection objects, so that two pointers to one object and a null pointer are told apart. The
  virtual methods of the derived class are arguments, and \<open>app\<close> is its state.
\<close>

section \<open>The server interface\<close>

record 'app server =
  m_deqConnections :: "nat option list"
  conns :: "nat \<Rightarrow> connection"
  next_addr :: nat
  nIDCounter :: u32
  m_qMessagesIn :: "(nat option \<times> message) tsqueue"
  accepting :: bool
  context_running :: bool
  app :: 'app

definition new_server :: "'app \<Rightarrow> 'app server" where
  "new_server a = \<lparr>m_deqConnections = [], conns = (\<lambda>_. new_connection Owner_server False),
     next_addr = 0, nIDCounter = 10000, m_qMessagesIn = empty_tsqueue, accepting = False,
     context_running = False, app = a\<rparr>"

definition WaitForClientConnection :: "'app server \<Rightarrow> 'app server" where
  "WaitForClientConnection s = s\<lparr>accepting := True\<rparr>"

text \<open>\<open>ex\<close>: starting the context thread threw.\<close>

definition Start :: "bool \<Rightarrow> 'app server \<Rightarrow> 'app server \<times> bool" where
  "Start ex s = (let s = WaitForClientConnection s in
     if ex then (s, False) else (s\<lparr>context_running := True\<rparr>, True))"

definition Stop :: "'app server \<Rightarrow> 'app server" where
  "Stop s = s\<lparr>context_running := False\<rparr>"

definition upd_conn :: "nat \<Rightarrow> (connection \<Rightarrow> connection) \<Rightarrow> 'app server \<Rightarrow> 'app server" where
  "upd_conn a f s = s\<lparr>conns := (conns s)(a := f (conns s a))\<rparr>"

text \<open>The completion of \<^verbatim>\<open>async_accept\<close>: \<open>opened\<close> says whether the accepted socket is (still) open.\<close>

definition on_accept ::
  "(nat \<Rightarrow> 'app \<Rightarrow> bool \<times> 'app) \<Rightarrow> bool \<Rightarrow> bool \<Rightarrow> 'app server \<Rightarrow> 'app server" where
  "on_accept OnClientConnect ec opened s = WaitForClientConnection
     (if \<not> ec then
        (let a = next_addr s;
             s = s\<lparr>next_addr := a + 1, conns := (conns s)(a := new_connection Owner_server opened)\<rparr>
         in case OnClientConnect a (app s) of (ok, app') \<Rightarrow>
           let s = s\<lparr>app := app'\<rparr> in
           if ok then
             upd_conn a (ConnectToClient (nIDCounter s))
               (s\<lparr>m_deqConnections := m_deqConnections s @ [Some a], nIDCounter := nIDCounter s + 1\<rparr>)
           else s)
      else s)"

definition client_connected :: "'app server \<Rightarrow> nat option \<Rightarrow> bool" where
  "client_connected s client = (case client of None \<Rightarrow> False | Some a \<Rightarrow> IsConnected (conns s a))"

definition send_to :: "nat option \<Rightarrow> message \<Rightarrow> 'app server \<Rightarrow> 'app server" where
  "send_to client msg s = (case client of None \<Rightarrow> s | Some a \<Rightarrow> upd_conn a (\<lambda>c. Send c msg) s)"

text \<open>\<^verbatim>\<open>erase(remove(begin, end, v), end)\<close>\<close>

definition erase_remove :: "nat option \<Rightarrow> 'app server \<Rightarrow> 'app server" where
  "erase_remove v s = s\<lparr>m_deqConnections := filter (\<lambda>p. p \<noteq> v) (m_deqConnections s)\<rparr>"

text \<open>The parameter \<^verbatim>\<open>client\<close> is reset before it is compared with the stored pointers.\<close>

definition MessageClient ::
  "(nat option \<Rightarrow> 'app server \<Rightarrow> 'app server outcome) \<Rightarrow> nat option \<Rightarrow> message
     \<Rightarrow> 'app server \<Rightarrow> 'app server outcome" where
  "MessageClient OnClientDisconnect client msg s =
     (if client_connected s client then Ok (send_to client msg s)
      else obind (OnClientDisconnect client s) (\<lambda>s.
        let client = None in Ok (erase_remove client s)))"

text \<open>The loop of \<^verbatim>\<open>MessageAllClients\<close> over the stored pointers; it returns them as it leaves them,
  and whether it reset one. \<^verbatim>\<open>OnClientDisconnect\<close> is taken not to change the container it is
  called over.\<close>

fun message_all_loop ::
  "(nat option \<Rightarrow> 'app server \<Rightarrow> 'app server outcome) \<Rightarrow> message \<Rightarrow> nat option
     \<Rightarrow> nat option list \<Rightarrow> 'app server \<Rightarrow> (nat option list \<times> bool \<times> 'app server) outcome" where
  "message_all_loop ocd msg ignored [] s = Ok ([], False, s)"
| "message_all_loop ocd msg ignored (client # rest) s =
     (if client_connected s client then
        obind (message_all_loop ocd msg ignored rest
            (if client \<noteq> ignored then send_to client msg s else s))
          (\<lambda>(ps, inv, s). Ok (client # ps, inv, s))
      else obind (ocd client s) (\<lambda>s.
        obind (message_all_loop ocd msg ignored rest s) (\<lambda>(ps, inv, s). Ok (None # ps, True, s))))"

definition MessageAllClients ::
  "(nat option \<Rightarrow> 'app server \<Rightarrow> 'app server outcome) \<Rightarrow> message \<Rightarrow> nat option
     \<Rightarrow> 'app server \<Rightarrow> 'app server outcome" where
  "MessageAllClients OnClientDisconnect msg pIgnoreClient s =
     obind (message_all_loop OnClientDisconnect msg pIgnoreClient (m_deqConnections s) s)
       (\<lambda>(ps, bInvalidClientExists, s). let s = s\<lparr>m_deqConnections := ps\<rparr> in
          Ok (if bInvalidClientExists then erase_remove None s else s))"

text \<open>The message pump: at most \<open>n\<close> messages, oldest first.\<close>

fun update_loop ::
  "(nat option \<Rightarrow> message \<Rightarrow> 'app server \<Rightarrow> 'app server outcome) \<Rightarrow> nat
     \<Rightarrow> 'app server \<Rightarrow> 'app server outcome" where
  "update_loop OnMessage 0 s = Ok s"
| "update_loop OnMessage (Suc n) s =
     (if empty_q (m_qMessagesIn s) then Ok s
      else obind (pop_front (m_qMessagesIn s)) (\<lambda>((remote, msg), q).
        obind (OnMessage remote msg (s\<lparr>m_qMessagesIn := q\<rparr>)) (update_loop OnMessage n)))"

definition Update ::
  "(nat option \<Rightarrow> message \<Rightarrow> 'app server \<Rightarrow> 'app server outcome) \<Rightarrow> u64
     \<Rightarrow> 'app server \<Rightarrow> 'app server outcome" where
  "Update OnMessage nMaxMessages s = update_loop OnMessage (unat nMaxMessages) s"

text \<open>The completions of a connection's reads push what they deliver onto the server's queue.\<close>

definition deliver :: "nat \<Rightarrow> incoming option \<Rightarrow> 'app server \<Rightarrow> 'app server" where
  "deliver a i s = (case i of
       Some (Queue_owned m) \<Rightarrow> s\<lparr>m_qMessagesIn := push_back (m_qMessagesIn s) (Some a, m)\<rparr>
     | Some (Queue_unowned m) \<Rightarrow> s\<lparr>m_qMessagesIn := push_back (m_qMessagesIn s) (None, m)\<rparr>
     | _ \<Rightarrow> s)"

definition server_header_read :: "nat \<Rightarrow> bool \<Rightarrow> u8 list \<Rightarrow> 'app server \<Rightarrow> 'app server" where
  "server_header_read a ec bs s = (case on_header_read id ec bs (conns s a) of (c, i) \<Rightarrow>
     deliver a i (upd_conn a (\<lambda>_. c) s))"

definition server_body_read :: "nat \<Rightarrow> bool \<Rightarrow> u8 list \<Rightarrow> 'app server \<Rightarrow> 'app server" where
  "server_body_read a ec bs s = (case on_body_read id ec bs (conns s a) of (c, i) \<Rightarrow>
     deliver a i (upd_conn a (\<lambda>_. c) s))"

section \<open>The client interface\<close>

record client =
  m_connection :: "connection option"
  cl_context_running :: bool
  leaked :: "connection list"

definition new_client :: client where
  "new_client = \<lparr>m_connection = None, cl_context_running = False, leaked = []\<rparr>"

definition client_IsConnected :: "client \<Rightarrow> bool" where
  "client_IsConnected cl = (case m_connection cl of None \<Rightarrow> False | Some c \<Rightarrow> IsConnected c)"

definition client_Send :: "message \<Rightarrow> client \<Rightarrow> client" where
  "client_Send msg cl = (if client_IsConnected cl
     then cl\<lparr>m_connection := map_option (\<lambda>c. Send c msg) (m_connection cl)\<rparr> else cl)"

text \<open>\<^verbatim>\<open>Connect\<close>: \<open>resolved\<close> is false when resolving the host throws. The socket is opened when the
  connection attempt starts.\<close>

definition Connect :: "bool \<Rightarrow> client \<Rightarrow> client \<times> bool" where
  "Connect resolved cl = (if resolved
     then (cl\<lparr>m_connection := Some (SetMsgCallback (new_connection Owner_client True)),
              cl_context_running := True\<rparr>, True)
     else (cl, False))"

text \<open>\<^verbatim>\<open>Disconnect\<close> posts the closing of the socket, stops the context and releases (does not
  delete) the connection: \<open>closed\<close> says whether the context ran the posted close before it stopped.\<close>

definition client_Disconnect :: "bool \<Rightarrow> client \<Rightarrow> client" where
  "client_Disconnect closed cl =
     (let c = m_connection cl;
          c = (if closed then map_option Disconnect c else c)
      in cl\<lparr>m_connection := None, cl_context_running := False,
            leaked := leaked cl @ (case c of None \<Rightarrow> [] | Some x \<Rightarrow> [x])\<rparr>)"

section \<open>Facts\<close>

lemma update_loop_fold:
  assumes g: "\<And>r m s. h r m s = Ok (g r m s)"
    and q: "\<And>r m s q. g r m (s\<lparr>m_qMessagesIn := q\<rparr>) = (g r m s)\<lparr>m_qMessagesIn := q\<rparr>"
  shows "\<exists>s'. update_loop h n s = Ok s' \<and> deqQueue (m_qMessagesIn s') = drop n (deqQueue (m_qMessagesIn s))
    \<and> (\<exists>q. s' = (foldl (\<lambda>s (r, m). g r m s) s (take n (deqQueue (m_qMessagesIn s))))\<lparr>m_qMessagesIn := q\<rparr>)"
proof (induction n arbitrary: s)
  case 0
  show ?case by (auto intro: exI [of _ "m_qMessagesIn s"])
next
  case (Suc n)
  have keep: "m_qMessagesIn (g r m s) = m_qMessagesIn s" for r m s
  proof -
    have "m_qMessagesIn (g r m (s\<lparr>m_qMessagesIn := m_qMessagesIn s\<rparr>)) = m_qMessagesIn s"
      by (subst q) simp
    then show ?thesis by simp
  qed
  have fold: "foldl (\<lambda>s (r, m). g r m s) (s\<lparr>m_qMessagesIn := q\<rparr>) ms
      = (foldl (\<lambda>s (r, m). g r m s) s ms)\<lparr>m_qMessagesIn := q\<rparr>" for s q ms
    by (induction ms arbitrary: s) (auto simp: assms(2))
  show ?case
  proof (cases "deqQueue (m_qMessagesIn s)")
    case Nil
    then show ?thesis by (auto simp: tsq.is_empty_iff intro: exI [of _ "m_qMessagesIn s"])
  next
    case (Cons x xs)
    obtain r m where x: "x = (r, m)" by (cases x)
    obtain t where t: "pop_front (m_qMessagesIn s) = Ok (x, t)" "deqQueue t = xs"
      using tsq.deq_cons [OF Cons] by blast
    let ?s = "(g r m s)\<lparr>m_qMessagesIn := t\<rparr>"
    have "update_loop h (Suc n) s = update_loop h n ?s"
      using Cons t x by (simp add: tsq.is_empty_iff g q)
    with Suc.IH [of ?s] Cons t x fold show ?thesis by auto
  qed
qed

section \<open>Identifiers of accepted connections\<close>

definition ids_of :: "'app server \<Rightarrow> u32 list" where
  "ids_of s = map (\<lambda>p. GetID (conns s (the p))) (m_deqConnections s)"

text \<open>What accepting keeps: no null pointer, every stored address already allocated, and the
  identifiers handed out are the counter's past values in order.\<close>

definition accept_inv :: "nat \<Rightarrow> 'app server \<Rightarrow> bool" where
  "accept_inv n s \<longleftrightarrow> (\<forall>p \<in> set (m_deqConnections s). \<exists>a < next_addr s. p = Some a)
     \<and> ids_of s = map (\<lambda>i. 10000 + of_nat i) [0..<n] \<and> nIDCounter s = 10000 + of_nat n"

lemma accept_inv_step:
  assumes "accept_inv n s" and "OnClientConnect (next_addr s) (app s) = (True, a')"
  shows "accept_inv (Suc n) (on_accept OnClientConnect False True s)"
proof -
  let ?a = "next_addr s"
  have "map (\<lambda>p. GetID (conns (on_accept OnClientConnect False True s) (the p))) (m_deqConnections s)
      = ids_of s"
    unfolding ids_of_def using assms
    by (intro map_cong)
      (auto simp: accept_inv_def on_accept_def WaitForClientConnection_def upd_conn_def Let_def)
  with assms show ?thesis
    by (auto simp: accept_inv_def on_accept_def WaitForClientConnection_def upd_conn_def ids_of_def
        ConnectToClient_def new_connection_def ReadHeader_def GetID_def less_Suc_eq Let_def)
qed

lemma accept_inv_run:
  "(\<And>a x. fst (OnClientConnect a x)) \<Longrightarrow> accept_inv n s \<Longrightarrow>
   accept_inv (n + k) (((on_accept OnClientConnect False True) ^^ k) s)"
proof (induction k)
  case (Suc k)
  let ?s = "((on_accept OnClientConnect False True) ^^ k) s"
  have "OnClientConnect (next_addr ?s) (app ?s) = (True, snd (OnClientConnect (next_addr ?s) (app ?s)))"
    using Suc.prems(1) by (simp add: prod_eq_iff)
  with Suc.IH [OF Suc.prems] have "accept_inv (Suc (n + k)) (on_accept OnClientConnect False True ?s)"
    by (rule accept_inv_step)
  then show ?case by simp
qed simp

section \<open>Properties\<close>

text \<open>The message pump is first-in first-out and bounded: with a handler that leaves the incoming
  queue alone, \<^verbatim>\<open>Update(nMaxMessages)\<close> hands the handler exactly the oldest \<open>nMaxMessages\<close> waiting
  messages (all of them if there are fewer), each once and in arrival order, and leaves the rest.\<close>

theorem Update_fifo:
  assumes "\<And>r m s. OnMessage r m s = Ok (g r m s)"
    and "\<And>r m s q. g r m (s\<lparr>m_qMessagesIn := q\<rparr>) = (g r m s)\<lparr>m_qMessagesIn := q\<rparr>"
  shows "\<exists>s' q. Update OnMessage nMax s = Ok s'
    \<and> deqQueue (m_qMessagesIn s') = drop (unat nMax) (deqQueue (m_qMessagesIn s))
    \<and> s' = (foldl (\<lambda>s (r, m). g r m s) s (take (unat nMax) (deqQueue (m_qMessagesIn s))))
             \<lparr>m_qMessagesIn := q\<rparr>"
  using update_loop_fold [of OnMessage g "unat nMax" s, OF assms] unfolding Update_def by blast

theorem Update_fifo_witness:
  "\<exists>s'. Update (\<lambda>r m s. Ok (s\<lparr>app := app s + 1\<rparr>)) 1
      ((new_server (0 :: nat))\<lparr>m_qMessagesIn := \<lparr>deqQueue = [(None, demo_msg), (None, new_message)]\<rparr>\<rparr>) = Ok s'
    \<and> app s' = 1 \<and> deqQueue (m_qMessagesIn s') = [(None, new_message)]"
  using Update_fifo [of "\<lambda>r m s. Ok (s\<lparr>app := app s + 1\<rparr>)" "\<lambda>r m s. s\<lparr>app := app s + 1\<rparr>" 1
      "(new_server (0 :: nat))\<lparr>m_qMessagesIn := \<lparr>deqQueue = [(None, demo_msg), (None, new_message)]\<rparr>\<rparr>"]
  by (auto simp: new_server_def)

text \<open>Every accepted connection gets an identifier of its own: the first \<open>n\<close> accepted ones are
  numbered 10000, 10001, and so on, and no two of them share a number until the 32-bit counter
  has gone round.\<close>

theorem connection_ids_unique:
  assumes "\<And>a x. fst (OnClientConnect a x)" and "n \<le> 2 ^ 32"
  shows "ids_of (((on_accept OnClientConnect False True) ^^ n) (new_server x))
      = map (\<lambda>i. 10000 + of_nat i) [0..<n]
    \<and> distinct (ids_of (((on_accept OnClientConnect False True) ^^ n) (new_server x)))"
proof -
  have "accept_inv 0 (new_server x)" by (simp add: accept_inv_def new_server_def ids_of_def)
  then have "accept_inv n (((on_accept OnClientConnect False True) ^^ n) (new_server x))"
    using accept_inv_run [OF assms(1), of 0 "new_server x" n] by simp
  moreover have "inj_on (\<lambda>i. 10000 + of_nat i :: u32) {0..<n}"
  proof (rule inj_onI)
    fix i j
    assume "i \<in> {0..<n}" "j \<in> {0..<n}" "10000 + of_nat i = (10000 + of_nat j :: u32)"
    then have "of_nat i = (of_nat j :: u32)" "i < 4294967296" "j < 4294967296" using assms(2) by auto
    then show "i = j" by (metis unat_of_nat_u32)
  qed
  ultimately show ?thesis by (simp add: accept_inv_def distinct_map)
qed

theorem connection_ids_unique_witness:
  "ids_of (((on_accept (\<lambda>a x. (True, x)) False True) ^^ 2) (new_server ())) = [10000, 10001]"
proof -
  have "[0..<2] = [0, 1 :: nat]" by (simp add: upt_rec)
  then show ?thesis using connection_ids_unique [of "\<lambda>a x. (True, x)" 2 "()"] by simp
qed

text \<open>\<^verbatim>\<open>MessageClient\<close> never drops the dead connection it found: it resets its own copy of the
  pointer before comparing, so it erases the null pointers of the container and keeps the
  closed connection, whose disconnection the next message reports again.\<close>

theorem MessageClient_keeps_dead_connection:
  assumes "\<not> client_connected s (Some a)" and "OnClientDisconnect (Some a) s = Ok s'"
    and "Some a \<in> set (m_deqConnections s')"
  shows "\<exists>t. MessageClient OnClientDisconnect (Some a) msg s = Ok t \<and> Some a \<in> set (m_deqConnections t)"
  using assms by (simp add: MessageClient_def erase_remove_def)

theorem MessageClient_keeps_dead_connection_witness:
  "\<exists>t. MessageClient (\<lambda>c s. Ok s) (Some 0) demo_msg ((new_server ())\<lparr>m_deqConnections := [Some 0]\<rparr>) = Ok t
    \<and> Some 0 \<in> set (m_deqConnections t)"
  using MessageClient_keeps_dead_connection
    [of "(new_server ())\<lparr>m_deqConnections := [Some 0]\<rparr>" 0 "\<lambda>c s. Ok s" _ demo_msg]
  by (simp add: client_connected_def new_server_def new_connection_def IsConnected_def)

end
