(* ===== verification/WorkerClient.thy ===== *)
theory WorkerClient
  imports FileProcessor ThreadPool NetServer
begin

text \<open>
  \<^verbatim>\<open>NetClient/src/WorkerClient.hpp\<close> and \<^verbatim>\<open>WorkerClient.cpp\<close>, with the waiting loop of
  \<^verbatim>\<open>NetClient/src/main.cpp\<close>: the worker node. Its pool's tasks are closures over one received
  \<open>TaskPayload\<close>, so the pool holds payloads, and \<open>run_task\<close> is the body a pool thread runs.
\<close>

section \<open>State\<close>

record worker =
  w_client :: client
  m_threadPool :: "TaskPayload pool"
  m_shouldDisconnect :: bool

text \<open>Prevent CPU oversubscription (N-1 rule).\<close>

definition CalculateThreadCount :: "u64 \<Rightarrow> u64" where
  "CalculateThreadCount threadsAvailable =
     (let threadsAvailable = (if 1 < threadsAvailable then threadsAvailable - 1 else threadsAvailable)
      in if threadsAvailable = 0 then 4 else threadsAvailable)"

text \<open>\<^verbatim>\<open>hardware_concurrency()\<close> is a 32-bit number.\<close>

definition new_worker :: "u32 \<Rightarrow> worker" where
  "new_worker hardware_concurrency = \<lparr>w_client = new_client,
     m_threadPool = new_pool (CalculateThreadCount (ucast hardware_concurrency)),
     m_shouldDisconnect = False\<rparr>"

definition ShouldDisconnect :: "worker \<Rightarrow> bool" where
  "ShouldDisconnect w = m_shouldDisconnect w"

definition worker_Send :: "message \<Rightarrow> worker \<Rightarrow> worker" where
  "worker_Send msg w = w\<lparr>w_client := client_Send msg (w_client w)\<rparr>"

section \<open>Messages the worker sends\<close>

definition hello_message :: "worker \<Rightarrow> message" where
  "hello_message w = push_pod hello_bytes
     (new_message\<lparr>header := (header new_message)\<lparr>hdr_id := msg_id Worker_Hello\<rparr>\<rparr>)
     \<lparr>threads_available = pool_Size (m_threadPool w)\<rparr>"

definition SendHello :: "worker \<Rightarrow> worker" where
  "SendHello w = worker_Send (hello_message w) w"

text \<open>One line of the batch: its length, truncated to 32 bits, and its characters.\<close>

definition line_bytes :: "string \<Rightarrow> u8 list" where
  "line_bytes line = u32_bytes (of_nat (length line)) @ map char_byte line"

definition SerializeBatch :: "ChunkResult \<Rightarrow> message" where
  "SerializeBatch batch =
     (let msg = set_size (new_message\<lparr>body := concat (map line_bytes (cr_lines batch))\<rparr>)
      in push_pod u64_bytes (push_pod u64_bytes (push_pod u64_bytes (push_pod u32_bytes msg
           (cr_lines_found batch)) (cr_total_matches batch)) (cr_search_id batch)) (cr_task_id batch))"

definition task_done_message :: "ChunkResult \<Rightarrow> message" where
  "task_done_message batch = (let msg = SerializeBatch batch
     in msg\<lparr>header := (header msg)\<lparr>hdr_id := msg_id Worker_TaskDone\<rparr>\<rparr>)"

definition SendTaskDone :: "ChunkResult \<Rightarrow> worker \<Rightarrow> worker" where
  "SendTaskDone batch w = worker_Send (task_done_message batch) w"

section \<open>Handlers\<close>

definition OnConnectionResult :: "bool \<Rightarrow> worker \<Rightarrow> worker" where
  "OnConnectionResult bConnected w = (if bConnected then SendHello w else w)"

text \<open>The message comes by reference: the handler also returns what it leaves of it.\<close>

definition worker_OnMessage :: "worker \<Rightarrow> message \<Rightarrow> (worker \<times> message) outcome" where
  "worker_OnMessage w msg = (case msg_kind (hdr_id (header msg)) of
       Some Server_SearchTask \<Rightarrow> obind (pop_pod 360 task_of_bytes msg) (\<lambda>(task, msg).
         Ok (w\<lparr>m_threadPool := Enqueue (m_threadPool w) task\<rparr>, msg))
     | Some Server_JobFinished \<Rightarrow> Ok (w\<lparr>m_shouldDisconnect := True\<rparr>, msg)
     | _ \<Rightarrow> Ok (w, msg))"

text \<open>The closure given to the pool.\<close>

definition run_task ::
  "char \<Rightarrow> (string \<Rightarrow> string option) \<Rightarrow> (string \<Rightarrow> 'r option) \<Rightarrow> ('r \<Rightarrow> string \<Rightarrow> bool)
     \<Rightarrow> TaskPayload \<Rightarrow> worker \<Rightarrow> worker outcome" where
  "run_task junk fs compile matches task w =
     (let maxLineCount = tp_max_results task in
      obind (SearchTask junk fs compile matches task maxLineCount) (\<lambda>batch.
        Ok (SendTaskDone (batch\<lparr>cr_search_id := tp_search_id task, cr_task_id := tp_task_id task\<rparr>) w)))"

text \<open>\<^verbatim>\<open>main\<close>: poll for the connection at most ten times; \<open>poll i\<close> is what the poll after \<open>i\<close> waits
  sees. The result is whether the worker goes on, and the number of waits.\<close>

function await_connection :: "(nat \<Rightarrow> bool) \<Rightarrow> nat \<Rightarrow> bool \<times> nat" where
  "await_connection poll connAttempts =
     (if \<not> poll connAttempts \<and> connAttempts < 10 then await_connection poll (connAttempts + 1)
      else (poll connAttempts, connAttempts))"
  by pat_completeness auto
termination
  by (relation "measure (\<lambda>(_, n). 10 - n)") auto

declare await_connection.simps [simp del]

section \<open>Facts\<close>

lemma sized_SerializeBatch [simp]: "sized (SerializeBatch batch)"
  by (simp add: SerializeBatch_def)

lemma sized_update_id [simp]: "sized m \<Longrightarrow> sized (m\<lparr>header := (header m)\<lparr>hdr_id := i\<rparr>\<rparr>)"
  by (simp add: sized_iff)

lemma task_done_framed:
  "length (body (SerializeBatch batch)) < 2 ^ 32 \<Longrightarrow> framed (task_done_message batch)"
  by (simp add: framed_def task_done_message_def Let_def) (simp add: SerializeBatch_def)

lemma hello_framed: "framed (hello_message w)"
  by (simp add: framed_def hello_message_def hello_bytes_def new_message_def)

lemma await_step:
  "\<not> up n \<Longrightarrow> n < 10 \<Longrightarrow> await_connection up n = await_connection up (n + 1)"
  by (subst await_connection.simps) simp

lemma await_stop: "up n \<or> 10 \<le> n \<Longrightarrow> await_connection up n = (up n, n)"
  by (subst await_connection.simps) auto

lemma await_bound: "n \<le> 10 \<Longrightarrow> snd (await_connection up n) \<le> 10
    \<and> (fst (await_connection up n) \<longleftrightarrow> (\<exists>i. n \<le> i \<and> i \<le> 10 \<and> up i))"
proof (induction "10 - n" arbitrary: n)
  case 0
  then show ?case by (auto simp: await_stop)
next
  case (Suc k)
  show ?case
  proof (cases "up n")
    case True
    with Suc.prems show ?thesis by (auto simp: await_stop)
  next
    case False
    have n: "n < 10" using Suc.hyps(2) by simp
    have "(\<exists>i. n \<le> i \<and> i \<le> 10 \<and> up i) \<longleftrightarrow> (\<exists>i. n + 1 \<le> i \<and> i \<le> 10 \<and> up i)"
      using False by (metis Suc_eq_plus1 Suc_leD le_antisym not_less_eq_eq)
    with Suc.hyps(1) [of "n + 1"] Suc.hyps(2) n show ?thesis
      by (simp add: await_step [of up n, OF False n])
  qed
qed

section \<open>Properties\<close>

text \<open>The pool is never empty and never larger than the machine: the number of threads is one less
  than the processors, one where there is a single one, and four where the library cannot tell.\<close>

theorem CalculateThreadCount_range:
  "unat (CalculateThreadCount n) = (if n = 0 then 4 else if n = 1 then 1 else unat n - 1)
    \<and> 0 < CalculateThreadCount n"
proof (cases "n = 0 \<or> n = 1")
  case True
  then show ?thesis by (auto simp: CalculateThreadCount_def)
next
  case False
  then have "unat n \<noteq> 0" "unat n \<noteq> 1" unfolding word_eq_unat by simp_all
  then have "1 < n" by (simp add: word_less_nat_alt)
  moreover from this have "0 < n - 1" by (auto simp: word_gt_0)
  moreover have "unat (n - 1) = unat n - 1" using False by (intro unat_minus_1) simp
  ultimately show ?thesis using False by (auto simp: CalculateThreadCount_def word_neq_0_conv)
qed

text \<open>A task message does exactly one thing: the payload the master packed is queued on the pool,
  unchanged, whatever the message's other content; and a message too short to hold a payload
  raises the \<^verbatim>\<open>runtime_error\<close> of the read, which this handler (unlike the master's) does not
  catch.\<close>

theorem worker_receives_task:
  assumes "wf_task task" and "msg_kind (hdr_id (header m)) = Some Server_SearchTask"
  shows "worker_OnMessage w (push_pod task_bytes m task)
      = Ok (w\<lparr>m_threadPool := Enqueue (m_threadPool w) task\<rparr>, set_size m)
    \<and> (length (body m) < 360 \<longrightarrow> worker_OnMessage w m = Throw short_read)"
  using assms pod_task.pop_push [OF assms(1), of m] pod_task.pop_short [of m]
  by (simp add: worker_OnMessage_def)

theorem worker_receives_task_witness:
  "worker_OnMessage (new_worker 4) (push_pod task_bytes (new_message\<lparr>header := \<lparr>hdr_id = 1, hdr_size = 0\<rparr>\<rparr>)
      \<lparr>tp_search_id = 1, tp_task_id = 2, tp_max_results = 3, tp_start_offset = 0, tp_end_offset = 9,
        tp_keyword = replicate 64 NUL, tp_filename = replicate 256 NUL\<rparr>) \<noteq> Undef"
proof -
  let ?t = "\<lparr>tp_search_id = 1, tp_task_id = 2, tp_max_results = 3, tp_start_offset = 0, tp_end_offset = 9,
        tp_keyword = replicate 64 NUL, tp_filename = replicate 256 NUL\<rparr>"
  have "wf_task ?t" by (simp add: wf_task_def keyword_size_def filename_size_def)
  moreover have "msg_kind (hdr_id (header (new_message\<lparr>header := \<lparr>hdr_id = 1, hdr_size = 0\<rparr>\<rparr>))) = Some Server_SearchTask"
    by (simp add: msg_kind_def)
  ultimately show ?thesis using worker_receives_task [of ?t] by simp
qed

end
