(* ===== verification/EndToEnd.thy ===== *)
theory EndToEnd
  imports WorkerClient MasterGuarantees
begin

text \<open>
  Properties that need both ends: a batch a worker serialises is the batch the master reads
  (\<^verbatim>\<open>WorkerClient::SerializeBatch\<close> against \<^verbatim>\<open>MasterServer::DeserializeBatch\<close>), a task the master
  dispatches is the task the worker's pool gets, the byte ranges of a file's tasks hand every line
  to exactly one worker, and a file searched in chunks gives the same answer as a file searched
  whole.
\<close>

section \<open>Batches\<close>

lemma length_line_bytes [simp]: "length (line_bytes l) = 4 + length l"
  by (simp add: line_bytes_def)

lemma read_lines_step:
  assumes "slice off 4 bs = u32_bytes (of_nat n)" and "n < 2 ^ 32" and "off + 4 + n \<le> length bs"
  shows "read_lines bs off (Suc k) acc = read_lines bs (off + 4 + n) k (acc @ [map byte_char (slice (off + 4) n bs)])"
proof -
  have "unat (of_nat n :: u32) = n" using assms(2) by (intro unat_of_nat_u32) simp
  with assms show ?thesis by (simp add: Let_def)
qed

lemma read_lines_written:
  "\<forall>l \<in> set ls. length l < 2 ^ 32 \<Longrightarrow>
   read_lines (pre @ concat (map line_bytes ls)) (length pre) (length ls) acc = Ok (acc @ ls)"
proof (induction ls arbitrary: pre acc)
  case (Cons l ls)
  let ?rest = "concat (map line_bytes ls)"
  let ?bs = "pre @ line_bytes l @ ?rest"
  have fields: "slice (length pre) 4 ?bs = u32_bytes (of_nat (length l))"
    "slice (length pre + 4) (length l) ?bs = map char_byte l"
    by (simp_all add: slice_def line_bytes_def)
  have "read_lines ?bs (length pre) (Suc (length ls)) acc
      = read_lines ?bs (length pre + 4 + length l) (length ls) (acc @ [map byte_char (map char_byte l)])"
    using read_lines_step [OF fields(1)] Cons.prems fields(2) by simp
  also have "\<dots> = read_lines ((pre @ line_bytes l) @ ?rest) (length (pre @ line_bytes l)) (length ls) (acc @ [l])"
    by (simp add: add.assoc)
  also have "\<dots> = Ok ((acc @ [l]) @ ls)"
    using Cons.prems by (intro Cons.IH) simp
  finally show ?case by simp
qed simp

section \<open>Ranges\<close>

lemma lines_in_join:
  assumes "a \<le> b" and "b \<le> c"
  shows "lines_in a b s @ lines_in b c s = lines_in a c s"
proof -
  have "filter (\<lambda>(q, _). a \<le> q \<and> q < b) xs @ filter (\<lambda>(q, _). b \<le> q \<and> q < c) xs
      = filter (\<lambda>(q, _). a \<le> q \<and> q < c) xs" if "sorted_wrt (<) (map fst xs)" for xs :: "(nat \<times> string) list"
    using that
  proof (induction xs)
    case (Cons x xs)
    show ?case
    proof (cases "fst x < b")
      case True
      with Cons assms show ?thesis by (cases x) auto
    next
      case False
      then have "filter (\<lambda>(q, _). a \<le> q \<and> q < b) xs = []" using Cons.prems by (force simp: filter_empty_conv)
      with Cons False assms show ?thesis by (cases x) auto
    qed
  qed simp
  then show ?thesis using sorted_lines_at [of 0 s] by (simp add: lines_in_def file_lines_def flip: map_append)
qed

lemma lines_in_all: "lines_in 0 (length s) s = map snd (file_lines s)"
proof -
  have "filter (\<lambda>(q, _). q < length s) (file_lines s) = file_lines s"
    using lines_at_pos_less [of _ _ 0 s] by (intro filter_True) (auto simp: file_lines_def)
  then show ?thesis by (simp add: lines_in_def)
qed

lemma chunks_join:
  "k \<le> chunk_count n \<Longrightarrow>
   concat (map (\<lambda>i. lines_in (fst (chunk_range n i)) (snd (chunk_range n i)) s) [0..<k])
     = lines_in 0 (min (k * unat CHUNK_SIZE) n) s"
proof (induction k)
  case 0
  then show ?case by (simp add: lines_in_def)
next
  case (Suc k)
  then have "k * unat CHUNK_SIZE < n" using chunk_count_gt [of k n] by simp
  then have "lines_in 0 (min (k * unat CHUNK_SIZE) n) s @ lines_in (fst (chunk_range n k)) (snd (chunk_range n k)) s
      = lines_in 0 (snd (chunk_range n k)) s"
    by (subst lines_in_join [symmetric, where b = "k * unat CHUNK_SIZE"]) (auto simp: chunk_range_def)
  with Suc show ?case by (simp add: chunk_range_def)
qed

lemma chunks_cover: "concat (map (\<lambda>i. lines_in (fst (chunk_range (length s) i)) (snd (chunk_range (length s) i)) s)
    [0..<chunk_count (length s)]) = map snd (file_lines s)"
proof -
  have "\<not> chunk_count (length s) * unat CHUNK_SIZE < length s"
    using chunk_count_gt [of "chunk_count (length s)" "length s"] by simp
  then show ?thesis using chunks_join [of "chunk_count (length s)" "length s" s] by (simp add: lines_in_all)
qed

lemma hits_concat: "hits m (concat lss) = concat (map (hits m) lss)"
  by (induction lss) (simp_all add: hits_def)

text \<open>The files the system can search: a size that is a signed 64-bit number.\<close>

lemma small_length: "length s < 2 ^ 63 \<Longrightarrow> unat (of_nat (length s) :: u64) = length s \<and> small_size (of_nat (length s))"
  by (simp add: small_size_def unat_of_nat_u64 unat_CHUNK_SIZE)

lemma chunk_offsets:
  assumes "length s < 2 ^ 63" and "i < chunk_count (length s)"
  shows "unat (tp_start_offset (chunk_task base (length s) i)) = fst (chunk_range (length s) i)"
    "unat (tp_end_offset (chunk_task base (length s) i)) = snd (chunk_range (length s) i)"
  using chunk_task_range [of "of_nat (length s)" i base] small_length [OF assms(1)] assms(2) by (simp_all add: prod_eq_iff)

lemma search_range:
  assumes "c_str (tp_filename task) = Some fname" and "fs fname = Some s" and "length s < 2 ^ 63"
    and "c_str (tp_keyword task) = Some kw" and "compile kw = Some pattern"
    and "unat (tp_end_offset task) - unat (tp_start_offset task) \<le> unat CHUNK_SIZE"
  shows "SearchTask junk fs compile matches task mx = Ok (range_batch (matches pattern) fname mx
    (lines_in (unat (tp_start_offset task)) (unat (tp_end_offset task)) s))"
proof -
  have "length (lines_in (unat (tp_start_offset task)) (unat (tp_end_offset task)) s) < 2 ^ 32"
    using le_trans [OF length_lines_in assms(6), of s] by (simp add: unat_CHUNK_SIZE)
  then show ?thesis
    using search_from_start [OF assms(3)] assms(1,2,4,5)
    by (simp add: SearchTask_def batch_of_closed Let_def split_beta)
qed

lemma range_batch_total:
  "length ls < 2 ^ 64 \<Longrightarrow> unat (cr_total_matches (range_batch m f mx ls)) = length (hits m ls)"
proof -
  assume "length ls < 2 ^ 64"
  moreover have "length (hits m ls) \<le> length ls" by (metis hits_def length_filter_le length_map)
  ultimately show ?thesis by (simp add: range_batch_def Let_def unat_of_nat_u64)
qed

subsection \<open>What is left of a report\<close>

definition report_rest :: "ChunkResult \<Rightarrow> message" where
  "report_rest batch = push_pod u64_bytes (push_pod u64_bytes (push_pod u32_bytes
     \<lparr>header = (header new_message)\<lparr>hdr_id := msg_id Worker_TaskDone\<rparr>, body = concat (map line_bytes (cr_lines batch))\<rparr>
     (cr_lines_found batch)) (cr_total_matches batch)) (cr_search_id batch)"

lemma task_done_read:
  "pop_pod 8 u64_of_bytes (task_done_message batch) = Ok (cr_task_id batch, report_rest batch)"
proof -
  have "task_done_message batch = push_pod u64_bytes (report_rest batch) (cr_task_id batch)"
    by (simp add: task_done_message_def report_rest_def SerializeBatch_def Let_def push_pod_def set_size_def msg_size_def new_message_def)
  then show ?thesis by (simp add: pod_u64.pop_push_sized report_rest_def)
qed

lemma batch_read:
  assumes "\<forall>l \<in> set (cr_lines batch). length l < 2 ^ 32"
    and "unat (cr_lines_found batch) = length (cr_lines batch)"
  shows "\<exists>r. DeserializeBatch (report_rest batch) = Ok (batch\<lparr>cr_task_id := 0\<rparr>, r)"
proof -
  have "read_lines (concat (map line_bytes (cr_lines batch))) 0 (length (cr_lines batch)) [] = Ok (cr_lines batch)"
    using read_lines_written [OF assms(1), of "[]" "[]"] by simp
  then show ?thesis
    by (simp add: DeserializeBatch_def report_rest_def pod_u64.pop_push_sized pod_u32.pop_push assms(2) new_chunk_result_def)
qed

section \<open>Properties\<close>

text \<open>C27: what a worker reports is what the master reads: the number and the batch that come out of the
  message are the ones that went in, every line byte for byte, as long as no line reaches 4 GiB and
  the announced count is the number of lines (as the search leaves it).\<close>

theorem batch_roundtrip:
  assumes "\<forall>l \<in> set (cr_lines batch). length l < 2 ^ 32"
    and "unat (cr_lines_found batch) = length (cr_lines batch)"
  shows "obind (pop_pod 8 u64_of_bytes (task_done_message batch)) (\<lambda>(taskId, msg).
      obind (DeserializeBatch msg) (\<lambda>(b, _). Ok (taskId, b)))
    = Ok (cr_task_id batch, batch\<lparr>cr_task_id := 0\<rparr>)"
  using batch_read [OF assms] by (auto simp: task_done_read)

theorem batch_roundtrip_witness:
  "obind (pop_pod 8 u64_of_bytes (task_done_message \<lparr>cr_lines = [''a: b''], cr_search_id = 1, cr_task_id = 2,
      cr_total_matches = 9, cr_lines_found = 1\<rparr>)) (\<lambda>(taskId, msg). obind (DeserializeBatch msg) (\<lambda>(b, _). Ok (taskId, b)))
    = Ok (2, \<lparr>cr_lines = [''a: b''], cr_search_id = 1, cr_task_id = 0, cr_total_matches = 9, cr_lines_found = 1\<rparr>)"
  using batch_roundtrip [of "\<lparr>cr_lines = [''a: b''], cr_search_id = 1, cr_task_id = 2,
      cr_total_matches = 9, cr_lines_found = 1\<rparr>"] by simp

text \<open>A dispatched task is the task that gets searched: the message the master sends to a worker with a
  free slot is framed truthfully, and the worker's handler queues on its pool exactly the oldest
  waiting task, under the number the master registered it by.\<close>

theorem dispatched_task_is_queued:
  assumes "m_workersFreeSlots m client = Some k" and "m_pendingTasks m = task # rest" and "wf_task task"
  shows "\<exists>msg m'. DispatchNextTask client m = (True, m') \<and> m_sent m' = m_sent m @ [(client, msg)] \<and> framed msg
    \<and> (\<exists>w'. worker_OnMessage w msg = Ok (w', set_size (new_message\<lparr>header := (header new_message)\<lparr>hdr_id := 1\<rparr>\<rparr>))
        \<and> m_taskQueue (m_threadPool w')
            = m_taskQueue (m_threadPool w) @ [task\<lparr>tp_task_id := m_nextTaskId m'\<rparr>])
    \<and> map_of (the (map_of (m_inFlightTasks m') client)) (m_nextTaskId m') = Some (task\<lparr>tp_task_id := m_nextTaskId m'\<rparr>)"
proof -
  let ?t = "task\<lparr>tp_task_id := m_nextTaskId m + 1\<rparr>"
  let ?h = "new_message\<lparr>header := (header new_message)\<lparr>hdr_id := msg_id Server_SearchTask\<rparr>\<rparr>"
  have wf: "wf_task ?t" using assms(3) by (simp add: wf_task_def)
  have "framed (task_message ?t)"
    using pod_task.length_body_push [OF wf, of ?h]
    by (simp add: framed_def task_message_def new_message_def)
  moreover have "worker_OnMessage w (task_message ?t)
      = Ok (w\<lparr>m_threadPool := Enqueue (m_threadPool w) ?t\<rparr>, set_size ?h)"
    unfolding task_message_def using pod_task.pop_push [OF wf, of ?h]
    by (simp add: worker_OnMessage_def msg_kind_def)
  ultimately show ?thesis
    by (simp add: Dispatch_sent [OF assms(2,1)] Enqueue_def register_task_def)
qed

theorem dispatched_task_is_queued_witness:
  "\<exists>m'. DispatchNextTask 7 ((new_master None None)\<lparr>m_workersFreeSlots := [7 \<mapsto> 1], m_pendingTasks := [new_task]\<rparr>) = (True, m')
    \<and> m_nextTaskId m' = 1"
  using dispatched_task_is_queued [where m = "(new_master None None)\<lparr>m_workersFreeSlots := [7 \<mapsto> 1], m_pendingTasks := [new_task]\<rparr>"
      and client = 7 and k = 1 and task = new_task and rest = "[]" and w = "new_worker 4"]
  by (auto simp: new_task_def wf_task_def keyword_size_def filename_size_def DispatchNextTask_def Let_def new_master_def)

text \<open>Every line is searched once: over the tasks of a file, the lines examined (those that start in
  the task's range) put together are the lines of the file, in order, none missed at a chunk
  boundary and none examined twice.\<close>

theorem chunks_examine_each_line_once:
  assumes "length s < 2 ^ 63"
  shows "\<exists>ts. EnqueueFileChunks (of_nat (length s)) base [] = Ok ts
    \<and> concat (map (\<lambda>t. lines_in (unat (tp_start_offset t)) (unat (tp_end_offset t)) s) ts) = map snd (file_lines s)"
proof -
  have "EnqueueFileChunks (of_nat (length s)) base [] = Ok (file_tasks base (length s))"
    using EnqueueFileChunks_closed [of "of_nat (length s)" base "[]"] small_length [OF assms] by simp
  moreover have "map (\<lambda>t. lines_in (unat (tp_start_offset t)) (unat (tp_end_offset t)) s) (file_tasks base (length s))
      = map (\<lambda>i. lines_in (fst (chunk_range (length s) i)) (snd (chunk_range (length s) i)) s) [0..<chunk_count (length s)]"
    by (simp add: file_tasks_def chunk_offsets [OF assms])
  ultimately show ?thesis using chunks_cover [of s] by simp
qed

theorem chunks_examine_each_line_once_witness:
  "\<exists>ts. EnqueueFileChunks (of_nat (length (replicate 6000000 CHR ''x''))) new_task [] = Ok ts
    \<and> concat (map (\<lambda>t. lines_in (unat (tp_start_offset t)) (unat (tp_end_offset t)) (replicate 6000000 CHR ''x'')) ts)
      = map snd (file_lines (replicate 6000000 CHR ''x''))"
  by (rule chunks_examine_each_line_once) (simp only: length_replicate, simp)

text \<open>C5: searching a file in chunks is searching it whole: the tasks made for a file, each searched by any
  worker that sees the same file, report together exactly the lines the pattern matches; the match
  counters add up to their number, and if they fit the limit the batches in task order are the
  matching lines in file order.\<close>

theorem distributed_search_is_whole_search:
  assumes "length s < 2 ^ 63" and "length path < 256" and "NUL \<notin> set path" and "fs path = Some s"
    and "compile (take 63 (takeWhile (\<lambda>c. c \<noteq> NUL) keyword)) = Some pattern"
  shows "\<exists>base ts bs. CreateChunkTask uninit path keyword sid config = Ok base
    \<and> EnqueueFileChunks (of_nat (length s)) base [] = Ok ts
    \<and> map (\<lambda>t. SearchTask junk fs compile matches t (tp_max_results t)) ts = map Ok bs
    \<and> sum_list (map (\<lambda>b. unat (cr_total_matches b)) bs) = length (hits (matches pattern) (map snd (file_lines s)))
    \<and> (length (hits (matches pattern) (map snd (file_lines s))) \<le> unat (max_results config) \<longrightarrow>
        concat (map cr_lines bs) = map (found_line path) (hits (matches pattern) (map snd (file_lines s))))"
proof -
  let ?base = "task_template uninit path keyword sid config" and ?mx = "max_results config"
  let ?ts = "file_tasks ?base (length s)"
  let ?ls = "\<lambda>i. lines_in (fst (chunk_range (length s) i)) (snd (chunk_range (length s) i)) s"
  let ?is = "[0..<chunk_count (length s)]"
  let ?bs = "map (\<lambda>i. range_batch (matches pattern) path ?mx (?ls i)) ?is"
  have path: "length path < filename_size" using assms(2) by (simp add: filename_size_def)
  have search: "SearchTask junk fs compile matches (chunk_task ?base (length s) i) ?mx
      = Ok (range_batch (matches pattern) path ?mx (?ls i))" if i: "i < chunk_count (length s)" for i
    using search_range [where task = "chunk_task ?base (length s) i" and mx = ?mx and junk = junk and matches = matches
        and fs = fs and fname = path and s = s and compile = compile and pattern = pattern
        and kw = "take 63 (takeWhile (\<lambda>c. c \<noteq> NUL) keyword)"] assms chunk_offsets [OF assms(1) i, of ?base] chunk_range_bounds(2) [OF i]
      template_filename [OF path assms(3)] by (simp add: template_keyword)
  have run: "EnqueueFileChunks (of_nat (length s)) ?base [] = Ok ?ts"
    using EnqueueFileChunks_closed [of "of_nat (length s)" ?base "[]"] small_length [OF assms(1)] by simp
  have hits: "concat (map (\<lambda>i. hits (matches pattern) (?ls i)) ?is) = hits (matches pattern) (map snd (file_lines s))"
    unfolding chunks_cover [of s, symmetric] hits_concat by (simp add: comp_def)
  have short: "length (?ls i) < 2 ^ 64" if "i < chunk_count (length s)" for i
    using le_trans [OF length_lines_in chunk_range_bounds(2) [OF that], of s] by (simp add: unat_CHUNK_SIZE)
  have total: "map (\<lambda>b. unat (cr_total_matches b)) ?bs = map (\<lambda>i. length (hits (matches pattern) (?ls i))) ?is"
    using range_batch_total [OF short] by simp
  have sum: "sum_list (map (\<lambda>b. unat (cr_total_matches b)) ?bs) = length (hits (matches pattern) (map snd (file_lines s)))"
    unfolding total hits [symmetric] length_concat by (simp add: comp_def)
  have all: "concat (map cr_lines ?bs) = map (found_line path) (hits (matches pattern) (map snd (file_lines s)))"
    if "length (hits (matches pattern) (map snd (file_lines s))) \<le> unat ?mx"
  proof -
    have "length (hits (matches pattern) (?ls i)) \<le> unat ?mx" if i: "i \<in> set ?is" for i
    proof -
      have "length (hits (matches pattern) (?ls i)) \<le> sum_list (map (\<lambda>i. length (hits (matches pattern) (?ls i))) ?is)"
        using i by (intro member_le_sum_list) auto
      also have "\<dots> = length (hits (matches pattern) (map snd (file_lines s)))"
        unfolding hits [symmetric] length_concat by (simp add: comp_def)
      finally show ?thesis using \<open>length (hits (matches pattern) (map snd (file_lines s))) \<le> unat ?mx\<close> by simp
    qed
    then have each: "map cr_lines ?bs = map (map (found_line path)) (map (\<lambda>i. hits (matches pattern) (?ls i)) ?is)"
      by (simp add: range_batch_def Let_def)
    show ?thesis unfolding each hits [symmetric] map_concat ..
  qed
  show ?thesis
    using CreateChunkTask_template [OF path] run sum all search
    by (intro exI [of _ ?base] exI [of _ ?ts] exI [of _ ?bs]) (simp add: file_tasks_def)
qed

theorem distributed_search_is_whole_search_witness:
  "\<exists>base ts bs. CreateChunkTask new_task ''/f'' ''b'' 0 default_config = Ok base
    \<and> EnqueueFileChunks (of_nat (length (''ab'' @ [NL] @ ''xb''))) base [] = Ok ts
    \<and> map (\<lambda>t. SearchTask CR (\<lambda>_. Some (''ab'' @ [NL] @ ''xb'')) Some (\<lambda>p l. hd p \<in> set l) t (tp_max_results t)) ts = map Ok bs
    \<and> sum_list (map (\<lambda>b. unat (cr_total_matches b)) bs) = 2"
proof -
  have "length (hits (\<lambda>l. hd ''b'' \<in> set l) (map snd (file_lines (''ab'' @ [NL] @ ''xb'')))) = 2" by code_simp
  then show ?thesis
    using distributed_search_is_whole_search [where s = "''ab'' @ [NL] @ ''xb''" and path = "''/f''" and keyword = "''b''"
        and fs = "\<lambda>_. Some (''ab'' @ [NL] @ ''xb'')" and compile = Some and pattern = "''b''" and uninit = new_task
        and sid = 0 and config = default_config and junk = CR and matches = "\<lambda>p l. hd p \<in> set l"]
    by (auto simp: NUL_def)
qed

end
