(* ===== verification/Cluster.thy ===== *)
theory Cluster
  imports MasterBooks EndToEnd
begin

text \<open>
  The whole system at work: the master's threads (\<^verbatim>\<open>NetServer/src/MasterServer.cpp\<close>, as in
  \<open>MasterThreads\<close>), any number of workers (\<^verbatim>\<open>NetClient/src/WorkerClient.cpp\<close>) with their pools, and the
  connections between them as queues of messages: \<open>NetConnection\<close> shows that what one side sends is what the
  other is handed, in order. The section on provenance follows a task from the registry of the master to
  a worker's pool and back in a report: a report whose number is registered answers the task it is
  registered for, however often tasks are reclaimed, workers lost, or reports delayed.
\<close>

section \<open>The system\<close>

text \<open>\<open>cl_delivered\<close>: how many of the messages sent to a worker its handler has had; \<open>cl_reports\<close>: what a worker
  has sent and the master has not handled.\<close>

record cluster =
  cl_runtime :: runtime
  cl_workers :: "u32 \<Rightarrow> worker"
  cl_delivered :: "u32 \<Rightarrow> nat"
  cl_reports :: "u32 \<Rightarrow> message list"

definition new_cluster :: "master \<Rightarrow> (u32 \<Rightarrow> u32) \<Rightarrow> cluster" where
  "new_cluster m hardware_concurrency = \<lparr>cl_runtime = new_runtime m,
     cl_workers = (\<lambda>w. new_worker (hardware_concurrency w)), cl_delivered = (\<lambda>_. 0), cl_reports = (\<lambda>_. [])\<rparr>"

definition sent_to :: "u32 \<Rightarrow> master \<Rightarrow> message list" where
  "sent_to w m = map snd (filter (\<lambda>x. fst x = w) (m_sent m))"

text \<open>What a pool thread sends for a task: \<open>run_task\<close> sends this message and changes nothing else.\<close>

definition task_report ::
  "char \<Rightarrow> (string \<Rightarrow> string option) \<Rightarrow> (string \<Rightarrow> 'r option) \<Rightarrow> ('r \<Rightarrow> string \<Rightarrow> bool) \<Rightarrow> TaskPayload \<Rightarrow> message outcome" where
  "task_report junk fs compile matches task =
     obind (SearchTask junk fs compile matches task (tp_max_results task)) (\<lambda>batch.
       Ok (task_done_message (batch\<lparr>cr_search_id := tp_search_id task, cr_task_id := tp_task_id task\<rparr>)))"

lemma run_task_report:
  "run_task junk fs compile matches task w = obind (task_report junk fs compile matches task) (\<lambda>msg. Ok (worker_Send msg w))"
  by (cases "SearchTask junk fs compile matches task (tp_max_results task)")
    (simp_all add: run_task_def task_report_def SendTaskDone_def Let_def)

definition finish_task :: "nat \<Rightarrow> TaskPayload \<Rightarrow> TaskPayload pool \<Rightarrow> TaskPayload pool" where
  "finish_task i task p = (set_thread p i Checking)\<lparr>executed := executed p @ [task]\<rparr>"

text \<open>\<open>master\<close>: a section of a thread of the master. \<open>receive\<close>: its message thread takes the next message of a
  worker. \<open>connect\<close>: a worker announces itself. \<open>deliver\<close>: its handler takes the next message. \<open>pool\<close>: its pool moves
  without finishing a task. \<open>search\<close>: a pool thread has run its task, on the files all workers see.\<close>

inductive cluster_step ::
  "(os \<Rightarrow> bool) \<Rightarrow> (string \<Rightarrow> string option) \<Rightarrow> (string \<Rightarrow> 'r option) \<Rightarrow> ('r \<Rightarrow> string \<Rightarrow> bool) \<Rightarrow> cluster \<Rightarrow> cluster \<Rightarrow> bool"
  for world fs compile matches where
  master: "own_step world (cl_runtime c) rt \<Longrightarrow> cluster_step world fs compile matches c (c\<lparr>cl_runtime := rt\<rparr>)"
| receive: "cl_reports c w = msg # rest \<Longrightarrow> rt_threads (cl_runtime c) 0 = Idle \<Longrightarrow> within (rt_master (cl_runtime c)) 0
    \<Longrightarrow> cluster_step world fs compile matches c
      (c\<lparr>cl_runtime := advance 0 (begin_message w msg (rt_master (cl_runtime c))) (cl_runtime c),
         cl_reports := (cl_reports c)(w := rest)\<rparr>)"
| connect: "cluster_step world fs compile matches c
      (c\<lparr>cl_workers := (cl_workers c)(w := OnConnectionResult True (cl_workers c w)),
         cl_reports := (cl_reports c)(w := cl_reports c w @ [hello_message (cl_workers c w)])\<rparr>)"
| deliver: "cl_delivered c w < length (sent_to w (rt_master (cl_runtime c)))
    \<Longrightarrow> worker_OnMessage (cl_workers c w) (sent_to w (rt_master (cl_runtime c)) ! cl_delivered c w) = Ok (worker, rest)
    \<Longrightarrow> cluster_step world fs compile matches c
      (c\<lparr>cl_workers := (cl_workers c)(w := worker), cl_delivered := (cl_delivered c)(w := cl_delivered c w + 1)\<rparr>)"
| pool: "pool_step (m_threadPool (cl_workers c w)) p \<Longrightarrow> submitted p = submitted (m_threadPool (cl_workers c w))
    \<Longrightarrow> executed p = executed (m_threadPool (cl_workers c w))
    \<Longrightarrow> cluster_step world fs compile matches c
      (c\<lparr>cl_workers := (cl_workers c)(w := (cl_workers c w)\<lparr>m_threadPool := p\<rparr>)\<rparr>)"
| search: "i < length (m_workerThreads (m_threadPool (cl_workers c w)))
    \<Longrightarrow> m_workerThreads (m_threadPool (cl_workers c w)) ! i = Running task
    \<Longrightarrow> task_report junk fs compile matches task = Ok msg
    \<Longrightarrow> cluster_step world fs compile matches c
      (c\<lparr>cl_workers := (cl_workers c)(w := (worker_Send msg (cl_workers c w))
             \<lparr>m_threadPool := finish_task i task (m_threadPool (cl_workers c w))\<rparr>),
         cl_reports := (cl_reports c)(w := cl_reports c w @ [msg])\<rparr>)"

section \<open>What a section does\<close>

text \<open>The message of a report being handled, and the lines about to be written.\<close>

fun carrying :: "pc \<Rightarrow> (message \<times> u64) option" where
  "carrying (Acked c msg sid) = Some (msg, sid)"
| "carrying (Aggregating msg sid) = Some (msg, sid)"
| "carrying p = None"

fun to_write :: "pc \<Rightarrow> (string list \<times> u64) option" where
  "to_write (Writing ls sid) = Some (ls, sid)"
| "to_write p = None"

lemma section_cases [consumes 1, case_names idle dispatch publish count uncounted written counted]:
  assumes "lock_section os uninit p m = Ok (p', m')"
  obtains q ids where "m' = m\<lparr>m_idleWorkers := q, m_idleWorkersIds := ids\<rparr>" "carrying p = None" "carrying p' = None"
      "to_write p = None" "to_write p' = None"
    | c where "m' = snd (DispatchNextTask c m)" "carrying p' = carrying p" "to_write p = None" "to_write p' = None"
    | filepath keyword config target sid session ts where "p = Searching filepath keyword config target sid" "p' = Assigning"
        "prepare_search os uninit m filepath keyword config target sid = Ok (session, ts)" "m' = AddPendingTasks session ts m"
    | msg sid batch r ls where "p = Aggregating msg sid" "DeserializeBatch msg = Ok (batch, r)"
        "count_section batch sid m = Some (ls, m')" "p' = (if ls = [] then Finishing sid else Writing ls sid)"
    | msg sid where "p = Aggregating msg sid" "p' = Finishing sid" "m' = m"
        "\<And>batch r. DeserializeBatch msg = Ok (batch, r) \<Longrightarrow> count_section batch sid m = None"
    | ls sid where "p = Writing ls sid" "p' = Finishing sid" "m' = WriteResults os ls sid m"
    | sid where "p = Finishing sid" "p' = Idle" "finish_chunk sid m = Ok m'"
proof (cases p)
  case Idle
  with assms show ?thesis by (intro that(1) [where q = "m_idleWorkers m" and ids = "m_idleWorkersIds m"]) auto
next
  case (Searching f k c t sid)
  show ?thesis
  proof (cases "prepare_search os uninit m f k c t sid")
    case (Ok x)
    with assms Searching show ?thesis by (intro that(3) [of f k c t sid "fst x" "snd x"]) (auto split: prod.splits)
  qed (use assms Searching in \<open>auto intro: that(1) [where q = "m_idleWorkers m" and ids = "m_idleWorkersIds m"]\<close>)
next
  case Assigning
  show ?thesis
    using assms Assigning
    by (intro that(1) [where q = "m_idleWorkers m'" and ids = "m_idleWorkersIds m'"])
      (auto simp: assign_pop_def Let_def split: if_splits option.splits)
next
  case (Waking w n)
  show ?thesis
  proof (cases n)
    case 0
    with assms Waking show ?thesis by (intro that(1) [where q = "m_idleWorkers m" and ids = "m_idleWorkersIds m"]) auto
  next
    case (Suc k)
    with assms Waking show ?thesis by (intro that(2) [of w]) (auto split: prod.splits)
  qed
next
  case (Greeting c n)
  show ?thesis
  proof (cases n)
    case 0
    with assms Greeting show ?thesis by (intro that(1) [where q = "m_idleWorkers m" and ids = "m_idleWorkersIds m"]) auto
  next
    case (Suc k)
    with assms Greeting show ?thesis by (intro that(2) [of c]) (auto split: prod.splits)
  qed
next
  case (Acked c msg sid)
  with assms show ?thesis by (intro that(2) [of c]) auto
next
  case (Aggregating msg sid)
  show ?thesis
  proof (cases "DeserializeBatch msg")
    case (Ok x)
    show ?thesis
    proof (cases "count_section (fst x) sid m")
      case None
      with assms Aggregating Ok show ?thesis by (intro that(5) [of msg sid]) (auto split: prod.splits)
    next
      case (Some y)
      with assms Aggregating Ok show ?thesis
        by (intro that(4) [of msg sid "fst x" "snd x" "fst y"]) (auto split: prod.splits)
    qed
  qed (use assms Aggregating in \<open>auto intro: that(5) [of msg sid]\<close>)
next
  case (Writing ls sid)
  with assms show ?thesis by (intro that(6) [of ls sid]) auto
next
  case (Finishing sid)
  with assms show ?thesis by (intro that(7) [of sid]) (auto simp: obind_eq_Ok)
qed

section \<open>Provenance\<close>

definition registered :: "master \<Rightarrow> u32 \<Rightarrow> TaskPayload \<Rightarrow> bool" where
  "registered m w t \<longleftrightarrow> (\<exists>ts i. (w, ts) \<in> set (m_inFlightTasks m) \<and> (i, t) \<in> set ts)"

definition given :: "master \<Rightarrow> u32 \<Rightarrow> TaskPayload \<Rightarrow> bool" where
  "given m w t \<longleftrightarrow> wf_task t \<and> (w, task_message t) \<in> set (m_sent m)"

text \<open>Every message the master has sent is a task; a number was given to one task only; a registered task
  was sent to the worker it is registered for.\<close>

definition sent_ok :: "master \<Rightarrow> bool" where
  "sent_ok m \<longleftrightarrow>
     (\<forall>w msg. (w, msg) \<in> set (m_sent m) \<longrightarrow> (\<exists>t. msg = task_message t \<and> wf_task t \<and> unat (tp_task_id t) \<le> unat (m_nextTaskId m)))
   \<and> (\<forall>w t w' t'. given m w t \<longrightarrow> given m w' t' \<longrightarrow> tp_task_id t = tp_task_id t' \<longrightarrow> t = t')
   \<and> (\<forall>w t. registered m w t \<longrightarrow> given m w t)
   \<and> (\<forall>t \<in> set (m_pendingTasks m). wf_task t)"

lemma sent_okD:
  assumes "sent_ok m"
  shows "(w, msg) \<in> set (m_sent m) \<Longrightarrow> \<exists>t. msg = task_message t \<and> wf_task t \<and> unat (tp_task_id t) \<le> unat (m_nextTaskId m)"
    "given m w t \<Longrightarrow> given m w' t' \<Longrightarrow> tp_task_id t = tp_task_id t' \<Longrightarrow> t = t'"
    "registered m w t \<Longrightarrow> given m w t" "t \<in> set (m_pendingTasks m) \<Longrightarrow> wf_task t"
  using assms unfolding sent_ok_def by blast+

lemma sent_okI:
  assumes "\<And>w msg. (w, msg) \<in> set (m_sent m) \<Longrightarrow> \<exists>t. msg = task_message t \<and> wf_task t \<and> unat (tp_task_id t) \<le> unat (m_nextTaskId m)"
    and "\<And>w t w' t'. given m w t \<Longrightarrow> given m w' t' \<Longrightarrow> tp_task_id t = tp_task_id t' \<Longrightarrow> t = t'"
    and "\<And>w t. registered m w t \<Longrightarrow> given m w t" and "\<And>t. t \<in> set (m_pendingTasks m) \<Longrightarrow> wf_task t"
  shows "sent_ok m"
  unfolding sent_ok_def
proof (intro conjI allI ballI impI)
  show "t = t'" if "given m w t" "given m w' t'" "tp_task_id t = tp_task_id t'" for w t w' t'
    by (rule assms(2) [OF that])
qed (use assms(1,3,4) in blast)+

lemma task_message_read: "wf_task t \<Longrightarrow> \<exists>r. pop_pod 360 task_of_bytes (task_message t) = Ok (t, r)"
  unfolding task_message_def using pod_task.pop_push by blast

lemma task_message_inject:
  assumes "wf_task t" and "wf_task t'" and "task_message t = task_message t'"
  shows "t = t'"
proof -
  obtain r r' where "pop_pod 360 task_of_bytes (task_message t) = Ok (t, r)"
    "pop_pod 360 task_of_bytes (task_message t') = Ok (t', r')" using task_message_read assms(1,2) by blast
  then show ?thesis unfolding assms(3) by simp
qed

lemma given_bound: "sent_ok m \<Longrightarrow> given m w t \<Longrightarrow> unat (tp_task_id t) \<le> unat (m_nextTaskId m)"
  using sent_okD(1) [of m w "task_message t"] task_message_inject unfolding given_def by blast

lemma sent_ok_mono:
  assumes ok: "sent_ok m" and same: "m_sent m' = m_sent m" "m_nextTaskId m' = m_nextTaskId m"
    and reg: "\<And>w t. registered m' w t \<Longrightarrow> registered m w t"
    and pend: "\<And>t. t \<in> set (m_pendingTasks m') \<Longrightarrow> t \<in> set (m_pendingTasks m) \<or> wf_task t"
  shows "sent_ok m'"
proof -
  have given: "given m' = given m" by (simp add: given_def same fun_eq_iff)
  show ?thesis
  proof (rule sent_okI, unfold given same)
    show "wf_task t" if "t \<in> set (m_pendingTasks m')" for t using pend [OF that] sent_okD(4) [OF ok] by blast
  qed (use sent_okD(1-3) [OF ok] reg in blast)+
qed

lemma sent_ok_frame:
  "sent_ok m \<Longrightarrow> m_sent m' = m_sent m \<Longrightarrow> m_nextTaskId m' = m_nextTaskId m \<Longrightarrow> m_inFlightTasks m' = m_inFlightTasks m
    \<Longrightarrow> m_pendingTasks m' = m_pendingTasks m \<Longrightarrow> sent_ok m'"
  by (rule sent_ok_mono [where m = m]) (simp_all add: registered_def)

lemma registered_register:
  assumes "(w, ts) \<in> set (register_task c i t fl)" and "(j, u) \<in> set ts"
  shows "w = c \<and> u = t \<or> (\<exists>us. (w, us) \<in> set fl \<and> (j, u) \<in> set us)"
proof -
  define old where "old = (case map_of fl c of None \<Rightarrow> [] | Some ts \<Rightarrow> ts)"
  have old: "(j, u) \<in> set old \<Longrightarrow> (c, old) \<in> set fl" by (cases "map_of fl c") (auto simp: old_def dest: map_of_SomeD)
  have "(w, ts) = (c, AList.update i t old) \<or> (w, ts) \<in> set fl"
    using assms(1) set_update_subset [of c "AList.update i t old" fl] by (auto simp: register_task_def old_def)
  with assms(2) old set_update_subset [of i t old] show ?thesis by auto
qed

lemma sent_dispatch:
  assumes ok: "sent_ok m" and room: "room m"
  shows "sent_ok (snd (DispatchNextTask c m))" and "given m w t \<Longrightarrow> given (snd (DispatchNextTask c m)) w t"
proof -
  have "sent_ok (snd (DispatchNextTask c m)) \<and> (\<forall>w t. given m w t \<longrightarrow> given (snd (DispatchNextTask c m)) w t)"
  proof (cases m c rule: dispatch_cases)
    case (sent k t ts)
    let ?t = "t\<lparr>tp_task_id := m_nextTaskId m + 1\<rparr>" and ?m = "snd (DispatchNextTask c m)"
    have n: "unat (m_nextTaskId m + 1) = unat (m_nextTaskId m) + 1"
      using room sent by (intro unat_plus_1) (simp add: room_def)
    have m': "m_sent ?m = m_sent m @ [(c, task_message ?t)]" "m_nextTaskId ?m = m_nextTaskId m + 1" "m_pendingTasks ?m = ts"
      "m_inFlightTasks ?m = register_task c (m_nextTaskId m + 1) ?t (m_inFlightTasks m)"
      by (simp_all add: Dispatch_sent [OF sent(2,1)])
    have wf: "wf_task ?t" using sent_okD(4) [OF ok, of t] sent by (simp add: wf_task_def)
    have given: "given ?m w u \<longleftrightarrow> given m w u \<or> w = c \<and> u = ?t" for w u
      using wf task_message_inject [of u ?t] by (auto simp: given_def m')
    have fresh: "tp_task_id u \<noteq> m_nextTaskId m + 1" if "given m w u" for w u
      using given_bound [OF ok that] n by auto
    have "registered ?m w u \<Longrightarrow> given ?m w u" for w u
      using registered_register sent_okD(3) [OF ok] unfolding given unfolding registered_def m' by blast
    moreover have "w = c \<and> u = ?t \<Longrightarrow> tp_task_id u = m_nextTaskId m + 1" for w u by simp
    moreover have "\<exists>t. msg = task_message t \<and> wf_task t \<and> unat (tp_task_id t) \<le> unat (m_nextTaskId ?m)"
      if "(w, msg) \<in> set (m_sent ?m)" for w msg
    proof (cases "(w, msg) \<in> set (m_sent m)")
      case True
      from sent_okD(1) [OF ok this] show ?thesis unfolding m' n using le_add1 order_trans by blast
    next
      case False
      with that wf show ?thesis unfolding m' by (intro exI [of _ ?t]) simp
    qed
    moreover have "wf_task u" if "u \<in> set (m_pendingTasks ?m)" for u
      using that sent(2) sent_okD(4) [OF ok] unfolding m' by simp
    moreover have "u = u'" if "given ?m w u" "given ?m w' u'" "tp_task_id u = tp_task_id u'" for w u w' u'
      using that fresh sent_okD(2) [OF ok] \<open>\<And>u w. w = c \<and> u = ?t \<Longrightarrow> tp_task_id u = m_nextTaskId m + 1\<close>
      unfolding given by metis
    ultimately have "sent_ok ?m" by (intro sent_okI)
    with given show ?thesis by blast
  qed (use ok in \<open>auto simp: dispatch_simps given_def intro: sent_ok_frame\<close>)
  then show "sent_ok (snd (DispatchNextTask c m))" "given m w t \<Longrightarrow> given (snd (DispatchNextTask c m)) w t" by blast+
qed

lemma sent_section:
  assumes run: "lock_section os uninit p m = Ok (p', m')" and ok: "sent_ok m" and room: "room m" and posix: "posix_sizes os"
  shows "sent_ok m' \<and> (\<forall>w t. given m w t \<longrightarrow> given m' w t)"
  using run
proof (cases rule: section_cases)
  case (idle q ids)
  with sent_ok_frame [OF ok, of m'] show ?thesis by (simp add: given_def)
next
  case (dispatch c)
  with sent_dispatch [OF ok room] show ?thesis by simp
next
  case (publish filepath keyword config target sid session ts)
  have "wf_task t" if "t \<in> set ts" for t
    using publish(3) that by (auto elim!: prepare_Ok dest: collect_search_id(3) [OF posix])
  moreover have m': "m_sent m' = m_sent m" "m_nextTaskId m' = m_nextTaskId m" "m_inFlightTasks m' = m_inFlightTasks m"
    "m_pendingTasks m' = m_pendingTasks m @ ts" by (simp_all add: publish(4) AddPendingTasks_def Let_def)
  ultimately have "sent_ok m'"
    by (intro sent_ok_mono [OF ok]) (auto simp: registered_def)
  with m' show ?thesis by (simp add: given_def)
next
  case (count msg sid batch r ls)
  then have "\<exists>f. m' = m\<lparr>m_sessions := f\<rparr>" by (auto simp: count_section_def split: option.splits prod.splits)
  with sent_ok_frame [OF ok, of m'] show ?thesis by (auto simp: given_def)
next
  case (uncounted msg sid)
  with ok show ?thesis by simp
next
  case (written ls sid)
  with sent_ok_frame [OF ok, of m'] show ?thesis by (simp add: given_def frame_simps)
next
  case (counted sid)
  then have "\<exists>f. m' = m\<lparr>m_sessions := f\<rparr>" using finish_chunk_def by (auto split: option.splits if_splits intro: exI [of _ "m_sessions m"])
  with sent_ok_frame [OF ok, of m'] show ?thesis by (auto simp: given_def)
qed

lemma sent_acknowledge:
  assumes ack: "acknowledge c i m = Some (sid, m')" and fl: "flight_ok m" and ok: "sent_ok m"
  shows "sent_ok m'" and "given m' = given m"
    and "\<exists>t. given m c t \<and> tp_task_id t = i \<and> tp_search_id t = sid \<and> work m = add_mset (strip_id t) (work m')"
proof -
  let ?fl = "m_inFlightTasks m"
  obtain ts t where ts: "map_of ?fl c = Some ts" "map_of ts i = Some t" "sid = tp_search_id t"
    and fl': "m_inFlightTasks m' = (if AList.delete i ts = [] then AList.delete c ?fl else AList.update c (AList.delete i ts) ?fl)"
    and fewer: "mset (flight_tasks ?fl) = add_mset t (mset (flight_tasks (m_inFlightTasks m')))"
    by (rule acknowledge_task [OF ack fl])
  have in_fl: "(c, ts) \<in> set ?fl" "(i, t) \<in> set ts" using ts by (simp_all add: map_of_SomeD)
  have same: "m_sent m' = m_sent m" "m_nextTaskId m' = m_nextTaskId m" "m_pendingTasks m' = m_pendingTasks m"
    using ack by (auto simp: acknowledge_def Let_def split: option.splits)
  have "registered m w u" if "registered m' w u" for w u
  proof -
    have "set (m_inFlightTasks m') \<subseteq> insert (c, AList.delete i ts) (set ?fl)"
      using set_update_subset [of c "AList.delete i ts" ?fl] by (auto simp: fl' set_AList_delete)
    with that in_fl show ?thesis by (fastforce simp: registered_def set_AList_delete)
  qed
  then show "sent_ok m'" by (rule sent_ok_mono [OF ok same(1,2)]) (simp_all add: same)
  show "given m' = given m" by (simp add: given_def same fun_eq_iff)
  have "given m c t" using sent_okD(3) [OF ok] in_fl by (auto simp: registered_def)
  moreover have "tp_task_id t = i" using fl in_fl by (fastforce simp: flight_ok_def)
  moreover have "work m = add_mset (strip_id t) (work m')" by (simp add: work_def fewer same)
  ultimately show "\<exists>t. given m c t \<and> tp_task_id t = i \<and> tp_search_id t = sid \<and> work m = add_mset (strip_id t) (work m')"
    using ts(3) by blast
qed

lemma sent_begin_message:
  assumes fl: "flight_ok m" and ok: "sent_ok m"
  shows "sent_ok (snd (begin_message c msg m)) \<and> given (snd (begin_message c msg m)) = given m"
proof (cases rule: begin_message_cases [of c msg m])
  case (hello h)
  with sent_ok_frame [OF ok, of "snd (begin_message c msg m)"] show ?thesis by (simp add: given_def fun_eq_iff)
next
  case (acked i rest sid m1)
  with sent_acknowledge [OF acked(3) fl ok] show ?thesis by simp
qed (simp add: ok)

lemma sent_reclaim:
  assumes fl: "flight_ok m" and ok: "sent_ok m" and order: "\<And>ts. mset (order ts) = mset ts"
  shows "sent_ok (reclaim order c m)" and "given (reclaim order c m) = given m"
proof -
  let ?m = "reclaim order c m"
  have wf: "wf_task t" if ts: "map_of (m_inFlightTasks m) c = Some ts" and t: "t \<in> snd ` set (order ts)" for ts t
  proof -
    have "set (order ts) = set ts" using order by (rule mset_eq_setD)
    then obtain i where "(i, t) \<in> set ts" using t by auto
    with map_of_SomeD [OF ts] have "registered m c t" unfolding registered_def by blast
    then show ?thesis using sent_okD(3) [OF ok] by (auto simp: given_def)
  qed
  show "sent_ok ?m"
  proof (rule sent_ok_mono [OF ok])
    show "registered m w t" if "registered ?m w t" for w t
      using that by (auto simp: registered_def reclaim_def set_AList_delete)
    show "t \<in> set (m_pendingTasks m) \<or> wf_task t" if "t \<in> set (m_pendingTasks ?m)" for t
      using that wf by (auto simp: reclaim_def split: option.splits)
  qed (simp_all add: reclaim_def)
  show "given ?m = given m" by (simp add: given_def reclaim_def fun_eq_iff)
qed

lemma sent_own_step:
  assumes step: "own_step world rt rt'" and inv: "runtime_inv rt" and ok: "sent_ok (rt_master rt)"
  shows "sent_ok (rt_master rt') \<and> (\<forall>w t. given (rt_master rt) w t \<longrightarrow> given (rt_master rt') w t)"
  using step
proof cases
  case (request os i filepath keyword config pm)
  then have "snd pm = (rt_master rt)\<lparr>m_nextSearchId := m_nextSearchId (rt_master rt) + 1\<rparr>"
    by (auto simp: begin_search_def AllocateSearchId_def obind_eq_Ok)
  with request sent_ok_frame [OF ok, of "snd pm"] show ?thesis by (simp add: given_def)
next
  case (proceed os i p uninit pm)
  then show ?thesis
    using sent_section [of os uninit p "rt_master rt" "fst pm" "snd pm"] ok room_of_within by simp
next
  case (lost order client)
  with sent_reclaim [OF booksD(1) [OF runtime_invD(1) [OF inv]] ok] show ?thesis by simp
qed

section \<open>The invariant of the system\<close>

definition pool_tasks :: "TaskPayload pool \<Rightarrow> TaskPayload set" where
  "pool_tasks p = set (m_taskQueue p) \<union> {t. Running t \<in> set (m_workerThreads p)}"

definition answered ::
  "(string \<Rightarrow> string option) \<Rightarrow> (string \<Rightarrow> 'r option) \<Rightarrow> ('r \<Rightarrow> string \<Rightarrow> bool) \<Rightarrow> master \<Rightarrow> u32 \<Rightarrow> message \<Rightarrow> bool" where
  "answered fs compile matches m w msg \<longleftrightarrow> (msg_kind (hdr_id (header msg)) = Some Worker_TaskDone \<longrightarrow>
     (\<exists>t junk. given m w t \<and> task_report junk fs compile matches t = Ok msg))"

definition cluster_inv ::
  "(string \<Rightarrow> string option) \<Rightarrow> (string \<Rightarrow> 'r option) \<Rightarrow> ('r \<Rightarrow> string \<Rightarrow> bool) \<Rightarrow> cluster \<Rightarrow> bool" where
  "cluster_inv fs compile matches c \<longleftrightarrow> runtime_inv (cl_runtime c) \<and> sent_ok (rt_master (cl_runtime c))
     \<and> (\<forall>w. \<forall>t \<in> pool_tasks (m_threadPool (cl_workers c w)). given (rt_master (cl_runtime c)) w t)
     \<and> (\<forall>w. \<forall>msg \<in> set (cl_reports c w). answered fs compile matches (rt_master (cl_runtime c)) w msg)"

lemma cluster_invD:
  assumes "cluster_inv fs compile matches c"
  shows "runtime_inv (cl_runtime c)" "sent_ok (rt_master (cl_runtime c))"
    "t \<in> pool_tasks (m_threadPool (cl_workers c w)) \<Longrightarrow> given (rt_master (cl_runtime c)) w t"
    "msg \<in> set (cl_reports c w) \<Longrightarrow> answered fs compile matches (rt_master (cl_runtime c)) w msg"
  using assms unfolding cluster_inv_def by blast+

lemma cluster_invI:
  assumes "runtime_inv (cl_runtime c)" "sent_ok (rt_master (cl_runtime c))"
    and "\<And>w t. t \<in> pool_tasks (m_threadPool (cl_workers c w)) \<Longrightarrow> given (rt_master (cl_runtime c)) w t"
    and "\<And>w msg. msg \<in> set (cl_reports c w) \<Longrightarrow> answered fs compile matches (rt_master (cl_runtime c)) w msg"
  shows "cluster_inv fs compile matches c"
  using assms unfolding cluster_inv_def by blast

lemma answered_mono:
  "answered fs compile matches m w msg \<Longrightarrow> (\<And>w t. given m w t \<Longrightarrow> given m' w t) \<Longrightarrow> answered fs compile matches m' w msg"
  unfolding answered_def by blast

text \<open>The worker's handler queues nothing but the task it was sent.\<close>

lemma worker_takes_task:
  assumes "wf_task t" and "worker_OnMessage w (task_message t) = Ok (w', r)"
  shows "m_threadPool w' = Enqueue (m_threadPool w) t"
proof -
  let ?h = "new_message\<lparr>header := (header new_message)\<lparr>hdr_id := msg_id Server_SearchTask\<rparr>\<rparr>"
  show ?thesis
    using assms(2) pod_task.pop_push [OF assms(1), of ?h] unfolding task_message_def
    by (auto simp: worker_OnMessage_def msg_kind_def)
qed

lemma pool_tasks_Enqueue: "pool_tasks (Enqueue p t) = insert t (pool_tasks p)"
  by (auto simp: pool_tasks_def Enqueue_def)

lemma pool_tasks_thread: "pool_tasks (set_thread p i t) \<subseteq> pool_tasks p \<union> {u. t = Running u}"
  using set_update_subset_insert [of "m_workerThreads p" i t] by (auto simp: pool_tasks_def)

lemma pool_tasks_log [simp]:
  "pool_tasks (p\<lparr>executed := e\<rparr>) = pool_tasks p" "pool_tasks (p\<lparr>notify_one_due := k\<rparr>) = pool_tasks p"
  by (simp_all add: pool_tasks_def)

lemma pool_tasks_due: "due_step p q \<Longrightarrow> pool_tasks q \<subseteq> pool_tasks p"
proof (induction rule: due_step.induct)
  case (check i p)
  then show ?case
    using pool_tasks_thread [of p i Blocked] pool_tasks_thread [of p i Exited]
      set_update_subset_insert [of "m_workerThreads p" i]
    by (auto simp: thread_check_def pool_tasks_def split: list.splits dest!: subsetD)
next
  case (notify_some p i)
  show ?case using pool_tasks_thread [of "p\<lparr>notify_one_due := notify_one_due p - 1\<rparr>" i Checking] by (simp add: notify_one_def)
next
  case (notify_all p)
  show ?case by (auto simp: pool_tasks_def notify_all_def wake_def split: thread.splits)
qed (use pool_tasks_thread in \<open>fastforce simp: notify_one_def pool_tasks_def\<close>)+

lemma pool_tasks_step:
  assumes "pool_step p q" and "submitted q = submitted p"
  shows "pool_tasks q \<subseteq> pool_tasks p"
  using assms(1)
proof cases
  case (enqueue task)
  with assms(2) show ?thesis by (simp add: Enqueue_def)
next
  case stop
  then show ?thesis by (simp add: pool_tasks_def set_stop_def)
next
  case thread
  then show ?thesis
  proof cases
    case due
    then show ?thesis by (rule pool_tasks_due)
  next
    case (spurious i)
    then show ?thesis using pool_tasks_thread [of p i Checking] by simp
  qed
qed

lemma begin_message_given:
  assumes inv: "runtime_inv rt" and ok: "sent_ok (rt_master rt)"
  shows "sent_ok (snd (begin_message w msg (rt_master rt)))" "given (snd (begin_message w msg (rt_master rt))) = given (rt_master rt)"
  using sent_begin_message [OF booksD(1) [OF runtime_invD(1) [OF inv]] ok] by blast+

lemma new_cluster_inv: "cluster_inv fs compile matches (new_cluster (new_master envInput envOutput) hw)"
proof (rule cluster_invI)
  show "runtime_inv (cl_runtime (new_cluster (new_master envInput envOutput) hw))"
    by (simp add: new_cluster_def inv_new)
  show "sent_ok (rt_master (cl_runtime (new_cluster (new_master envInput envOutput) hw)))"
    by (simp add: new_cluster_def new_runtime_def sent_ok_def new_master_def given_def registered_def)
qed (auto simp: new_cluster_def new_worker_def pool_tasks_def new_pool_def)

lemma cluster_inv_step:
  assumes "cluster_step world fs compile matches c c'" and inv: "cluster_inv fs compile matches c"
  shows "cluster_inv fs compile matches c'"
  using assms(1)
proof cases
  case (master rt)
  note step = sent_own_step [OF master(2) cluster_invD(1,2) [OF inv]]
  show ?thesis unfolding master(1)
  proof (rule cluster_invI)
    show "answered fs compile matches (rt_master (cl_runtime (c\<lparr>cl_runtime := rt\<rparr>))) w msg"
      if "msg \<in> set (cl_reports (c\<lparr>cl_runtime := rt\<rparr>) w)" for w msg
      using that step by (auto intro: answered_mono [OF cluster_invD(4) [OF inv]])
  qed (use inv_own [OF cluster_invD(1) [OF inv] master(2)] step cluster_invD(3) [OF inv] in auto)
next
  case (receive w msg rest)
  note given = begin_message_given [OF cluster_invD(1,2) [OF inv], of w msg]
  show ?thesis unfolding receive(1)
  proof (rule cluster_invI, goal_cases)
    case 1
    show ?case using inv_begin_message [OF cluster_invD(1) [OF inv] receive(3)] by simp
  next
    case (4 v m)
    then have "m \<in> set (cl_reports c v)" using receive(2) by (auto split: if_splits)
    from answered_mono [OF cluster_invD(4) [OF inv this]] show ?case by (simp add: given)
  qed (use given cluster_invD(3) [OF inv] in auto)
next
  case (connect w)
  have "answered fs compile matches m w (hello_message v)" for m v
    by (simp add: answered_def hello_message_def msg_kind_def)
  then show ?thesis unfolding connect using cluster_invD [OF inv]
    by (intro cluster_invI) (auto simp: OnConnectionResult_def SendHello_def worker_Send_def split: if_splits)
next
  case (deliver w worker rest)
  let ?m = "rt_master (cl_runtime c)"
  let ?msg = "sent_to w ?m ! cl_delivered c w"
  have "?msg \<in> set (sent_to w ?m)" using deliver(2) by (rule nth_mem)
  then have "(w, ?msg) \<in> set (m_sent ?m)" by (auto simp: sent_to_def)
  with sent_okD(1) [OF cluster_invD(2) [OF inv]] obtain t where t: "?msg = task_message t" "wf_task t" by blast
  with \<open>(w, ?msg) \<in> set (m_sent ?m)\<close> have "given ?m w t" by (simp add: given_def)
  moreover have "m_threadPool worker = Enqueue (m_threadPool (cl_workers c w)) t"
    by (rule worker_takes_task [OF t(2)]) (use deliver(3) t(1) in simp)
  ultimately show ?thesis unfolding deliver(1) using cluster_invD [OF inv]
    by (intro cluster_invI) (auto simp: pool_tasks_Enqueue split: if_splits)
next
  case (pool w p)
  with cluster_invD [OF inv] pool_tasks_step [OF pool(2,3)] show ?thesis
    by (intro cluster_invI) (auto split: if_splits)
next
  case (search i w task junk msg)
  let ?p = "m_threadPool (cl_workers c w)"
  have "task \<in> pool_tasks ?p" using search(2,3) by (auto simp: pool_tasks_def in_set_conv_nth)
  then have "answered fs compile matches (rt_master (cl_runtime c)) w msg"
    using cluster_invD(3) [OF inv] search(4) unfolding answered_def by blast
  moreover have "pool_tasks (finish_task i task ?p) \<subseteq> pool_tasks ?p"
    using pool_tasks_thread [of ?p i Checking] by (simp add: finish_task_def)
  ultimately show ?thesis unfolding search(1) using cluster_invD [OF inv]
    by (intro cluster_invI) (auto simp: worker_Send_def split: if_splits)
qed

end
