(* ===== verification/ClusterExact.thy ===== *)
theory ClusterExact
  imports Cluster
begin

text \<open>
  What a search of the whole system (\<open>Cluster\<close>) has found when it is reported done: the match counter, the
  line counter and the result file of a session, against the lines of the files themselves. Between its
  publication and its end the tasks of a search may be dispatched, lost with their worker, dispatched again,
  answered late or twice, while other searches run; \<open>tally\<close> says what has been counted and what is still due.
\<close>

section \<open>Result files of different searches\<close>

definition base_name :: "string \<Rightarrow> string" where
  "base_name p = rev (takeWhile (\<lambda>c. c \<noteq> SLASH) (rev p))"

lemma base_name_file:
  assumes "SLASH \<notin> set name" and "pre = [] \<or> last pre = SLASH"
  shows "base_name (pre @ name) = name"
proof -
  have "takeWhile (\<lambda>c. c \<noteq> SLASH) (rev name @ rev pre) = rev name @ takeWhile (\<lambda>c. c \<noteq> SLASH) (rev pre)"
    using assms(1) by (intro takeWhile_append2) auto
  moreover have "takeWhile (\<lambda>c. c \<noteq> SLASH) (rev pre) = []"
    using assms(2) by (cases pre rule: rev_cases) auto
  ultimately show ?thesis by (simp add: base_name_def)
qed

lemma normal_file:
  assumes "SLASH \<notin> set name" and "name \<noteq> []" "name \<noteq> dot" "name \<noteq> dotdot" "\<not> is_absolute name"
  shows "base_name (lexically_normal (path_join dir name)) = name"
proof -
  let ?p = "path_join dir name"
  have names: "path_names ?p = path_names dir @ [name]"
    using assms by (simp add: path_names_join path_names_name)
  have p: "?p \<noteq> []" "last ?p = last name" using assms(2,5) by (auto simp: path_join_def)
  have "last name \<noteq> SLASH" using assms(1,2) last_in_set by metis
  with p names assms(3,4) have "lexically_normal ?p = (if is_absolute ?p then [SLASH] else [])
      @ join_names (norm_names (is_absolute ?p) (path_names dir) @ [name])"
    using norm_names_snoc_plain [OF assms(3,4), of "is_absolute ?p" "path_names dir"] assms(2)
      join_names_append [of "norm_names (is_absolute ?p) (path_names dir)" "[name]"]
    by (cases "norm_names (is_absolute ?p) (path_names dir) = []") (auto simp: lexically_normal_def Let_def)
  then obtain pre where "lexically_normal ?p = pre @ name" "pre = [] \<or> last pre = SLASH"
    using join_names_append [of "norm_names (is_absolute ?p) (path_names dir)" "[name]"]
    by (cases "norm_names (is_absolute ?p) (path_names dir) = []") (force simp flip: append_assoc)+
  then show ?thesis by (simp only: base_name_file [OF assms(1)])
qed

lemma session_path_name: "base_name (session_path os base_dir userDir sid) = session_filename os sid"
  unfolding session_path_def by (intro normal_file filename_no_slash filename_name)

lemma filename_inj:
  assumes "session_filename os a = session_filename os' b"
  shows "a = b"
proof -
  have digits: "takeWhile is_digit (nat_dec n @ ''_'' @ r) = nat_dec n" for n r
    using nat_dec_digits [of n] by (subst takeWhile_append2) (auto simp: list_all_iff is_digit_def)
  from assms have "nat_dec (unat a) @ ''_'' @ int_dec (os_now os) @ ''.log'' = nat_dec (unat b) @ ''_'' @ int_dec (os_now os') @ ''.log''"
    by (simp add: session_filename_def)
  then have "nat_dec (unat a) = nat_dec (unat b)" using digits by metis
  then have "unat a = unat b" using nat_dec_digits by metis
  then show ?thesis by (simp add: word_eq_unat)
qed

definition results_named :: "master \<Rightarrow> bool" where
  "results_named m \<longleftrightarrow> (\<forall>sid s. m_sessions m sid = Some s \<longrightarrow> (\<exists>os. base_name (ss_path s) = session_filename os sid))"

lemma results_apart:
  "results_named m \<Longrightarrow> m_sessions m a = Some s \<Longrightarrow> m_sessions m b = Some t \<Longrightarrow> ss_path s = ss_path t \<Longrightarrow> a = b"
  unfolding results_named_def using filename_inj by metis

text \<open>What the counting section does to a session, and the lines it leaves to write.\<close>

lemma count_section_exact:
  assumes "count_section batch sid m = Some (ls, m')"
  shows "\<exists>s. m_sessions m sid = Some s \<and> m' = m\<lparr>m_sessions := (m_sessions m)(sid \<mapsto> fst (count_batch batch s))\<rparr>
    \<and> (length (cr_lines batch) < 2 ^ 64 \<longrightarrow> ls = accepted s (cr_lines batch))"
proof -
  from assms obtain s where s: "m_sessions m sid = Some s" by (auto simp: count_section_def split: option.splits)
  let ?n = "snd (count_batch batch s)"
  have eq: "m' = m\<lparr>m_sessions := (m_sessions m)(sid \<mapsto> fst (count_batch batch s))\<rparr>"
    "ls = (if 0 < ?n then if ?n < of_nat (length (cr_lines batch)) then take (unat ?n) (cr_lines batch) else cr_lines batch else [])"
    using assms s by (auto simp: count_section_def split_beta)
  have "ls = accepted s (cr_lines batch)" if small: "length (cr_lines batch) < 2 ^ 64"
  proof -
    have n: "unat ?n = length (accepted s (cr_lines batch))" using count_batch_exact [OF small, of s] by simp
    have "unat (of_nat (length (cr_lines batch)) :: u64) = length (cr_lines batch)"
      using small by (intro unat_of_nat_u64) simp
    with n show ?thesis unfolding eq(2) by (auto simp: word_less_nat_alt word_gt_0 accepted_def)
  qed
  with s eq(1) show ?thesis by blast
qed

text \<open>No section names a session anew but the one that publishes it.\<close>

lemma section_sessions:
  assumes run: "lock_section os uninit p m = Ok (p', m')" and ses: "m_sessions m' k = Some s'"
  obtains s where "m_sessions m k = Some s" "ss_path s' = ss_path s"
    | filepath keyword config target session ts where "p = Searching filepath keyword config target k"
        "prepare_search os uninit m filepath keyword config target k = Ok (session, ts)" "ss_path s' = ss_path session"
  using run
proof (cases rule: section_cases)
  case (publish filepath keyword config target sid session ts)
  have "ss_search_id session = sid" using publish(3) by (auto elim!: prepare_Ok)
  with publish ses that show ?thesis by (auto simp: AddPendingTasks_def Let_def split: if_splits)
next
  case (count msg sid batch r ls)
  from count_section_exact [OF this(3)] ses that(1) show ?thesis
    by (auto simp: count_batch_fields split: if_splits)
next
  case (counted sid)
  with ses that(1) show ?thesis by (auto simp: finish_chunk_def split: option.splits if_splits)
qed (use ses that(1) in \<open>auto simp: frame_simps\<close>)

lemma named_own_step:
  assumes step: "own_step world rt rt'" and named: "results_named (rt_master rt)"
  shows "results_named (rt_master rt')"
  using step
proof cases
  case (request os i filepath keyword config pm)
  then have "m_sessions (snd pm) = m_sessions (rt_master rt)"
    by (auto simp: begin_search_def AllocateSearchId_def obind_eq_Ok)
  with request(1) named show ?thesis by (simp add: results_named_def)
next
  case (proceed os i p uninit pm)
  have "\<exists>os. base_name (ss_path s) = session_filename os k" if "m_sessions (snd pm) k = Some s" for k s
  proof (rule section_sessions [of os uninit p "rt_master rt" "fst pm" "snd pm" k s])
    fix filepath keyword config target session ts
    assume "prepare_search os uninit (rt_master rt) filepath keyword config target k = Ok (session, ts)"
      and "ss_path s = ss_path session"
    then have "ss_path s = session_path os (m_base_dir (rt_master rt)) (output_dir config) k"
      by (auto elim!: prepare_Ok simp: CreateSessionFilePath_Ok)
    then show ?thesis using session_path_name by metis
  qed (use proceed(6) that named in \<open>auto simp: results_named_def\<close>)
  with proceed(1) show ?thesis by (simp add: results_named_def)
next
  case (lost order client)
  with named show ?thesis by (simp add: results_named_def reclaim_def)
qed

lemma named_begin_message: "results_named m \<Longrightarrow> results_named (snd (begin_message w msg m))"
proof -
  assume "results_named m"
  moreover have "m_sessions (snd (begin_message w msg m)) = m_sessions m"
    by (cases rule: begin_message_cases [of w msg m]) (auto simp: acknowledge_def Let_def split: option.splits)
  ultimately show ?thesis by (simp add: results_named_def)
qed

lemma named_step:
  "cluster_step world fs compile matches c c' \<Longrightarrow> results_named (rt_master (cl_runtime c))
    \<Longrightarrow> results_named (rt_master (cl_runtime c'))"
  by (induction rule: cluster_step.induct) (simp_all add: named_own_step named_begin_message)

section \<open>What a report says\<close>

text \<open>The lines a task is to find, and the tasks for which a worker finds them.\<close>

definition task_lines ::
  "(string \<Rightarrow> string option) \<Rightarrow> (string \<Rightarrow> 'r option) \<Rightarrow> ('r \<Rightarrow> string \<Rightarrow> bool) \<Rightarrow> TaskPayload \<Rightarrow> string list" where
  "task_lines fs compile matches t = (case c_str (tp_filename t) of None \<Rightarrow> []
     | Some fname \<Rightarrow> (case (fs fname, Option.bind (c_str (tp_keyword t)) compile) of
         (Some s, Some pattern) \<Rightarrow>
           map (found_line fname) (hits (matches pattern) (lines_in (unat (tp_start_offset t)) (unat (tp_end_offset t)) s))
       | _ \<Rightarrow> []))"

definition searchable ::
  "(string \<Rightarrow> string option) \<Rightarrow> (string \<Rightarrow> 'r option) \<Rightarrow> ('r \<Rightarrow> string \<Rightarrow> bool) \<Rightarrow> TaskPayload \<Rightarrow> bool" where
  "searchable fs compile matches t \<longleftrightarrow>
     (\<exists>fname s kw pattern. c_str (tp_filename t) = Some fname \<and> fs fname = Some s \<and> length s < 2 ^ 63
        \<and> c_str (tp_keyword t) = Some kw \<and> compile kw = Some pattern
        \<and> unat (tp_end_offset t) - unat (tp_start_offset t) \<le> unat CHUNK_SIZE)
     \<and> (\<forall>l \<in> set (task_lines fs compile matches t). length l < 2 ^ 32)"

lemma strip_id_fields [simp]:
  "tp_filename (strip_id t) = tp_filename t" "tp_keyword (strip_id t) = tp_keyword t"
  "tp_start_offset (strip_id t) = tp_start_offset t" "tp_end_offset (strip_id t) = tp_end_offset t"
  "tp_max_results (strip_id t) = tp_max_results t"
  by (simp_all add: strip_id_def)

lemma strip_id_task [simp]:
  "task_lines fs compile matches (strip_id t) = task_lines fs compile matches t"
  "searchable fs compile matches (strip_id t) \<longleftrightarrow> searchable fs compile matches t"
  by (simp_all only: task_lines_def searchable_def strip_id_fields)

text \<open>The batch of a report on a task: the lines found up to the limit, and their full number.\<close>

definition batch_for :: "ChunkResult \<Rightarrow> u64 \<Rightarrow> string list \<Rightarrow> bool" where
  "batch_for batch mx lines \<longleftrightarrow> cr_lines batch = take (unat mx) lines
     \<and> cr_total_matches batch = of_nat (length lines) \<and> length lines < 2 ^ 64"

lemma report_read:
  assumes "searchable fs compile matches t" and "task_report junk fs compile matches t = Ok msg"
  shows "\<exists>rest batch r. pop_pod 8 u64_of_bytes msg = Ok (tp_task_id t, rest) \<and> DeserializeBatch rest = Ok (batch, r)
    \<and> batch_for batch (tp_max_results t) (task_lines fs compile matches t)"
proof -
  from assms(1) obtain fname s kw pattern where t: "c_str (tp_filename t) = Some fname" "fs fname = Some s" "length s < 2 ^ 63"
    "c_str (tp_keyword t) = Some kw" "compile kw = Some pattern"
    "unat (tp_end_offset t) - unat (tp_start_offset t) \<le> unat CHUNK_SIZE"
    and short: "\<And>l. l \<in> set (task_lines fs compile matches t) \<Longrightarrow> length l < 2 ^ 32" unfolding searchable_def by blast
  let ?ls = "lines_in (unat (tp_start_offset t)) (unat (tp_end_offset t)) s" and ?mx = "tp_max_results t"
  let ?b = "(range_batch (matches pattern) fname ?mx ?ls)\<lparr>cr_search_id := tp_search_id t, cr_task_id := tp_task_id t\<rparr>"
  have lines: "task_lines fs compile matches t = map (found_line fname) (hits (matches pattern) ?ls)"
    by (simp add: task_lines_def t)
  have "length (hits (matches pattern) ?ls) \<le> length ?ls" by (simp add: hits_def le_trans [OF length_filter_le])
  with le_trans [OF length_lines_in t(6), of s] have len: "length (hits (matches pattern) ?ls) < 2 ^ 32"
    by (simp add: unat_CHUNK_SIZE)
  have msg: "msg = task_done_message ?b"
    using assms(2) search_range [where fs = fs and compile = compile, OF t, where junk = junk and matches = matches and mx = ?mx]
    by (simp add: task_report_def)
  have "\<forall>l \<in> set (cr_lines ?b). length l < 2 ^ 32"
    using short unfolding lines by (auto simp: range_batch_def Let_def dest: in_set_takeD)
  moreover have "unat (cr_lines_found ?b) = length (cr_lines ?b)"
    using len by (simp add: range_batch_def Let_def unat_of_nat_u32 min.commute)
  ultimately obtain r where "DeserializeBatch (report_rest ?b) = Ok (?b\<lparr>cr_task_id := 0\<rparr>, r)" using batch_read by blast
  moreover have "batch_for (?b\<lparr>cr_task_id := 0\<rparr>) ?mx (task_lines fs compile matches t)"
    using len unfolding lines by (simp add: batch_for_def range_batch_def Let_def take_map)
  ultimately show ?thesis using task_done_read [of ?b] unfolding msg by auto
qed

lemma report_exists:
  assumes "searchable fs compile matches t"
  shows "\<exists>msg. task_report junk fs compile matches t = Ok msg \<and> msg_kind (hdr_id (header msg)) = Some Worker_TaskDone"
proof -
  from assms obtain fname s kw pattern where t: "c_str (tp_filename t) = Some fname" "fs fname = Some s" "length s < 2 ^ 63"
    "c_str (tp_keyword t) = Some kw" "compile kw = Some pattern"
    "unat (tp_end_offset t) - unat (tp_start_offset t) \<le> unat CHUNK_SIZE" unfolding searchable_def by blast
  have "msg_kind (hdr_id (header (task_done_message b))) = Some Worker_TaskDone" for b
    by (simp add: task_done_message_def Let_def msg_kind_def)
  with search_range [where fs = fs and compile = compile, OF t, where junk = junk and matches = matches and mx = "tp_max_results t"]
  show ?thesis by (simp add: task_report_def)
qed

section \<open>The tally of a search\<close>

definition lines_due ::
  "(string \<Rightarrow> string option) \<Rightarrow> (string \<Rightarrow> 'r option) \<Rightarrow> ('r \<Rightarrow> string \<Rightarrow> bool) \<Rightarrow> TaskPayload multiset \<Rightarrow> string multiset" where
  "lines_due fs compile matches w = sum_mset (image_mset (\<lambda>t. mset (task_lines fs compile matches t)) w)"

definition tasks_for :: "u64 \<Rightarrow> master \<Rightarrow> TaskPayload multiset" where
  "tasks_for sid m = filter_mset (\<lambda>t. tp_search_id t = sid) (work m)"

text \<open>The lines behind the report in hand, and the lines that are counted and not written yet.\<close>

definition awaits :: "u64 \<Rightarrow> u64 \<Rightarrow> pc \<Rightarrow> string list \<Rightarrow> bool" where
  "awaits sid mx p lines = (case carrying p of None \<Rightarrow> lines = []
     | Some (msg, k) \<Rightarrow> if k = sid then \<exists>batch r. DeserializeBatch msg = Ok (batch, r) \<and> batch_for batch mx lines
         else lines = [])"

definition unwritten :: "u64 \<Rightarrow> pc \<Rightarrow> string list" where
  "unwritten sid p = (case to_write p of None \<Rightarrow> [] | Some (lines, k) \<Rightarrow> if k = sid then lines else [])"

definition counters :: "SearchSession \<Rightarrow> string \<times> u64 \<times> u64 \<times> u64" where
  "counters s = (ss_path s, ss_max_results s, ss_total_matches s, ss_line_count s)"

text \<open>Of all the lines \<open>found\<close>, some are counted, some are behind the report in hand, the others are due from
  tasks that wait or are in flight; the file has been given \<open>lines\<close> since it held \<open>old\<close>.\<close>

definition tally ::
  "(string \<Rightarrow> string option) \<Rightarrow> (string \<Rightarrow> 'r option) \<Rightarrow> ('r \<Rightarrow> string \<Rightarrow> bool)
     \<Rightarrow> u64 \<Rightarrow> u64 \<Rightarrow> string \<Rightarrow> string \<Rightarrow> string multiset \<Rightarrow> master \<Rightarrow> pc \<Rightarrow> bool" where
  "tally fs compile matches sid mx path old found m p \<longleftrightarrow>
     (\<forall>t \<in># tasks_for sid m. searchable fs compile matches t \<and> tp_max_results t = mx)
   \<and> (\<exists>counted inHand lines. awaits sid mx p inHand
       \<and> counted + mset inHand + lines_due fs compile matches (tasks_for sid m) = found
       \<and> mset (lines @ unwritten sid p) \<subseteq># counted
       \<and> length (lines @ unwritten sid p) = min (unat mx) (size counted)
       \<and> m_disk m path = old @ file_text lines
       \<and> map_option counters (m_sessions m sid)
           = Some (path, mx, of_nat (size counted), of_nat (min (unat mx) (size counted))))"

lemma tallyE:
  assumes "tally fs compile matches sid mx path old found m p"
  obtains counted inHand lines s where "awaits sid mx p inHand"
    and "counted + mset inHand + lines_due fs compile matches (tasks_for sid m) = found"
    and "mset (lines @ unwritten sid p) \<subseteq># counted"
    and "length (lines @ unwritten sid p) = min (unat mx) (size counted)"
    and "m_disk m path = old @ file_text lines"
    and "m_sessions m sid = Some s" "counters s = (path, mx, of_nat (size counted), of_nat (min (unat mx) (size counted)))"
    and "\<And>t. t \<in># tasks_for sid m \<Longrightarrow> searchable fs compile matches t \<and> tp_max_results t = mx"
  using assms unfolding tally_def by (auto simp: map_option_eq_Some)

text \<open>Steps that leave the tally alone.\<close>

definition same_tally :: "u64 \<Rightarrow> string \<Rightarrow> master \<Rightarrow> master \<Rightarrow> bool" where
  "same_tally sid path m m' \<longleftrightarrow> tasks_for sid m' = tasks_for sid m \<and> m_disk m' path = m_disk m path
     \<and> map_option counters (m_sessions m' sid) = map_option counters (m_sessions m sid)"

lemma tally_same:
  assumes "tally fs compile matches sid mx path old found m p" and "same_tally sid path m m'"
    and "\<And>lines. awaits sid mx p lines \<Longrightarrow> awaits sid mx p' lines" and "unwritten sid p' = unwritten sid p"
  shows "tally fs compile matches sid mx path old found m' p'"
  using assms unfolding tally_def same_tally_def by auto

lemma awaits_carrying: "carrying p' = carrying p \<Longrightarrow> awaits sid mx p' lines \<longleftrightarrow> awaits sid mx p lines"
  by (simp add: awaits_def)

lemma unwritten_none [simp]: "to_write p = None \<Longrightarrow> unwritten sid p = []"
  by (simp add: unwritten_def)

lemma awaits_none: "carrying p = None \<Longrightarrow> awaits sid mx p lines \<longleftrightarrow> lines = []"
  by (simp add: awaits_def)

lemma tasks_for_frame:
  "m_inFlightTasks m' = m_inFlightTasks m \<Longrightarrow> m_pendingTasks m' = m_pendingTasks m \<Longrightarrow> tasks_for sid m' = tasks_for sid m"
  by (simp add: tasks_for_def work_def)

lemma quiet_section:
  assumes run: "lock_section os uninit p m = Ok (p', m')" and fl: "flight_ok m" and room: "room m" and posix: "posix_sizes os"
    and other: "searching p \<noteq> Some sid" and loud: "\<And>msg k. p \<noteq> Aggregating msg k" "\<And>ls k. p \<noteq> Writing ls k"
  shows "same_tally sid path m m' \<and> carrying p' = carrying p \<and> to_write p = None \<and> to_write p' = None"
  using run
proof (cases rule: section_cases)
  case (idle q ids)
  then show ?thesis by (simp add: same_tally_def tasks_for_def work_def)
next
  case (dispatch c)
  have "conserved m m'" unfolding dispatch(1) using fl room by (intro conserved_dispatch conserved_refl)
  moreover have "m_disk m' = m_disk m" by (simp add: dispatch(1) frame_simps)
  ultimately show ?thesis using dispatch by (simp add: same_tally_def conserved_def tasks_for_def)
next
  case (publish filepath keyword config target k session ts)
  have k: "ss_search_id session = k" and coll: "\<And>t. t \<in> set ts \<Longrightarrow> tp_search_id t = k"
    using publish(3) by (auto elim!: prepare_Ok dest: collect_search_id(1) [OF posix])
  have "k \<noteq> sid" using other publish(1) by simp
  then have "filter_mset (\<lambda>t. tp_search_id t = sid) (image_mset strip_id (mset ts)) = {#}"
    using coll by auto
  then have "tasks_for sid m' = tasks_for sid m" by (simp add: tasks_for_def work_def publish(4) AddPendingTasks_def Let_def)
  with publish k \<open>k \<noteq> sid\<close> show ?thesis by (simp add: same_tally_def AddPendingTasks_def Let_def)
next
  case (counted k)
  then have "tasks_for sid m' = tasks_for sid m"
    by (intro tasks_for_frame) (auto simp: finish_chunk_def split: option.splits if_splits)
  with counted show ?thesis
    by (auto simp: same_tally_def finish_chunk_def counters_def split: option.splits if_splits)
qed (use loud in auto)

text \<open>Counting a batch moves its lines from the hand to the counters and, up to the limit, to the lines to write.\<close>

lemma accepted_after:
  assumes "unat (ss_line_count s) = min (unat mx) n" and "ss_max_results s = mx"
  shows "unat (ss_line_count s) + length (accepted s (take (unat mx) ls)) = min (unat mx) (n + length ls)"
    and "mset (accepted s (take (unat mx) ls)) \<subseteq># mset ls"
proof -
  show "unat (ss_line_count s) + length (accepted s (take (unat mx) ls)) = min (unat mx) (n + length ls)"
    using assms by (auto simp: accepted_def)
  have "mset (take k (take j ls)) \<subseteq># mset ls" for k j
    by (metis mset_subset_eq_add_left append_take_drop_id mset_append take_take)
  then show "mset (accepted s (take (unat mx) ls)) \<subseteq># mset ls" by (simp add: accepted_def)
qed

lemma tally_count:
  assumes tal: "tally fs compile matches sid mx path old found m (Aggregating msg k)"
    and batch: "DeserializeBatch msg = Ok (batch, r)" and run: "count_section batch k m = Some (ls, m')"
  shows "tally fs compile matches sid mx path old found m' (if ls = [] then Finishing k else Writing ls k)"
proof -
  from count_section_exact [OF run] obtain s where s: "m_sessions m k = Some s"
    and m': "m' = m\<lparr>m_sessions := (m_sessions m)(k \<mapsto> fst (count_batch batch s))\<rparr>"
    and ls: "length (cr_lines batch) < 2 ^ 64 \<Longrightarrow> ls = accepted s (cr_lines batch)" by blast
  let ?p = "if ls = [] then Finishing k else Writing ls k"
  have same: "tasks_for sid m' = tasks_for sid m" "m_disk m' = m_disk m" by (simp_all add: m' tasks_for_def work_def)
  show ?thesis
  proof (cases "k = sid")
    case False
    then have "same_tally sid path m m'" using same by (simp add: same_tally_def m')
    with tally_same [OF tal] False show ?thesis by (simp add: awaits_def unwritten_def)
  next
    case True
    from tal obtain counted inHand lines s0 where t: "awaits sid mx (Aggregating msg k) inHand"
      "counted + mset inHand + lines_due fs compile matches (tasks_for sid m) = found"
      "mset (lines @ unwritten sid (Aggregating msg k)) \<subseteq># counted"
      "length (lines @ unwritten sid (Aggregating msg k)) = min (unat mx) (size counted)"
      "m_disk m path = old @ file_text lines" "m_sessions m sid = Some s0"
      "counters s0 = (path, mx, of_nat (size counted), of_nat (min (unat mx) (size counted)))"
      and ok: "\<And>t. t \<in># tasks_for sid m \<Longrightarrow> searchable fs compile matches t \<and> tp_max_results t = mx"
      by (rule tallyE) blast
    from t(6) s True have [simp]: "s0 = s" by simp
    from t(1) True batch have b: "batch_for batch mx inHand" by (auto simp: awaits_def)
    then have lines: "cr_lines batch = take (unat mx) inHand" "length (cr_lines batch) < 2 ^ 64"
      by (simp_all add: batch_for_def min_less_iff_disj)
    have c: "ss_path s = path" "ss_max_results s = mx" "ss_total_matches s = of_nat (size counted)"
      "ss_line_count s = of_nat (min (unat mx) (size counted))"
      using t(7) by (simp_all add: counters_def)
    have lc: "unat (ss_line_count s) = min (unat mx) (size counted)"
      unfolding c(4) using unat_u64_less [of mx] by (intro unat_of_nat_u64) simp
    note acc = accepted_after [OF lc c(2), of inHand]
    let ?s = "fst (count_batch batch s)"
    have "unat (ss_line_count ?s) = min (unat mx) (size (counted + mset inHand))"
      using count_batch_exact [OF lines(2), of s] acc(1) lines(1) by simp
    then have "ss_line_count ?s = of_nat (min (unat mx) (size (counted + mset inHand)))"
      unfolding word_eq_unat using unat_u64_less [of mx] by (subst unat_of_nat_u64) simp_all
    moreover have "ss_total_matches ?s = of_nat (size (counted + mset inHand))"
      using b c(3) by (simp add: count_batch_fields batch_for_def)
    ultimately have "map_option counters (m_sessions m' sid)
        = Some (path, mx, of_nat (size (counted + mset inHand)), of_nat (min (unat mx) (size (counted + mset inHand))))"
      using c True by (simp add: m' counters_def count_batch_fields)
    moreover have "unwritten sid ?p = ls" "awaits sid mx ?p []" using True by (simp_all add: unwritten_def awaits_def)
    moreover have "mset (lines @ ls) \<subseteq># counted + mset inHand"
      using t(3) acc(2) ls [OF lines(2)] lines(1) by (auto simp: unwritten_def intro: subset_mset.add_mono)
    moreover have "length (lines @ ls) = min (unat mx) (size (counted + mset inHand))"
      using t(4) acc(1) ls [OF lines(2)] lines(1) lc by (simp add: unwritten_def)
    ultimately show ?thesis unfolding tally_def same
      using ok t(2,5)
      by (intro conjI exI [of _ "counted + mset inHand"] exI [of _ "[]"] exI [of _ lines]) simp_all
  qed
qed

lemma file_text_append: "file_text (ls @ ls') = file_text ls @ file_text ls'"
  by (simp add: file_text_def)

lemma tally_write:
  assumes tal: "tally fs compile matches sid mx path old found m (Writing ls k)"
    and named: "results_named m" and opens: "os_can_open os path"
  shows "tally fs compile matches sid mx path old found (WriteResults os ls k m) (Finishing k)"
proof -
  let ?m = "WriteResults os ls k m"
  from tal obtain counted inHand lines s where t: "awaits sid mx (Writing ls k) inHand"
    "counted + mset inHand + lines_due fs compile matches (tasks_for sid m) = found"
    "mset (lines @ unwritten sid (Writing ls k)) \<subseteq># counted"
    "length (lines @ unwritten sid (Writing ls k)) = min (unat mx) (size counted)"
    "m_disk m path = old @ file_text lines" "m_sessions m sid = Some s"
    "counters s = (path, mx, of_nat (size counted), of_nat (min (unat mx) (size counted)))"
    and ok: "\<And>t. t \<in># tasks_for sid m \<Longrightarrow> searchable fs compile matches t \<and> tp_max_results t = mx"
    by (rule tallyE) blast
  have path: "ss_path s = path" using t(7) by (simp add: counters_def)
  have tasks: "tasks_for sid ?m = tasks_for sid m" by (intro tasks_for_frame) (simp_all add: frame_simps)
  show ?thesis
  proof (cases "k = sid")
    case True
    with WriteResults_session [OF t(6), of os ls] opens t(5) path
    have "m_disk ?m path = old @ file_text (lines @ ls)" by (simp add: file_text_append)
    with t(1-4,6,7) ok True show ?thesis unfolding tally_def tasks
      by (intro conjI exI [of _ counted] exI [of _ inHand] exI [of _ "lines @ ls"])
        (simp_all add: frame_simps awaits_def unwritten_def)
  next
    case False
    have "m_disk ?m path = m_disk m path"
    proof (cases "m_sessions m k")
      case (Some s')
      with results_apart [OF named t(6), of k s'] False path have "ss_path s' \<noteq> path" by auto
      with Some show ?thesis by (simp add: WriteResults_def OpenResultFile_def)
    qed (simp add: WriteResults_def)
    then have "same_tally sid path m ?m" by (simp add: same_tally_def tasks frame_simps)
    with tally_same [OF tal] False show ?thesis by (simp add: awaits_def unwritten_def)
  qed
qed

lemma tally_section:
  assumes tal: "tally fs compile matches sid mx path old found m p"
    and run: "lock_section os uninit p m = Ok (p', m')" and fl: "flight_ok m" and room: "room m" and posix: "posix_sizes os"
    and other: "searching p \<noteq> Some sid" and named: "results_named m" and opens: "os_can_open os path"
  shows "tally fs compile matches sid mx path old found m' p'"
proof -
  consider (agg) msg k where "p = Aggregating msg k" | (writes) ls k where "p = Writing ls k"
    | (quiet) "\<And>msg k. p \<noteq> Aggregating msg k" "\<And>ls k. p \<noteq> Writing ls k" by blast
  then show ?thesis
  proof cases
    case quiet
    from quiet_section [OF run fl room posix other quiet]
    have q: "same_tally sid path m m'" "carrying p' = carrying p" "to_write p = None" "to_write p' = None" by blast+
    show ?thesis by (rule tally_same [OF tal q(1)]) (simp_all add: awaits_carrying [OF q(2)] q(3,4))
  next
    case writes
    with run tal tally_write [OF _ named opens] show ?thesis by auto
  next
    case agg
    consider (counted) batch r ls where "DeserializeBatch msg = Ok (batch, r)" "count_section batch k m = Some (ls, m')"
        "p' = (if ls = [] then Finishing k else Writing ls k)"
      | (unknown) "p' = Finishing k" "m' = m" "\<And>batch r. DeserializeBatch msg = Ok (batch, r) \<Longrightarrow> count_section batch k m = None"
    proof (cases "DeserializeBatch msg")
      case (Ok x)
      with run agg that show ?thesis by (cases x; cases "count_section (fst x) k m") (simp_all split: prod.splits)
    qed (use run agg that(2) in simp_all)
    then show ?thesis
    proof cases
      case counted
      from tally_count [OF tal [unfolded agg] counted(1,2)] show ?thesis unfolding counted(3) .
    next
      case unknown
      from tal [unfolded agg] have "\<exists>lines. awaits sid mx (Aggregating msg k) lines" "m_sessions m sid \<noteq> None"
        by (auto elim!: tallyE)
      then have "k \<noteq> sid" using unknown(3) by (auto simp: awaits_def count_section_def split: prod.splits)
      with unknown agg show ?thesis
        by (intro tally_same [OF tal]) (simp_all add: same_tally_def awaits_def unwritten_def)
    qed
  qed
qed

lemma tally_own_step:
  assumes tal: "tally fs compile matches sid mx path old found (rt_master rt) (rt_threads rt 0)"
    and step: "own_step world rt rt'" and inv: "runtime_inv rt" and named: "results_named (rt_master rt)"
    and opens: "\<And>os. world os \<Longrightarrow> os_can_open os path"
  shows "tally fs compile matches sid mx path old found (rt_master rt') (rt_threads rt' 0)"
  using step
proof cases
  case (request os i filepath keyword config pm)
  then have "snd pm = (rt_master rt)\<lparr>m_nextSearchId := m_nextSearchId (rt_master rt) + 1\<rparr>"
    by (auto simp: begin_search_def AllocateSearchId_def obind_eq_Ok)
  with request show ?thesis by (intro tally_same [OF tal]) (simp_all add: same_tally_def tasks_for_def work_def)
next
  case (proceed os i p uninit pm)
  note fl = booksD(1) [OF runtime_invD(1) [OF inv]] and room = room_of_within [OF proceed(5)]
  from tal have "sid \<in> dom (m_sessions (rt_master rt))" by (auto elim!: tallyE)
  then have other: "searching p \<noteq> Some sid" using takenD(1) [OF runtime_invD(2) [OF inv], of i sid] proceed(4) by auto
  have run: "lock_section os uninit p (rt_master rt) = Ok (fst pm, snd pm)" using proceed(6) by simp
  show ?thesis
  proof (cases "i = 0")
    case True
    then have "tally fs compile matches sid mx path old found (rt_master rt) p" using tal proceed(4) by simp
    from tally_section [OF this run fl room proceed(3) other named opens [OF proceed(2)]] True show ?thesis by (simp add: proceed(1))
  next
    case False
    then have "in_hand p = None" using runtime_invD(3) [OF inv False] proceed(4) by simp
    then have "\<And>msg k. p \<noteq> Aggregating msg k" "\<And>ls k. p \<noteq> Writing ls k" by auto
    from quiet_section [OF run fl room proceed(3) other this] False proceed(1) show ?thesis
      by (intro tally_same [OF tal]) simp_all
  qed
next
  case (lost order client)
  have "conserved (rt_master rt) (reclaim order client (rt_master rt))"
    by (rule reclaim_conserves) (use lost booksD(1) [OF runtime_invD(1) [OF inv]] in \<open>simp_all add: within_def\<close>)
  then have "same_tally sid path (rt_master rt) (reclaim order client (rt_master rt))"
    by (simp add: same_tally_def tasks_for_def conserved_def reclaim_def)
  with lost show ?thesis by (intro tally_same [OF tal]) (simp_all add: awaits_none)
qed

text \<open>A report that comes in: a known number is that of the task it answers.\<close>

lemma tally_acknowledge:
  assumes tal: "tally fs compile matches sid mx path old found m Idle"
    and ack: "acknowledge w i m = Some (k, m')" and fl: "flight_ok m" and ok: "sent_ok m"
    and kind: "msg_kind (hdr_id (header msg)) = Some Worker_TaskDone" and pop: "pop_pod 8 u64_of_bytes msg = Ok (i, rest)"
    and ans: "answered fs compile matches m w msg"
  shows "tally fs compile matches sid mx path old found m' (Acked w rest k)"
proof -
  obtain t where t: "given m w t" "tp_task_id t = i" "tp_search_id t = k" "work m = add_mset (strip_id t) (work m')"
    using sent_acknowledge(3) [OF ack fl ok] by blast
  have same: "m_sessions m' = m_sessions m" "m_disk m' = m_disk m"
    using ack by (auto simp: acknowledge_def Let_def split: option.splits)
  show ?thesis
  proof (cases "k = sid")
    case False
    then have "same_tally sid path m m'" using t same by (simp add: same_tally_def tasks_for_def)
    with False show ?thesis by (intro tally_same [OF tal]) (simp_all add: awaits_def)
  next
    case True
    then have tasks: "tasks_for sid m = add_mset (strip_id t) (tasks_for sid m')" using t by (simp add: tasks_for_def)
    from tal obtain counted inHand lines s where c: "awaits sid mx Idle inHand"
      "counted + mset inHand + lines_due fs compile matches (tasks_for sid m) = found"
      "mset (lines @ unwritten sid Idle) \<subseteq># counted"
      "length (lines @ unwritten sid Idle) = min (unat mx) (size counted)"
      "m_disk m path = old @ file_text lines" "m_sessions m sid = Some s"
      "counters s = (path, mx, of_nat (size counted), of_nat (min (unat mx) (size counted)))"
      and each: "\<And>t. t \<in># tasks_for sid m \<Longrightarrow> searchable fs compile matches t \<and> tp_max_results t = mx"
      by (rule tallyE) blast
    have st: "searchable fs compile matches t" "tp_max_results t = mx" using each [of "strip_id t"] tasks by simp_all
    obtain t' junk where t': "given m w t'" "task_report junk fs compile matches t' = Ok msg"
      using ans kind unfolding answered_def by blast
    then have "tp_task_id t' = i"
      using pop task_done_read by (auto simp: task_report_def obind_eq_Ok)
    then have "t' = t" using sent_okD(2) [OF ok t'(1) t(1)] t(2) by simp
    with report_read [OF st(1) t'(2) [unfolded \<open>t' = t\<close>]] pop st(2)
    have "awaits sid mx (Acked w rest k) (task_lines fs compile matches t)" using True by (auto simp: awaits_def)
    moreover have "counted + mset (task_lines fs compile matches t) + lines_due fs compile matches (tasks_for sid m') = found"
      using c(1,2) unfolding tasks by (simp add: lines_due_def awaits_def ac_simps)
    ultimately show ?thesis unfolding tally_def same using c(3-7) each tasks
      by (intro conjI exI [of _ counted] exI [of _ "task_lines fs compile matches t"] exI [of _ lines]) simp_all
  qed
qed

lemma tally_step:
  assumes step: "cluster_step world fs compile matches c c'" and inv: "cluster_inv fs compile matches c"
    and named: "results_named (rt_master (cl_runtime c))" and opens: "\<And>os. world os \<Longrightarrow> os_can_open os path"
    and tal: "tally fs compile matches sid mx path old found (rt_master (cl_runtime c)) (rt_threads (cl_runtime c) 0)"
  shows "tally fs compile matches sid mx path old found (rt_master (cl_runtime c')) (rt_threads (cl_runtime c') 0)"
  using step
proof cases
  case (master rt)
  from tally_own_step [OF tal master(2) cluster_invD(1) [OF inv] named opens] show ?thesis by (simp add: master(1))
next
  case (receive w msg rest)
  let ?m = "rt_master (cl_runtime c)"
  note tal = tal [unfolded receive(3)]
  note fl = booksD(1) [OF runtime_invD(1) [OF cluster_invD(1) [OF inv]]] and ok = cluster_invD(2) [OF inv]
  have ans: "answered fs compile matches ?m w msg" using cluster_invD(4) [OF inv] receive(2) by auto
  have "tally fs compile matches sid mx path old found (snd (begin_message w msg ?m)) (fst (begin_message w msg ?m))"
  proof (cases rule: begin_message_cases [of w msg ?m])
    case (hello h)
    then show ?thesis
      by (intro tally_same [OF tal]) (simp_all add: same_tally_def tasks_for_def work_def awaits_none)
  next
    case (acked i rest k m1)
    with tally_acknowledge [OF tal acked(3) fl ok acked(1,2) ans] show ?thesis by simp
  qed (use tal in simp)
  then show ?thesis by (simp add: receive(1))
qed (use tal in simp_all)

section \<open>What a search is to find\<close>

text \<open>The lines of the searched files that match, and files that are what the scan saw: readable under their
  names, of the size the scan noted, with no line of 4 GiB.\<close>

definition file_matches ::
  "(string \<Rightarrow> string option) \<Rightarrow> (string \<Rightarrow> bool) \<Rightarrow> string \<times> u64 option \<Rightarrow> string list" where
  "file_matches fs match f = (if file_fault f then []
     else (case fs (fst f) of None \<Rightarrow> [] | Some s \<Rightarrow> map (found_line (fst f)) (hits match (map snd (file_lines s)))))"

definition as_scanned :: "(string \<Rightarrow> string option) \<Rightarrow> string \<times> u64 option \<Rightarrow> bool" where
  "as_scanned fs f \<longleftrightarrow> file_fault f \<or> (NUL \<notin> set (fst f) \<and> (\<exists>s. fs (fst f) = Some s \<and> snd f = Some (of_nat (length s))
     \<and> length s < 2 ^ 63 \<and> (\<forall>l \<in> snd ` set (file_lines s). length (fst f) + 2 + length l < 2 ^ 32)))"

lemma hit_length: "h \<in> set (hits match ls) \<Longrightarrow> \<exists>l \<in> set ls. length h \<le> length l"
  by (force simp: hits_def chomp_cr_def)

lemma in_lines_in: "l \<in> set (lines_in a b s) \<Longrightarrow> l \<in> snd ` set (file_lines s)"
  by (auto simp: lines_in_def)

lemma chunk_lines:
  assumes fname: "length path < filename_size" "NUL \<notin> set path" and fs: "fs path = Some s" and len: "length s < 2 ^ 63"
    and pattern: "compile (take 63 (takeWhile (\<lambda>c. c \<noteq> NUL) keyword)) = Some pattern" and i: "i < chunk_count (length s)"
    and short: "\<And>l. l \<in> snd ` set (file_lines s) \<Longrightarrow> length path + 2 + length l < 2 ^ 32"
  shows "task_lines fs compile matches (chunk_task (task_template uninit path keyword sid config) (length s) i)
      = map (found_line path) (hits (matches pattern) (lines_in (fst (chunk_range (length s) i)) (snd (chunk_range (length s) i)) s))"
    and "searchable fs compile matches (chunk_task (task_template uninit path keyword sid config) (length s) i)"
proof -
  let ?t = "chunk_task (task_template uninit path keyword sid config) (length s) i"
  note off = chunk_offsets [OF len i, of "task_template uninit path keyword sid config"]
  have c: "c_str (tp_filename ?t) = Some path" "c_str (tp_keyword ?t) = Some (take 63 (takeWhile (\<lambda>c. c \<noteq> NUL) keyword))"
    using template_filename [OF fname] template_keyword by simp_all
  show lines: "task_lines fs compile matches ?t = map (found_line path)
      (hits (matches pattern) (lines_in (fst (chunk_range (length s) i)) (snd (chunk_range (length s) i)) s))"
    unfolding task_lines_def c off by (simp add: fs pattern)
  have "length l < 2 ^ 32" if "l \<in> set (task_lines fs compile matches ?t)" for l
  proof -
    from that obtain h where h: "h \<in> set (hits (matches pattern) (lines_in (fst (chunk_range (length s) i)) (snd (chunk_range (length s) i)) s))"
      "l = found_line path h" unfolding lines by auto
    from hit_length [OF h(1)] obtain l' where "l' \<in> snd ` set (file_lines s)" "length h \<le> length l'"
      using in_lines_in by blast
    with short [of l'] show ?thesis by (simp add: h(2) found_line_def)
  qed
  moreover have "unat (tp_end_offset ?t) - unat (tp_start_offset ?t) \<le> unat CHUNK_SIZE"
    unfolding off by (rule chunk_range_bounds(2) [OF i])
  ultimately show "searchable fs compile matches ?t"
    unfolding searchable_def using c fs len pattern by blast
qed

lemma entry_lines:
  assumes "as_scanned fs f" and pattern: "compile (take 63 (takeWhile (\<lambda>c. c \<noteq> NUL) keyword)) = Some pattern"
  shows "concat (map (task_lines fs compile matches) (entry_tasks uninit keyword sid config f)) = file_matches fs (matches pattern) f"
    and "t \<in> set (entry_tasks uninit keyword sid config f) \<Longrightarrow> searchable fs compile matches t"
proof -
  have both: "concat (map (task_lines fs compile matches) (entry_tasks uninit keyword sid config f)) = file_matches fs (matches pattern) f
    \<and> (\<forall>t \<in> set (entry_tasks uninit keyword sid config f). searchable fs compile matches t)"
  proof (cases "file_fault f")
    case True
    then have "entry_tasks uninit keyword sid config f = []" by (simp add: entry_tasks_def split: option.split)
    with True show ?thesis by (simp add: file_matches_def)
  next
    case False
    with assms(1) obtain s where s: "NUL \<notin> set (fst f)" "fs (fst f) = Some s" "snd f = Some (of_nat (length s))"
      "length s < 2 ^ 63" and short: "\<And>l. l \<in> snd ` set (file_lines s) \<Longrightarrow> length (fst f) + 2 + length l < 2 ^ 32"
      unfolding as_scanned_def by blast
    let ?base = "task_template uninit (fst f) keyword sid config" and ?is = "[0..<chunk_count (length s)]"
    have size: "unat (of_nat (length s) :: u64) = length s" using small_length [OF s(4)] by simp
    have tasks: "entry_tasks uninit keyword sid config f = map (chunk_task ?base (length s)) ?is"
      using False by (simp add: entry_tasks_def s(3) size file_tasks_def)
    have fname: "length (fst f) < filename_size" if "i < chunk_count (length s)" for i
    proof -
      have "0 < length s" using that unfolding chunk_count_gt by (cases "length s") simp_all
      then have "(of_nat (length s) :: u64) \<noteq> 0" using size by auto
      with False s(3) show ?thesis by (simp add: file_fault_def)
    qed
    note chunk = chunk_lines [where fs = fs and compile = compile and matches = matches and path = "fst f", OF fname s(1,2,4) pattern _ short]
    have "map (task_lines fs compile matches) (map (chunk_task ?base (length s)) ?is)
        = map (map (found_line (fst f))) (map (\<lambda>i. hits (matches pattern)
            (lines_in (fst (chunk_range (length s) i)) (snd (chunk_range (length s) i)) s)) ?is)"
      using chunk(1) by simp
    then have "concat (map (task_lines fs compile matches) (map (chunk_task ?base (length s)) ?is))
        = map (found_line (fst f)) (hits (matches pattern) (map snd (file_lines s)))"
      unfolding chunks_cover [of s, symmetric] hits_concat by (simp only: map_concat map_map comp_def)
    then show ?thesis unfolding tasks using False s(2) chunk(2) by (auto simp: file_matches_def)
  qed
  then show "concat (map (task_lines fs compile matches) (entry_tasks uninit keyword sid config f)) = file_matches fs (matches pattern) f" ..
  show "searchable fs compile matches t" if "t \<in> set (entry_tasks uninit keyword sid config f)" using both that by blast
qed

lemma lines_due_tasks:
  "lines_due fs compile matches (image_mset strip_id (mset ts)) = mset (concat (map (task_lines fs compile matches) ts))"
  by (induction ts) (simp_all add: lines_due_def)

lemma map_concat_concat: "concat (map g (concat (map h xs))) = concat (map (\<lambda>x. concat (map g (h x))) xs)"
  by (induction xs) simp_all

text \<open>The tasks of a search are due the matching lines of its files.\<close>

lemma collected_lines:
  assumes posix: "posix_sizes os" and coll: "collect_tasks os uninit target filepath keyword sid config = Ok (ts, errs)"
    and files: "\<forall>f \<in> set (target_files os target). as_scanned fs f"
    and pattern: "compile (take 63 (takeWhile (\<lambda>c. c \<noteq> NUL) keyword)) = Some pattern"
  shows "concat (map (task_lines fs compile matches) ts)
      = concat (map (file_matches fs (matches pattern)) (target_files os target))"
    and "t \<in> set ts \<Longrightarrow> searchable fs compile matches t"
proof -
  from collect_closed [OF posix coll]
  have ts: "ts = concat (map (entry_tasks uninit keyword sid config) (target_files os target))"
    by (auto simp: target_files_def split: target.splits)
  have "map (\<lambda>f. concat (map (task_lines fs compile matches) (entry_tasks uninit keyword sid config f))) (target_files os target)
      = map (file_matches fs (matches pattern)) (target_files os target)"
    using entry_lines(1) [where fs = fs and compile = compile and matches = matches, OF _ pattern] files by (intro map_cong) blast+
  then show "concat (map (task_lines fs compile matches) ts)
      = concat (map (file_matches fs (matches pattern)) (target_files os target))"
    unfolding ts map_concat_concat by (rule arg_cong)
  show "searchable fs compile matches t" if "t \<in> set ts"
    using that entry_lines(2) [where fs = fs and compile = compile and matches = matches, OF _ pattern] files unfolding ts by auto
qed

section \<open>Runs\<close>

definition reaches ::
  "(os \<Rightarrow> bool) \<Rightarrow> (string \<Rightarrow> string option) \<Rightarrow> (string \<Rightarrow> 'r option) \<Rightarrow> ('r \<Rightarrow> string \<Rightarrow> bool) \<Rightarrow> cluster \<Rightarrow> cluster \<Rightarrow> bool" where
  "reaches world fs compile matches = (cluster_step world fs compile matches)\<^sup>*\<^sup>*"

lemma reaches_inv:
  assumes "reaches world fs compile matches c c'" and "cluster_inv fs compile matches c" "results_named (rt_master (cl_runtime c))"
  shows "cluster_inv fs compile matches c'" "results_named (rt_master (cl_runtime c'))"
proof -
  have "cluster_inv fs compile matches c' \<and> results_named (rt_master (cl_runtime c'))"
    using assms(1) unfolding reaches_def
    by (induction rule: rtranclp_induct) (use assms(2,3) cluster_inv_step named_step in blast)+
  then show "cluster_inv fs compile matches c'" "results_named (rt_master (cl_runtime c'))" by blast+
qed

lemma new_cluster_named: "results_named (rt_master (cl_runtime (new_cluster (new_master envInput envOutput) hw)))"
  by (simp add: results_named_def new_cluster_def new_runtime_def new_master_def)

lemma reaches_tally:
  assumes "reaches world fs compile matches c c'" and "cluster_inv fs compile matches c" "results_named (rt_master (cl_runtime c))"
    and opens: "\<And>os. world os \<Longrightarrow> os_can_open os path"
    and "tally fs compile matches sid mx path old found (rt_master (cl_runtime c)) (rt_threads (cl_runtime c) 0)"
  shows "tally fs compile matches sid mx path old found (rt_master (cl_runtime c')) (rt_threads (cl_runtime c') 0)"
  using assms(1) unfolding reaches_def
proof (induction rule: rtranclp_induct)
  case (step c1 c2)
  have "reaches world fs compile matches c c1" using step.hyps(1) by (simp add: reaches_def)
  note inv = reaches_inv [OF this assms(2,3)]
  show ?case by (rule tally_step [OF step.hyps(2) inv opens step.IH])
qed (rule assms(5))

lemma tally_published:
  assumes inv: "runtime_inv rt" and at: "rt_threads rt i = Searching filepath keyword config target sid"
    and prep: "prepare_search os uninit (rt_master rt) filepath keyword config target sid = Ok (session, ts)"
    and posix: "posix_sizes os" and files: "\<forall>f \<in> set (target_files os target). as_scanned fs f"
    and pattern: "compile (take 63 (takeWhile (\<lambda>c. c \<noteq> NUL) keyword)) = Some pattern"
  shows "tally fs compile matches sid (max_results config) (ss_path session) (m_disk (rt_master rt) (ss_path session))
      (mset (concat (map (file_matches fs (matches pattern)) (target_files os target))))
      (AddPendingTasks session ts (rt_master rt)) (rt_threads (advance i (Assigning, AddPendingTasks session ts (rt_master rt)) rt) 0)"
proof -
  let ?m = "rt_master rt" and ?m' = "AddPendingTasks session ts (rt_master rt)"
  let ?p = "rt_threads (advance i (Assigning, AddPendingTasks session ts (rt_master rt)) rt) 0"
  obtain path errs where session: "session = new_session\<lparr>ss_search_id := sid, ss_max_results := max_results config,
      ss_path := path, ss_scan_errors := errs\<rparr>"
    and coll: "collect_tasks os uninit target filepath keyword sid config = Ok (ts, errs)"
    using prep by (rule prepare_Ok)
  note ok = runtime_invD(1) [OF inv]
  have "sid \<notin> dom (m_sessions ?m)" using takenD(1) [OF runtime_invD(2) [OF inv], of i sid] at by simp
  then have idle: "in_hand (rt_threads rt 0) \<noteq> Some sid" and none: "\<And>t. t \<in># work ?m \<Longrightarrow> tp_search_id t \<noteq> sid"
    using booksD(2,3) [OF ok] by blast+
  have "awaits sid mx (rt_threads rt 0) [] \<and> unwritten sid (rt_threads rt 0) = []" for mx
    using idle by (cases "rt_threads rt 0") (simp_all add: awaits_def unwritten_def)
  then have p: "awaits sid (max_results config) ?p []" "unwritten sid ?p = []"
    by (cases "i = 0"; simp add: awaits_def unwritten_def)+
  have "filter_mset (\<lambda>t. tp_search_id t = sid) (image_mset strip_id (mset ts)) = image_mset strip_id (mset ts)"
    using collect_search_id(1) [OF posix coll] by (intro filter_mset_cong0 [where g = "\<lambda>_. True", simplified]) auto
  moreover have "filter_mset (\<lambda>t. tp_search_id t = sid) (work ?m) = {#}" using none by simp
  ultimately have tasks: "tasks_for sid ?m' = image_mset strip_id (mset ts)"
    by (simp add: tasks_for_def work_def AddPendingTasks_def Let_def)
  note lines = collected_lines [where fs = fs and compile = compile and matches = matches, OF posix coll files pattern]
  show ?thesis unfolding tally_def tasks
  proof (intro conjI exI [of _ "{#}"] exI [of _ "[]"] ballI)
    show "searchable fs compile matches t" "tp_max_results t = max_results config"
      if "t \<in># image_mset strip_id (mset ts)" for t
      using that lines(2) collect_search_id(2) [OF posix coll] by auto
    show "{#} + mset [] + lines_due fs compile matches (image_mset strip_id (mset ts))
        = mset (concat (map (file_matches fs (matches pattern)) (target_files os target)))"
      unfolding lines_due_tasks lines(1) by simp
  qed (use p in \<open>simp_all add: AddPendingTasks_def Let_def session new_session_def counters_def file_text_def\<close>)
qed

end
