(* ===== verification/ClusterRun.thy ===== *)
theory ClusterRun
  imports ClusterExact
begin

text \<open>
  The property of finished searches that \<open>ClusterExact\<close> prepares, and a run of the whole system from the first
  request to the finished search.
\<close>

section \<open>Runs with one worker\<close>

text \<open>From \<open>c\<close> the system can come to where the master is in state \<open>m\<close>, its message thread at \<open>p\<close>, the worker \<open>v\<close>
  in state \<open>w\<close> with \<open>d\<close> messages handled and the reports \<open>r\<close> on their way.\<close>

definition can ::
  "(os \<Rightarrow> bool) \<Rightarrow> (string \<Rightarrow> string option) \<Rightarrow> (string \<Rightarrow> 'r option) \<Rightarrow> ('r \<Rightarrow> string \<Rightarrow> bool)
     \<Rightarrow> u32 \<Rightarrow> cluster \<Rightarrow> master \<Rightarrow> pc \<Rightarrow> worker \<Rightarrow> nat \<Rightarrow> message list \<Rightarrow> bool" where
  "can world fs compile matches v c m p w d r \<longleftrightarrow> (\<exists>c'. reaches world fs compile matches c c'
     \<and> rt_master (cl_runtime c') = m \<and> rt_threads (cl_runtime c') 0 = p
     \<and> cl_workers c' v = w \<and> cl_delivered c' v = d \<and> cl_reports c' v = r)"

lemma canI:
  assumes "can world fs compile matches v c m p w d r"
    and "\<And>c'. rt_master (cl_runtime c') = m \<Longrightarrow> rt_threads (cl_runtime c') 0 = p \<Longrightarrow> cl_workers c' v = w
      \<Longrightarrow> cl_delivered c' v = d \<Longrightarrow> cl_reports c' v = r
      \<Longrightarrow> \<exists>c''. cluster_step world fs compile matches c' c'' \<and> rt_master (cl_runtime c'') = m' \<and> rt_threads (cl_runtime c'') 0 = p'
        \<and> cl_workers c'' v = w' \<and> cl_delivered c'' v = d' \<and> cl_reports c'' v = r'"
  shows "can world fs compile matches v c m' p' w' d' r'"
  using assms unfolding can_def reaches_def by (blast intro: rtranclp.rtrancl_into_rtrancl)

lemma can_start: "can world fs compile matches v c (rt_master (cl_runtime c)) (rt_threads (cl_runtime c) 0)
    (cl_workers c v) (cl_delivered c v) (cl_reports c v)"
  unfolding can_def reaches_def by blast

lemma can_section:
  assumes "can world fs compile matches v c m p w d r" and "lock_section os uninit p m = Ok (p', m')"
    and "within m (publishes os uninit p m)" and "world os" "posix_sizes os"
  shows "can world fs compile matches v c m' p' w d r"
proof (rule canI [OF assms(1)])
  fix c' :: cluster
  assume at: "rt_master (cl_runtime c') = m" "rt_threads (cl_runtime c') 0 = p" "cl_workers c' v = w"
    "cl_delivered c' v = d" "cl_reports c' v = r"
  have "own_step world (cl_runtime c') (advance 0 (p', m') (cl_runtime c'))"
    by (rule own_step.proceed [where os = os and uninit = uninit]) (use assms at in simp_all)
  from cluster_step.master [OF this] at show "\<exists>c''. cluster_step world fs compile matches c' c''
      \<and> rt_master (cl_runtime c'') = m' \<and> rt_threads (cl_runtime c'') 0 = p'
      \<and> cl_workers c'' v = w \<and> cl_delivered c'' v = d \<and> cl_reports c'' v = r"
    by (intro exI conjI) (assumption, simp_all)
qed

lemma can_receive:
  assumes "can world fs compile matches v c m Idle w d (msg # r)" and "within m 0"
  shows "can world fs compile matches v c (snd (begin_message v msg m)) (fst (begin_message v msg m)) w d r"
proof (rule canI [OF assms(1)])
  fix c' :: cluster
  assume at: "rt_master (cl_runtime c') = m" "rt_threads (cl_runtime c') 0 = Idle" "cl_workers c' v = w"
    "cl_delivered c' v = d" "cl_reports c' v = msg # r"
  from cluster_step.receive [OF at(5,2), of world fs compile matches] at assms(2)
  show "\<exists>c''. cluster_step world fs compile matches c' c'' \<and> rt_master (cl_runtime c'') = snd (begin_message v msg m)
      \<and> rt_threads (cl_runtime c'') 0 = fst (begin_message v msg m)
      \<and> cl_workers c'' v = w \<and> cl_delivered c'' v = d \<and> cl_reports c'' v = r"
    by (intro exI conjI) (simp, simp_all)
qed

lemma can_connect:
  assumes "can world fs compile matches v c m p w d r"
  shows "can world fs compile matches v c m p (OnConnectionResult True w) d (r @ [hello_message w])"
proof (rule canI [OF assms])
  fix c' :: cluster
  assume at: "rt_master (cl_runtime c') = m" "rt_threads (cl_runtime c') 0 = p" "cl_workers c' v = w"
    "cl_delivered c' v = d" "cl_reports c' v = r"
  then show "\<exists>c''. cluster_step world fs compile matches c' c'' \<and> rt_master (cl_runtime c'') = m
      \<and> rt_threads (cl_runtime c'') 0 = p \<and> cl_workers c'' v = OnConnectionResult True w
      \<and> cl_delivered c'' v = d \<and> cl_reports c'' v = r @ [hello_message w]"
    by - (intro exI conjI, rule cluster_step.connect [where w = v], simp_all)
qed

lemma can_deliver:
  assumes "can world fs compile matches v c m p w d r" and "d < length (sent_to v m)"
    and "worker_OnMessage w (sent_to v m ! d) = Ok (w', rest)"
  shows "can world fs compile matches v c m p w' (d + 1) r"
proof (rule canI [OF assms(1)])
  fix c' :: cluster
  assume at: "rt_master (cl_runtime c') = m" "rt_threads (cl_runtime c') 0 = p" "cl_workers c' v = w"
    "cl_delivered c' v = d" "cl_reports c' v = r"
  with assms(2,3) show "\<exists>c''. cluster_step world fs compile matches c' c'' \<and> rt_master (cl_runtime c'') = m
      \<and> rt_threads (cl_runtime c'') 0 = p \<and> cl_workers c'' v = w' \<and> cl_delivered c'' v = d + 1 \<and> cl_reports c'' v = r"
    by - (intro exI conjI, rule cluster_step.deliver [where w = v and worker = w' and rest = rest], simp_all)
qed

lemma can_look:
  assumes "can world fs compile matches v c m p w d r" and "i < length (m_workerThreads (m_threadPool w))"
    and "m_workerThreads (m_threadPool w) ! i = Checking"
  shows "can world fs compile matches v c m p (w\<lparr>m_threadPool := thread_check (m_threadPool w) i\<rparr>) d r"
proof (rule canI [OF assms(1)])
  fix c' :: cluster
  assume at: "rt_master (cl_runtime c') = m" "rt_threads (cl_runtime c') 0 = p" "cl_workers c' v = w"
    "cl_delivered c' v = d" "cl_reports c' v = r"
  let ?p = "m_threadPool (cl_workers c' v)"
  have "pool_step ?p (thread_check ?p i)" by (rule pool_step.thread [OF thread_step.due [OF due_step.check]]) (use at assms(2,3) in simp_all)
  moreover have "submitted (thread_check ?p i) = submitted ?p" "executed (thread_check ?p i) = executed ?p"
    by (simp_all add: thread_check_def split: list.split)
  ultimately have "cluster_step world fs compile matches c' (c'\<lparr>cl_workers := (cl_workers c')
      (v := (cl_workers c' v)\<lparr>m_threadPool := thread_check ?p i\<rparr>)\<rparr>)" by (rule cluster_step.pool)
  with at show "\<exists>c''. cluster_step world fs compile matches c' c'' \<and> rt_master (cl_runtime c'') = m
      \<and> rt_threads (cl_runtime c'') 0 = p \<and> cl_workers c'' v = w\<lparr>m_threadPool := thread_check (m_threadPool w) i\<rparr>
      \<and> cl_delivered c'' v = d \<and> cl_reports c'' v = r"
    by (intro exI conjI) (assumption, simp_all)
qed

lemma can_finish:
  assumes "can world fs compile matches v c m p w d r" and "i < length (m_workerThreads (m_threadPool w))"
    and "m_workerThreads (m_threadPool w) ! i = Running task" and "task_report junk fs compile matches task = Ok msg"
  shows "can world fs compile matches v c m p
    ((worker_Send msg w)\<lparr>m_threadPool := finish_task i task (m_threadPool w)\<rparr>) d (r @ [msg])"
proof (rule canI [OF assms(1)])
  fix c' :: cluster
  assume at: "rt_master (cl_runtime c') = m" "rt_threads (cl_runtime c') 0 = p" "cl_workers c' v = w"
    "cl_delivered c' v = d" "cl_reports c' v = r"
  with assms(2-4) show "\<exists>c''. cluster_step world fs compile matches c' c'' \<and> rt_master (cl_runtime c'') = m
      \<and> rt_threads (cl_runtime c'') 0 = p
      \<and> cl_workers c'' v = (worker_Send msg w)\<lparr>m_threadPool := finish_task i task (m_threadPool w)\<rparr>
      \<and> cl_delivered c'' v = d \<and> cl_reports c'' v = r @ [msg]"
    by - (intro exI conjI, rule cluster_step.search [where w = v and i = i and task = task and msg = msg and junk = junk], simp_all)
qed

text \<open>A worker with one thread connects and searches the only task there is.\<close>

lemma hello_received:
  "begin_message v (hello_message (new_worker 1)) m
    = (Greeting v 1, m\<lparr>m_workersFreeSlots := (m_workersFreeSlots m)(v \<mapsto> 1)\<rparr>)"
proof -
  let ?h = "new_message\<lparr>header := (header new_message)\<lparr>hdr_id := msg_id Worker_Hello\<rparr>\<rparr>"
  have "hello_message (new_worker 1) = push_pod hello_bytes ?h \<lparr>threads_available = 1\<rparr>"
    by (simp add: hello_message_def new_worker_def CalculateThreadCount_def pool_Size_def new_pool_def)
  moreover have "pop_pod 8 hello_of_bytes (push_pod hello_bytes ?h \<lparr>threads_available = 1\<rparr>) = Ok (\<lparr>threads_available = 1\<rparr>, set_size ?h)"
    by (rule pod_hello.pop_push) simp
  ultimately show ?thesis by (simp add: begin_message_def msg_kind_def)
qed

lemma worker_run:
  assumes at: "can world fs compile matches v c m Idle (OnConnectionResult True (new_worker 1)) 0 []"
    and t: "wf_task t" "searchable fs compile matches t" and sent: "sent_to v m = [task_message t]"
  shows "\<exists>w msg. can world fs compile matches v c m Idle w 1 [msg] \<and> task_report CR fs compile matches t = Ok msg
    \<and> msg_kind (hdr_id (header msg)) = Some Worker_TaskDone"
proof -
  let ?w = "OnConnectionResult True (new_worker 1)" and ?can = "can world fs compile matches v c"
  have "msg_kind (hdr_id (header (task_message t))) = Some Server_SearchTask"
    by (simp add: task_message_def msg_kind_def)
  with task_message_read [OF t(1)] obtain rest
    where "worker_OnMessage ?w (task_message t) = Ok (?w\<lparr>m_threadPool := Enqueue (m_threadPool ?w) t\<rparr>, rest)"
    by (auto simp: worker_OnMessage_def)
  moreover define w1 where "w1 = ?w\<lparr>m_threadPool := Enqueue (m_threadPool ?w) t\<rparr>"
  ultimately have taken: "?can m Idle w1 (0 + 1) []" using sent by (intro can_deliver [OF at]) simp_all
  have pool: "m_workerThreads (m_threadPool w1) = [Checking]" "m_taskQueue (m_threadPool w1) = [t]"
    by (simp_all add: w1_def Enqueue_def OnConnectionResult_def SendHello_def worker_Send_def new_worker_def
      CalculateThreadCount_def new_pool_def)
  have looked: "?can m Idle (w1\<lparr>m_threadPool := thread_check (m_threadPool w1) 0\<rparr>) (0 + 1) []"
    by (rule can_look [OF taken]) (simp_all add: pool)
  have running: "m_workerThreads (thread_check (m_threadPool w1) 0) = [thread.Running t]"
    using pool by (simp add: thread_check_def wait_pred_def)
  obtain msg where msg: "task_report CR fs compile matches t = Ok msg" "msg_kind (hdr_id (header msg)) = Some Worker_TaskDone"
    using report_exists [OF t(2)] by blast
  with can_finish [OF looked, where i = 0 and task = t and junk = CR and msg = msg] running show ?thesis by auto
qed

lemma report_run:
  assumes at: "can world fs compile matches v c m (Acked v rest sid) w d r'" and m: "m_pendingTasks m = []"
      "m_workersFreeSlots m v = Some k" "within m 0"
    and s: "m_sessions m sid = Some s \<and> ss_chunks_total s = 1 \<and> ss_chunks_done s = 0"
    and rest: "DeserializeBatch rest = Ok (batch, r)" and os: "world os" "posix_sizes os"
  shows "\<exists>c' st. reaches world fs compile matches c c' \<and> GetStatus sid (rt_master (cl_runtime c')) = Some st \<and> st_state st = Done"
proof -
  let ?can = "can world fs compile matches v c"
  note go = can_section [where world = world and os = os and uninit = new_task, OF _ _ _ os]
  define m1 where "m1 = snd (DispatchNextTask v m)"
  have m1: "within m1 0" "m_sessions m1 = m_sessions m" using m by (auto simp: m1_def within_def work_def Dispatch_empty)
  have agg: "?can m1 (Aggregating rest sid) w d r'" by (rule go [OF at]) (use m(3) in \<open>simp_all add: m1_def\<close>)
  obtain ls m2 where count: "count_section batch sid m1 = Some (ls, m2)"
    using s by (cases "count_batch batch s") (auto simp: count_section_def m1)
  from count_section_exact [OF this] s m1 have m2: "m2 = m1\<lparr>m_sessions := (m_sessions m)(sid \<mapsto> fst (count_batch batch s))\<rparr>" by auto
  have n2: "within m2 0" using m1(1) by (simp add: within_def m2 work_def)
  have next_pc: "?can m2 (if ls = [] then Finishing sid else Writing ls sid) w d r'"
    by (rule go [OF agg]) (simp_all add: rest count m1(1))
  obtain m3 where m3: "?can m3 (Finishing sid) w d r'" "m_sessions m3 = m_sessions m2" "within m3 0"
  proof (cases "ls = []")
    case True
    with next_pc n2 show thesis by (intro that) simp_all
  next
    case False
    with next_pc have "?can m2 (Writing ls sid) w d r'" by simp
    then have "?can (WriteResults os ls sid m2) (Finishing sid) w d r'" by (rule go) (simp_all add: n2)
    then show thesis by (rule that) (use n2 in \<open>simp_all add: frame_simps within_def work_def\<close>)
  qed
  let ?s = "(fst (count_batch batch s))\<lparr>ss_chunks_done := 1\<rparr>"
  have "?can (m3\<lparr>m_sessions := (m_sessions m3)(sid \<mapsto> ?s)\<rparr>) Idle w d r'"
    by (rule go [OF m3(1)]) (use m3(2,3) s in \<open>simp_all add: finish_chunk_def count_batch_fields m2\<close>)
  then obtain c' where "reaches world fs compile matches c c'" "m_sessions (rt_master (cl_runtime c')) sid = Some ?s"
    unfolding can_def by auto
  moreover have "ss_chunks_total ?s = ss_chunks_done ?s" using s by (simp add: count_batch_fields)
  ultimately show ?thesis by (intro exI [of _ c']) (simp add: GetStatus_def)
qed

lemma one_task_run:
  assumes c: "rt_threads (cl_runtime c) 0 = Idle" "cl_workers c v = new_worker 1" "cl_delivered c v = 0" "cl_reports c v = []"
    and m: "rt_master (cl_runtime c) = m" "m_pendingTasks m = [t]" "m_inFlightTasks m = []" "m_nextTaskId m = 0"
      "unat (m_nextSearchId m) + 1 < 2 ^ 64" "m_sent m = []"
    and s: "m_sessions m (tp_search_id t) = Some s" "ss_chunks_total s = 1" "ss_chunks_done s = 0"
    and t: "wf_task t" "searchable fs compile matches t" and os: "world os" "posix_sizes os"
  shows "\<exists>c' st. reaches world fs compile matches c c' \<and> GetStatus (tp_search_id t) (rt_master (cl_runtime c')) = Some st
    \<and> st_state st = Done"
proof -
  let ?t = "t\<lparr>tp_task_id := 1\<rparr>" and ?w = "OnConnectionResult True (new_worker 1)" and ?can = "can world fs compile matches v c"
  define m2 where "m2 = m\<lparr>m_workersFreeSlots := (m_workersFreeSlots m)(v \<mapsto> 1)\<rparr>"
  define m3 where "m3 = m\<lparr>m_pendingTasks := [], m_nextTaskId := 1, m_inFlightTasks := [(v, [(1, ?t)])],
    m_workersFreeSlots := (m_workersFreeSlots m)(v \<mapsto> 0), m_sent := [(v, task_message ?t)]\<rparr>"
  note go = can_section [where world = world and os = os and uninit = new_task and fs = fs and compile = compile
      and matches = matches and v = v and c = c, OF _ _ _ os]
  have bounds: "within m 0" "within m2 0" "within m3 0" using m by (simp_all add: within_def m2_def m3_def work_def)
  have "?can m Idle ?w 0 [hello_message (new_worker 1)]"
    using can_connect [OF can_start [of world fs compile matches v c]] c m(1) by simp
  from can_receive [OF this bounds(1)] have "?can m2 (Greeting v 1) ?w 0 []" by (simp add: hello_received m2_def)
  then have "?can m3 (Greeting v 0) ?w 0 []"
    by (rule go)
      (use m bounds in \<open>simp_all add: m2_def m3_def Dispatch_sent register_task_def\<close>)
  then have "?can m3 Idle ?w 0 []"
    by (rule go) (use bounds in simp_all)
  moreover have "wf_task ?t" "searchable fs compile matches ?t" "sent_to v m3 = [task_message ?t]"
    using t by (simp add: wf_task_def, metis strip_id_task(2) strip_id_simps(1), simp add: sent_to_def m3_def)
  ultimately obtain w2 msg where at: "?can m3 Idle w2 1 [msg]" and report: "task_report CR fs compile matches ?t = Ok msg"
    and kind: "msg_kind (hdr_id (header msg)) = Some Worker_TaskDone" and st: "searchable fs compile matches ?t"
    using worker_run [where t = ?t and m = m3 and v = v and fs = fs and compile = compile and matches = matches] by blast
  obtain rest batch r where rest: "pop_pod 8 u64_of_bytes msg = Ok (1, rest)" "DeserializeBatch rest = Ok (batch, r)"
    using report_read [OF st report] by auto
  define m4 where "m4 = m3\<lparr>m_inFlightTasks := [], m_workersFreeSlots := (m_workersFreeSlots m)(v \<mapsto> 1)\<rparr>"
  have "acknowledge v 1 m3 = Some (tp_search_id t, m4)"
    by (simp add: acknowledge_def m3_def m4_def)
  with kind rest(1) have "begin_message v msg m3 = (Acked v rest (tp_search_id t), m4)"
    by (simp add: begin_message_def)
  with can_receive [OF at bounds(3)] have "?can m4 (Acked v rest (tp_search_id t)) w2 1 []" by simp
  then show ?thesis
    by (rule report_run [where s = s and world = world and os = os, OF _ _ _ _ _ rest(2) os])
      (use s m in \<open>simp_all add: m4_def m3_def within_def work_def\<close>)
qed

section \<open>Properties\<close>

text \<open>C1: A search that is reported done has found what there is to find: whatever the other threads and the
  workers did since it was published (tasks dispatched in any order, workers lost, tasks dispatched
  again, reports late or repeated, other searches), its match counter is the number of lines of its
  files that match, its line counter that number up to the limit, and its result file has grown by exactly
  so many of the matching lines, none of them more often than it occurs; by all of them if they fit.\<close>

theorem finished_search_is_exact:
  assumes "reaches world fs compile matches (new_cluster (new_master envInput envOutput) hardware_concurrency) c"
    and "rt_threads (cl_runtime c) i = Searching filepath keyword config target sid"
    and "prepare_search os uninit (rt_master (cl_runtime c)) filepath keyword config target sid = Ok (session, ts)"
    and "world os" and "posix_sizes os" and "within (rt_master (cl_runtime c)) (length ts)"
    and "\<forall>f \<in> set (target_files os target). as_scanned fs f"
    and "compile (take 63 (takeWhile (\<lambda>c. c \<noteq> NUL) keyword)) = Some pattern"
    and "\<And>os. world os \<Longrightarrow> os_can_open os (ss_path session)"
    and "reaches world fs compile matches (c\<lparr>cl_runtime := advance i
          (Assigning, AddPendingTasks session ts (rt_master (cl_runtime c))) (cl_runtime c)\<rparr>) c'"
    and "GetStatus sid (rt_master (cl_runtime c')) = Some st" and "st_state st = Done"
    and "found = concat (map (file_matches fs (matches pattern)) (target_files os target))"
  shows "st_total_matches st = of_nat (length found)
    \<and> unat (st_lines_found st) = min (unat (max_results config)) (length found)
    \<and> (\<exists>lines. m_disk (rt_master (cl_runtime c')) (ss_path session)
            = m_disk (rt_master (cl_runtime c)) (ss_path session) @ file_text lines
          \<and> mset lines \<subseteq># mset found \<and> length lines = min (unat (max_results config)) (length found)
          \<and> (length found \<le> unat (max_results config) \<longrightarrow> mset lines = mset found))"
proof -
  let ?rt = "cl_runtime c" and ?rt' = "cl_runtime c'" and ?mx = "max_results config"
  let ?c = "c\<lparr>cl_runtime := advance i (Assigning, AddPendingTasks session ts (rt_master ?rt)) ?rt\<rparr>"
  note inv = reaches_inv [OF assms(1) new_cluster_inv new_cluster_named]
  have "own_step world ?rt (advance i (Assigning, AddPendingTasks session ts (rt_master ?rt)) ?rt)"
    by (rule own_step.proceed [where world = world and os = os and rt = "cl_runtime c" and i = i and uninit = uninit, OF assms(4,5,2)]) (use assms(3,6) in simp_all)
  then have "cluster_step world fs compile matches c ?c" by (rule cluster_step.master)
  note inv1 = cluster_inv_step [OF this inv(1)] named_step [OF this inv(2)]
  have start: "tally fs compile matches sid ?mx (ss_path session) (m_disk (rt_master ?rt) (ss_path session)) (mset found)
      (rt_master (cl_runtime ?c)) (rt_threads (cl_runtime ?c) 0)"
    using tally_published [where fs = fs and compile = compile and matches = matches,
        OF cluster_invD(1) [OF inv(1)] assms(2,3,5,7,8)] by (simp add: assms(13))
  note tal = reaches_tally [OF assms(10) inv1 assms(9) start]
  note inv' = reaches_inv [OF assms(10) inv1]
  note books = booksD(4) [OF runtime_invD(1) [OF cluster_invD(1) [OF inv'(1)]], of sid]
  from tal obtain counted inHand lines s where t: "awaits sid ?mx (rt_threads ?rt' 0) inHand"
    "counted + mset inHand + lines_due fs compile matches (tasks_for sid (rt_master ?rt')) = mset found"
    "mset (lines @ unwritten sid (rt_threads ?rt' 0)) \<subseteq># counted"
    "length (lines @ unwritten sid (rt_threads ?rt' 0)) = min (unat ?mx) (size counted)"
    "m_disk (rt_master ?rt') (ss_path session) = m_disk (rt_master ?rt) (ss_path session) @ file_text lines"
    "m_sessions (rt_master ?rt') sid = Some s"
    "counters s = (ss_path session, ?mx, of_nat (size counted), of_nat (min (unat ?mx) (size counted)))"
    by (rule tallyE) blast
  have st: "st_total_matches st = ss_total_matches s" "st_lines_found st = ss_line_count s" "ss_chunks_done s = ss_chunks_total s"
    using assms(11,12) t(6) by (auto simp: GetStatus_def split: if_splits)
  then have "held sid (work (rt_master ?rt')) = 0" "hand sid (rt_threads ?rt' 0) = 0"
    using books [OF t(6)] by (simp_all add: session_books_def)
  then have gone: "tasks_for sid (rt_master ?rt') = {#}" and idle: "in_hand (rt_threads ?rt' 0) \<noteq> Some sid"
    by (simp_all add: held_def tasks_for_def hand_def split: if_splits)
  have rest: "inHand = []" "unwritten sid (rt_threads ?rt' 0) = []"
    using idle t(1) by (cases "rt_threads ?rt' 0"; simp add: awaits_def unwritten_def)+
  with t(2) gone have counted: "counted = mset found" by (simp add: lines_due_def)
  have "unat (of_nat (min (unat ?mx) (size counted)) :: u64) = min (unat ?mx) (size counted)"
    using unat_u64_less [of ?mx] by (intro unat_of_nat_u64) simp
  moreover have "mset lines = mset found" if "length found \<le> unat ?mx"
  proof -
    have "size (mset lines) = size (mset found)" using t(4) rest counted that by simp
    with t(3) rest counted show ?thesis by (metis append_Nil2 mset_subset_size subset_mset.le_imp_less_or_eq less_irrefl)
  qed
  ultimately show ?thesis
    using t(3,4,5,7) st rest counted by (simp add: counters_def) blast
qed

definition demo_text :: string where
  "demo_text = ''ab'' @ [NL] @ ''kb'' @ [NL] @ ''xkyz''"

definition demo_contains :: "string \<Rightarrow> string \<Rightarrow> bool" where
  "demo_contains pattern line \<longleftrightarrow> hd pattern \<in> set line"

lemma demo_found:
  "file_matches (\<lambda>_. Some demo_text) (demo_contains ''k'') (''/app/data/x.log'', Some 10)
    = [''/app/data/x.log: kb'', ''/app/data/x.log: xkyz'']"
proof -
  have "map (found_line ''/app/data/x.log'') (hits (demo_contains ''k'') (map snd (file_lines demo_text)))
      = [''/app/data/x.log: kb'', ''/app/data/x.log: xkyz'']" by code_simp
  then show ?thesis by (simp add: file_matches_def file_fault_def filename_size_def)
qed

lemma demo_as_scanned: "as_scanned (\<lambda>_. Some demo_text) (''/app/data/x.log'', Some 10)"
proof -
  have "length demo_text = 10" "\<forall>l \<in> set (map snd (file_lines demo_text)). length l < 10" by code_simp+
  then show ?thesis by (auto simp: as_scanned_def NUL_def)
qed

lemma demo_files: "target_files demo_os ''/app/data/x.log'' = [(''/app/data/x.log'', Some 10)]"
  by (simp add: target_files_def demo_os_def)

lemma demo_scanned: "\<forall>f \<in> set (target_files demo_os ''/app/data/x.log''). as_scanned (\<lambda>_. Some demo_text) f"
  using demo_as_scanned by (simp add: demo_files)

lemma demo_keyword: "Some (take 63 (takeWhile (\<lambda>c. c \<noteq> NUL) ''k'')) = Some ''k''"
  by (simp add: NUL_def)

text \<open>The publication of the only task of the request.\<close>

lemma demo_published:
  obtains session t errs path where "session = new_session\<lparr>ss_search_id := 0, ss_max_results := 10000, ss_path := path, ss_scan_errors := errs\<rparr>"
    and "prepare_search demo_os new_task ((new_master None None)\<lparr>m_nextSearchId := 1\<rparr>) ''/x.log'' ''k'' default_config
        ''/app/data/x.log'' 0 = Ok (session, [t])"
    and "wf_task t" "tp_search_id t = 0" "searchable (\<lambda>_. Some demo_text) Some demo_contains t"
proof -
  let ?target = "''/app/data/x.log''"
  obtain session ts where prep: "prepare_search demo_os new_task ((new_master None None)\<lparr>m_nextSearchId := 1\<rparr>) ''/x.log'' ''k'' default_config
        ?target 0 = Ok (session, ts)"
    unfolding prepare_keeps using demo_prepared by (auto split: outcome.splits)
  then obtain path errs where session: "session = new_session\<lparr>ss_search_id := 0, ss_max_results := 10000, ss_path := path, ss_scan_errors := errs\<rparr>"
    and coll: "collect_tasks demo_os new_task ?target ''/x.log'' ''k'' 0 default_config = Ok (ts, errs)"
    by (rule prepare_Ok) (simp add: default_config_def)
  from demo_one [OF coll] obtain t where ts: "ts = [t]" by (auto simp: length_Suc_conv)
  have "wf_task t" "tp_search_id t = 0" using collect_search_id(1,3) [OF demo_posix coll] ts by simp_all
  moreover have "searchable (\<lambda>_. Some demo_text) Some demo_contains t"
    using collected_lines(2) [where compile = Some and matches = demo_contains, OF demo_posix coll demo_scanned demo_keyword] ts by simp
  ultimately show thesis using session prep ts that by blast
qed

text \<open>A request, the publication of its only task, a worker that connects and runs it.\<close>

theorem finished_search_is_exact_witness:
  "\<exists>c' st path. reaches (\<lambda>os. os = demo_os) (\<lambda>_. Some demo_text) Some demo_contains (new_cluster (new_master None None) (\<lambda>_. 1)) c'
    \<and> GetStatus 0 (rt_master (cl_runtime c')) = Some st \<and> st_state st = Done
    \<and> st_total_matches st = 2 \<and> unat (st_lines_found st) = 2
    \<and> (\<exists>lines. m_disk (rt_master (cl_runtime c')) path = file_text lines
        \<and> mset lines = {#''/app/data/x.log: kb'', ''/app/data/x.log: xkyz''#})"
proof -
  let ?world = "\<lambda>os. os = demo_os" and ?fs = "\<lambda>_ :: string. Some demo_text" and ?initial = "new_master None None"
  let ?start = "new_cluster ?initial (\<lambda>_. 1)" and ?target = "''/app/data/x.log''"
  define m where "m = ?initial\<lparr>m_nextSearchId := 1\<rparr>"
  define rt where "rt = advance 1 (Searching ''/x.log'' ''k'' default_config ?target 0, m) (new_runtime ?initial)"
  let ?asked = "?start\<lparr>cl_runtime := rt\<rparr>"
  have "own_step ?world (new_runtime ?initial) rt" unfolding rt_def m_def by (rule demo_request)
  then have "own_step ?world (cl_runtime ?start) rt" by (simp add: new_cluster_def)
  then have "cluster_step ?world ?fs Some demo_contains ?start ?asked" by (rule cluster_step.master)
  then have reach: "reaches ?world ?fs Some demo_contains ?start ?asked" unfolding reaches_def by (rule r_into_rtranclp)
  obtain session t errs path where session: "session = new_session\<lparr>ss_search_id := 0, ss_max_results := 10000, ss_path := path, ss_scan_errors := errs\<rparr>"
    and prep: "prepare_search demo_os new_task m ''/x.log'' ''k'' default_config ?target 0 = Ok (session, [t])"
    and t: "wf_task t" "tp_search_id t = 0" "searchable ?fs Some demo_contains t"
    unfolding m_def by (rule demo_published)
  have at: "rt_master (cl_runtime ?asked) = m" "rt_threads (cl_runtime ?asked) 1 = Searching ''/x.log'' ''k'' default_config ?target 0"
    by (simp_all add: rt_def)
  have n: "within m (length [t])" by (simp add: m_def within_def work_def new_master_def)
  let ?published = "?asked\<lparr>cl_runtime := advance 1 (Assigning, AddPendingTasks session [t] m) rt\<rparr>"
  have "\<exists>c' st. reaches ?world ?fs Some demo_contains ?published c'
      \<and> GetStatus (tp_search_id t) (rt_master (cl_runtime c')) = Some st \<and> st_state st = Done"
    by (rule one_task_run [where v = 7 and os = demo_os and m = "AddPendingTasks session [t] m" and s = "session\<lparr>ss_chunks_total := 1\<rparr>"])
      (use t demo_posix in \<open>simp_all add: rt_def new_runtime_def new_cluster_def AddPendingTasks_def session new_session_def
          m_def new_master_def\<close>)
  then obtain c' st where c': "reaches ?world ?fs Some demo_contains ?published c'" "GetStatus 0 (rt_master (cl_runtime c')) = Some st"
    "st_state st = Done" unfolding t(2) by blast
  have "own_step ?world rt (advance 1 (Assigning, AddPendingTasks session [t] m) rt)"
    by (rule own_step.proceed [where os = demo_os and uninit = new_task and p = "Searching ''/x.log'' ''k'' default_config ?target 0"])
      (use prep at n demo_posix in simp_all)
  then have "own_step ?world (cl_runtime ?asked) (cl_runtime ?published)" by simp
  then have "cluster_step ?world ?fs Some demo_contains ?asked (?asked\<lparr>cl_runtime := cl_runtime ?published\<rparr>)" by (rule cluster_step.master)
  then have "cluster_step ?world ?fs Some demo_contains ?asked ?published" by simp
  with reach c'(1) have run: "reaches ?world ?fs Some demo_contains ?start c'"
    unfolding reaches_def by (metis (no_types, lifting) converse_rtranclp_into_rtranclp rtranclp_trans)
  have opens: "\<And>os. os = demo_os \<Longrightarrow> os_can_open os (ss_path session)" by (simp add: demo_os_def)
  have "[''/app/data/x.log: kb'', ''/app/data/x.log: xkyz'']
      = concat (map (file_matches ?fs (demo_contains ''k'')) (target_files demo_os ?target))" by (simp add: demo_files demo_found)
  note exact = finished_search_is_exact [where i = 1 and os = demo_os and uninit = new_task and compile = Some and matches = demo_contains
        and session = session and ts = "[t]",
      OF reach at(2) _ refl demo_posix _ demo_scanned demo_keyword opens _ c'(2,3) this]
  have "st_total_matches st = 2 \<and> unat (st_lines_found st) = 2 \<and> (\<exists>lines. m_disk (rt_master (cl_runtime c')) (ss_path session) = file_text lines
      \<and> mset lines = {#''/app/data/x.log: kb'', ''/app/data/x.log: xkyz''#})"
    using exact prep n at(1) c'(1) by (auto simp: default_config_def m_def new_master_def)
  with run c'(2,3) show ?thesis by blast
qed

end
