(* ===== verification/MasterProgress.thy ===== *)
theory MasterProgress
  imports MasterCapacity
begin

text \<open>
  How searches advance. A status only ever moves forward, whatever the master does; and the reports
  of workers finish every search: each takes one task off the master's hands, as long as tasks are
  left and one worker with a thread is registered another report can come, and when none can, every
  search is done.
\<close>

section \<open>Status only moves forward\<close>

text \<open>States of a search in the order they are passed through.\<close>

instantiation SearchState :: linorder
begin

definition less_eq_SearchState :: "SearchState \<Rightarrow> SearchState \<Rightarrow> bool" where
  "less_eq_SearchState a b \<longleftrightarrow> a = Running \<or> b = Done"

definition less_SearchState :: "SearchState \<Rightarrow> SearchState \<Rightarrow> bool" where
  "less_SearchState a b \<longleftrightarrow> a = Running \<and> b = Done"

instance
proof
  fix a b c :: SearchState
  show "a < b \<longleftrightarrow> a \<le> b \<and> \<not> b \<le> a" by (cases a; cases b) (simp_all add: less_eq_SearchState_def less_SearchState_def)
  show "a \<le> a" by (cases a) (simp_all add: less_eq_SearchState_def)
  show "a \<le> b \<Longrightarrow> b \<le> c \<Longrightarrow> a \<le> c" by (auto simp: less_eq_SearchState_def)
  show "a \<le> b \<Longrightarrow> b \<le> a \<Longrightarrow> a = b" by (auto simp: less_eq_SearchState_def)
  show "a \<le> b \<or> b \<le> a" by (cases a; cases b) (simp_all add: less_eq_SearchState_def)
qed

end

text \<open>What a session keeps and what may grow.\<close>

definition advances :: "SearchSession \<Rightarrow> SearchSession \<Rightarrow> bool" where
  "advances s s' \<longleftrightarrow> ss_chunks_total s' = ss_chunks_total s \<and> ss_scan_errors s' = ss_scan_errors s
     \<and> ss_max_results s' = ss_max_results s
     \<and> ss_line_count s \<le> ss_line_count s' \<and> ss_chunks_done s \<le> ss_chunks_done s'"

lemma advances_refl [simp]: "advances s s"
  by (simp add: advances_def)

lemma advances_trans: "advances s s' \<Longrightarrow> advances s' s'' \<Longrightarrow> advances s s''"
  by (auto simp: advances_def)

lemma count_batch_line_count: "ss_line_count s \<le> ss_line_count (fst (count_batch b s))"
proof -
  have "c \<le> c + min x (mx - c)" if "c < mx" for c mx x :: u64
  proof -
    have "unat (mx - c) = unat mx - unat c" using that by (intro unat_sub) simp
    moreover have "unat (min x (mx - c)) \<le> unat (mx - c)" by (metis min.cobounded2 word_le_nat_alt)
    moreover have "unat c < unat mx" using that by (simp add: word_less_nat_alt)
    ultimately show ?thesis using unat_u64_less [of mx] by (simp add: word_le_nat_alt unat_word_ariths)
  qed
  then show ?thesis by (simp add: count_batch_def Let_def)
qed

lemma count_batch_advances: "advances s (fst (count_batch b s))"
  by (simp add: advances_def frame_simps count_batch_line_count)

lemma finish_advances:
  assumes "finish_chunk sid m = Ok m'" and "m_sessions m i = Some s"
    and "\<And>s. m_sessions m sid = Some s \<Longrightarrow> unat (ss_chunks_done s) < 2 ^ 31"
  shows "\<exists>s'. m_sessions m' i = Some s' \<and> advances s s'"
proof (cases "i = sid")
  case True
  with assms(2,3) have "unat (ss_chunks_done s + 1) = unat (ss_chunks_done s) + 1" by (intro unat_plus_1) auto
  then have "ss_chunks_done s \<le> ss_chunks_done s + 1" by (simp add: word_le_nat_alt)
  with True assms show ?thesis by (auto simp: finish_chunk_def advances_def split: if_splits)
qed (use assms in \<open>auto simp: finish_chunk_def split: option.splits if_splits\<close>)

lemma aggregate_advances:
  assumes "catch (AggregateTaskResult os msg sid m) m = Ok m'" and "m_sessions m i = Some s"
  shows "\<exists>s'. m_sessions m' i = Some s' \<and> advances s s' \<and> ss_chunks_done s' = ss_chunks_done s"
proof (cases "AggregateTaskResult os msg sid m")
  case (Ok x)
  with assms(1) have "AggregateTaskResult os msg sid m = Ok m'" by simp
  then obtain b session where old: "m_sessions m sid = Some session"
    and "m' = m\<lparr>m_sessions := (m_sessions m)(sid \<mapsto> fst (count_batch b session)), m_disk := m_disk m'\<rparr>"
    by (rule Aggregate_Ok)
  from arg_cong [OF this(2), of m_sessions] old assms(2) show ?thesis
    by (auto simp: count_batch_advances frame_simps)
qed (use assms in simp_all)

lemma message_advances:
  assumes inv: "master_inv m" and room: "room m" and run: "OnMessage os c msg m = Ok m'"
    and s: "m_sessions m i = Some s"
  shows "\<exists>s'. m_sessions m' i = Some s' \<and> advances s s'"
  using run
proof (cases rule: OnMessage_cases)
  case (hello h rest)
  with inv room conserved_register [of m c "threads_available h"] s show ?thesis
    by (auto simp: master_inv_def conserved_def)
next
  case (finished taskId rest sid m1)
  let ?m2 = "snd (DispatchNextTask c m1)"
  from inv have fl: "flight_ok m" and ses: "sessions_ok m" by (simp_all add: master_inv_def)
  have same: "m_sessions ?m2 = m_sessions m"
    using acknowledge_conserves [OF finished(1) fl] by (simp add: frame_simps)
  obtain m3 where agg: "catch (AggregateTaskResult os rest sid ?m2) ?m2 = Ok m3" and fin: "finish_chunk sid m3 = Ok m'"
    using finished(2) by (auto simp: obind_eq_Ok)
  obtain s2 where s2: "m_sessions m3 i = Some s2" "advances s s2"
    using aggregate_advances [OF agg] s same by auto
  have "unat (ss_chunks_done u) < 2 ^ 31" if u: "m_sessions m3 sid = Some u" for u
  proof -
    obtain t where "tp_search_id t = sid" "strip_id t \<in># work m"
      using acknowledge_conserves [OF finished(1) fl] by auto
    then obtain u0 where u0: "m_sessions m sid = Some u0" using ses by (force simp: sessions_ok_def)
    with aggregate_advances [OF agg, of sid u0] same u have "ss_chunks_done u = ss_chunks_done u0" by auto
    with ses u0 show ?thesis by (force simp: sessions_ok_def session_ok_def)
  qed
  from finish_advances [OF fin s2(1) this] s2(2) show ?thesis by (blast intro: advances_trans)
qed (use s in simp_all)

lemma step_advances:
  assumes inv: "master_inv m" and step: "master_step m m'" and s: "m_sessions m i = Some s"
  shows "\<exists>s'. m_sessions m' i = Some s' \<and> advances s s'"
  using step
proof (cases rule: master_step.cases)
  case (message os client msg)
  then show ?thesis by (intro message_advances [OF inv room_of_within _ s])
next
  case (search os uninit filepath keyword config r)
  have "i \<noteq> m_nextSearchId m" using inv s by (auto simp: master_inv_def sessions_ok_def session_ok_def)
  with search(1) s show ?thesis
    by (cases rule: StartSearch_cases) (auto simp: assign_sessions AddPendingTasks_def Let_def new_session_def)
next
  case (disconnect order client)
  with inv_disconnect [OF inv disconnect(3), of order client] s show ?thesis by (auto simp: conserved_def)
qed

section \<open>Reports finish every search\<close>

text \<open>A message that reports a task in flight, whatever batch it carries.\<close>

inductive completion :: "master \<Rightarrow> master \<Rightarrow> bool" where
  "msg_kind (hdr_id (header msg)) = Some Worker_TaskDone \<Longrightarrow> pop_pod 8 u64_of_bytes msg = Ok (taskId, rest) \<Longrightarrow>
   acknowledge c taskId m = Some (sid, m1) \<Longrightarrow> OnMessage os c msg m = Ok m' \<Longrightarrow> completion m m'"

inductive_cases completionE: "completion m m'"

text \<open>The states the argument is about: some registered worker announced a thread.\<close>

definition staffed :: "(u32 \<Rightarrow> nat) \<Rightarrow> u32 \<Rightarrow> master \<Rightarrow> bool" where
  "staffed cap w m \<longleftrightarrow> capacity_run cap m \<and> within m 0 \<and> m_workersFreeSlots m w \<noteq> None \<and> 0 < cap w"

lemma completion_frame:
  assumes inv: "master_inv m" and wi: "within m 0" and comp: "completion m m'"
  shows "size (work m) = Suc (size (work m')) \<and> within m' 0
    \<and> (m_workersFreeSlots m w \<noteq> None \<longrightarrow> m_workersFreeSlots m' w \<noteq> None)"
  using comp
proof (cases rule: completion.cases)
  case (1 msg taskId rest c sid m1 os)
  let ?m2 = "snd (DispatchNextTask c m1)"
  have fl: "flight_ok m" using inv by (simp add: master_inv_def)
  note ack = acknowledge_conserves [OF 1(3) fl]
  have c2: "conserved m1 ?m2"
    using ack room_of_within [OF wi] by (intro conserved_dispatch conserved_refl) (simp_all add: room_def)
  obtain m3 where agg: "catch (AggregateTaskResult os rest sid ?m2) ?m2 = Ok m3" and fin: "finish_chunk sid m3 = Ok m'"
    using OnMessage_done [OF 1(1-3)] 1(4) by (auto simp: obind_eq_Ok)
  obtain f d where m': "m' = ?m2\<lparr>m_sessions := f, m_disk := d\<rparr>" using done_frame [OF agg fin] by blast
  then have work': "work m' = work ?m2" by (simp add: work_def)
  then have size: "size (work m) = Suc (size (work m'))" using ack c2 by (auto simp: conserved_def)
  have "unat (m_nextTaskId ?m2) \<le> Suc (unat (m_nextTaskId m))"
  proof (cases m1 c rule: dispatch_cases)
    case (sent k t ts)
    then show ?thesis using ack unat_word_ariths(1) [of "m_nextTaskId m" 1]
      by (simp add: Dispatch_sent [OF sent(2,1)])
  qed (use ack in \<open>simp_all add: dispatch_simps\<close>)
  then have within': "within m' 0" using wi size ack c2 m' by (simp add: within_def conserved_def)
  have "m_workersFreeSlots m w \<noteq> None \<Longrightarrow> m_workersFreeSlots m1 w \<noteq> None"
    using 1(3) by (auto simp: acknowledge_def Let_def split: option.splits if_splits)
  then have "m_workersFreeSlots m w \<noteq> None \<Longrightarrow> m_workersFreeSlots m' w \<noteq> None"
    by (cases m1 c rule: dispatch_cases) (auto simp: m' dispatch_simps)
  with size within' show ?thesis by blast
qed

lemma staffed_inv: "staffed cap w m \<Longrightarrow> master_inv m"
  unfolding staffed_def by (blast intro: reachable_inv capacity_run_reachable)

lemma completion_staffed:
  assumes "staffed cap w m" and "completion m m'"
  shows "staffed cap w m' \<and> size (work m) = Suc (size (work m'))"
proof -
  have "capacity_run cap m'"
    using assms(2)
  proof (cases rule: completion.cases)
    case (1 msg taskId rest c sid m1 os)
    show ?thesis by (rule capacity_run.message [of _ m msg os c]) (use assms(1) 1 in \<open>simp_all add: staffed_def\<close>)
  qed
  then show ?thesis
    using completion_frame [OF staffed_inv [OF assms(1)] _ assms(2), of w] assms(1) by (simp add: staffed_def)
qed

text \<open>While the master holds a task, one is in flight at a registered worker.\<close>

lemma some_task_in_flight:
  assumes "staffed cap w m" and "work m \<noteq> {#}"
  shows "\<exists>c i sid m1. acknowledge c i m = Some (sid, m1)"
proof -
  have cap: "capacity_ok cap m" and inv: "master_inv m"
    using assms(1) staffed_inv by (auto simp: staffed_def capacity_run_ok)
  obtain k where k: "m_workersFreeSlots m w = Some k" using assms(1) by (auto simp: staffed_def)
  have "m_inFlightTasks m \<noteq> []"
  proof
    assume none: "m_inFlightTasks m = []"
    then have "m_pendingTasks m \<noteq> []" using assms(2) by (auto simp: work_def)
    then have "k = 0" using inv k unfolding master_inv_def saturated_def sched_but_def by fastforce
    moreover have "unat k + worker_load (m_inFlightTasks m) w = cap w" using cap k by (simp add: capacity_ok_def)
    ultimately show False using none assms(1) by (simp add: staffed_def worker_load_def)
  qed
  then obtain c ts fl where fl: "m_inFlightTasks m = (c, ts) # fl" by (cases "m_inFlightTasks m") auto
  moreover have "ts \<noteq> []" using inv fl by (auto simp: master_inv_def flight_ok_def wf_flight_def)
  ultimately show ?thesis by (cases ts) (auto simp: acknowledge_def Let_def)
qed

text \<open>A report of a task in flight is always accepted, even one without a batch.\<close>

lemma completion_possible:
  assumes inv: "master_inv m" and wi: "within m 0" and ack: "acknowledge c i m = Some (sid, m1)"
  shows "\<exists>m'. completion m m'"
proof -
  let ?m0 = "new_message\<lparr>header := (header new_message)\<lparr>hdr_id := msg_id Worker_TaskDone\<rparr>\<rparr>"
  let ?msg = "push_pod u64_bytes ?m0 i" and ?m2 = "snd (DispatchNextTask c m1)"
  have kind: "msg_kind (hdr_id (header ?msg)) = Some Worker_TaskDone" by (simp add: msg_kind_def)
  have pop: "pop_pod 8 u64_of_bytes ?msg = Ok (i, set_size ?m0)" by (rule pod_u64.pop_push) simp
  have short: "\<exists>e. DeserializeBatch (set_size ?m0) = Throw e"
    using pod_u64.pop_short [of "set_size ?m0"]
    by (simp add: DeserializeBatch_def set_size_def new_message_def)
  have fl: "flight_ok m" and ses: "sessions_ok m" using inv by (simp_all add: master_inv_def)
  note a = acknowledge_conserves [OF ack fl]
  have same: "m_sessions ?m2 = m_sessions m" using a by (simp add: frame_simps)
  obtain t where t: "tp_search_id (strip_id t) = sid" "work m = add_mset (strip_id t) (work m1)" using a by auto
  have "ss_chunks_done s \<noteq> 0x7FFFFFFF" if "m_sessions m sid = Some s" for s
  proof -
    have "unat (ss_chunks_done s) + held sid (work m) < 2 ^ 31"
      using ses that unfolding sessions_ok_def session_ok_def by metis
    then show ?thesis using t by auto
  qed
  then have "\<exists>m'. finish_chunk sid ?m2 = Ok m'" by (simp add: finish_chunk_def same split: option.split)
  then have "\<exists>m'. OnMessage os c ?msg m = Ok m'" for os
    using short unfolding OnMessage_done [OF kind pop ack] AggregateTaskResult_def by auto
  then show ?thesis using completion.intros [OF kind pop ack] by blast
qed

section \<open>Properties\<close>

text \<open>C10: a status only moves forward: once a search has a status it keeps one through whatever the master
  does next; its totals and scan errors never change, its completed chunks and delivered lines never
  decrease, and a search that is done stays done.\<close>

theorem status_monotone:
  assumes "master_reachable m" and "master_step m m'" and "GetStatus sid m = Some st"
  shows "\<exists>st'. GetStatus sid m' = Some st' \<and> st_state st \<le> st_state st'
    \<and> st_chunks_done st \<le> st_chunks_done st' \<and> st_lines_found st \<le> st_lines_found st'
    \<and> st_chunks_total st' = st_chunks_total st \<and> st_scan_errors st' = st_scan_errors st"
proof -
  have inv: "master_inv m" using reachable_inv [OF assms(1)] .
  obtain s where s: "m_sessions m sid = Some s" using assms(3) by (auto simp: GetStatus_def)
  from step_advances [OF inv assms(2) s] obtain s' where s': "m_sessions m' sid = Some s'" "advances s s'" by blast
  have "session_ok sid s' m'" using inv_step [OF inv assms(2)] s'(1) by (simp add: master_inv_def sessions_ok_def)
  then have "ss_chunks_done s' \<le> ss_chunks_total s'" by (simp add: session_ok_def word_le_nat_alt)
  then show ?thesis
    using assms(3) s s' by (auto simp: GetStatus_def advances_def less_eq_SearchState_def)
qed

theorem status_monotone_witness:
  "\<exists>st'. GetStatus 0 demo_busy = Some st' \<and> Running \<le> st_state st' \<and> st_chunks_total st' = 1"
  using status_monotone [OF demo_reachable master_step.message [OF demo_hello_run demo_master_within] demo_status]
  by auto

text \<open>C9: searches finish: from any state with a registered worker that announced a thread, every
  sequence of reports of tasks in flight is at most as long as the tasks the master holds; while it
  is shorter a further report is possible and is accepted; and after the last one every search is
  done.\<close>

theorem searches_finish:
  assumes "staffed cap w m" and "(completion ^^ n) m m'"
  shows "n + size (work m') = size (work m)
    \<and> (n < size (work m) \<longrightarrow> (\<exists>m''. completion m' m''))
    \<and> (n = size (work m) \<longrightarrow> (\<forall>sid st. GetStatus sid m' = Some st \<longrightarrow> st_state st = Done))"
proof -
  have run: "staffed cap w m' \<and> n + size (work m') = size (work m)"
    using assms(2)
  proof (induction n arbitrary: m')
    case (Suc n)
    then obtain m1 where "(completion ^^ n) m m1" "completion m1 m'" by auto
    with Suc.IH [of m1] completion_staffed [of cap w m1 m'] show ?case by simp
  qed (use assms(1) in simp)
  then have inv: "master_inv m'" and wi: "within m' 0" using staffed_inv by (auto simp: staffed_def)
  have "\<exists>m''. completion m' m''" if "n < size (work m)"
  proof -
    have "work m' \<noteq> {#}" using run that by auto
    with some_task_in_flight [of cap w m'] run obtain c i sid m1 where "acknowledge c i m' = Some (sid, m1)" by blast
    then show ?thesis by (rule completion_possible [OF inv wi])
  qed
  moreover have "st_state st = Done" if all: "n = size (work m)" and st: "GetStatus sid m' = Some st" for sid st
  proof -
    have "work m' = {#}" using run all by simp
    moreover obtain s where "m_sessions m' sid = Some s" using st by (auto simp: GetStatus_def)
    ultimately show ?thesis
      using inv st by (auto simp: master_inv_def sessions_ok_def session_ok_def GetStatus_def word_eq_unat)
  qed
  ultimately show ?thesis using run by blast
qed

theorem searches_finish_witness:
  "\<exists>m'. completion demo_busy m' \<and> (\<forall>sid st. GetStatus sid m' = Some st \<longrightarrow> st_state st = Done)"
proof -
  have run: "capacity_run ((\<lambda>_. 0)(7 := 2)) demo_busy" by (rule demo_busy_capacity)
  then have st: "staffed ((\<lambda>_. 0)(7 := 2)) 7 demo_busy"
    using demo_busy_within demo_busy_fields(3) by (simp add: staffed_def)
  obtain t where "m_inFlightTasks demo_busy = [(7, [(1, t)])]" using demo_busy_fields(6) by blast
  then have one: "size (work demo_busy) = 1" using demo_busy_fields(1) by (simp add: work_def)
  have "(completion ^^ 0) demo_busy demo_busy" by simp
  from searches_finish [OF st this] one obtain m' where m': "completion demo_busy m'" by auto
  then have "(completion ^^ 1) demo_busy m'" by auto
  from searches_finish [OF st this] one m' show ?thesis by auto
qed

end
