(* ===== verification/JsonValue.thy ===== *)
theory JsonValue
  imports Decimal "HOL-Library.Char_ord" "HOL-Library.List_Lexorder"
begin

text \<open>
  The JSON value of \<^verbatim>\<open>external/json.hpp\<close> and the operations on it the HTTP controller uses: the value
  kinds, the exceptions and their texts, construction from initializer lists, \<^verbatim>\<open>at\<close>, \<^verbatim>\<open>value\<close> and
  \<^verbatim>\<open>get\<close>. An object is a \<^verbatim>\<open>std::map\<close> with \<^verbatim>\<open>std::less\<close> on \<^verbatim>\<open>std::string\<close>: its members in the
  lexicographic order of their keys (compared as unsigned bytes), each key once.
\<close>

section \<open>Values\<close>

datatype json =
    JNull
  | JObject "(string \<times> json) list"
  | JArray "json list"
  | JString string
  | JBoolean bool
  | JInteger "64 word"
  | JUnsigned u64
  | JFloat double
  | JBinary "u8 list" "u64 option"
  | JDiscarded

primrec type_name :: "json \<Rightarrow> string" where
  "type_name JNull = ''null''"
| "type_name (JObject m) = ''object''"
| "type_name (JArray xs) = ''array''"
| "type_name (JString s) = ''string''"
| "type_name (JBoolean b) = ''boolean''"
| "type_name (JBinary bs st) = ''binary''"
| "type_name JDiscarded = ''discarded''"
| "type_name (JInteger i) = ''number''"
| "type_name (JUnsigned n) = ''number''"
| "type_name (JFloat x) = ''number''"

section \<open>The map of an object\<close>

text \<open>\<^verbatim>\<open>emplace\<close> keeps an existing member; \<open>map_assign\<close> is an assignment through \<^verbatim>\<open>operator[]\<close>.\<close>

fun map_emplace :: "string \<Rightarrow> 'v \<Rightarrow> (string \<times> 'v) list \<Rightarrow> (string \<times> 'v) list" where
  "map_emplace k v [] = [(k, v)]"
| "map_emplace k v ((k', v') # m) =
     (if k < k' then (k, v) # (k', v') # m else if k = k' then (k', v') # m else (k', v') # map_emplace k v m)"

fun map_assign :: "string \<Rightarrow> 'v \<Rightarrow> (string \<times> 'v) list \<Rightarrow> (string \<times> 'v) list" where
  "map_assign k v [] = [(k, v)]"
| "map_assign k v ((k', v') # m) =
     (if k < k' then (k, v) # (k', v') # m else if k = k' then (k', v) # m else (k', v') # map_assign k v m)"

section \<open>Exceptions\<close>

definition exception_name :: "string \<Rightarrow> nat \<Rightarrow> string" where
  "exception_name ename code = ''[json.exception.'' @ ename @ ''.'' @ nat_dec code @ ''] ''"

text \<open>\<^verbatim>\<open>JSON_DIAGNOSTICS\<close> is off, so \<^verbatim>\<open>diagnostics\<close> is empty.\<close>

definition type_error :: "nat \<Rightarrow> string \<Rightarrow> exn" where
  "type_error code what_arg = Json_Exception (Type_Error code (exception_name ''type_error'' code @ what_arg))"

definition out_of_range :: "nat \<Rightarrow> string \<Rightarrow> exn" where
  "out_of_range code what_arg = Json_Exception (Out_Of_Range code (exception_name ''out_of_range'' code @ what_arg))"

section \<open>Construction\<close>

text \<open>An initializer list makes an object when every element is a pair whose first is a string, and an
  array otherwise (type deduction on).\<close>

fun is_member_pair :: "json \<Rightarrow> bool" where
  "is_member_pair (JArray [JString k, v]) = True"
| "is_member_pair j = False"

fun emplace_pair :: "json \<Rightarrow> (string \<times> json) list \<Rightarrow> (string \<times> json) list" where
  "emplace_pair (JArray [JString k, v]) m = map_emplace k v m"
| "emplace_pair j m = m"

definition init_list :: "json list \<Rightarrow> json" where
  "init_list init = (if list_all is_member_pair init then JObject (fold emplace_pair init []) else JArray init)"

section \<open>Access\<close>

definition json_at :: "json \<Rightarrow> string \<Rightarrow> json outcome" where
  "json_at j key = (case j of
       JObject m \<Rightarrow> (case map_of m key of
           None \<Rightarrow> Throw (out_of_range 403 (''key '' @ [CHR 0x27] @ key @ [CHR 0x27] @ '' not found''))
         | Some v \<Rightarrow> Ok v)
     | _ \<Rightarrow> Throw (type_error 304 (''cannot use at() with '' @ type_name j)))"

definition from_json_string :: "json \<Rightarrow> string outcome" where
  "from_json_string j = (case j of JString s \<Rightarrow> Ok s
     | _ \<Rightarrow> Throw (type_error 302 (''type must be string, but is '' @ type_name j)))"

text \<open>For \<^verbatim>\<open>uint64_t\<close>: a signed number is converted modulo \<open>2 ^ 64\<close>, a floating-point number by truncation,
  which is undefined out of range.\<close>

definition get_arithmetic_value :: "json \<Rightarrow> u64 outcome" where
  "get_arithmetic_value j = (case j of
       JUnsigned n \<Rightarrow> Ok n
     | JInteger i \<Rightarrow> Ok i
     | JFloat x \<Rightarrow> (case double_to_u64 x of None \<Rightarrow> Undef | Some n \<Rightarrow> Ok n)
     | _ \<Rightarrow> Throw (type_error 302 (''type must be number, but is '' @ type_name j)))"

text \<open>\<^verbatim>\<open>value(key, default_value)\<close> with the conversion of the default's type.\<close>

definition json_find :: "json \<Rightarrow> string \<Rightarrow> json option" where
  "json_find j key = (case j of JObject m \<Rightarrow> map_of m key | _ \<Rightarrow> None)"

definition json_value :: "(json \<Rightarrow> 'a outcome) \<Rightarrow> json \<Rightarrow> string \<Rightarrow> 'a \<Rightarrow> 'a outcome" where
  "json_value get j key default_value = (case j of
       JObject m \<Rightarrow> (case json_find j key of Some it \<Rightarrow> get it | None \<Rightarrow> Ok default_value)
     | _ \<Rightarrow> Throw (type_error 306 (''cannot use value() with '' @ type_name j)))"

section \<open>Facts on maps\<close>

definition sorted_keys :: "(string \<times> 'v) list \<Rightarrow> bool" where
  "sorted_keys m \<longleftrightarrow> sorted_wrt (<) (map fst m)"

lemma map_of_assign: "sorted_keys m \<Longrightarrow> map_of (map_assign k v m) = (map_of m)(k \<mapsto> v)"
proof (induction k v m rule: map_assign.induct)
  case (2 k v k' v' m)
  then have "map_of m k' = None" "k < k' \<Longrightarrow> map_of m k = None"
    by (auto simp: sorted_keys_def map_of_eq_None_iff)
  with 2 show ?case by (auto simp: sorted_keys_def fun_eq_iff)
qed (auto simp: fun_eq_iff)

lemma set_map_assign: "fst ` set (map_assign k v m) = insert k (fst ` set m)"
  by (induction k v m rule: map_assign.induct) auto

lemma sorted_map_assign: "sorted_keys m \<Longrightarrow> sorted_keys (map_assign k v m)"
proof (induction k v m rule: map_assign.induct)
  case (2 k v k' v' m)
  have "\<forall>x \<in> fst ` set (map_assign k v m). k' < x" if "k' < k"
    unfolding set_map_assign using 2(2) that by (auto simp: sorted_keys_def)
  with 2 show ?case by (auto simp: sorted_keys_def)
qed (simp add: sorted_keys_def)

text \<open>Assigning keys in increasing order appends.\<close>

lemma map_assign_last: "(\<And>x. x \<in> fst ` set m \<Longrightarrow> x < k) \<Longrightarrow> map_assign k v m = m @ [(k, v)]"
  by (induction k v m rule: map_assign.induct) (auto dest: less_asym)

end
