(* ===== verification/JsonLexer.thy ===== *)
theory JsonLexer
  imports JsonValue
begin

text \<open>
  The lexer of \<^verbatim>\<open>external/json.hpp\<close> on a \<^verbatim>\<open>std::string\<close>: input management, strings, numbers,
  literals, comments and the scanner. A character is the integer \<^verbatim>\<open>char_int_type\<close> the code works on
  (its unsigned byte, \<open>-1\<close> at the end of the input). The \<^verbatim>\<open>goto\<close> labels of \<^verbatim>\<open>scan_number\<close> are the
  states of an automaton, each with the code after its label as one definition. Every loop is total:
  it stops at the latest when the input is used up, which \<open>left\<close> counts.
\<close>

unbundle bit_operations_syntax

section \<open>Tokens\<close>

datatype token_type =
    uninitialized | literal_true | literal_false | literal_null | value_string | value_unsigned
  | value_integer | value_float | begin_array | begin_object | end_array | end_object
  | name_separator | value_separator | parse_error | end_of_input | literal_or_value

primrec token_type_name :: "token_type \<Rightarrow> string" where
  "token_type_name uninitialized = ''<uninitialized>''"
| "token_type_name literal_true = ''true literal''"
| "token_type_name literal_false = ''false literal''"
| "token_type_name literal_null = ''null literal''"
| "token_type_name value_string = ''string literal''"
| "token_type_name value_unsigned = ''number literal''"
| "token_type_name value_integer = ''number literal''"
| "token_type_name value_float = ''number literal''"
| "token_type_name begin_array = [CHR 0x27, CHR ''['', CHR 0x27]"
| "token_type_name begin_object = [CHR 0x27, CHR ''{'', CHR 0x27]"
| "token_type_name end_array = [CHR 0x27, CHR '']'', CHR 0x27]"
| "token_type_name end_object = [CHR 0x27, CHR ''}'', CHR 0x27]"
| "token_type_name name_separator = [CHR 0x27, CHR '':'', CHR 0x27]"
| "token_type_name value_separator = [CHR 0x27, CHR '','', CHR 0x27]"
| "token_type_name parse_error = ''<parse error>''"
| "token_type_name end_of_input = ''end of input''"
| "token_type_name literal_or_value = [CHR 0x27, CHR ''['', CHR 0x27] @ '', '' @ [CHR 0x27, CHR ''{'', CHR 0x27] @ '', or a literal''"

section \<open>State\<close>

record position_t =
  chars_read_total :: nat
  chars_read_current_line :: nat
  lines_read :: nat

record lexer =
  lx_ia :: string
  lx_ignore_comments :: bool
  lx_current :: int
  lx_next_unget :: bool
  lx_position :: position_t
  lx_token_string :: string
  lx_token_buffer :: string
  lx_error_message :: string
  lx_value_integer :: "64 word"
  lx_value_unsigned :: u64
  lx_value_float :: double
  lx_decimal_point_char :: int

text \<open>The end-of-file marker of \<^verbatim>\<open>char_traits<char>\<close>.\<close>

definition EOF :: int where
  "EOF = -1"

text \<open>The decimal point of the \<^verbatim>\<open>"C"\<close> locale: the program sets no other.\<close>

definition new_lexer :: "string \<Rightarrow> bool \<Rightarrow> lexer" where
  "new_lexer adapter skip_comments = \<lparr>lx_ia = adapter, lx_ignore_comments = skip_comments,
     lx_current = EOF, lx_next_unget = False,
     lx_position = \<lparr>chars_read_total = 0, chars_read_current_line = 0, lines_read = 0\<rparr>,
     lx_token_string = [], lx_token_buffer = [], lx_error_message = [], lx_value_integer = 0,
     lx_value_unsigned = 0, lx_value_float = 0, lx_decimal_point_char = 0x2E\<rparr>"

section \<open>Input management\<close>

text \<open>\<^verbatim>\<open>iterator_input_adapter::get_character\<close>.\<close>

definition get_character :: "string \<Rightarrow> int \<times> string" where
  "get_character it = (case it of c # rest \<Rightarrow> (of_char c, rest) | [] \<Rightarrow> (EOF, []))"

definition lx_reset :: "lexer \<Rightarrow> lexer" where
  "lx_reset lx = lx\<lparr>lx_token_buffer := [], lx_token_string := [char_of (lx_current lx)]\<rparr>"

definition lx_get :: "lexer \<Rightarrow> lexer" where
  "lx_get lx =
     (let p = lx_position lx;
          lx = lx\<lparr>lx_position := p\<lparr>chars_read_total := chars_read_total p + 1,
                                  chars_read_current_line := chars_read_current_line p + 1\<rparr>\<rparr>;
          lx = (if lx_next_unget lx then lx\<lparr>lx_next_unget := False\<rparr>
                else (case get_character (lx_ia lx) of (c, rest) \<Rightarrow> lx\<lparr>lx_current := c, lx_ia := rest\<rparr>));
          lx = (if lx_current lx \<noteq> EOF
                then lx\<lparr>lx_token_string := lx_token_string lx @ [char_of (lx_current lx)]\<rparr> else lx);
          p = lx_position lx
      in if lx_current lx = 0x0A
         then lx\<lparr>lx_position := p\<lparr>lines_read := lines_read p + 1, chars_read_current_line := 0\<rparr>\<rparr> else lx)"

definition lx_unget :: "lexer \<Rightarrow> lexer" where
  "lx_unget lx =
     (let lx = lx\<lparr>lx_next_unget := True\<rparr>;
          p = lx_position lx;
          p = p\<lparr>chars_read_total := chars_read_total p - 1\<rparr>;
          p = (if chars_read_current_line p = 0
               then (if 0 < lines_read p then p\<lparr>lines_read := lines_read p - 1\<rparr> else p)
               else p\<lparr>chars_read_current_line := chars_read_current_line p - 1\<rparr>);
          lx = lx\<lparr>lx_position := p\<rparr>
      in if lx_current lx \<noteq> EOF then lx\<lparr>lx_token_string := butlast (lx_token_string lx)\<rparr> else lx)"

definition lx_add :: "int \<Rightarrow> lexer \<Rightarrow> lexer" where
  "lx_add c lx = lx\<lparr>lx_token_buffer := lx_token_buffer lx @ [char_of c]\<rparr>"

definition lx_fail :: "string \<Rightarrow> lexer \<Rightarrow> lexer" where
  "lx_fail msg lx = lx\<lparr>lx_error_message := msg\<rparr>"

text \<open>\<open>%.4X\<close> and \<open>%04x\<close> of a number below \<open>2 ^ 16\<close>.\<close>

definition hex_digit :: "nat \<Rightarrow> char" where
  "hex_digit d = (if d < 10 then char_of (48 + d) else char_of (55 + d))"

definition hex4_upper :: "nat \<Rightarrow> string" where
  "hex4_upper n = [hex_digit (n div 4096 mod 16), hex_digit (n div 256 mod 16), hex_digit (n div 16 mod 16), hex_digit (n mod 16)]"

text \<open>Control characters of the token are written \<^verbatim>\<open><U+XXXX>\<close> in messages.\<close>

definition get_token_string :: "lexer \<Rightarrow> string" where
  "get_token_string lx = concat (map (\<lambda>c. if of_char c \<le> (0x1F :: nat) then ''<U+'' @ hex4_upper (of_char c) @ ''>'' else [c])
     (lx_token_string lx))"

section \<open>How much input is left\<close>

definition left :: "lexer \<Rightarrow> nat" where
  "left lx = length (lx_ia lx) + (if lx_next_unget lx \<and> lx_current lx \<noteq> EOF then 1 else 0)"

lemma get_fields:
  "lx_current (lx_get lx) = (if lx_next_unget lx then lx_current lx else fst (get_character (lx_ia lx)))"
  "lx_ia (lx_get lx) = (if lx_next_unget lx then lx_ia lx else snd (get_character (lx_ia lx)))"
  "\<not> lx_next_unget (lx_get lx)"
  "lx_token_buffer (lx_get lx) = lx_token_buffer lx"
  "chars_read_total (lx_position (lx_get lx)) = chars_read_total (lx_position lx) + 1"
  "lx_ignore_comments (lx_get lx) = lx_ignore_comments lx"
  "lx_decimal_point_char (lx_get lx) = lx_decimal_point_char lx"
  by (cases "lx_next_unget lx"; cases "get_character (lx_ia lx)"; simp add: lx_get_def Let_def)+

lemma unget_fields:
  "lx_current (lx_unget lx) = lx_current lx"
  "lx_ia (lx_unget lx) = lx_ia lx"
  "lx_next_unget (lx_unget lx)"
  "lx_token_buffer (lx_unget lx) = lx_token_buffer lx"
  "chars_read_total (lx_position (lx_unget lx)) = chars_read_total (lx_position lx) - 1"
  "lx_ignore_comments (lx_unget lx) = lx_ignore_comments lx"
  "lx_decimal_point_char (lx_unget lx) = lx_decimal_point_char lx"
  by (simp_all add: lx_unget_def Let_def)

lemma left_get: "left (lx_get lx) \<le> left lx" "lx_current (lx_get lx) \<noteq> EOF \<Longrightarrow> left (lx_get lx) < left lx"
  by (auto simp: left_def get_fields get_character_def split: list.splits if_splits)

lemma left_simps [simp]:
  "left (lx_add c lx) = left lx" "left (lx_fail msg lx) = left lx" "left (lx_reset lx) = left lx"
  "lx_current (lx_add c lx) = lx_current lx" "lx_current (lx_fail msg lx) = lx_current lx"
  "lx_current (lx_reset lx) = lx_current lx"
  by (simp_all add: left_def lx_add_def lx_fail_def lx_reset_def)

text \<open>Giving back the character just read.\<close>

lemma left_unget_get: "left (lx_unget (lx_get lx)) \<le> left lx"
  by (auto simp: left_def get_fields unget_fields get_character_def split: list.splits)

section \<open>Strings\<close>

subsection \<open>Escapes\<close>

text \<open>One digit of \<^verbatim>\<open>get_codepoint\<close> and its value; the four digits weigh \<open>2 ^ 12\<close>, \<open>2 ^ 8\<close>, \<open>2 ^ 4\<close>, 1.\<close>

definition hex_value :: "int \<Rightarrow> int option" where
  "hex_value c =
     (if 0x30 \<le> c \<and> c \<le> 0x39 then Some (c - 0x30)
      else if 0x41 \<le> c \<and> c \<le> 0x46 then Some (c - 0x37)
      else if 0x61 \<le> c \<and> c \<le> 0x66 then Some (c - 0x57)
      else None)"

primrec codepoint_digits :: "nat list \<Rightarrow> int \<Rightarrow> lexer \<Rightarrow> int \<times> lexer" where
  "codepoint_digits [] codepoint lx = (codepoint, lx)"
| "codepoint_digits (factor # factors) codepoint lx =
     (let lx = lx_get lx in
      case hex_value (lx_current lx) of
        Some d \<Rightarrow> codepoint_digits factors (codepoint + push_bit factor d) lx
      | None \<Rightarrow> (- 1, lx))"

definition get_codepoint :: "lexer \<Rightarrow> int \<times> lexer" where
  "get_codepoint lx = codepoint_digits [12, 8, 4, 0] 0 lx"

text \<open>The UTF-8 bytes of a code point.\<close>

definition utf8_encode :: "int \<Rightarrow> int list" where
  "utf8_encode codepoint =
     (if codepoint < 0x80 then [codepoint]
      else if codepoint \<le> 0x7FF
        then [0xC0 OR drop_bit 6 codepoint, 0x80 OR (codepoint AND 0x3F)]
      else if codepoint \<le> 0xFFFF
        then [0xE0 OR drop_bit 12 codepoint, 0x80 OR (drop_bit 6 codepoint AND 0x3F), 0x80 OR (codepoint AND 0x3F)]
      else [0xF0 OR drop_bit 18 codepoint, 0x80 OR (drop_bit 12 codepoint AND 0x3F),
            0x80 OR (drop_bit 6 codepoint AND 0x3F), 0x80 OR (codepoint AND 0x3F)])"

definition lx_add_all :: "int list \<Rightarrow> lexer \<Rightarrow> lexer" where
  "lx_add_all cs lx = fold lx_add cs lx"

definition hex_message :: string where
  "hex_message = ''invalid string: '' @ [CHR 0x27, CHR 0x5C, CHR ''u'', CHR 0x27] @ '' must be followed by 4 hex digits''"

definition low_surrogate_message :: string where
  "low_surrogate_message = ''invalid string: surrogate U+D800..U+DBFF must be followed by U+DC00..U+DFFF''"

text \<open>The escape \<^verbatim>\<open>\u\<close>: a code point, or a surrogate pair spelled as two escapes.\<close>

definition scan_unicode_escape :: "lexer \<Rightarrow> bool \<times> lexer" where
  "scan_unicode_escape lx =
     (case get_codepoint lx of (codepoint1, lx) \<Rightarrow>
      if codepoint1 = - 1 then (False, lx_fail hex_message lx)
      else if 0xD800 \<le> codepoint1 \<and> codepoint1 \<le> 0xDBFF
      then (let lx = lx_get lx in
            if lx_current lx \<noteq> 0x5C then (False, lx_fail low_surrogate_message lx)
            else let lx = lx_get lx in
            if lx_current lx \<noteq> 0x75 then (False, lx_fail low_surrogate_message lx)
            else (case get_codepoint lx of (codepoint2, lx) \<Rightarrow>
                  if codepoint2 = - 1 then (False, lx_fail hex_message lx)
                  else if 0xDC00 \<le> codepoint2 \<and> codepoint2 \<le> 0xDFFF
                  then (True, lx_add_all (utf8_encode (push_bit 10 codepoint1 + codepoint2 - 0x35FDC00)) lx)
                  else (False, lx_fail low_surrogate_message lx)))
      else if 0xDC00 \<le> codepoint1 \<and> codepoint1 \<le> 0xDFFF
      then (False, lx_fail ''invalid string: surrogate U+DC00..U+DFFF must follow U+D800..U+DBFF'' lx)
      else (True, lx_add_all (utf8_encode codepoint1) lx))"

text \<open>The character after a backslash.\<close>

definition scan_escape :: "lexer \<Rightarrow> bool \<times> lexer" where
  "scan_escape lx =
     (let lx = lx_get lx; c = lx_current lx in
      if c = 0x22 then (True, lx_add 0x22 lx)
      else if c = 0x5C then (True, lx_add 0x5C lx)
      else if c = 0x2F then (True, lx_add 0x2F lx)
      else if c = 0x62 then (True, lx_add 0x08 lx)
      else if c = 0x66 then (True, lx_add 0x0C lx)
      else if c = 0x6E then (True, lx_add 0x0A lx)
      else if c = 0x72 then (True, lx_add 0x0D lx)
      else if c = 0x74 then (True, lx_add 0x09 lx)
      else if c = 0x75 then scan_unicode_escape lx
      else (False, lx_fail ''invalid string: forbidden character after backslash'' lx))"

lemma left_codepoint_digits: "left (snd (codepoint_digits fs cp lx)) \<le> left lx"
proof (induction fs arbitrary: cp lx)
  case (Cons f fs)
  then show ?case using left_get(1) [of lx] by (auto simp: Let_def split: option.split intro: order_trans)
qed simp

lemma left_add_all [simp]: "left (lx_add_all cs lx) = left lx"
  unfolding lx_add_all_def by (induction cs arbitrary: lx) simp_all

lemma left_unicode_escape: "left (snd (scan_unicode_escape lx)) \<le> left lx"
proof -
  obtain cp l1 where 1: "get_codepoint lx = (cp, l1)" by fastforce
  obtain cp2 l2 where 2: "get_codepoint (lx_get (lx_get l1)) = (cp2, l2)" by fastforce
  have "left l1 \<le> left lx" using 1 left_codepoint_digits [of "[12, 8, 4, 0]" 0 lx] by (simp add: get_codepoint_def)
  moreover have "left l2 \<le> left (lx_get (lx_get l1))"
    using 2 left_codepoint_digits [of "[12, 8, 4, 0]" 0 "lx_get (lx_get l1)"] by (simp add: get_codepoint_def)
  ultimately show ?thesis
    using left_get(1) [of l1] left_get(1) [of "lx_get l1"]
    by (simp add: scan_unicode_escape_def 1 2 Let_def)
qed

lemma left_escape: "left (snd (scan_escape lx)) \<le> left lx"
  using left_get(1) [of lx] left_unicode_escape [of "lx_get lx"] by (simp add: scan_escape_def Let_def)

subsection \<open>Bytes\<close>

text \<open>The messages for the control characters.\<close>

definition control_messages_00 :: "string list" where
  "control_messages_00 = map (\<lambda>s. ''invalid string: control character U+'' @ fst s @ '' must be escaped to '' @ snd s)
    [(''0000 (NUL)'', CHR 0x5C # ''u0000''),
     (''0001 (SOH)'', CHR 0x5C # ''u0001''),
     (''0002 (STX)'', CHR 0x5C # ''u0002''),
     (''0003 (ETX)'', CHR 0x5C # ''u0003''),
     (''0004 (EOT)'', CHR 0x5C # ''u0004''),
     (''0005 (ENQ)'', CHR 0x5C # ''u0005''),
     (''0006 (ACK)'', CHR 0x5C # ''u0006''),
     (''0007 (BEL)'', CHR 0x5C # ''u0007''),
     (''0008 (BS)'', CHR 0x5C # ''u0008 or '' @ [CHR 0x5C, CHR ''b'']),
     (''0009 (HT)'', CHR 0x5C # ''u0009 or '' @ [CHR 0x5C, CHR ''t'']),
     (''000A (LF)'', CHR 0x5C # ''u000A or '' @ [CHR 0x5C, CHR ''n'']),
     (''000B (VT)'', CHR 0x5C # ''u000B''),
     (''000C (FF)'', CHR 0x5C # ''u000C or '' @ [CHR 0x5C, CHR ''f'']),
     (''000D (CR)'', CHR 0x5C # ''u000D or '' @ [CHR 0x5C, CHR ''r'']),
     (''000E (SO)'', CHR 0x5C # ''u000E''),
     (''000F (SI)'', CHR 0x5C # ''u000F'')]"

definition control_messages_10 :: "string list" where
  "control_messages_10 = map (\<lambda>s. ''invalid string: control character U+'' @ fst s @ '' must be escaped to '' @ snd s)
    [(''0010 (DLE)'', CHR 0x5C # ''u0010''),
     (''0011 (DC1)'', CHR 0x5C # ''u0011''),
     (''0012 (DC2)'', CHR 0x5C # ''u0012''),
     (''0013 (DC3)'', CHR 0x5C # ''u0013''),
     (''0014 (DC4)'', CHR 0x5C # ''u0014''),
     (''0015 (NAK)'', CHR 0x5C # ''u0015''),
     (''0016 (SYN)'', CHR 0x5C # ''u0016''),
     (''0017 (ETB)'', CHR 0x5C # ''u0017''),
     (''0018 (CAN)'', CHR 0x5C # ''u0018''),
     (''0019 (EM)'', CHR 0x5C # ''u0019''),
     (''001A (SUB)'', CHR 0x5C # ''u001A''),
     (''001B (ESC)'', CHR 0x5C # ''u001B''),
     (''001C (FS)'', CHR 0x5C # ''u001C''),
     (''001D (GS)'', CHR 0x5C # ''u001D''),
     (''001E (RS)'', CHR 0x5C # ''u001E''),
     (''001F (US)'', CHR 0x5C # ''u001F'')]"

definition control_message :: "int \<Rightarrow> string" where
  "control_message c = (if c \<le> 0x0F then control_messages_00 ! nat c else control_messages_10 ! nat (c - 0x10))"

text \<open>U+0020..U+007F except the quotation mark and the backslash.\<close>

definition plain_ascii :: "int \<Rightarrow> bool" where
  "plain_ascii c \<longleftrightarrow> 0x20 \<le> c \<and> c \<le> 0x7F \<and> c \<noteq> 0x22 \<and> c \<noteq> 0x5C"

text \<open>The ranges of the bytes that continue a lead byte.\<close>

definition utf8_ranges :: "int \<Rightarrow> (int \<times> int) list option" where
  "utf8_ranges c =
     (if 0xC2 \<le> c \<and> c \<le> 0xDF then Some [(0x80, 0xBF)]
      else if c = 0xE0 then Some [(0xA0, 0xBF), (0x80, 0xBF)]
      else if (0xE1 \<le> c \<and> c \<le> 0xEC) \<or> c = 0xEE \<or> c = 0xEF then Some [(0x80, 0xBF), (0x80, 0xBF)]
      else if c = 0xED then Some [(0x80, 0x9F), (0x80, 0xBF)]
      else if c = 0xF0 then Some [(0x90, 0xBF), (0x80, 0xBF), (0x80, 0xBF)]
      else if 0xF1 \<le> c \<and> c \<le> 0xF3 then Some [(0x80, 0xBF), (0x80, 0xBF), (0x80, 0xBF)]
      else if c = 0xF4 then Some [(0x80, 0x8F), (0x80, 0xBF), (0x80, 0xBF)]
      else None)"

definition ill_formed_message :: string where
  "ill_formed_message = ''invalid string: ill-formed UTF-8 byte''"

primrec ranges_loop :: "(int \<times> int) list \<Rightarrow> lexer \<Rightarrow> bool \<times> lexer" where
  "ranges_loop [] lx = (True, lx)"
| "ranges_loop (r # ranges) lx =
     (let lx = lx_get lx in
      if fst r \<le> lx_current lx \<and> lx_current lx \<le> snd r
      then ranges_loop ranges (lx_add (lx_current lx) lx)
      else (False, lx_fail ill_formed_message lx))"

definition next_byte_in_range :: "(int \<times> int) list \<Rightarrow> lexer \<Rightarrow> bool \<times> lexer" where
  "next_byte_in_range ranges lx = ranges_loop ranges (lx_add (lx_current lx) lx)"

lemma left_ranges_loop: "left (snd (ranges_loop rs lx)) \<le> left lx"
proof (induction rs arbitrary: lx)
  case (Cons r rs)
  show ?case
    using Cons.IH [of "lx_add (lx_current (lx_get lx)) (lx_get lx)"] left_get(1) [of lx] by (simp add: Let_def)
qed simp

lemma left_next_byte: "left (snd (next_byte_in_range rs lx)) \<le> left lx"
  using left_ranges_loop [of rs "lx_add (lx_current lx) lx"] by (simp add: next_byte_in_range_def)

subsection \<open>The loop\<close>

function scan_string_loop :: "lexer \<Rightarrow> token_type \<times> lexer" where
  "scan_string_loop lx0 =
     (let lx = lx_get lx0; c = lx_current lx in
      if c = EOF then (parse_error, lx_fail ''invalid string: missing closing quote'' lx)
      else if c = 0x22 then (value_string, lx)
      else if c = 0x5C
      then (if fst (scan_escape lx) then scan_string_loop (snd (scan_escape lx)) else (parse_error, snd (scan_escape lx)))
      else if c \<le> 0x1F then (parse_error, lx_fail (control_message c) lx)
      else if plain_ascii c then scan_string_loop (lx_add c lx)
      else (case utf8_ranges c of
              Some ranges \<Rightarrow>
                (if fst (next_byte_in_range ranges lx) then scan_string_loop (snd (next_byte_in_range ranges lx))
                 else (parse_error, snd (next_byte_in_range ranges lx)))
            | None \<Rightarrow> (parse_error, lx_fail ill_formed_message lx)))"
  by pat_completeness auto
termination
proof (relation "measure left", goal_cases)
  case (2 lx0 lx c)
  then show ?case using left_escape [of lx] left_get(2) [of lx0] by simp
next
  case (3 lx0 lx c)
  then show ?case using left_get(2) [of lx0] by simp
next
  case (4 lx0 lx c ranges)
  then show ?case using left_next_byte [of ranges lx] left_get(2) [of lx0] by simp
qed simp

declare scan_string_loop.simps [simp del]

definition scan_string :: "lexer \<Rightarrow> token_type \<times> lexer" where
  "scan_string lx = scan_string_loop (lx_reset lx)"

section \<open>Comments\<close>

function line_comment :: "lexer \<Rightarrow> lexer" where
  "line_comment lx0 =
     (let lx = lx_get lx0; c = lx_current lx in
      if c = 0x0A \<or> c = 0x0D \<or> c = EOF \<or> c = 0 then lx else line_comment lx)"
  by pat_completeness auto
termination
  by (relation "measure left") (auto intro: left_get)

declare line_comment.simps [simp del]

text \<open>A star that no slash follows is skipped alone: the character after it is given back.\<close>

function block_comment :: "lexer \<Rightarrow> bool \<times> lexer" where
  "block_comment lx0 =
     (let lx = lx_get lx0; c = lx_current lx in
      if c = EOF \<or> c = 0
      then (False, lx_fail (''invalid comment; missing closing '' @ [CHR 0x27] @ ''*/'' @ [CHR 0x27]) lx)
      else if c = 0x2A
      then (let lx = lx_get lx in if lx_current lx = 0x2F then (True, lx) else block_comment (lx_unget lx))
      else block_comment lx)"
  by pat_completeness auto
termination
proof (relation "measure left", goal_cases)
  case (2 lx0 lx c lx')
  then show ?case using left_unget_get [of lx] left_get(2) [of lx0] by simp
qed (auto intro: left_get)

declare block_comment.simps [simp del]

definition scan_comment :: "lexer \<Rightarrow> bool \<times> lexer" where
  "scan_comment lx =
     (let lx = lx_get lx in
      if lx_current lx = 0x2F then (True, line_comment lx)
      else if lx_current lx = 0x2A then block_comment lx
      else (False, lx_fail (''invalid comment; expecting '' @ [CHR 0x27, CHR ''/'', CHR 0x27] @ '' or ''
              @ [CHR 0x27, CHR ''*'', CHR 0x27] @ '' after '' @ [CHR 0x27, CHR ''/'', CHR 0x27]) lx))"

lemma left_line_comment: "left (line_comment lx) \<le> left lx"
proof (induction lx rule: line_comment.induct)
  case (1 lx)
  show ?case using 1 [OF refl refl] left_get(1) [of lx] by (subst line_comment.simps) (auto simp: Let_def)
qed

lemma left_block_comment: "left (snd (block_comment lx)) \<le> left lx"
proof (induction lx rule: block_comment.induct)
  case (1 lx)
  let ?l = "lx_get lx"
  consider "lx_current ?l = EOF \<or> lx_current ?l = 0" | "lx_current ?l \<noteq> EOF" "lx_current ?l \<noteq> 0" "lx_current ?l = 0x2A"
    | "lx_current ?l \<noteq> EOF" "lx_current ?l \<noteq> 0" "lx_current ?l \<noteq> 0x2A" by blast
  then show ?case
  proof cases
    case 2
    then show ?thesis
      using 1(1) [OF refl refl _ _ refl] left_get(1) [of lx] left_get(1) [of ?l] left_unget_get [of ?l]
      by (subst block_comment.simps) (auto simp: Let_def)
  qed (use 1(2) [OF refl refl] left_get(1) [of lx] in \<open>subst block_comment.simps; auto simp: Let_def\<close>)+
qed

lemma left_scan_comment: "fst (scan_comment lx) \<Longrightarrow> left (snd (scan_comment lx)) < left lx"
  "left (snd (scan_comment lx)) \<le> left lx"
  using left_get [of lx] left_line_comment [of "lx_get lx"] left_block_comment [of "lx_get lx"]
  by (auto simp: scan_comment_def Let_def EOF_def split: if_splits)

section \<open>Numbers\<close>

datatype number_label = N_minus | N_zero | N_any1 | N_decimal1 | N_decimal2 | N_exponent | N_sign | N_any2 | N_done

text \<open>Where the code after a label goes, with the number type so far; or it fails with a message set.\<close>

datatype jump = Goto number_label token_type lexer | Fail lexer

definition is_0_9 :: "int \<Rightarrow> bool" where
  "is_0_9 c \<longleftrightarrow> 0x30 \<le> c \<and> c \<le> 0x39"

definition is_1_9 :: "int \<Rightarrow> bool" where
  "is_1_9 c \<longleftrightarrow> 0x31 \<le> c \<and> c \<le> 0x39"

definition is_e :: "int \<Rightarrow> bool" where
  "is_e c \<longleftrightarrow> c = 0x65 \<or> c = 0x45"

definition add_current :: "lexer \<Rightarrow> lexer" where
  "add_current lx = lx_add (lx_current lx) lx"

text \<open>The first character decides the label. The scanner comes here on a minus sign or a digit only.\<close>

definition number_init :: "lexer \<Rightarrow> jump" where
  "number_init lx =
     (if lx_current lx = 0x2D then Goto N_minus value_unsigned (add_current lx)
      else if lx_current lx = 0x30 then Goto N_zero value_unsigned (add_current lx)
      else if is_1_9 (lx_current lx) then Goto N_any1 value_unsigned (add_current lx)
      else Fail lx)"

definition number_minus :: "token_type \<Rightarrow> lexer \<Rightarrow> jump" where
  "number_minus number_type lx =
     (let number_type = value_integer; lx = lx_get lx in
      if lx_current lx = 0x30 then Goto N_zero number_type (add_current lx)
      else if is_1_9 (lx_current lx) then Goto N_any1 number_type (add_current lx)
      else Fail (lx_fail (''invalid number; expected digit after '' @ [CHR 0x27, CHR ''-'', CHR 0x27]) lx))"

definition number_zero :: "token_type \<Rightarrow> lexer \<Rightarrow> jump" where
  "number_zero number_type lx =
     (let lx = lx_get lx in
      if lx_current lx = 0x2E then Goto N_decimal1 number_type (lx_add (lx_decimal_point_char lx) lx)
      else if is_e (lx_current lx) then Goto N_exponent number_type (add_current lx)
      else Goto N_done number_type lx)"

definition number_any1 :: "token_type \<Rightarrow> lexer \<Rightarrow> jump" where
  "number_any1 number_type lx =
     (let lx = lx_get lx in
      if is_0_9 (lx_current lx) then Goto N_any1 number_type (add_current lx)
      else if lx_current lx = 0x2E then Goto N_decimal1 number_type (lx_add (lx_decimal_point_char lx) lx)
      else if is_e (lx_current lx) then Goto N_exponent number_type (add_current lx)
      else Goto N_done number_type lx)"

definition number_decimal1 :: "token_type \<Rightarrow> lexer \<Rightarrow> jump" where
  "number_decimal1 number_type lx =
     (let number_type = value_float; lx = lx_get lx in
      if is_0_9 (lx_current lx) then Goto N_decimal2 number_type (add_current lx)
      else Fail (lx_fail (''invalid number; expected digit after '' @ [CHR 0x27, CHR ''.'', CHR 0x27]) lx))"

definition number_decimal2 :: "token_type \<Rightarrow> lexer \<Rightarrow> jump" where
  "number_decimal2 number_type lx =
     (let lx = lx_get lx in
      if is_0_9 (lx_current lx) then Goto N_decimal2 number_type (add_current lx)
      else if is_e (lx_current lx) then Goto N_exponent number_type (add_current lx)
      else Goto N_done number_type lx)"

definition number_exponent :: "token_type \<Rightarrow> lexer \<Rightarrow> jump" where
  "number_exponent number_type lx =
     (let number_type = value_float; lx = lx_get lx in
      if lx_current lx = 0x2B \<or> lx_current lx = 0x2D then Goto N_sign number_type (add_current lx)
      else if is_0_9 (lx_current lx) then Goto N_any2 number_type (add_current lx)
      else Fail (lx_fail (''invalid number; expected '' @ [CHR 0x27, CHR ''+'', CHR 0x27] @ '', ''
             @ [CHR 0x27, CHR ''-'', CHR 0x27] @ '', or digit after exponent'') lx))"

definition number_sign :: "token_type \<Rightarrow> lexer \<Rightarrow> jump" where
  "number_sign number_type lx =
     (let lx = lx_get lx in
      if is_0_9 (lx_current lx) then Goto N_any2 number_type (add_current lx)
      else Fail (lx_fail ''invalid number; expected digit after exponent sign'' lx))"

definition number_any2 :: "token_type \<Rightarrow> lexer \<Rightarrow> jump" where
  "number_any2 number_type lx =
     (let lx = lx_get lx in
      if is_0_9 (lx_current lx) then Goto N_any2 number_type (add_current lx)
      else Goto N_done number_type lx)"

primrec number_label_code :: "number_label \<Rightarrow> token_type \<Rightarrow> lexer \<Rightarrow> jump" where
  "number_label_code N_minus nt lx = number_minus nt lx"
| "number_label_code N_zero nt lx = number_zero nt lx"
| "number_label_code N_any1 nt lx = number_any1 nt lx"
| "number_label_code N_decimal1 nt lx = number_decimal1 nt lx"
| "number_label_code N_decimal2 nt lx = number_decimal2 nt lx"
| "number_label_code N_exponent nt lx = number_exponent nt lx"
| "number_label_code N_sign nt lx = number_sign nt lx"
| "number_label_code N_any2 nt lx = number_any2 nt lx"
| "number_label_code N_done nt lx = Goto N_done nt lx"

text \<open>The conversion of the buffered text: integers first, and floating point when they do not fit.\<close>

definition number_done :: "token_type \<Rightarrow> lexer \<Rightarrow> token_type \<times> lexer" where
  "number_done number_type lx =
     (let lx = lx_unget lx;
          float = (value_float, lx\<lparr>lx_value_float := strtod (lx_token_buffer lx)\<rparr>)
      in if number_type = value_unsigned
         then (case strtoull (lx_token_buffer lx) of
                 Some x \<Rightarrow> (value_unsigned, lx\<lparr>lx_value_unsigned := x\<rparr>) | None \<Rightarrow> float)
         else if number_type = value_integer
         then (case strtoll (lx_token_buffer lx) of
                 Some x \<Rightarrow> (value_integer, lx\<lparr>lx_value_integer := x\<rparr>) | None \<Rightarrow> float)
         else float)"

lemmas number_label_defs = number_minus_def number_zero_def number_any1_def number_decimal1_def
  number_decimal2_def number_exponent_def number_sign_def number_any2_def

lemma add_current_simps [simp]:
  "left (add_current lx) = left lx" "lx_current (add_current lx) = lx_current lx"
  by (simp_all add: add_current_def)

lemma left_number_label:
  assumes "number_label_code l nt lx = Goto l' nt' lx'" and "l \<noteq> N_done" and "l' \<noteq> N_done"
  shows "left lx' < left lx"
proof -
  have "lx_current (lx_get lx) \<noteq> EOF \<and> left lx' = left (lx_get lx)"
    using assms by (cases l) (auto simp: number_label_defs Let_def is_0_9_def is_1_9_def is_e_def EOF_def split: if_splits)
  with left_get(2) [of lx] show ?thesis by simp
qed

function scan_number_loop :: "number_label \<Rightarrow> token_type \<Rightarrow> lexer \<Rightarrow> token_type \<times> lexer" where
  "scan_number_loop l nt lx =
     (if l = N_done then number_done nt lx
      else (case number_label_code l nt lx of
              Goto l' nt' lx' \<Rightarrow> (if l' = N_done then number_done nt' lx' else scan_number_loop l' nt' lx')
            | Fail lx' \<Rightarrow> (parse_error, lx')))"
  by pat_completeness auto
termination
  by (relation "measure (\<lambda>(l, nt, lx). left lx)") (auto dest: left_number_label)

declare scan_number_loop.simps [simp del]

definition scan_number :: "lexer \<Rightarrow> token_type \<times> lexer" where
  "scan_number lx = (case number_init (lx_reset lx) of
       Goto l nt lx \<Rightarrow> scan_number_loop l nt lx | Fail lx \<Rightarrow> (parse_error, lx))"

section \<open>Literals and the scanner\<close>

primrec literal_loop :: "string \<Rightarrow> token_type \<Rightarrow> lexer \<Rightarrow> token_type \<times> lexer" where
  "literal_loop [] return_type lx = (return_type, lx)"
| "literal_loop (c # literal_text) return_type lx =
     (let lx = lx_get lx in
      if char_of (lx_current lx) \<noteq> c then (parse_error, lx_fail ''invalid literal'' lx)
      else literal_loop literal_text return_type lx)"

text \<open>The first character has been read.\<close>

definition scan_literal :: "string \<Rightarrow> token_type \<Rightarrow> lexer \<Rightarrow> token_type \<times> lexer" where
  "scan_literal literal_text return_type lx = literal_loop (tl literal_text) return_type lx"

definition skip_bom :: "lexer \<Rightarrow> bool \<times> lexer" where
  "skip_bom lx =
     (let lx = lx_get lx in
      if lx_current lx = 0xEF
      then (let lx = lx_get lx in
            if lx_current lx \<noteq> 0xBB then (False, lx) else let lx = lx_get lx in (lx_current lx = 0xBF, lx))
      else (True, lx_unget lx))"

definition is_whitespace :: "int \<Rightarrow> bool" where
  "is_whitespace c \<longleftrightarrow> c = 0x20 \<or> c = 0x09 \<or> c = 0x0A \<or> c = 0x0D"

function skip_whitespace :: "lexer \<Rightarrow> lexer" where
  "skip_whitespace lx0 = (let lx = lx_get lx0 in if is_whitespace (lx_current lx) then skip_whitespace lx else lx)"
  by pat_completeness auto
termination
proof (relation "measure left", goal_cases)
  case (2 lx0 lx)
  then show ?case using left_get(2) [of lx0] by (auto simp: is_whitespace_def EOF_def)
qed simp

declare skip_whitespace.simps [simp del]

lemma left_skip_whitespace: "left (skip_whitespace lx) \<le> left lx"
proof (induction lx rule: skip_whitespace.induct)
  case (1 lx)
  show ?case using 1 [OF refl] left_get(1) [of lx] by (subst skip_whitespace.simps) (auto simp: Let_def)
qed

function comments_loop :: "lexer \<Rightarrow> bool \<times> lexer" where
  "comments_loop lx =
     (if lx_ignore_comments lx \<and> lx_current lx = 0x2F
      then (if fst (scan_comment lx) then comments_loop (skip_whitespace (snd (scan_comment lx)))
            else (False, snd (scan_comment lx)))
      else (True, lx))"
  by pat_completeness auto
termination
  by (relation "measure left")
    (auto intro: le_less_trans [OF left_skip_whitespace left_scan_comment(1)])

declare comments_loop.simps [simp del]

text \<open>The decision on the first character of a token.\<close>

definition scan_token :: "lexer \<Rightarrow> token_type \<times> lexer" where
  "scan_token lx =
     (let c = lx_current lx in
      if c = 0x5B then (begin_array, lx)
      else if c = 0x5D then (end_array, lx)
      else if c = 0x7B then (begin_object, lx)
      else if c = 0x7D then (end_object, lx)
      else if c = 0x3A then (name_separator, lx)
      else if c = 0x2C then (value_separator, lx)
      else if c = 0x74 then scan_literal ''true'' literal_true lx
      else if c = 0x66 then scan_literal ''false'' literal_false lx
      else if c = 0x6E then scan_literal ''null'' literal_null lx
      else if c = 0x22 then scan_string lx
      else if c = 0x2D \<or> is_0_9 c then scan_number lx
      else if c = 0 \<or> c = EOF then (end_of_input, lx)
      else (parse_error, lx_fail ''invalid literal'' lx))"

definition scan :: "lexer \<Rightarrow> token_type \<times> lexer" where
  "scan lx =
     (case (if chars_read_total (lx_position lx) = 0 then skip_bom lx else (True, lx)) of
        (False, lx) \<Rightarrow> (parse_error, lx_fail ''invalid BOM; must be 0xEF 0xBB 0xBF if given'' lx)
      | (True, lx) \<Rightarrow>
          (case comments_loop (skip_whitespace lx) of
             (False, lx) \<Rightarrow> (parse_error, lx)
           | (True, lx) \<Rightarrow> scan_token lx))"

section \<open>A token uses up input\<close>

lemma left_string_loop: "left (snd (scan_string_loop lx)) \<le> left lx"
proof (induction lx rule: scan_string_loop.induct)
  case (1 lx)
  let ?l = "lx_get lx" and ?c = "lx_current (lx_get lx)"
  note IH = 1 [OF refl refl]
  note get = left_get(1) [of lx]
  note unfold = scan_string_loop.simps [of lx] Let_def
  consider "?c = EOF \<or> ?c = 0x22" | "?c \<noteq> EOF" "?c = 0x5C" | "?c \<noteq> EOF" "?c \<noteq> 0x22" "?c \<noteq> 0x5C" "?c \<le> 0x1F"
    | "?c \<noteq> EOF" "?c \<noteq> 0x22" "?c \<noteq> 0x5C" "\<not> ?c \<le> 0x1F" "plain_ascii ?c"
    | "?c \<noteq> EOF" "?c \<noteq> 0x22" "?c \<noteq> 0x5C" "\<not> ?c \<le> 0x1F" "\<not> plain_ascii ?c" by blast
  then show ?case
  proof cases
    case 2
    then show ?thesis using IH(1) left_escape [of ?l] get by (cases "fst (scan_escape ?l)") (simp_all add: unfold)
  next
    case 4
    then show ?thesis using IH(2) get by (simp add: unfold)
  next
    case 5
    then show ?thesis
    proof (cases "utf8_ranges ?c")
      case (Some rs)
      with 5 show ?thesis using IH(3) left_next_byte [of rs ?l] get
        by (cases "fst (next_byte_in_range rs ?l)") (simp_all add: unfold)
    qed (use get in \<open>simp add: unfold\<close>)
  qed (use get in \<open>auto simp: unfold\<close>)
qed

lemma number_done_label:
  "number_label_code l nt lx = Goto N_done nt' lx' \<Longrightarrow> l \<noteq> N_done \<Longrightarrow> lx' = lx_get lx"
  by (cases l) (auto simp: number_label_defs Let_def split: if_splits)

lemma left_number_done: "left (snd (number_done nt (lx_get lx))) \<le> left lx"
proof -
  have "left (lx_unget (lx_get lx)\<lparr>lx_value_float := x\<rparr>) = left (lx_unget (lx_get lx))"
    "left (lx_unget (lx_get lx)\<lparr>lx_value_integer := y\<rparr>) = left (lx_unget (lx_get lx))"
    "left (lx_unget (lx_get lx)\<lparr>lx_value_unsigned := z\<rparr>) = left (lx_unget (lx_get lx))" for x y z
    by (simp_all add: left_def)
  with left_unget_get [of lx] show ?thesis by (simp add: number_done_def Let_def split: option.split)
qed

lemma number_fail_left: "number_label_code l nt lx = Fail lx' \<Longrightarrow> left lx' \<le> left lx"
  using left_get(1) [of lx] by (cases l) (auto simp: number_label_defs Let_def split: if_splits)

lemma left_number_loop: "l \<noteq> N_done \<Longrightarrow> left (snd (scan_number_loop l nt lx)) \<le> left lx"
proof (induction l nt lx rule: scan_number_loop.induct)
  case (1 l nt lx)
  show ?case
  proof (cases "number_label_code l nt lx")
    case (Goto l' nt' lx')
    show ?thesis
    proof (cases "l' = N_done")
      case True
      with Goto 1(2) number_done_label [of l nt lx nt' lx'] left_number_done [of nt' lx] show ?thesis
        by (simp add: scan_number_loop.simps [of l])
    next
      case False
      with Goto 1 left_number_label [of l nt lx l' nt' lx'] show ?thesis
        by (auto simp: scan_number_loop.simps [of l])
    qed
  next
    case (Fail lx')
    with 1(2) number_fail_left [OF Fail] show ?thesis by (simp add: scan_number_loop.simps [of l])
  qed
qed

lemma left_scan_number: "left (snd (scan_number lx)) \<le> left lx"
  using left_number_loop [of N_minus value_unsigned "add_current (lx_reset lx)"]
    left_number_loop [of N_zero value_unsigned "add_current (lx_reset lx)"]
    left_number_loop [of N_any1 value_unsigned "add_current (lx_reset lx)"]
  by (simp add: scan_number_def number_init_def)

lemma left_literal_loop: "left (snd (literal_loop cs t lx)) \<le> left lx"
proof (induction cs arbitrary: lx)
  case (Cons c cs)
  show ?case using Cons [of "lx_get lx"] left_get(1) [of lx] by (simp add: Let_def)
qed simp

lemma left_scan_token: "left (snd (scan_token lx)) \<le> left lx"
  using left_literal_loop [of "''rue''" literal_true lx] left_literal_loop [of "''alse''" literal_false lx]
    left_literal_loop [of "''ull''" literal_null lx] left_string_loop [of "lx_reset lx"] left_scan_number [of lx]
  by (simp add: scan_token_def Let_def scan_literal_def scan_string_def)

lemma scan_token_EOF: "lx_current lx = EOF \<Longrightarrow> fst (scan_token lx) = end_of_input"
  by (simp add: scan_token_def EOF_def is_0_9_def)

lemma left_skip_bom: "left (snd (skip_bom lx)) \<le> left lx" "\<not> fst (skip_bom lx) \<Longrightarrow> left (snd (skip_bom lx)) < left lx"
  using left_get [of lx] left_get(1) [of "lx_get lx"] left_get(1) [of "lx_get (lx_get lx)"] left_unget_get [of lx]
  by (auto simp: skip_bom_def Let_def EOF_def)

lemma skip_whitespace_EOF: "lx_current (skip_whitespace lx) \<noteq> EOF \<Longrightarrow> left (skip_whitespace lx) < left lx"
proof (induction lx rule: skip_whitespace.induct)
  case (1 lx)
  show ?case
  proof (cases "is_whitespace (lx_current (lx_get lx))")
    case True
    with 1 left_get(1) [of lx] show ?thesis by (simp add: skip_whitespace.simps [of lx] Let_def)
  next
    case False
    with 1(2) left_get(2) [of lx] show ?thesis by (simp add: skip_whitespace.simps [of lx] Let_def)
  qed
qed

lemma left_comments_loop:
  "left (snd (comments_loop lx)) \<le> left lx
   \<and> (left (snd (comments_loop lx)) < left lx \<or> comments_loop lx = (True, lx)
      \<or> \<not> fst (comments_loop lx) \<and> lx_current lx = 0x2F)"
proof (induction lx rule: comments_loop.induct)
  case (1 lx)
  show ?case
    using 1 left_scan_comment [of lx] left_skip_whitespace [of "snd (scan_comment lx)"]
    by (cases "lx_ignore_comments lx \<and> lx_current lx = 0x2F"; cases "fst (scan_comment lx)")
      (auto simp: comments_loop.simps [of lx])
qed

lemma left_scan_tail:
  fixes lx :: lexer
  defines "l \<equiv> comments_loop (skip_whitespace lx)"
  shows "left (snd l) \<le> left lx" "lx_current (snd l) \<noteq> EOF \<or> \<not> fst l \<Longrightarrow> left (snd l) < left lx"
proof -
  note c = left_comments_loop [of "skip_whitespace lx"]
  show "left (snd l) \<le> left lx" using c left_skip_whitespace [of lx] unfolding l_def by linarith
  assume tok: "lx_current (snd l) \<noteq> EOF \<or> \<not> fst l"
  then have "left (snd l) < left (skip_whitespace lx) \<or> lx_current (skip_whitespace lx) \<noteq> EOF"
    using c unfolding l_def by (auto simp: EOF_def)
  then show "left (snd l) < left lx"
    using c left_skip_whitespace [of lx] skip_whitespace_EOF [of lx] unfolding l_def by linarith
qed

lemma scan_eq:
  "scan lx = (let b = (if chars_read_total (lx_position lx) = 0 then skip_bom lx else (True, lx));
      l = comments_loop (skip_whitespace (snd b))
    in if \<not> fst b then (parse_error, lx_fail ''invalid BOM; must be 0xEF 0xBB 0xBF if given'' (snd b))
       else if fst l then scan_token (snd l) else (parse_error, snd l))"
  unfolding scan_def Let_def by (simp split: prod.split bool.split)

text \<open>Every token but the end of the input uses up at least one character.\<close>

lemma scan_progress: "left (snd (scan lx)) \<le> left lx" "fst (scan lx) \<noteq> end_of_input \<Longrightarrow> left (snd (scan lx)) < left lx"
proof -
  define b where "b = (if chars_read_total (lx_position lx) = 0 then skip_bom lx else (True, lx))"
  define l where "l = comments_loop (skip_whitespace (snd b))"
  have b: "left (snd b) \<le> left lx" "\<not> fst b \<Longrightarrow> left (snd b) < left lx"
    using left_skip_bom [of lx] by (auto simp: b_def split: if_splits)
  note c = left_scan_tail [of "snd b", folded l_def]
  have t: "left (snd (scan_token (snd l))) \<le> left (snd l)" by (rule left_scan_token)
  have eq: "scan lx = (if \<not> fst b then (parse_error, lx_fail ''invalid BOM; must be 0xEF 0xBB 0xBF if given'' (snd b))
       else if fst l then scan_token (snd l) else (parse_error, snd l))"
    unfolding scan_eq Let_def b_def [symmetric] l_def [symmetric] ..
  show "left (snd (scan lx)) \<le> left lx" unfolding eq using b(1) c(1) t by auto
  assume tok: "fst (scan lx) \<noteq> end_of_input"
  consider "\<not> fst b" | "fst b" "\<not> fst l" | "fst b" "fst l" by blast
  then show "left (snd (scan lx)) < left lx"
  proof cases
    case 3
    then have "lx_current (snd l) \<noteq> EOF" using tok scan_token_EOF [of "snd l"] eq by auto
    with c(2) b(1) t 3 show ?thesis unfolding eq by simp
  qed (use b c in \<open>simp_all add: eq\<close>)
qed

end
