(* ===== verification/JsonReading.thy ===== *)
theory JsonReading
  imports JsonLexer
begin

text \<open>
  What the scanner makes of well-formed text (\<^verbatim>\<open>external/json.hpp\<close>, class \<^verbatim>\<open>lexer\<close>): the spellings of
  strings and numbers as a reference grammar, and for each kind of token the lemma that the scanner,
  put before white space, the token and other input, returns that token with its value and stops
  right after it.
\<close>

section \<open>What is left to read\<close>

definition pending :: "lexer \<Rightarrow> string \<Rightarrow> bool" where
  "pending lx cs \<longleftrightarrow> lx_decimal_point_char lx = 0x2E \<and>
     (if lx_next_unget lx
      then (case cs of [] \<Rightarrow> lx_current lx = EOF \<and> lx_ia lx = [] | c # r \<Rightarrow> lx_current lx = of_char c \<and> lx_ia lx = r)
      else lx_ia lx = cs)"

text \<open>A character has just been read.\<close>

definition has_read :: "lexer \<Rightarrow> int \<Rightarrow> string \<Rightarrow> bool" where
  "has_read lx c cs \<longleftrightarrow> lx_current lx = c \<and> \<not> lx_next_unget lx \<and> pending lx cs \<and> 0 < chars_read_total (lx_position lx)"

abbreviation started :: "lexer \<Rightarrow> bool" where
  "started lx \<equiv> 0 < chars_read_total (lx_position lx)"

lemma of_char_not_EOF [simp]: "(of_char c :: int) \<noteq> EOF" "EOF \<noteq> of_char c"
  by (simp_all add: EOF_def of_char_def)

lemma has_read_pending: "has_read lx c cs \<Longrightarrow> pending lx cs" "has_read lx c cs \<Longrightarrow> started lx" "has_read lx c cs \<Longrightarrow> lx_current lx = c"
  by (simp_all add: has_read_def)

lemma pending_get: "pending lx (c # r) \<Longrightarrow> has_read (lx_get lx) (of_char c) r"
  by (auto simp: pending_def has_read_def get_fields get_character_def split: if_splits)

lemma pending_get_end: "pending lx [] \<Longrightarrow> has_read (lx_get lx) EOF []"
  by (auto simp: pending_def has_read_def get_fields get_character_def split: if_splits)

lemma pending_unget: "pending lx cs \<Longrightarrow> pending (lx_unget (lx_get lx)) cs"
  by (cases cs) (auto simp: pending_def get_fields unget_fields get_character_def split: if_splits)

lemma started_unget: "chars_read_total (lx_position (lx_unget (lx_get lx))) = chars_read_total (lx_position lx)"
  by (simp add: get_fields unget_fields)

lemma started_get [simp]: "started (lx_get lx)"
  by (simp add: get_fields)

lemma pending_simps [simp]:
  "pending (lx_add c lx) cs = pending lx cs" "pending (lx_reset lx) cs = pending lx cs"
  "chars_read_total (lx_position (lx_add c lx)) = chars_read_total (lx_position lx)"
  "chars_read_total (lx_position (lx_reset lx)) = chars_read_total (lx_position lx)"
  "lx_token_buffer (lx_add c lx) = lx_token_buffer lx @ [char_of c]" "lx_token_buffer (lx_reset lx) = []"
  "lx_ignore_comments (lx_add c lx) = lx_ignore_comments lx" "lx_ignore_comments (lx_reset lx) = lx_ignore_comments lx"
  by (simp_all add: pending_def lx_add_def lx_reset_def split: list.split)

lemma has_read_simps [simp]:
  "has_read (lx_add d lx) c cs = has_read lx c cs" "has_read (lx_reset lx) c cs = has_read lx c cs"
  by (simp_all add: has_read_def) (simp_all add: lx_add_def lx_reset_def)

section \<open>White space\<close>

definition white :: "string \<Rightarrow> bool" where
  "white w \<longleftrightarrow> list_all (\<lambda>c. is_whitespace (of_char c)) w"

lemma white_simps [simp]: "white []" "white (c # w) \<longleftrightarrow> is_whitespace (of_char c) \<and> white w"
  "white (v @ w) \<longleftrightarrow> white v \<and> white w"
  by (simp_all add: white_def)

text \<open>The character after white space, \<open>EOF\<close> if there is none.\<close>

fun next_char :: "string \<Rightarrow> int \<times> string" where
  "next_char [] = (EOF, [])"
| "next_char (c # r) = (of_char c, r)"

lemma pending_get_next: "pending lx cs \<Longrightarrow> has_read (lx_get lx) (fst (next_char cs)) (snd (next_char cs))"
  by (cases cs) (simp_all add: pending_get pending_get_end)

lemma skip_whitespace_reads:
  "pending lx (w @ cs) \<Longrightarrow> white w \<Longrightarrow> \<not> is_whitespace (fst (next_char cs)) \<Longrightarrow>
   has_read (skip_whitespace lx) (fst (next_char cs)) (snd (next_char cs))
   \<and> lx_ignore_comments (skip_whitespace lx) = lx_ignore_comments lx"
proof (induction w arbitrary: lx)
  case Nil
  then have "has_read (lx_get lx) (fst (next_char cs)) (snd (next_char cs))" by (simp add: pending_get_next)
  moreover have "lx_current (lx_get lx) = fst (next_char cs)" using calculation by (simp add: has_read_def)
  ultimately show ?case using Nil(3) by (simp add: skip_whitespace.simps [of lx] Let_def get_fields)
next
  case (Cons c w)
  then have g: "has_read (lx_get lx) (of_char c) (w @ cs)" by (simp add: pending_get)
  then have "is_whitespace (lx_current (lx_get lx))" using Cons(3) by (simp add: has_read_def)
  with Cons.IH [OF has_read_pending(1) [OF g]] Cons(3,4) show ?case
    by (simp add: skip_whitespace.simps [of lx] Let_def get_fields)
qed

text \<open>At the start of a token: before the first, no byte order mark begins.\<close>

definition before_token :: "lexer \<Rightarrow> string \<Rightarrow> bool" where
  "before_token lx cs \<longleftrightarrow> pending lx cs \<and> (started lx \<or> fst (next_char cs) \<noteq> 0xEF)"

lemma skip_bom_none:
  assumes "pending lx cs" and "fst (next_char cs) \<noteq> 0xEF"
  shows "skip_bom lx = (True, lx_unget (lx_get lx))"
  using has_read_pending(3) [OF pending_get_next [OF assms(1)]] assms(2) by (simp add: skip_bom_def Let_def)

text \<open>So the scanner decides on the first character after the white space; \<^verbatim>\<open>/\<close> begins no token.\<close>

lemma scan_first:
  assumes "before_token lx (w @ cs)" and "white w" and "\<not> is_whitespace (fst (next_char cs))" and "fst (next_char cs) \<noteq> 0x2F"
  shows "\<exists>lx'. scan lx = scan_token lx' \<and> has_read lx' (fst (next_char cs)) (snd (next_char cs))"
proof -
  define l where "l = snd (if chars_read_total (lx_position lx) = 0 then skip_bom lx else (True, lx))"
  have b: "pending lx (w @ cs)" "started lx \<or> fst (next_char (w @ cs)) \<noteq> 0xEF" using assms(1) by (simp_all add: before_token_def)
  have "fst (if chars_read_total (lx_position lx) = 0 then skip_bom lx else (True, lx)) \<and> pending l (w @ cs)"
    using b skip_bom_none [OF b(1)] pending_unget [OF b(1)] by (auto simp: l_def)
  moreover from this have r: "has_read (skip_whitespace l) (fst (next_char cs)) (snd (next_char cs))"
    using skip_whitespace_reads assms(2,3) by blast
  then have "comments_loop (skip_whitespace l) = (True, skip_whitespace l)"
    using assms(4) by (simp add: comments_loop.simps has_read_def)
  ultimately have "scan lx = scan_token (skip_whitespace l)" by (simp add: scan_eq l_def [symmetric] Let_def)
  with r show ?thesis by blast
qed

section \<open>Punctuation and literals\<close>

lemma scan_end:
  assumes "before_token lx w" and "white w"
  shows "fst (scan lx) = end_of_input"
  using scan_first [of lx w "[]"] assms scan_token_EOF
  by (auto simp: EOF_def is_whitespace_def has_read_def)

definition punctuation :: "char \<Rightarrow> token_type option" where
  "punctuation c = map_of [(CHR ''['', begin_array), (CHR '']'', end_array), (CHR ''{'', begin_object),
     (CHR ''}'', end_object), (CHR '':'', name_separator), (CHR '','', value_separator)] c"

lemma scan_punctuation:
  assumes "before_token lx (w @ c # cs)" and "white w" and "punctuation c = Some t"
  shows "\<exists>lx'. scan lx = (t, lx') \<and> pending lx' cs \<and> started lx'"
proof -
  have "\<not> is_whitespace (of_char c)" "of_char c \<noteq> (0x2F :: int)"
    using assms(3) by (auto simp: punctuation_def is_whitespace_def split: if_splits)
  then obtain lx' where "scan lx = scan_token lx'" "has_read lx' (of_char c) cs"
    using scan_first [OF assms(1,2)] by auto
  with assms(3) show ?thesis
    by (auto simp: punctuation_def scan_token_def has_read_def split: if_splits)
qed

definition literals :: "(string \<times> token_type) list" where
  "literals = [(''true'', literal_true), (''false'', literal_false), (''null'', literal_null)]"

lemma literal_loop_reads:
  "pending lx (cs @ rest) \<Longrightarrow> started lx \<Longrightarrow> \<exists>lx'. literal_loop cs t lx = (t, lx') \<and> pending lx' rest \<and> started lx'"
proof (induction cs arbitrary: lx)
  case (Cons c cs)
  have g: "has_read (lx_get lx) (of_char c) (cs @ rest)" using Cons(2) by (simp add: pending_get)
  then have "lx_current (lx_get lx) = of_char c" by (simp add: has_read_def)
  with Cons.IH [OF has_read_pending(1) [OF g] started_get] show ?case by (simp add: Let_def)
qed simp

lemma scan_literals:
  assumes "before_token lx (w @ l @ rest)" and "white w" and "(l, t) \<in> set literals"
  shows "\<exists>lx'. scan lx = (t, lx') \<and> pending lx' rest \<and> started lx'"
proof -
  obtain c cs where l: "l = c # cs" "c \<in> {CHR ''t'', CHR ''f'', CHR ''n''}" using assms(3) by (auto simp: literals_def)
  then have "\<not> is_whitespace (of_char c)" "of_char c \<noteq> (0x2F :: int)" by (auto simp: is_whitespace_def)
  then obtain lx' where lx': "scan lx = scan_token lx'" "has_read lx' (of_char c) (cs @ rest)"
    using scan_first [of lx w "l @ rest"] assms(1,2) l(1) by auto
  from lx'(2) have "pending lx' (cs @ rest)" "started lx'" "lx_current lx' = of_char c" by (simp_all add: has_read_def)
  moreover from this literal_loop_reads have "\<exists>l'. literal_loop cs t lx' = (t, l') \<and> pending l' rest \<and> started l'" by blast
  ultimately show ?thesis using lx'(1) l(1) assms(3)
    by (auto simp: scan_token_def scan_literal_def literals_def)
qed

section \<open>Strings\<close>

text \<open>The unit of a string: some bytes and how they are spelled between the quotation marks. The characters
  that may stand for themselves, the two-character escapes, \<^verbatim>\<open>\u\<close> with four hexadecimal digits, a pair of
  those for a code point beyond U+FFFF, and well-formed UTF-8 sequences.\<close>

definition simple_escapes :: "(char \<times> char) list" where
  "simple_escapes = [(CHR 0x22, CHR 0x22), (CHR 0x5C, CHR 0x5C), (CHR ''/'', CHR ''/''), (CHR 0x08, CHR ''b''),
     (CHR 0x0C, CHR ''f''), (CHR 0x0A, CHR ''n''), (CHR 0x0D, CHR ''r''), (CHR 0x09, CHR ''t'')]"

fun hex_number :: "nat list \<Rightarrow> string \<Rightarrow> int option" where
  "hex_number [] [] = Some 0"
| "hex_number (f # fs) (c # cs) = (case (hex_value (of_char c), hex_number fs cs) of
     (Some d, Some n) \<Rightarrow> Some (push_bit f d + n) | _ \<Rightarrow> None)"
| "hex_number _ _ = None"

abbreviation hex4_number :: "string \<Rightarrow> int option" where
  "hex4_number \<equiv> hex_number [12, 8, 4, 0]"

fun in_ranges :: "(int \<times> int) list \<Rightarrow> string \<Rightarrow> bool" where
  "in_ranges [] [] = True"
| "in_ranges (r # rs) (c # cs) \<longleftrightarrow> fst r \<le> of_char c \<and> of_char c \<le> snd r \<and> in_ranges rs cs"
| "in_ranges _ _ = False"

definition surrogate :: "int \<Rightarrow> bool" where
  "surrogate cp \<longleftrightarrow> 0xD800 \<le> cp \<and> cp \<le> 0xDFFF"

inductive string_unit :: "string \<Rightarrow> string \<Rightarrow> bool" where
  plain: "plain_ascii (of_char c) \<Longrightarrow> string_unit [c] [c]"
| escape: "(c, e) \<in> set simple_escapes \<Longrightarrow> string_unit [c] [CHR 0x5C, e]"
| unicode: "hex4_number h = Some cp \<Longrightarrow> \<not> surrogate cp \<Longrightarrow>
    string_unit (map char_of (utf8_encode cp)) (CHR 0x5C # CHR ''u'' # h)"
| pair: "hex4_number h1 = Some hi \<Longrightarrow> 0xD800 \<le> hi \<Longrightarrow> hi \<le> 0xDBFF \<Longrightarrow>
    hex4_number h2 = Some lo \<Longrightarrow> 0xDC00 \<le> lo \<Longrightarrow> lo \<le> 0xDFFF \<Longrightarrow>
    string_unit (map char_of (utf8_encode (push_bit 10 hi + lo - 0x35FDC00)))
      (CHR 0x5C # CHR ''u'' # h1 @ CHR 0x5C # CHR ''u'' # h2)"
| sequence: "utf8_ranges (of_char c) = Some rs \<Longrightarrow> in_ranges rs bs \<Longrightarrow> string_unit (c # bs) (c # bs)"

inductive string_text :: "string \<Rightarrow> string \<Rightarrow> bool" where
  empty: "string_text [] []"
| unit: "string_unit b u \<Longrightarrow> string_text s t \<Longrightarrow> string_text (b @ s) (u @ t)"

subsection \<open>Reading them\<close>

lemma hex_value_nonneg: "hex_value c = Some d \<Longrightarrow> 0 \<le> d"
  by (auto simp: hex_value_def split: if_splits)

lemma hex_number_nonneg: "hex_number fs h = Some n \<Longrightarrow> 0 \<le> n"
  by (induction fs h arbitrary: n rule: hex_number.induct) (auto dest: hex_value_nonneg split: option.splits)

lemma codepoint_digits_reads:
  "pending lx (h @ rest) \<Longrightarrow> started lx \<Longrightarrow> hex_number fs h = Some n \<Longrightarrow>
   \<exists>lx'. codepoint_digits fs cp lx = (cp + n, lx') \<and> pending lx' rest \<and> started lx' \<and> lx_token_buffer lx' = lx_token_buffer lx"
proof (induction fs h arbitrary: lx cp n rule: hex_number.induct)
  case (2 f fs c cs)
  from 2(4) obtain d m where d: "hex_value (of_char c) = Some d" "hex_number fs cs = Some m" "n = push_bit f d + m"
    by (auto split: option.splits)
  have g: "has_read (lx_get lx) (of_char c) (cs @ rest)" using 2(2) by (simp add: pending_get)
  then have "lx_current (lx_get lx) = of_char c" by (simp add: has_read_def)
  with d 2(1) [OF has_read_pending(1) [OF g] started_get d(2), of "cp + push_bit f d"] show ?case
    by (simp add: get_fields ac_simps)
qed auto

lemma get_codepoint_reads:
  assumes "pending lx (h @ rest)" and "started lx" and "hex4_number h = Some n"
  obtains lx' where "get_codepoint lx = (n, lx')" "pending lx' rest" "started lx'" "lx_token_buffer lx' = lx_token_buffer lx" "0 \<le> n"
  using codepoint_digits_reads [OF assms, of 0] hex_number_nonneg [OF assms(3)] that by (auto simp: get_codepoint_def)

lemma add_all_reads [simp]:
  "pending (lx_add_all cs lx) r = pending lx r" "lx_token_buffer (lx_add_all cs lx) = lx_token_buffer lx @ map char_of cs"
  "chars_read_total (lx_position (lx_add_all cs lx)) = chars_read_total (lx_position lx)"
  unfolding lx_add_all_def by (induction cs arbitrary: lx) simp_all

lemma ranges_loop_reads:
  "pending lx (bs @ rest) \<Longrightarrow> started lx \<Longrightarrow> in_ranges rs bs \<Longrightarrow>
   \<exists>lx'. ranges_loop rs lx = (True, lx') \<and> pending lx' rest \<and> started lx' \<and> lx_token_buffer lx' = lx_token_buffer lx @ bs"
proof (induction rs bs arbitrary: lx rule: in_ranges.induct)
  case (2 r rs c cs)
  have g: "has_read (lx_get lx) (of_char c) (cs @ rest)" using 2(2) by (simp add: pending_get)
  let ?l = "lx_add (of_char c) (lx_get lx)"
  have "lx_current (lx_get lx) = of_char c" using g by (simp add: has_read_def)
  moreover have "\<exists>lx'. ranges_loop rs ?l = (True, lx') \<and> pending lx' rest \<and> started lx' \<and> lx_token_buffer lx' = lx_token_buffer ?l @ cs"
    using 2(1) [of ?l] g 2(4) by (simp add: has_read_def)
  ultimately show ?case using 2(4) by (simp add: Let_def get_fields)
qed auto

text \<open>The two forms of the escape \<^verbatim>\<open>\u\<close>, after the \<^verbatim>\<open>u\<close>.\<close>

lemma unicode_reads:
  assumes "pending lx (h @ rest)" and "started lx" and "hex4_number h = Some cp" and "\<not> surrogate cp"
  shows "\<exists>lx'. scan_unicode_escape lx = (True, lx') \<and> pending lx' rest \<and> started lx'
    \<and> lx_token_buffer lx' = lx_token_buffer lx @ map char_of (utf8_encode cp)"
proof -
  have range: "\<not> (0xD800 \<le> cp \<and> cp \<le> 0xDBFF)" "\<not> (0xDC00 \<le> cp \<and> cp \<le> 0xDFFF)" using assms(4) by (auto simp: surrogate_def)
  show ?thesis by (rule get_codepoint_reads [OF assms(1-3)]) (simp add: scan_unicode_escape_def range)
qed

lemma pair_reads:
  assumes "pending lx (h1 @ CHR 0x5C # CHR ''u'' # h2 @ rest)" and "started lx"
    and "hex4_number h1 = Some hi" "0xD800 \<le> hi" "hi \<le> 0xDBFF" and "hex4_number h2 = Some lo" "0xDC00 \<le> lo" "lo \<le> 0xDFFF"
  shows "\<exists>lx'. scan_unicode_escape lx = (True, lx') \<and> pending lx' rest \<and> started lx'
    \<and> lx_token_buffer lx' = lx_token_buffer lx @ map char_of (utf8_encode (push_bit 10 hi + lo - 0x35FDC00))"
proof (rule get_codepoint_reads [OF assms(1-3)])
  fix l1
  assume l1: "get_codepoint lx = (hi, l1)" "pending l1 (CHR 0x5C # CHR ''u'' # h2 @ rest)" "lx_token_buffer l1 = lx_token_buffer lx"
  note g1 = pending_get [OF l1(2)]
  note g2 = pending_get [OF has_read_pending(1) [OF g1]]
  have cur: "lx_current (lx_get l1) = 0x5C" "lx_current (lx_get (lx_get l1)) = 0x75"
    using g1 g2 by (simp_all add: has_read_def)
  show ?thesis
  proof (rule get_codepoint_reads [OF has_read_pending(1) [OF g2] started_get assms(6)])
    fix l2
    assume "get_codepoint (lx_get (lx_get l1)) = (lo, l2)" "pending l2 rest" "started l2"
      "lx_token_buffer l2 = lx_token_buffer (lx_get (lx_get l1))"
    with l1 cur assms(4,5,7,8) show ?thesis by (simp add: scan_unicode_escape_def Let_def get_fields)
  qed
qed

lemma escape_reads:
  assumes "scan_escape (lx_get lx) = (True, lx')" and "has_read (lx_get lx) 0x5C r"
  shows "scan_string_loop lx = scan_string_loop lx'"
  using assms by (simp add: scan_string_loop.simps [of lx] has_read_def EOF_def)

lemma unit_reads:
  assumes "string_unit b u" and "pending lx (u @ r)"
  shows "\<exists>lx'. scan_string_loop lx = scan_string_loop lx' \<and> pending lx' r \<and> started lx' \<and> lx_token_buffer lx' = lx_token_buffer lx @ b"
  using assms
proof cases
  case (plain c)
  then have g: "has_read (lx_get lx) (of_char c) r" using assms(2) by (simp add: pending_get)
  with plain show ?thesis
    by (intro exI [of _ "lx_add (of_char c) (lx_get lx)"])
      (auto simp: scan_string_loop.simps [of lx] Let_def has_read_def plain_ascii_def get_fields)
next
  case (escape c e)
  then have g: "has_read (lx_get lx) 0x5C (e # r)" using assms(2) pending_get [of lx "CHR 0x5C"] by simp
  note g2 = pending_get [OF has_read_pending(1) [OF g]]
  have "scan_escape (lx_get lx) = (True, lx_add (of_char c) (lx_get (lx_get lx)))"
    using g2 escape(3) by (auto simp: scan_escape_def has_read_def simple_escapes_def)
  from escape_reads [OF this g] g2 escape show ?thesis
    by (intro exI [of _ "lx_add (of_char c) (lx_get (lx_get lx))"]) (simp add: has_read_def get_fields)
next
  case (unicode h cp)
  then have g: "has_read (lx_get lx) 0x5C (CHR ''u'' # h @ r)" using assms(2) pending_get [of lx "CHR 0x5C"] by simp
  note g2 = pending_get [OF has_read_pending(1) [OF g]]
  obtain lx' where lx': "scan_unicode_escape (lx_get (lx_get lx)) = (True, lx')" "pending lx' r" "started lx'"
      "lx_token_buffer lx' = lx_token_buffer (lx_get (lx_get lx)) @ map char_of (utf8_encode cp)"
    using unicode_reads [OF has_read_pending(1) [OF g2] started_get unicode(3,4)] by blast
  have "scan_escape (lx_get lx) = (True, lx')" using g2 lx'(1) by (simp add: scan_escape_def has_read_def)
  from escape_reads [OF this g] lx' unicode show ?thesis by (auto simp: get_fields)
next
  case (pair h1 hi h2 lo)
  then have g: "has_read (lx_get lx) 0x5C (CHR ''u'' # h1 @ CHR 0x5C # CHR ''u'' # h2 @ r)"
    using assms(2) pending_get [of lx "CHR 0x5C"] by simp
  note g2 = pending_get [OF has_read_pending(1) [OF g]]
  obtain lx' where lx': "scan_unicode_escape (lx_get (lx_get lx)) = (True, lx')" "pending lx' r" "started lx'"
      "lx_token_buffer lx' = lx_token_buffer (lx_get (lx_get lx)) @ map char_of (utf8_encode (push_bit 10 hi + lo - 0x35FDC00))"
    using pair_reads [OF has_read_pending(1) [OF g2] started_get pair(3-8)] by blast
  have "scan_escape (lx_get lx) = (True, lx')" using g2 lx'(1) by (simp add: scan_escape_def has_read_def)
  from escape_reads [OF this g] lx' pair show ?thesis by (auto simp: get_fields)
next
  case (sequence c rs bs)
  then have g: "has_read (lx_get lx) (of_char c) (bs @ r)" using assms(2) by (simp add: pending_get)
  let ?l = "lx_add (of_char c) (lx_get lx)"
  obtain lx' where lx': "ranges_loop rs ?l = (True, lx')" "pending lx' r" "started lx'"
      "lx_token_buffer lx' = lx_token_buffer ?l @ bs"
    using ranges_loop_reads [of ?l bs r rs] g sequence(4) by (auto simp: has_read_def)
  have "0xC2 \<le> (of_char c :: int)" using sequence(3) by (auto simp: utf8_ranges_def split: if_splits)
  then have "scan_string_loop lx = scan_string_loop lx'"
    using g lx'(1) sequence(3)
    by (simp add: scan_string_loop.simps [of lx] Let_def has_read_def EOF_def plain_ascii_def next_byte_in_range_def)
  with lx' sequence show ?thesis by (auto simp: get_fields)
qed

lemma string_loop_reads:
  "string_text s t \<Longrightarrow> pending lx (t @ CHR 0x22 # rest) \<Longrightarrow>
   \<exists>lx'. scan_string_loop lx = (value_string, lx') \<and> pending lx' rest \<and> started lx' \<and> lx_token_buffer lx' = lx_token_buffer lx @ s"
proof (induction s t arbitrary: lx rule: string_text.induct)
  case empty
  then have "has_read (lx_get lx) 0x22 rest" using pending_get [of lx "CHR 0x22"] by simp
  then show ?case by (simp add: scan_string_loop.simps [of lx] has_read_def EOF_def get_fields)
next
  case (unit b u s t)
  then have "pending lx (u @ t @ CHR 0x22 # rest)" by simp
  from unit_reads [OF unit(1) this] obtain l where l: "scan_string_loop lx = scan_string_loop l"
      "pending l (t @ CHR 0x22 # rest)" "lx_token_buffer l = lx_token_buffer lx @ b" by blast
  from unit.IH [OF l(2)] l show ?case by auto
qed

lemma scan_strings:
  assumes "before_token lx (w @ CHR 0x22 # t @ CHR 0x22 # rest)" and "white w" and "string_text s t"
  shows "\<exists>lx'. scan lx = (value_string, lx') \<and> pending lx' rest \<and> started lx' \<and> lx_token_buffer lx' = s"
proof -
  obtain lx' where "scan lx = scan_token lx'" "has_read lx' 0x22 (t @ CHR 0x22 # rest)"
    using scan_first [OF assms(1,2)] by (auto simp: is_whitespace_def)
  moreover from this string_loop_reads [OF assms(3), of "lx_reset lx'"]
  have "\<exists>l. scan_string_loop (lx_reset lx') = (value_string, l) \<and> pending l rest \<and> started l \<and> lx_token_buffer l = s"
    by (simp add: has_read_def)
  ultimately show ?thesis by (auto simp: scan_token_def scan_string_def has_read_def)
qed

section \<open>Numbers\<close>

text \<open>The grammar of numbers: an integer without superfluous zeros, a fraction and an exponent.\<close>

definition digits :: "string \<Rightarrow> bool" where
  "digits ds \<longleftrightarrow> ds \<noteq> [] \<and> list_all is_digit ds"

definition integer_text :: "string \<Rightarrow> bool" where
  "integer_text i \<longleftrightarrow> i = ''0'' \<or> digits i \<and> hd i \<noteq> CHR ''0''"

definition fraction_text :: "string \<Rightarrow> bool" where
  "fraction_text f \<longleftrightarrow> f = [] \<or> (\<exists>ds. f = CHR ''.'' # ds \<and> digits ds)"

definition exponent_text :: "string \<Rightarrow> bool" where
  "exponent_text e \<longleftrightarrow> e = [] \<or> (\<exists>m s ds. e = m # s @ ds \<and> m \<in> {CHR ''e'', CHR ''E''} \<and> s \<in> {[], ''+'', ''-''} \<and> digits ds)"

text \<open>The type a number has by its spelling; its value, an integer if that fits its 64 bits.\<close>

definition number_kind :: "token_type \<Rightarrow> string \<Rightarrow> string \<Rightarrow> token_type" where
  "number_kind nt f e = (if f = [] \<and> e = [] then nt else value_float)"

inductive number_text :: "token_type \<Rightarrow> string \<Rightarrow> bool" where
  positive: "integer_text i \<Longrightarrow> fraction_text f \<Longrightarrow> exponent_text e \<Longrightarrow> number_text (number_kind value_unsigned f e) (i @ f @ e)"
| negative: "integer_text i \<Longrightarrow> fraction_text f \<Longrightarrow> exponent_text e \<Longrightarrow>
    number_text (number_kind value_integer f e) (CHR ''-'' # i @ f @ e)"

definition number_json :: "token_type \<Rightarrow> string \<Rightarrow> json" where
  "number_json nt t =
     (if nt = value_unsigned then (case strtoull t of Some n \<Rightarrow> JUnsigned n | None \<Rightarrow> JFloat (strtod t))
      else if nt = value_integer then (case strtoll t of Some i \<Rightarrow> JInteger i | None \<Rightarrow> JFloat (strtod t))
      else JFloat (strtod t))"

definition number_ends :: "string \<Rightarrow> bool" where
  "number_ends rest \<longleftrightarrow> \<not> is_0_9 (fst (next_char rest)) \<and> fst (next_char rest) \<noteq> 0x2E \<and> \<not> is_e (fst (next_char rest))"

subsection \<open>Reading them\<close>

definition number_run :: "number_label \<Rightarrow> token_type \<Rightarrow> lexer \<Rightarrow> string \<Rightarrow> token_type \<Rightarrow> string \<Rightarrow> bool" where
  "number_run l nt lx t nt' rest \<longleftrightarrow> (\<exists>lx'. scan_number_loop l nt lx = number_done nt' (lx_get lx') \<and> pending lx' rest
     \<and> started lx' \<and> lx_token_buffer lx' = lx_token_buffer lx @ t)"

lemma is_0_9_of_char: "is_0_9 (of_char c) \<longleftrightarrow> is_digit c"
proof -
  have "(of_char c :: int) = int (of_char c)" by (simp add: of_char_def)
  then show ?thesis by (simp add: is_0_9_def is_digit_def)
qed

lemma run_step:
  assumes "number_label_code l nt lx = Goto l' nt1 (lx_add (of_char c) (lx_get lx))" and "l \<noteq> N_done" and "l' \<noteq> N_done"
    and "number_run l' nt1 (lx_add (of_char c) (lx_get lx)) t nt' rest"
  shows "number_run l nt lx (c # t) nt' rest"
  using assms by (auto simp: number_run_def scan_number_loop.simps [of l] get_fields)

lemma run_stop:
  assumes "number_label_code l nt lx = Goto N_done nt (lx_get lx)" and "l \<noteq> N_done" and "pending lx rest" and "started lx"
  shows "number_run l nt lx [] nt rest"
  using assms by (auto simp: number_run_def scan_number_loop.simps [of l])

lemma pending_cur: "pending lx cs \<Longrightarrow> lx_current (lx_get lx) = fst (next_char cs)"
  using has_read_pending(3) [OF pending_get_next] by blast

lemma pending_got: "pending lx (c # r) \<Longrightarrow> pending (lx_get lx) r"
  using has_read_pending(1) [OF pending_get] .

lemma pending_point: "pending lx cs \<Longrightarrow> lx_decimal_point_char (lx_get lx) = 0x2E"
  by (simp add: pending_def get_fields)

lemmas number_step_simps = number_label_defs Let_def add_current_def pending_cur is_0_9_of_char

lemma any2_run:
  "pending lx (ds @ rest) \<Longrightarrow> started lx \<Longrightarrow> list_all is_digit ds \<Longrightarrow> \<not> is_0_9 (fst (next_char rest)) \<Longrightarrow> number_run N_any2 nt lx ds nt rest"
proof (induction ds arbitrary: lx)
  case Nil
  then show ?case by (intro run_stop) (simp_all add: number_step_simps)
next
  case (Cons d ds)
  have "number_run N_any2 nt (lx_add (of_char d) (lx_get lx)) ds nt rest"
    using Cons(2-) pending_got [of lx d] by (intro Cons.IH) auto
  from run_step [OF _ _ _ this, of N_any2 nt] Cons(2,4) show ?case by (simp add: number_step_simps)
qed

lemma exponent_run:
  assumes "pending lx (s @ ds @ rest)" and "started lx" and "s \<in> {[], ''+'', ''-''}" and "digits ds" and "number_ends rest"
  shows "number_run N_exponent nt lx (s @ ds) value_float rest"
proof -
  obtain d ds' where ds: "ds = d # ds'" "is_digit d" "list_all is_digit ds'" using assms(4) by (cases ds) (auto simp: digits_def)
  have any2: "number_run N_any2 value_float (lx_add (of_char d) (lx_get l)) ds' value_float rest"
    if "pending l (d # ds' @ rest)" for l
    using that ds(3) assms(5) by (intro any2_run) (simp_all add: pending_got number_ends_def)
  have "is_0_9 (of_char d)" using ds(2) by (simp add: is_0_9_of_char)
  then have dig: "\<not> (of_char d = (0x2B :: int) \<or> of_char d = (0x2D :: int))" by (auto simp: is_0_9_def)
  consider "s = []" | c where "s = [c]" "c \<in> {CHR ''+'', CHR ''-''}" using assms(3) by auto
  then show ?thesis
  proof cases
    case 1
    with assms(1) ds(1) have p: "pending lx (d # ds' @ rest)" by simp
    from 1 ds(1) show ?thesis
      using run_step [of N_exponent nt lx N_any2 value_float d ds', OF _ _ _ any2 [OF p]] p dig ds(2)
      by (simp add: number_step_simps)
  next
    case 2
    let ?l = "lx_add (of_char c) (lx_get lx)"
    from 2 assms(1) ds(1) have p: "pending lx (c # d # ds' @ rest)" by simp
    then have q: "pending ?l (d # ds' @ rest)" by (simp add: pending_got)
    have "number_run N_sign value_float ?l (d # ds') value_float rest"
      using q ds(2) by (intro run_step [OF _ _ _ any2 [OF q]]) (simp_all add: number_step_simps)
    from run_step [OF _ _ _ this, of N_exponent nt] 2 ds(1) p show ?thesis by (auto simp: number_step_simps)
  qed
qed

text \<open>An exponent part, if any, at the end.\<close>

lemma exponent_part_run:
  assumes "pending lx (e @ rest)" and "started lx" and "exponent_text e" and "number_ends rest"
    and "l \<in> {N_zero, N_any1, N_decimal2}"
  shows "number_run l nt lx e (if e = [] then nt else value_float) rest"
proof (cases "e = []")
  case True
  with assms(1,4,5) have "number_label_code l nt lx = Goto N_done nt (lx_get lx)"
    by (auto simp: number_step_simps number_ends_def)
  with True assms show ?thesis by (auto intro: run_stop)
next
  case False
  with assms(3) obtain m s ds where e: "e = m # s @ ds" "m \<in> {CHR ''e'', CHR ''E''}" "s \<in> {[], ''+'', ''-''}" "digits ds"
    by (auto simp: exponent_text_def)
  then have p: "pending lx (m # s @ ds @ rest)" using assms(1) by simp
  then have "number_run N_exponent nt (lx_add (of_char m) (lx_get lx)) (s @ ds) value_float rest"
    using e assms(4) by (intro exponent_run) (simp_all add: pending_got)
  moreover have "number_label_code l nt lx = Goto N_exponent nt (lx_add (of_char m) (lx_get lx))"
    using assms(5) pending_cur [OF p] e(2)
    by (auto simp: number_label_defs Let_def add_current_def is_e_def is_0_9_def)
  ultimately have "number_run l nt lx (m # s @ ds) value_float rest" using assms(5) by (intro run_step) auto
  with e(1) show ?thesis by simp
qed

lemma decimal2_run:
  "pending lx (ds @ e @ rest) \<Longrightarrow> started lx \<Longrightarrow> list_all is_digit ds \<Longrightarrow> exponent_text e \<Longrightarrow> number_ends rest \<Longrightarrow>
   number_run N_decimal2 value_float lx (ds @ e) value_float rest"
proof (induction ds arbitrary: lx)
  case Nil
  then have "number_run N_decimal2 value_float lx e (if e = [] then value_float else value_float) rest"
    by (intro exponent_part_run) simp_all
  then show ?case by simp
next
  case (Cons d ds)
  have "number_run N_decimal2 value_float (lx_add (of_char d) (lx_get lx)) (ds @ e) value_float rest"
    using Cons(2-) pending_got [of lx d] by (intro Cons.IH) auto
  from run_step [OF _ _ _ this, of N_decimal2 value_float] Cons(2,4) show ?case by (simp add: number_step_simps)
qed

text \<open>The fraction and the exponent after the integer.\<close>

lemma tail_run:
  assumes "pending lx (f @ e @ rest)" and "started lx" and "fraction_text f" and "exponent_text e" and "number_ends rest"
    and "l = N_zero \<or> l = N_any1"
  shows "number_run l nt lx (f @ e) (number_kind nt f e) rest"
proof (cases "f = []")
  case True
  then have "number_run l nt lx e (if e = [] then nt else value_float) rest"
    using assms by (intro exponent_part_run) auto
  with True show ?thesis by (simp add: number_kind_def)
next
  case False
  with assms(3) obtain d ds where f: "f = CHR ''.'' # d # ds" "is_digit d" "list_all is_digit ds"
    by (auto simp: fraction_text_def digits_def neq_Nil_conv)
  let ?l1 = "lx_add 0x2E (lx_get lx)"
  have p: "pending lx (CHR ''.'' # d # ds @ e @ rest)" using assms(1) f(1) by simp
  then have q: "pending ?l1 (d # ds @ e @ rest)" by (simp add: pending_got)
  have "number_run N_decimal2 value_float (lx_add (of_char d) (lx_get ?l1)) (ds @ e) value_float rest"
    using assms(4,5) f(3) q by (intro decimal2_run) (auto intro: pending_got)
  then have "number_run N_decimal1 nt ?l1 (d # ds @ e) value_float rest"
    using q f(2) by (intro run_step [where l' = N_decimal2]) (simp_all add: number_step_simps)
  moreover have "number_label_code l nt lx = Goto N_decimal1 nt (lx_add (of_char CHR ''.'') (lx_get lx))"
    using p assms(6) by (auto simp: number_step_simps is_0_9_def pending_point)
  ultimately have "number_run l nt lx (CHR ''.'' # d # ds @ e) value_float rest"
    using assms(6) run_step [of l nt lx N_decimal1 nt "CHR ''.''" "d # ds @ e"] by auto
  with f(1) show ?thesis by (simp add: number_kind_def)
qed

lemma any1_run:
  "pending lx (ds @ f @ e @ rest) \<Longrightarrow> started lx \<Longrightarrow> list_all is_digit ds \<Longrightarrow> fraction_text f \<Longrightarrow> exponent_text e \<Longrightarrow>
   number_ends rest \<Longrightarrow> number_run N_any1 nt lx (ds @ f @ e) (number_kind nt f e) rest"
proof (induction ds arbitrary: lx)
  case Nil
  then show ?case using tail_run by simp
next
  case (Cons d ds)
  have "number_run N_any1 nt (lx_add (of_char d) (lx_get lx)) (ds @ f @ e) (number_kind nt f e) rest"
    using Cons(2-) pending_got [of lx d] by (intro Cons.IH) auto
  from run_step [OF _ _ _ this, of N_any1 nt] Cons(2,4) show ?case by (simp add: number_step_simps)
qed

text \<open>An integer's first digit and the label it leads to.\<close>

lemma integer_run:
  assumes "integer_text (d # ds)" and "pending lx (ds @ f @ e @ rest)" and "started lx" and "fraction_text f" and "exponent_text e"
    and "number_ends rest"
  obtains l where "l \<noteq> N_done" "number_run l nt lx (ds @ f @ e) (number_kind nt f e) rest"
    "l = N_zero \<and> d = CHR ''0'' \<or> l = N_any1 \<and> is_1_9 (of_char d)"
proof (cases "d = CHR ''0''")
  case True
  with assms(1) have "ds = []" by (auto simp: integer_text_def)
  with assms True that [of N_zero] tail_run show ?thesis by simp
next
  case False
  with assms(1) have dig: "is_digit d" "list_all is_digit ds" by (auto simp: integer_text_def digits_def)
  have "of_char d \<noteq> (0x30 :: int)"
  proof
    assume "of_char d = (0x30 :: int)"
    then have "of_char d = (of_char CHR ''0'' :: int)" by simp
    with False show False by (simp only: of_char_eq_iff)
  qed
  with dig(1) have "is_1_9 (of_char d)" using is_0_9_of_char [of d] by (auto simp: is_0_9_def is_1_9_def)
  with that [of N_any1] any1_run [OF assms(2,3) dig(2) assms(4-6)] show ?thesis by simp
qed

fun token_value :: "token_type \<Rightarrow> lexer \<Rightarrow> json option" where
  "token_value value_unsigned lx = Some (JUnsigned (lx_value_unsigned lx))"
| "token_value value_integer lx = Some (JInteger (lx_value_integer lx))"
| "token_value value_float lx = Some (JFloat (lx_value_float lx))"
| "token_value _ lx = None"

lemma pending_values [simp]:
  "pending (lx\<lparr>lx_value_unsigned := n\<rparr>) cs = pending lx cs" "pending (lx\<lparr>lx_value_integer := i\<rparr>) cs = pending lx cs"
  "pending (lx\<lparr>lx_value_float := x\<rparr>) cs = pending lx cs"
  by (simp_all add: pending_def split: list.split)

lemma number_done_reads:
  assumes "pending lx rest" and "started lx" and "lx_token_buffer lx = t"
  shows "\<exists>tok lx'. number_done nt (lx_get lx) = (tok, lx') \<and> pending lx' rest \<and> started lx'
    \<and> token_value tok lx' = Some (number_json nt t)"
proof -
  have "pending (lx_unget (lx_get lx)) rest" "started (lx_unget (lx_get lx))" "lx_token_buffer (lx_unget (lx_get lx)) = t"
    using pending_unget [OF assms(1)] started_unget [of lx] assms(2,3) by (simp_all add: unget_fields get_fields)
  then show ?thesis
    by (cases "strtoull t"; cases "strtoll t") (simp_all add: number_done_def number_json_def Let_def)
qed

lemma scan_numbers:
  assumes "before_token lx (w @ t @ rest)" and "white w" and "number_text nt t" and "number_ends rest"
  shows "\<exists>tok lx'. scan lx = (tok, lx') \<and> pending lx' rest \<and> started lx' \<and> token_value tok lx' = Some (number_json nt t)"
proof -
  obtain c cs where t: "t = c # cs" and c: "c = CHR ''-'' \<or> is_digit c"
    using assms(3) by cases (auto simp: integer_text_def digits_def is_digit_def neq_Nil_conv)
  then have c': "of_char c = (0x2D :: int) \<or> is_0_9 (of_char c)" using is_0_9_of_char by auto
  then have "\<not> is_whitespace (of_char c)" "of_char c \<noteq> (0x2F :: int)" by (auto simp: is_whitespace_def is_0_9_def)
  then obtain l0 where l0: "scan lx = scan_token l0" "has_read l0 (of_char c) (cs @ rest)"
    using scan_first [of lx w "t @ rest"] assms(1,2) t by auto
  let ?l = "lx_add (of_char c) (lx_reset l0)"
  have p: "pending ?l (cs @ rest)" "started ?l" "lx_current (lx_reset l0) = of_char c" "lx_token_buffer ?l = [c]"
    using l0(2) by (simp_all add: has_read_def)
  have tok: "scan_token l0 = scan_number l0"
    using l0(2) c' by (auto simp: scan_token_def has_read_def is_0_9_def)
  have "\<exists>l nt0. number_init (lx_reset l0) = Goto l nt0 ?l \<and> l \<noteq> N_done \<and> number_run l nt0 ?l cs nt rest"
    using assms(3)
  proof cases
    case (positive i f e)
    obtain d ds where i: "i = d # ds" using positive(3) by (cases i) (auto simp: integer_text_def digits_def)
    with positive t have "d = c" "cs = ds @ f @ e" by simp_all
    moreover have int: "integer_text (d # ds)" using positive(3) i by simp
    ultimately obtain l where "l \<noteq> N_done" "number_run l value_unsigned ?l cs nt rest"
        "l = N_zero \<and> c = CHR ''0'' \<or> l = N_any1 \<and> is_1_9 (of_char c)"
      using integer_run [OF int, of ?l f e rest value_unsigned] p positive assms(4) by auto
    with p(3) show ?thesis by (intro exI [of _ l] exI [of _ value_unsigned]) (auto simp: number_init_def add_current_def is_1_9_def)
  next
    case (negative i f e)
    obtain d ds where i: "i = d # ds" using negative(3) by (cases i) (auto simp: integer_text_def digits_def)
    with negative t have cs: "c = CHR ''-''" "cs = d # ds @ f @ e" by simp_all
    have int: "integer_text (d # ds)" using negative(3) i by simp
    let ?m = "lx_add (of_char d) (lx_get ?l)"
    have q: "pending ?m (ds @ f @ e @ rest)" "started ?m" using pending_got [of ?l d] p(1) cs by (simp_all add: get_fields)
    obtain l where l: "l \<noteq> N_done" "number_run l value_integer ?m (ds @ f @ e) nt rest"
        "l = N_zero \<and> d = CHR ''0'' \<or> l = N_any1 \<and> is_1_9 (of_char d)"
      using integer_run [OF int q negative(4,5) assms(4), of value_integer] negative(1) by auto
    have "number_label_code N_minus value_unsigned ?l = Goto l value_integer ?m"
      using l(3) pending_cur [OF p(1)] cs(2) by (auto simp: number_minus_def Let_def add_current_def is_1_9_def)
    from run_step [OF this _ l(1,2)] cs have "number_run N_minus value_unsigned ?l cs nt rest" by simp
    with p(3) cs(1) show ?thesis
      by (intro exI [of _ N_minus] exI [of _ value_unsigned]) (simp add: number_init_def add_current_def)
  qed
  then obtain l1 where "scan_number l0 = number_done nt (lx_get l1)" "pending l1 rest" "started l1" "lx_token_buffer l1 = t"
    using p(4) t by (auto simp: number_run_def scan_number_def)
  with number_done_reads [of l1 rest t nt] tok l0(1) show ?thesis by auto
qed

end
