(* ===== verification/JsonFloat.thy ===== *)
theory JsonFloat
  imports Decimal
begin

text \<open>
  How \<^verbatim>\<open>external/json.hpp\<close> prints a double (\<^verbatim>\<open>dtoa_impl\<close>, \<^verbatim>\<open>to_chars\<close>): the Grisu2 algorithm on
  \<^verbatim>\<open>diyfp\<close>, 64-bit significands with a binary exponent, the table of cached powers of ten, and the
  layout of the digits. Significands are words, exponents are integers (\<^verbatim>\<open>int\<close>s far from their
  limits), the character buffer is the list of the digits written, and a failed assertion is
  \<open>Undef\<close>. The loop over the fraction's digits has fuel 64: each digit clears one more of the at most
  60 bits of the fraction, so it is never used up (\<open>fraction_fuel_enough\<close>, \<open>ends_to_chars\<close>).
\<close>

unbundle bit_operations_syntax

definition json_assert :: "bool \<Rightarrow> 'a outcome \<Rightarrow> 'a outcome" where
  "json_assert b x = (if b then x else Undef)"

section \<open>Significands with an exponent\<close>

record diyfp =
  fp_f :: u64
  fp_e :: int

definition diyfp_sub :: "diyfp \<Rightarrow> diyfp \<Rightarrow> diyfp outcome" where
  "diyfp_sub x y = json_assert (fp_e x = fp_e y) (json_assert (fp_f y \<le> fp_f x)
     (Ok \<lparr>fp_f = fp_f x - fp_f y, fp_e = fp_e x\<rparr>))"

definition diyfp_mul :: "diyfp \<Rightarrow> diyfp \<Rightarrow> diyfp" where
  "diyfp_mul x y =
     (let u_lo = fp_f x AND 0xFFFFFFFF; u_hi = drop_bit 32 (fp_f x);
          v_lo = fp_f y AND 0xFFFFFFFF; v_hi = drop_bit 32 (fp_f y);
          p0 = u_lo * v_lo; p1 = u_lo * v_hi; p2 = u_hi * v_lo; p3 = u_hi * v_hi;
          p0_hi = drop_bit 32 p0;
          p1_lo = p1 AND 0xFFFFFFFF; p1_hi = drop_bit 32 p1;
          p2_lo = p2 AND 0xFFFFFFFF; p2_hi = drop_bit 32 p2;
          Q = p0_hi + p1_lo + p2_lo;
          Q = Q + push_bit (64 - 32 - 1) 1;
          h = p3 + p2_hi + p1_hi + drop_bit 32 Q
      in \<lparr>fp_f = h, fp_e = fp_e x + fp_e y + 64\<rparr>)"

text \<open>The loop shifts until the top bit is set; it is entered with a significand that is not zero.\<close>

function normalize_loop :: "diyfp \<Rightarrow> diyfp" where
  "normalize_loop x =
     (if fp_f x \<noteq> 0 \<and> drop_bit 63 (fp_f x) = 0
      then normalize_loop \<lparr>fp_f = push_bit 1 (fp_f x), fp_e = fp_e x - 1\<rparr> else x)"
  by pat_completeness auto
termination
proof (relation "measure (\<lambda>x. 2 ^ 64 - unat (fp_f x))", goal_cases)
  case (2 x)
  then have nz: "0 < unat (fp_f x)" by (simp add: unat_gt_0)
  have "unat (drop_bit 63 (fp_f x)) = unat (fp_f x) div 2 ^ 63"
    by (simp only: unsigned_drop_bit_eq) (simp add: drop_bit_eq_div take_bit_nat_eq_self unat_u64_less)
  moreover have "drop_bit 63 (fp_f x) = 0" using 2 by blast
  ultimately have "unat (fp_f x) div 2 ^ 63 = 0" by (metis unat_0)
  then have "unat (fp_f x) < 2 ^ 63" by (simp add: div_eq_0_iff)
  then have "unat (push_bit 1 (fp_f x)) = 2 * unat (fp_f x)"
    by (simp add: push_bit_eq_mult unat_word_ariths)
  with nz unat_u64_less [of "fp_f x"] show ?case by simp
qed simp

declare normalize_loop.simps [simp del]

definition diyfp_normalize :: "diyfp \<Rightarrow> diyfp outcome" where
  "diyfp_normalize x = json_assert (fp_f x \<noteq> 0) (Ok (normalize_loop x))"

definition diyfp_normalize_to :: "diyfp \<Rightarrow> int \<Rightarrow> diyfp outcome" where
  "diyfp_normalize_to x target_exponent =
     (let delta = fp_e x - target_exponent in
      json_assert (0 \<le> delta) (json_assert (drop_bit (nat delta) (push_bit (nat delta) (fp_f x)) = fp_f x)
        (Ok \<lparr>fp_f = push_bit (nat delta) (fp_f x), fp_e = target_exponent\<rparr>)))"

text \<open>The value and its boundaries, for \<^verbatim>\<open>double\<close>: \<^verbatim>\<open>kPrecision\<close> is 53 and \<^verbatim>\<open>kBias\<close> 1075.\<close>

definition compute_boundaries :: "double \<Rightarrow> (diyfp \<times> diyfp \<times> diyfp) outcome" where
  "compute_boundaries bits =
     json_assert (isfinite bits) (json_assert (bits \<noteq> 0 \<and> bits < push_bit 63 1)
     (let kBias = 1024 - 1 + (53 - 1); kMinExp = 1 - kBias; kHiddenBit = push_bit 52 (1 :: u64);
          E = drop_bit 52 bits; F = bits AND (kHiddenBit - 1);
          v = (if E = 0 then \<lparr>fp_f = F, fp_e = kMinExp\<rparr> else \<lparr>fp_f = F + kHiddenBit, fp_e = uint E - kBias\<rparr>);
          m_plus = \<lparr>fp_f = 2 * fp_f v + 1, fp_e = fp_e v - 1\<rparr>;
          m_minus = (if F = 0 \<and> 1 < E then \<lparr>fp_f = 4 * fp_f v - 1, fp_e = fp_e v - 2\<rparr>
                     else \<lparr>fp_f = 2 * fp_f v - 1, fp_e = fp_e v - 1\<rparr>)
      in obind (diyfp_normalize m_plus) (\<lambda>w_plus.
         obind (diyfp_normalize_to m_minus (fp_e w_plus)) (\<lambda>w_minus.
         obind (diyfp_normalize v) (\<lambda>w. Ok (w, w_minus, w_plus))))))"

section \<open>Cached powers of ten\<close>

text \<open>A significand, a binary exponent and the decimal exponent of the power they approximate.\<close>

definition kCachedPowers :: "(u64 \<times> int \<times> int) list" where
  "kCachedPowers =
    [(0xAB70FE17C79AC6CA, - 1060, - 300),
     (0xFF77B1FCBEBCDC4F, - 1034, - 292),
     (0xBE5691EF416BD60C, - 1007, - 284),
     (0x8DD01FAD907FFC3C, - 980, - 276),
     (0xD3515C2831559A83, - 954, - 268),
     (0x9D71AC8FADA6C9B5, - 927, - 260),
     (0xEA9C227723EE8BCB, - 901, - 252),
     (0xAECC49914078536D, - 874, - 244),
     (0x823C12795DB6CE57, - 847, - 236),
     (0xC21094364DFB5637, - 821, - 228),
     (0x9096EA6F3848984F, - 794, - 220),
     (0xD77485CB25823AC7, - 768, - 212),
     (0xA086CFCD97BF97F4, - 741, - 204),
     (0xEF340A98172AACE5, - 715, - 196),
     (0xB23867FB2A35B28E, - 688, - 188),
     (0x84C8D4DFD2C63F3B, - 661, - 180),
     (0xC5DD44271AD3CDBA, - 635, - 172),
     (0x936B9FCEBB25C996, - 608, - 164),
     (0xDBAC6C247D62A584, - 582, - 156),
     (0xA3AB66580D5FDAF6, - 555, - 148),
     (0xF3E2F893DEC3F126, - 529, - 140),
     (0xB5B5ADA8AAFF80B8, - 502, - 132),
     (0x87625F056C7C4A8B, - 475, - 124),
     (0xC9BCFF6034C13053, - 449, - 116),
     (0x964E858C91BA2655, - 422, - 108),
     (0xDFF9772470297EBD, - 396, - 100),
     (0xA6DFBD9FB8E5B88F, - 369, - 92),
     (0xF8A95FCF88747D94, - 343, - 84),
     (0xB94470938FA89BCF, - 316, - 76),
     (0x8A08F0F8BF0F156B, - 289, - 68),
     (0xCDB02555653131B6, - 263, - 60),
     (0x993FE2C6D07B7FAC, - 236, - 52),
     (0xE45C10C42A2B3B06, - 210, - 44),
     (0xAA242499697392D3, - 183, - 36),
     (0xFD87B5F28300CA0E, - 157, - 28),
     (0xBCE5086492111AEB, - 130, - 20),
     (0x8CBCCC096F5088CC, - 103, - 12),
     (0xD1B71758E219652C, - 77, - 4),
     (0x9C40000000000000, - 50, 4),
     (0xE8D4A51000000000, - 24, 12),
     (0xAD78EBC5AC620000, 3, 20),
     (0x813F3978F8940984, 30, 28),
     (0xC097CE7BC90715B3, 56, 36),
     (0x8F7E32CE7BEA5C70, 83, 44),
     (0xD5D238A4ABE98068, 109, 52),
     (0x9F4F2726179A2245, 136, 60),
     (0xED63A231D4C4FB27, 162, 68),
     (0xB0DE65388CC8ADA8, 189, 76),
     (0x83C7088E1AAB65DB, 216, 84),
     (0xC45D1DF942711D9A, 242, 92),
     (0x924D692CA61BE758, 269, 100),
     (0xDA01EE641A708DEA, 295, 108),
     (0xA26DA3999AEF774A, 322, 116),
     (0xF209787BB47D6B85, 348, 124),
     (0xB454E4A179DD1877, 375, 132),
     (0x865B86925B9BC5C2, 402, 140),
     (0xC83553C5C8965D3D, 428, 148),
     (0x952AB45CFA97A0B3, 455, 156),
     (0xDE469FBD99A05FE3, 481, 164),
     (0xA59BC234DB398C25, 508, 172),
     (0xF6C69A72A3989F5C, 534, 180),
     (0xB7DCBF5354E9BECE, 561, 188),
     (0x88FCF317F22241E2, 588, 196),
     (0xCC20CE9BD35C78A5, 614, 204),
     (0x98165AF37B2153DF, 641, 212),
     (0xE2A0B5DC971F303A, 667, 220),
     (0xA8D9D1535CE3B396, 694, 228),
     (0xFB9B7CD9A4A7443C, 720, 236),
     (0xBB764C4CA7A44410, 747, 244),
     (0x8BAB8EEFB6409C1A, 774, 252),
     (0xD01FEF10A657842C, 800, 260),
     (0x9B10A4E5E9913129, 827, 268),
     (0xE7109BFBA19C0C9D, 853, 276),
     (0xAC2820D9623BF429, 880, 284),
     (0x80444B5E7AA7CF85, 907, 292),
     (0xBF21E44003ACDD2D, 933, 300),
     (0x8E679C2F5E44FF8F, 960, 308),
     (0xD433179D9C8CB841, 986, 316),
     (0x9E19DB92B4E31BA9, 1013, 324)]"

text \<open>Division of \<^verbatim>\<open>int\<close>s truncates toward zero.\<close>

definition cached_power_exponent :: "int \<Rightarrow> int" where
  "cached_power_exponent e =
     (let f = - 60 - e - 1
      in (if 0 \<le> f then f * 78913 div 2 ^ 18 else - (- (f * 78913) div 2 ^ 18)) + (if 0 < f then 1 else 0))"

definition get_cached_power_for_binary_exponent :: "int \<Rightarrow> (u64 \<times> int \<times> int) outcome" where
  "get_cached_power_for_binary_exponent e =
     json_assert (- 1500 \<le> e) (json_assert (e \<le> 1500)
     (let k = cached_power_exponent e; index = (300 + k + (8 - 1)) div 8
      in json_assert (0 \<le> index) (json_assert (index < 79)
         (let cached = kCachedPowers ! nat index; ce = fst (snd cached)
          in json_assert (- 60 \<le> ce + e + 64) (json_assert (ce + e + 64 \<le> - 32) (Ok cached))))))"

section \<open>Digits\<close>

definition find_largest_pow10 :: "u32 \<Rightarrow> nat \<times> u32" where
  "find_largest_pow10 n =
     (if 1000000000 \<le> n then (10, 1000000000)
      else if 100000000 \<le> n then (9, 100000000)
      else if 10000000 \<le> n then (8, 10000000)
      else if 1000000 \<le> n then (7, 1000000)
      else if 100000 \<le> n then (6, 100000)
      else if 10000 \<le> n then (5, 10000)
      else if 1000 \<le> n then (4, 1000)
      else if 100 \<le> n then (3, 100)
      else if 10 \<le> n then (2, 10)
      else (1, 1))"

text \<open>The last digit is lowered while this comes closer. The assertions on entry stay true in the loop.\<close>

function round_loop :: "string \<Rightarrow> u64 \<Rightarrow> u64 \<Rightarrow> u64 \<Rightarrow> u64 \<Rightarrow> string outcome" where
  "round_loop buf dist delta rest ten_k =
     (if \<not> (rest \<le> delta \<and> 0 < ten_k) then Undef
      else if rest < dist \<and> ten_k \<le> delta - rest
            \<and> (rest + ten_k < dist \<or> rest + ten_k - dist < dist - rest)
      then json_assert (last buf \<noteq> CHR ''0'')
        (round_loop (butlast buf @ [char_of (of_char (last buf) - 1 :: nat)]) dist delta (rest + ten_k) ten_k)
      else Ok buf)"
  by pat_completeness auto
termination
proof (relation "measure (\<lambda>(buf, dist, delta, rest, ten_k). unat dist - unat rest)", goal_cases)
  case (2 buf dist delta rest ten_k)
  then have "unat (delta - rest) = unat delta - unat rest" by (intro unat_sub) simp
  with 2 have "unat ten_k \<le> unat delta - unat rest" "unat rest \<le> unat delta"
    by (simp_all add: word_le_nat_alt)
  then have "unat rest + unat ten_k < 2 ^ 64" using unat_u64_less [of delta] by simp
  then have "unat (rest + ten_k) = unat rest + unat ten_k" by (simp add: unat_word_ariths)
  moreover have "0 < unat ten_k" "unat rest < unat dist" using 2 by (auto simp: word_less_nat_alt)
  ultimately show ?case by simp
qed simp

declare round_loop.simps [simp del]

definition grisu2_round :: "string \<Rightarrow> u64 \<Rightarrow> u64 \<Rightarrow> u64 \<Rightarrow> u64 \<Rightarrow> string outcome" where
  "grisu2_round buf dist delta rest ten_k =
     json_assert (1 \<le> length buf) (json_assert (dist \<le> delta) (json_assert (rest \<le> delta) (json_assert (0 < ten_k)
       (round_loop buf dist delta rest ten_k))))"

text \<open>The digits of the integral part: a result, or the buffer when they are used up. \<open>s\<close> is
  \<^verbatim>\<open>-one.e\<close>.\<close>

fun integral_digits :: "nat \<Rightarrow> u32 \<Rightarrow> u32 \<Rightarrow> string \<Rightarrow> nat \<Rightarrow> u64 \<Rightarrow> u64 \<Rightarrow> u64 \<Rightarrow> int \<Rightarrow> (string \<times> int + string) outcome" where
  "integral_digits 0 p1 pow10 buffer s p2 delta dist decimal_exponent = Ok (Inr buffer)"
| "integral_digits (Suc n) p1 pow10 buffer s p2 delta dist decimal_exponent =
     (let d = p1 div pow10; r = p1 mod pow10
      in json_assert (d \<le> 9)
         (let buffer = buffer @ [char_of (48 + unat d)]; p1 = r;
              rest = push_bit s (ucast p1 :: u64) + p2
          in if rest \<le> delta
             then obind (grisu2_round buffer dist delta rest (push_bit s (ucast pow10)))
               (\<lambda>buffer. Ok (Inl (buffer, decimal_exponent + int n)))
             else integral_digits n p1 (pow10 div 10) buffer s p2 delta dist decimal_exponent))"

text \<open>The digits of the fraction; \<open>m\<close> counts them.\<close>

primrec fraction_digits :: "nat \<Rightarrow> u64 \<Rightarrow> string \<Rightarrow> nat \<Rightarrow> u64 \<Rightarrow> u64 \<Rightarrow> int \<Rightarrow> (string \<times> u64 \<times> u64 \<times> u64 \<times> int) outcome" where
  "fraction_digits 0 p2 buffer s delta dist m = Hang"
| "fraction_digits (Suc fuel) p2 buffer s delta dist m =
     json_assert (p2 \<le> 0xFFFFFFFFFFFFFFFF div 10)
     (let p2 = p2 * 10; d = drop_bit s p2; r = p2 AND (push_bit s 1 - 1)
      in json_assert (d \<le> 9)
         (let buffer = buffer @ [char_of (48 + unat d)]; p2 = r; m = m + 1; delta = delta * 10; dist = dist * 10
          in if p2 \<le> delta then Ok (buffer, p2, delta, dist, m)
             else fraction_digits fuel p2 buffer s delta dist m))"

definition fraction_fuel :: nat where
  "fraction_fuel = 64"

definition grisu2_digit_gen :: "int \<Rightarrow> diyfp \<Rightarrow> diyfp \<Rightarrow> diyfp \<Rightarrow> (string \<times> int) outcome" where
  "grisu2_digit_gen decimal_exponent M_minus w M_plus =
     json_assert (- 60 \<le> fp_e M_plus) (json_assert (fp_e M_plus \<le> - 32)
     (obind (diyfp_sub M_plus M_minus) (\<lambda>delta_fp. obind (diyfp_sub M_plus w) (\<lambda>dist_fp.
      let delta = fp_f delta_fp; dist = fp_f dist_fp; s = nat (- fp_e M_plus); one = push_bit s (1 :: u64);
          p1 = ucast (drop_bit s (fp_f M_plus)) :: u32; p2 = fp_f M_plus AND (one - 1)
      in json_assert (0 < p1)
         (case find_largest_pow10 p1 of (k, pow10) \<Rightarrow>
            obind (integral_digits k p1 pow10 [] s p2 delta dist decimal_exponent) (\<lambda>res. case res of
                Inl r \<Rightarrow> Ok r
              | Inr buffer \<Rightarrow>
                  json_assert (delta < p2)
                  (obind (fraction_digits fraction_fuel p2 buffer s delta dist 0) (\<lambda>(buffer, p2, delta, dist, m).
                   obind (grisu2_round buffer dist delta p2 one) (\<lambda>buffer. Ok (buffer, decimal_exponent - m))))))))))"

definition grisu2_scaled :: "diyfp \<Rightarrow> diyfp \<Rightarrow> diyfp \<Rightarrow> (string \<times> int) outcome" where
  "grisu2_scaled m_minus v m_plus =
     json_assert (fp_e m_plus = fp_e m_minus) (json_assert (fp_e m_plus = fp_e v)
     (obind (get_cached_power_for_binary_exponent (fp_e m_plus)) (\<lambda>(cf, ce, ck).
      let c_minus_k = \<lparr>fp_f = cf, fp_e = ce\<rparr>;
          w = diyfp_mul v c_minus_k; w_minus = diyfp_mul m_minus c_minus_k; w_plus = diyfp_mul m_plus c_minus_k;
          M_minus = \<lparr>fp_f = fp_f w_minus + 1, fp_e = fp_e w_minus\<rparr>; M_plus = \<lparr>fp_f = fp_f w_plus - 1, fp_e = fp_e w_plus\<rparr>
      in grisu2_digit_gen (- ck) M_minus w M_plus)))"

definition grisu2 :: "double \<Rightarrow> (string \<times> int) outcome" where
  "grisu2 value = obind (compute_boundaries value) (\<lambda>(w, minus, plus). grisu2_scaled minus w plus)"

section \<open>Layout\<close>

definition append_exponent :: "int \<Rightarrow> string outcome" where
  "append_exponent e = json_assert (- 1000 < e) (json_assert (e < 1000)
     (let k = nat (abs e); digit = (\<lambda>d. char_of (48 + d))
      in Ok ((if e < 0 then CHR ''-'' else CHR ''+'') #
        (if k < 10 then [CHR ''0'', digit k]
         else if k < 100 then [digit (k div 10), digit (k mod 10)]
         else [digit (k div 100), digit (k mod 100 div 10), digit (k mod 100 mod 10)]))))"

text \<open>The text the buffer holds in the end.\<close>

definition format_buffer :: "string \<Rightarrow> int \<Rightarrow> int \<Rightarrow> int \<Rightarrow> string outcome" where
  "format_buffer buf decimal_exponent min_exp max_exp =
     json_assert (min_exp < 0) (json_assert (0 < max_exp)
     (let k = int (length buf); n = k + decimal_exponent
      in if k \<le> n \<and> n \<le> max_exp then Ok (buf @ replicate (nat (n - k)) (CHR ''0'') @ ''.0'')
         else if 0 < n \<and> n \<le> max_exp then json_assert (n < k) (Ok (take (nat n) buf @ ''.'' @ drop (nat n) buf))
         else if min_exp < n \<and> n \<le> 0 then Ok (''0.'' @ replicate (nat (- n)) (CHR ''0'') @ buf)
         else obind (append_exponent (n - 1)) (\<lambda>ex.
           Ok ((if k = 1 then buf else take 1 buf @ ''.'' @ drop 1 buf) @ ''e'' @ ex))))"

definition to_chars :: "double \<Rightarrow> string outcome" where
  "to_chars value =
     json_assert (isfinite value)
     (let negative = push_bit 63 1 \<le> value;
          magnitude = (if negative then value - push_bit 63 1 else value);
          sign = (if negative then ''-'' else [])
      in if magnitude = 0 then Ok (sign @ ''0.0'')
         else obind (grisu2 magnitude) (\<lambda>(buf, decimal_exponent).
           json_assert (length buf \<le> 17)
           (obind (format_buffer buf decimal_exponent (- 4) 15) (\<lambda>text. Ok (sign @ text)))))"

section \<open>The fuel\<close>

lemma mask_digit: "unat ((w * 10) AND (push_bit s 1 - 1) :: u64) = 10 * unat w mod 2 ^ s" if "s < 64"
proof -
  have "push_bit s 1 - 1 = (mask s :: u64)" by (simp add: mask_eq_exp_minus_1 push_bit_eq_mult)
  then have "(w * 10) AND (push_bit s 1 - 1) = take_bit s (w * 10)" by (simp add: take_bit_eq_mask)
  moreover have "unat (w * 10) mod 2 ^ s = 10 * unat w mod 2 ^ s"
  proof -
    have "(2 :: nat) ^ s dvd 2 ^ 64" using that by (intro le_imp_power_dvd) simp
    then show ?thesis by (simp add: unat_word_ariths mod_mod_cancel mult.commute)
  qed
  moreover have "unat (take_bit s (w * 10)) = unat (w * 10) mod 2 ^ s"
    by (rule trans [OF unsigned_take_bit_eq take_bit_eq_mod])
  ultimately show ?thesis by (simp only:)
qed

text \<open>Each digit multiplies by ten and drops what is above bit \<open>s\<close>: after \<open>j\<close> digits \<open>2 ^ j\<close> divides
  the rest, so that after \<open>s\<close> of them nothing is left.\<close>

lemma fraction_fuel_enough:
  assumes "0 < fuel" and "s < 64" and "s \<le> j + fuel" and "2 ^ j dvd unat p2"
  shows "fraction_digits fuel p2 buffer s delta dist m \<noteq> Hang"
  using assms
proof (induction fuel arbitrary: p2 buffer delta dist m j)
  case (Suc fuel)
  let ?p2 = "(p2 * 10) AND (push_bit s 1 - 1)"
  have p2: "unat ?p2 = 10 * unat p2 mod 2 ^ s" by (rule mask_digit [OF Suc.prems(2)])
  have ten: "2 ^ Suc j dvd 10 * unat p2"
  proof -
    have "2 * 2 ^ j dvd (2 * 5) * unat p2" using mult_dvd_mono [of 2 "2 * 5" "2 ^ j" "unat p2"] Suc.prems(4) by simp
    then show ?thesis by simp
  qed
  show ?case
  proof (cases "s \<le> Suc j")
    case True
    then have "2 ^ s dvd 10 * unat p2" using ten by (meson dvd_trans le_imp_power_dvd)
    then have "?p2 = 0" using p2 by (simp add: unat_eq_zero)
    then show ?thesis by (simp add: json_assert_def Let_def)
  next
    case False
    then have "2 ^ Suc j dvd unat ?p2" unfolding p2 by (intro dvd_mod ten le_imp_power_dvd) simp
    moreover have "0 < fuel" "s \<le> Suc j + fuel" using False Suc.prems(3) by simp_all
    ultimately have "fraction_digits fuel ?p2 buffer' s delta' dist' m' \<noteq> Hang" for buffer' delta' dist' m'
      using Suc.IH Suc.prems(2) by blast
    then show ?thesis by (simp add: json_assert_def Let_def)
  qed
qed simp

section \<open>Every run ends\<close>

definition ends :: "'a outcome \<Rightarrow> bool" where
  "ends x \<longleftrightarrow> x \<noteq> Hang"

lemma ends_simps [simp]: "ends (Ok v)" "ends (Throw e)" "ends Undef"
  by (simp_all add: ends_def)

lemma ends_obind: "ends x \<Longrightarrow> (\<And>v. ends (f v)) \<Longrightarrow> ends (obind x f)"
  by (cases x) (auto simp: ends_def)

lemma ends_assert: "ends x \<Longrightarrow> ends (json_assert b x)"
  by (simp add: json_assert_def)

lemma ends_round: "ends (grisu2_round buf dist delta rest ten_k)"
proof -
  have "ends (round_loop buf dist delta rest ten_k)"
    by (induction buf dist delta rest ten_k rule: round_loop.induct)
      (subst round_loop.simps, simp add: json_assert_def)
  then show ?thesis by (simp add: grisu2_round_def ends_assert)
qed

lemma ends_integral: "ends (integral_digits n p1 pow10 buffer s p2 delta dist d)"
  by (induction n p1 pow10 buffer s p2 delta dist d rule: integral_digits.induct)
    (auto simp: Let_def intro!: ends_assert ends_obind ends_round)

lemma ends_digit_gen: "ends (grisu2_digit_gen d M_minus w M_plus)"
proof -
  have "ends (fraction_digits fraction_fuel p2 buffer s delta dist 0)" if "s \<le> 60" for p2 buffer s delta dist
    unfolding ends_def using fraction_fuel_enough [of fraction_fuel s 0 p2] that by (simp add: fraction_fuel_def)
  moreover have "nat (- fp_e M_plus) \<le> 60" if "- 60 \<le> fp_e M_plus" using that by simp
  moreover have "ends (diyfp_sub x y)" for x y by (simp add: diyfp_sub_def ends_assert)
  ultimately show ?thesis
    unfolding grisu2_digit_gen_def Let_def json_assert_def
    by (auto split: prod.split sum.split intro!: ends_obind ends_integral ends_round)
qed

lemma ends_boundaries: "ends (compute_boundaries x)"
proof -
  have "ends (diyfp_normalize v)" "ends (diyfp_normalize_to v e)" for v e
    by (simp_all add: diyfp_normalize_def diyfp_normalize_to_def Let_def ends_assert)
  then show ?thesis unfolding compute_boundaries_def Let_def by (intro ends_assert ends_obind) (simp_all split: prod.split)
qed

lemma ends_format: "ends (format_buffer buf e i j)"
proof -
  have "ends (append_exponent k)" for k by (simp add: append_exponent_def Let_def ends_assert)
  then show ?thesis unfolding format_buffer_def Let_def by (intro ends_assert) (simp add: ends_obind ends_assert)
qed

lemma ends_grisu2: "ends (grisu2 x)"
proof -
  have "ends (get_cached_power_for_binary_exponent k)" for k
    by (simp add: get_cached_power_for_binary_exponent_def Let_def ends_assert)
  then have "ends (grisu2_scaled m v p)" for m v p
    unfolding grisu2_scaled_def Let_def
    by (intro ends_assert ends_obind) (simp_all add: ends_digit_gen split: prod.split)
  then show ?thesis unfolding grisu2_def by (intro ends_obind ends_boundaries) (simp split: prod.split)
qed

lemma ends_to_chars: "ends (to_chars x)"
  unfolding to_chars_def Let_def
  by (intro ends_assert) (simp add: ends_obind ends_grisu2 ends_assert ends_format split: prod.split)

end
