(* ===== verification/JsonSerializer.thy ===== *)
theory JsonSerializer
  imports JsonLexer JsonFloat
begin

text \<open>
  The serializer of \<^verbatim>\<open>external/json.hpp\<close> writing to a \<^verbatim>\<open>std::string\<close>: the UTF-8 automaton, escaped
  strings, integers, floating-point numbers and values, compact or pretty-printed. What an operation
  writes is its result, the text; the text of a call that throws is lost with the string it was
  written to. The string buffer is the list of its first \<open>bytes\<close> characters, of which it can hold
  512, the number buffer has 64 characters, and writing or reading past an array, or failing an
  assertion, is \<open>Undef\<close>. The indentation string is the one part of the state that outlives a call.
\<close>

unbundle bit_operations_syntax

section \<open>Decoding UTF-8\<close>

text \<open>The class of each byte, then the transitions of the nine states, 16 for each.\<close>

definition utf8d :: "nat list" where
  "utf8d =
    [0, 0, 0, 0, 0, 0, 0, 0, 0, 0, 0, 0, 0, 0, 0, 0, 0, 0, 0, 0, 0, 0, 0, 0, 0, 0, 0, 0, 0, 0, 0, 0,
     0, 0, 0, 0, 0, 0, 0, 0, 0, 0, 0, 0, 0, 0, 0, 0, 0, 0, 0, 0, 0, 0, 0, 0, 0, 0, 0, 0, 0, 0, 0, 0,
     0, 0, 0, 0, 0, 0, 0, 0, 0, 0, 0, 0, 0, 0, 0, 0, 0, 0, 0, 0, 0, 0, 0, 0, 0, 0, 0, 0, 0, 0, 0, 0,
     0, 0, 0, 0, 0, 0, 0, 0, 0, 0, 0, 0, 0, 0, 0, 0, 0, 0, 0, 0, 0, 0, 0, 0, 0, 0, 0, 0, 0, 0, 0, 0,
     1, 1, 1, 1, 1, 1, 1, 1, 1, 1, 1, 1, 1, 1, 1, 1, 9, 9, 9, 9, 9, 9, 9, 9, 9, 9, 9, 9, 9, 9, 9, 9,
     7, 7, 7, 7, 7, 7, 7, 7, 7, 7, 7, 7, 7, 7, 7, 7, 7, 7, 7, 7, 7, 7, 7, 7, 7, 7, 7, 7, 7, 7, 7, 7,
     8, 8, 2, 2, 2, 2, 2, 2, 2, 2, 2, 2, 2, 2, 2, 2, 2, 2, 2, 2, 2, 2, 2, 2, 2, 2, 2, 2, 2, 2, 2, 2,
     10, 3, 3, 3, 3, 3, 3, 3, 3, 3, 3, 3, 3, 4, 3, 3,
     11, 6, 6, 6, 5, 8, 8, 8, 8, 8, 8, 8, 8, 8, 8, 8,
     0, 1, 2, 3, 5, 8, 7, 1, 1, 1, 4, 6, 1, 1, 1, 1,
     1, 1, 1, 1, 1, 1, 1, 1, 1, 1, 1, 1, 1, 1, 1, 1, 1, 0, 1, 1, 1, 1, 1, 0, 1, 0, 1, 1, 1, 1, 1, 1,
     1, 2, 1, 1, 1, 1, 1, 2, 1, 2, 1, 1, 1, 1, 1, 1, 1, 1, 1, 1, 1, 1, 1, 2, 1, 1, 1, 1, 1, 1, 1, 1,
     1, 2, 1, 1, 1, 1, 1, 1, 1, 2, 1, 1, 1, 1, 1, 1, 1, 1, 1, 1, 1, 1, 1, 3, 1, 3, 1, 1, 1, 1, 1, 1,
     1, 3, 1, 1, 1, 1, 1, 3, 1, 3, 1, 1, 1, 1, 1, 1, 1, 3, 1, 1, 1, 1, 1, 1, 1, 1, 1, 1, 1, 1, 1, 1]"

definition UTF8_ACCEPT :: nat where
  "UTF8_ACCEPT = 0"

definition UTF8_REJECT :: nat where
  "UTF8_REJECT = 1"

text \<open>The new state and the code point so far; the bytes are below 256 and the states below 9, so both
  indices are in range.\<close>

definition decode :: "nat \<Rightarrow> u32 \<Rightarrow> nat \<Rightarrow> nat \<times> u32" where
  "decode state codep byte =
     (let ty = utf8d ! byte;
          codep = (if state \<noteq> UTF8_ACCEPT then (of_nat byte AND 0x3F) OR push_bit 6 codep
                   else drop_bit ty 0xFF AND of_nat byte);
          index = 256 + state * 16 + ty
      in (utf8d ! index, codep))"

section \<open>Strings\<close>

datatype error_handler_t = strict | replace | ignore

text \<open>\<open>%04x\<close>.\<close>

definition hex_digit_lower :: "nat \<Rightarrow> char" where
  "hex_digit_lower d = (if d < 10 then char_of (48 + d) else char_of (87 + d))"

definition hex4_lower :: "nat \<Rightarrow> string" where
  "hex4_lower n = [hex_digit_lower (n div 4096 mod 16), hex_digit_lower (n div 256 mod 16),
     hex_digit_lower (n div 16 mod 16), hex_digit_lower (n mod 16)]"

definition hex_bytes :: "nat \<Rightarrow> string" where
  "hex_bytes byte = [hex_digit (byte div 16), hex_digit (byte mod 16)]"

text \<open>What is written for a code point whose last byte is \<open>c\<close>, and how many bytes of the buffer are
  touched: \<^verbatim>\<open>snprintf\<close> also writes a terminator. The escapes keep 16 bits.\<close>

definition escape_code_point :: "bool \<Rightarrow> u32 \<Rightarrow> char \<Rightarrow> string \<times> nat" where
  "escape_code_point ensure_ascii codepoint c =
     (if codepoint = 0x08 then ([CHR 0x5C, CHR ''b''], 2)
      else if codepoint = 0x09 then ([CHR 0x5C, CHR ''t''], 2)
      else if codepoint = 0x0A then ([CHR 0x5C, CHR ''n''], 2)
      else if codepoint = 0x0C then ([CHR 0x5C, CHR ''f''], 2)
      else if codepoint = 0x0D then ([CHR 0x5C, CHR ''r''], 2)
      else if codepoint = 0x22 then ([CHR 0x5C, CHR 0x22], 2)
      else if codepoint = 0x5C then ([CHR 0x5C, CHR 0x5C], 2)
      else if codepoint \<le> 0x1F \<or> (ensure_ascii \<and> 0x7F \<le> codepoint)
      then (if codepoint \<le> 0xFFFF
            then (CHR 0x5C # CHR ''u'' # hex4_lower (unat codepoint mod 2 ^ 16), 7)
            else (CHR 0x5C # CHR ''u'' # hex4_lower (unat (0xD7C0 + drop_bit 10 codepoint) mod 2 ^ 16)
               @ CHR 0x5C # CHR ''u'' # hex4_lower (unat (0xDC00 + (codepoint AND 0x3FF)) mod 2 ^ 16), 13))
      else ([c], 1))"

definition string_buffer_size :: nat where
  "string_buffer_size = 512"

text \<open>Putting \<open>text\<close> into the buffer, touching \<open>touched\<close> bytes.\<close>

definition buffer_put :: "string \<Rightarrow> string \<times> nat \<Rightarrow> string outcome" where
  "buffer_put buf t = (if string_buffer_size < length buf + snd t then Undef else Ok (buf @ fst t))"

text \<open>The output so far and the buffer: written and emptied when fewer than 13 bytes are free.\<close>

definition buffer_flush :: "string \<Rightarrow> string \<Rightarrow> string \<times> string" where
  "buffer_flush out buf = (if string_buffer_size - length buf < 13 then (out @ buf, []) else (out, buf))"

text \<open>The locals of \<^verbatim>\<open>dump_escaped\<close>: \<open>es_buf\<close> is the buffer up to \<^verbatim>\<open>bytes\<close>.\<close>

record escape_state =
  es_out :: string
  es_buf :: string
  es_state :: nat
  es_codepoint :: u32
  es_accepted :: nat
  es_undumped :: nat

definition escape_start :: escape_state where
  "escape_start = \<lparr>es_out = [], es_buf = [], es_state = UTF8_ACCEPT, es_codepoint = 0, es_accepted = 0, es_undumped = 0\<rparr>"

definition escape_accept :: "bool \<Rightarrow> char \<Rightarrow> escape_state \<Rightarrow> escape_state outcome" where
  "escape_accept ensure_ascii c es =
     obind (buffer_put (es_buf es) (escape_code_point ensure_ascii (es_codepoint es) c)) (\<lambda>buf.
     case buffer_flush (es_out es) buf of (out, buf) \<Rightarrow>
       Ok (es\<lparr>es_out := out, es_buf := buf, es_accepted := length buf, es_undumped := 0\<rparr>))"

definition replacement_character :: "bool \<Rightarrow> string" where
  "replacement_character ensure_ascii =
     (if ensure_ascii then CHR 0x5C # ''ufffd'' else [CHR 0xEF, CHR 0xBF, CHR 0xBD])"

text \<open>A byte that does not continue the sequence; reading it again is the loop's.\<close>

definition escape_reject :: "error_handler_t \<Rightarrow> bool \<Rightarrow> nat \<Rightarrow> nat \<Rightarrow> escape_state \<Rightarrow> escape_state outcome" where
  "escape_reject error_handler ensure_ascii i byte es =
     (let buf = take (es_accepted es) (es_buf es) in
      case error_handler of
        strict \<Rightarrow> Throw (type_error 316 (''invalid UTF-8 byte at index '' @ nat_dec i @ '': 0x'' @ hex_bytes byte))
      | ignore \<Rightarrow> Ok (es\<lparr>es_buf := buf, es_undumped := 0, es_state := UTF8_ACCEPT\<rparr>)
      | replace \<Rightarrow>
          obind (buffer_put buf (replacement_character ensure_ascii, length (replacement_character ensure_ascii))) (\<lambda>buf.
          case buffer_flush (es_out es) buf of (out, buf) \<Rightarrow>
            Ok (es\<lparr>es_out := out, es_buf := buf, es_accepted := length buf, es_undumped := 0, es_state := UTF8_ACCEPT\<rparr>)))"

definition escape_incomplete :: "bool \<Rightarrow> char \<Rightarrow> escape_state \<Rightarrow> escape_state outcome" where
  "escape_incomplete ensure_ascii c es =
     obind (if ensure_ascii then Ok (es_buf es) else buffer_put (es_buf es) ([c], 1)) (\<lambda>buf.
       Ok (es\<lparr>es_buf := buf, es_undumped := es_undumped es + 1\<rparr>))"

lemma escape_reject_undumped: "escape_reject h a i b es = Ok es' \<Longrightarrow> es_undumped es' = 0 \<and> es_state es' = UTF8_ACCEPT"
  by (auto simp: escape_reject_def Let_def obind_eq_Ok case_prod_beta split: error_handler_t.splits)

text \<open>The loop, from index \<open>i\<close>: \<open>s\<close> is what is left of the string. A rejected byte is read again when
  it came after others of its sequence.\<close>

function escape_loop :: "error_handler_t \<Rightarrow> bool \<Rightarrow> nat \<Rightarrow> string \<Rightarrow> escape_state \<Rightarrow> escape_state outcome" where
  "escape_loop error_handler ensure_ascii i [] es = Ok es"
| "escape_loop error_handler ensure_ascii i (c # s) es =
     (case decode (es_state es) (es_codepoint es) (of_char c) of (state, codepoint) \<Rightarrow>
      let es = es\<lparr>es_state := state, es_codepoint := codepoint\<rparr> in
      if state = UTF8_ACCEPT
      then obind (escape_accept ensure_ascii c es) (\<lambda>es'. escape_loop error_handler ensure_ascii (i + 1) s es')
      else if state = UTF8_REJECT
      then obind (escape_reject error_handler ensure_ascii i (of_char c) es) (\<lambda>es'.
        if 0 < es_undumped es then escape_loop error_handler ensure_ascii i (c # s) es'
        else escape_loop error_handler ensure_ascii (i + 1) s es')
      else obind (escape_incomplete ensure_ascii c es) (\<lambda>es'. escape_loop error_handler ensure_ascii (i + 1) s es'))"
  by pat_completeness auto
termination
  by (relation "measure (\<lambda>(h, a, i, s, es). 2 * length s + (if 0 < es_undumped es then 1 else 0))")
    (auto dest: escape_reject_undumped)

definition escape_finish :: "error_handler_t \<Rightarrow> bool \<Rightarrow> string \<Rightarrow> escape_state \<Rightarrow> string outcome" where
  "escape_finish error_handler ensure_ascii s es =
     (if es_state es = UTF8_ACCEPT then Ok (es_out es @ es_buf es)
      else (case error_handler of
        strict \<Rightarrow> Throw (type_error 316 (''incomplete UTF-8 string; last byte: 0x'' @ hex_bytes (of_char (last s))))
      | ignore \<Rightarrow> Ok (es_out es @ take (es_accepted es) (es_buf es))
      | replace \<Rightarrow> Ok (es_out es @ take (es_accepted es) (es_buf es) @ replacement_character ensure_ascii)))"

definition dump_escaped :: "error_handler_t \<Rightarrow> bool \<Rightarrow> string \<Rightarrow> string outcome" where
  "dump_escaped error_handler ensure_ascii s =
     obind (escape_loop error_handler ensure_ascii 0 s escape_start) (escape_finish error_handler ensure_ascii s)"

section \<open>Integers\<close>

text \<open>The loop divides by ten thousand until fewer than five digits are left.\<close>

function count_loop :: "nat \<Rightarrow> u64 \<Rightarrow> nat" where
  "count_loop n_digits x =
     (if x < 10 then n_digits
      else if x < 100 then n_digits + 1
      else if x < 1000 then n_digits + 2
      else if x < 10000 then n_digits + 3
      else count_loop (n_digits + 4) (x div 10000))"
  by pat_completeness auto
termination
  by (relation "measure (\<lambda>(n, x). unat x)") (simp_all add: word_less_nat_alt unat_div)

declare count_loop.simps [simp del]

definition count_digits :: "u64 \<Rightarrow> nat" where
  "count_digits x = count_loop 1 x"

definition digits_to_99 :: "(char \<times> char) list" where
  "digits_to_99 = map (\<lambda>n. (char_of (48 + n div 10), char_of (48 + n mod 10))) [0..<100]"

definition is_negative_number :: "64 word \<Rightarrow> bool" where
  "is_negative_number x \<longleftrightarrow> sint x < 0"

text \<open>The absolute value of a negative number.\<close>

definition remove_sign :: "64 word \<Rightarrow> u64 outcome" where
  "remove_sign x = json_assert (sint x < 0) (Ok (- (x + 1) + 1))"

text \<open>Writing the digits from the back: the buffer and the pointer into it.\<close>

definition put_digits :: "nat \<Rightarrow> nat \<times> string \<Rightarrow> nat \<times> string" where
  "put_digits digits_index b = (case b of (p, buf) \<Rightarrow> case digits_to_99 ! digits_index of (d1, d0) \<Rightarrow>
     (p - 2, (buf[p - 1 := d0])[p - 2 := d1]))"

function digits_loop :: "u64 \<Rightarrow> nat \<times> string \<Rightarrow> nat \<times> string" where
  "digits_loop abs_value b =
     (if 100 \<le> abs_value then digits_loop (abs_value div 100) (put_digits (unat (abs_value mod 100)) b)
      else if 10 \<le> abs_value then put_digits (unat abs_value) b
      else (case b of (p, buf) \<Rightarrow> (p - 1, buf[p - 1 := char_of (48 + unat abs_value)])))"
  by pat_completeness auto
termination
  by (relation "measure (\<lambda>(x, b). unat x)") (simp_all add: word_le_nat_alt unat_div)

declare digits_loop.simps [simp del]

definition number_buffer_size :: nat where
  "number_buffer_size = 64"

text \<open>After the special case of 0: the sign and the absolute value.\<close>

definition dump_digits :: "bool \<Rightarrow> u64 \<Rightarrow> string outcome" where
  "dump_digits negative abs_value =
     (let n_chars = (if negative then 1 + count_digits abs_value else count_digits abs_value);
          buf = (if negative then (replicate number_buffer_size NUL)[0 := CHR ''-''] else replicate number_buffer_size NUL)
      in json_assert (n_chars < number_buffer_size - 1)
           (Ok (take n_chars (snd (digits_loop abs_value (n_chars, buf))))))"

definition dump_unsigned :: "u64 \<Rightarrow> string outcome" where
  "dump_unsigned x = (if x = 0 then Ok ''0'' else dump_digits False x)"

definition dump_signed :: "64 word \<Rightarrow> string outcome" where
  "dump_signed x =
     (if x = 0 then Ok ''0''
      else if is_negative_number x then obind (remove_sign x) (dump_digits True)
      else dump_digits False x)"

definition dump_byte :: "u8 \<Rightarrow> string outcome" where
  "dump_byte x = (if x = 0 then Ok ''0'' else dump_digits False (ucast x))"

section \<open>Floating-point numbers\<close>

definition dump_float :: "double \<Rightarrow> string outcome" where
  "dump_float x = (if \<not> isfinite x then Ok ''null'' else to_chars x)"

section \<open>Values\<close>

text \<open>The first \<open>n\<close> characters of the indentation string and its terminator.\<close>

definition indentation :: "string \<Rightarrow> nat \<Rightarrow> string outcome" where
  "indentation indent_string n =
     (if n \<le> length indent_string + 1 then Ok (take n (indent_string @ [NUL])) else Undef)"

definition grow_indent :: "string \<Rightarrow> nat \<Rightarrow> string" where
  "grow_indent indent_string new_indent =
     (if length indent_string < new_indent
      then indent_string @ replicate (length indent_string) (CHR '' '') else indent_string)"

text \<open>\<^verbatim>\<open>unsigned int\<close> addition.\<close>

definition deeper :: "nat \<Rightarrow> nat \<Rightarrow> nat" where
  "deeper current_indent indent_step = (current_indent + indent_step) mod 2 ^ 32"

fun dump_bytes :: "string \<Rightarrow> u8 list \<Rightarrow> string outcome" where
  "dump_bytes sep [] = Ok []"
| "dump_bytes sep [b] = dump_byte b"
| "dump_bytes sep (b # bs) = obind (dump_byte b) (\<lambda>t. obind (dump_bytes sep bs) (\<lambda>ts. Ok (t @ sep @ ts)))"

definition dump_subtype :: "u64 option \<Rightarrow> string outcome" where
  "dump_subtype subtype = (case subtype of Some st \<Rightarrow> dump_unsigned st | None \<Rightarrow> Ok ''null'')"

text \<open>A value is written with the current indentation; the result is the text and the new indentation
  string.\<close>

definition dump_binary :: "bool \<Rightarrow> nat \<Rightarrow> nat \<Rightarrow> u8 list \<Rightarrow> u64 option \<Rightarrow> string \<Rightarrow> (string \<times> string) outcome" where
  "dump_binary pretty_print indent_step current_indent bs subtype indent_string =
     (if pretty_print
      then (let new_indent = deeper current_indent indent_step; indent_string = grow_indent indent_string new_indent in
        obind (indentation indent_string new_indent) (\<lambda>inner.
        obind (dump_bytes '', '' bs) (\<lambda>bytes.
        obind (dump_subtype subtype) (\<lambda>st.
        obind (indentation indent_string current_indent) (\<lambda>outer.
          Ok (''{'' @ [CHR 0x0A] @ inner @ [CHR 0x22] @ ''bytes'' @ [CHR 0x22] @ '': ['' @ bytes @ ''],'' @ [CHR 0x0A]
            @ inner @ [CHR 0x22] @ ''subtype'' @ [CHR 0x22] @ '': '' @ st @ [CHR 0x0A] @ outer @ ''}'', indent_string))))))
      else
        obind (dump_bytes '','' bs) (\<lambda>bytes.
        obind (dump_subtype subtype) (\<lambda>st.
          Ok (''{'' @ [CHR 0x22] @ ''bytes'' @ [CHR 0x22] @ '':['' @ bytes @ ''],'' @ [CHR 0x22] @ ''subtype''
            @ [CHR 0x22] @ '':'' @ st @ ''}'', indent_string))))"

text \<open>\<open>dump_members\<close> and \<open>dump_elements\<close> are the loops over a container that is not empty, the last element
  apart; \<open>indent\<close> is their elements' indentation.\<close>

definition member_indent :: "bool \<Rightarrow> string \<Rightarrow> nat \<Rightarrow> string outcome" where
  "member_indent pretty_print indent_string indent = (if pretty_print then indentation indent_string indent else Ok [])"

definition separator :: "bool \<Rightarrow> string" where
  "separator pretty_print = (if pretty_print then [CHR '','', CHR 0x0A] else '','')"

function (sequential)
  dump :: "error_handler_t \<Rightarrow> bool \<Rightarrow> bool \<Rightarrow> nat \<Rightarrow> nat \<Rightarrow> json \<Rightarrow> string \<Rightarrow> (string \<times> string) outcome" and
  dump_members :: "error_handler_t \<Rightarrow> bool \<Rightarrow> bool \<Rightarrow> nat \<Rightarrow> nat \<Rightarrow> (string \<times> json) list \<Rightarrow> string \<Rightarrow> (string \<times> string) outcome" and
  dump_elements :: "error_handler_t \<Rightarrow> bool \<Rightarrow> bool \<Rightarrow> nat \<Rightarrow> nat \<Rightarrow> json list \<Rightarrow> string \<Rightarrow> (string \<times> string) outcome"
where
  "dump h pretty a step current (JObject m) ind =
     (if m = [] then Ok (''{}'', ind)
      else if pretty
      then (let new_indent = deeper current step in
        obind (dump_members h True a step new_indent m (grow_indent ind new_indent)) (\<lambda>(text, ind).
        obind (indentation ind current) (\<lambda>outer.
          Ok (''{'' @ [CHR 0x0A] @ text @ [CHR 0x0A] @ outer @ ''}'', ind))))
      else obind (dump_members h False a step current m ind) (\<lambda>(text, ind). Ok (''{'' @ text @ ''}'', ind)))"
| "dump h pretty a step current (JArray xs) ind =
     (if xs = [] then Ok (''[]'', ind)
      else if pretty
      then (let new_indent = deeper current step in
        obind (dump_elements h True a step new_indent xs (grow_indent ind new_indent)) (\<lambda>(text, ind).
        obind (indentation ind current) (\<lambda>outer.
          Ok (''['' @ [CHR 0x0A] @ text @ [CHR 0x0A] @ outer @ '']'', ind))))
      else obind (dump_elements h False a step current xs ind) (\<lambda>(text, ind). Ok (''['' @ text @ '']'', ind)))"
| "dump h pretty a step current (JString s) ind =
     obind (dump_escaped h a s) (\<lambda>text. Ok ([CHR 0x22] @ text @ [CHR 0x22], ind))"
| "dump h pretty a step current (JBinary bs st) ind = dump_binary pretty step current bs st ind"
| "dump h pretty a step current (JBoolean b) ind = Ok (if b then ''true'' else ''false'', ind)"
| "dump h pretty a step current (JInteger i) ind = obind (dump_signed i) (\<lambda>text. Ok (text, ind))"
| "dump h pretty a step current (JUnsigned n) ind = obind (dump_unsigned n) (\<lambda>text. Ok (text, ind))"
| "dump h pretty a step current (JFloat x) ind = obind (dump_float x) (\<lambda>text. Ok (text, ind))"
| "dump h pretty a step current JDiscarded ind = Ok (''<discarded>'', ind)"
| "dump h pretty a step current JNull ind = Ok (''null'', ind)"
| "dump_members h pretty a step indent [] ind = Ok ([], ind)"
| "dump_members h pretty a step indent ((k, v) # m) ind =
     obind (member_indent pretty ind indent) (\<lambda>pre.
     obind (dump_escaped h a k) (\<lambda>key.
     obind (dump h pretty a step indent v ind) (\<lambda>(value, ind).
     let text = pre @ [CHR 0x22] @ key @ [CHR 0x22] @ (if pretty then '': '' else '':'') @ value in
     if m = [] then Ok (text, ind)
     else obind (dump_members h pretty a step indent m ind) (\<lambda>(rest, ind).
       Ok (text @ separator pretty @ rest, ind)))))"
| "dump_elements h pretty a step indent [] ind = Ok ([], ind)"
| "dump_elements h pretty a step indent (v # vs) ind =
     obind (member_indent pretty ind indent) (\<lambda>pre.
     obind (dump h pretty a step indent v ind) (\<lambda>(value, ind).
     if vs = [] then Ok (pre @ value, ind)
     else obind (dump_elements h pretty a step indent vs ind) (\<lambda>(rest, ind).
       Ok (pre @ value @ separator pretty @ rest, ind))))"
  by pat_completeness auto
termination
  by (relation "measure (\<lambda>x. case x of
      Inl (h, p, a, st, cur, j, ind) \<Rightarrow> size j
    | Inr (Inl (h, p, a, st, cur, m, ind)) \<Rightarrow> size_list (size_prod (\<lambda>_. 0) size) m
    | Inr (Inr (h, p, a, st, cur, xs, ind)) \<Rightarrow> size_list size xs)") auto

text \<open>\<^verbatim>\<open>basic_json::dump\<close>: a negative \<open>indent\<close> is the compact form.\<close>

definition json_dump :: "json \<Rightarrow> int \<Rightarrow> char \<Rightarrow> bool \<Rightarrow> error_handler_t \<Rightarrow> string outcome" where
  "json_dump j indent indent_char ensure_ascii error_handler =
     (let indent_string = replicate 512 indent_char in
      obind (if 0 \<le> indent then dump error_handler True ensure_ascii (nat indent) 0 j indent_string
             else dump error_handler False ensure_ascii 0 0 j indent_string) (\<lambda>(result, _). Ok result))"

end
