(* ===== verification/JsonStrings.thy ===== *)
theory JsonStrings
  imports JsonReading JsonSerializer
begin

text \<open>
  The strings the serializer of \<^verbatim>\<open>external/json.hpp\<close> writes: its UTF-8 automaton passes exactly over the
  sequences the lexer accepts, its string buffer keeps room for one more code point between two, and
  what \<^verbatim>\<open>dump_escaped\<close> writes for well-formed UTF-8 is a spelling of that string.
\<close>

section \<open>Well-formed UTF-8\<close>

inductive utf8_text :: "string \<Rightarrow> bool" where
  empty: "utf8_text []"
| ascii: "of_char c < (0x80 :: int) \<Longrightarrow> utf8_text s \<Longrightarrow> utf8_text (c # s)"
| sequence: "utf8_ranges (of_char c) = Some rs \<Longrightarrow> in_ranges rs bs \<Longrightarrow> utf8_text s \<Longrightarrow> utf8_text (c # bs @ s)"

section \<open>The automaton\<close>

lemma list_all_upt: "list_all P [i..<j] \<Longrightarrow> i \<le> n \<Longrightarrow> n < j \<Longrightarrow> P n"
  by (simp add: list_all_iff)

lemma ascii_table: "list_all (\<lambda>b. utf8d ! b = 0) [0..<0x80]"
  by code_simp

lemma utf8d_ascii: "b < 0x80 \<Longrightarrow> utf8d ! b = 0"
  by (rule list_all_upt [OF ascii_table]) simp_all

lemma decode_ascii: "b < 0x80 \<Longrightarrow> decode UTF8_ACCEPT cp b = (UTF8_ACCEPT, of_nat b)"
proof -
  assume b: "b < 0x80"
  have "(0xFF :: u32) AND of_nat b = take_bit 8 (of_nat b)" by (simp add: take_bit_eq_mask mask_eq_exp_minus_1 and.commute)
  also have "\<dots> = of_nat b" using b by (simp add: take_bit_of_nat take_bit_nat_eq_self)
  finally have "(0xFF :: u32) AND of_nat b = of_nat b" .
  moreover have "utf8d ! 256 = 0" by code_simp
  ultimately show ?thesis using b by (simp add: decode_def utf8d_ascii UTF8_ACCEPT_def)
qed

text \<open>The state after a lead byte, and the states after each continuation byte.\<close>

definition lead_state :: "nat \<Rightarrow> nat" where
  "lead_state b = (if b \<le> 0xDF then 2 else if b = 0xE0 then 4 else if b = 0xED then 5 else if b \<le> 0xEF then 3
     else if b = 0xF0 then 6 else if b = 0xF4 then 8 else 7)"

lemma decode_lead_value:
  assumes "b < 256"
  shows "unat (snd (decode UTF8_ACCEPT cp b)) = b mod 2 ^ (8 - utf8d ! b)"
proof -
  have "(0xFF :: u32) = mask 8" by (simp add: mask_eq_exp_minus_1)
  moreover have "drop_bit n (mask 8 :: u32) = mask (8 - n)" for n
    by (rule bit_word_eqI) (auto simp: bit_simps)
  ultimately have "drop_bit n (0xFF :: u32) = mask (8 - n)" for n by (simp only:)
  then have "unat (drop_bit (utf8d ! b) (0xFF :: u32) AND of_nat b) = take_bit (8 - utf8d ! b) b"
    using assms by (simp add: and.commute [of "mask _"] take_bit_eq_mask [symmetric] unsigned_take_bit_eq unat_of_nat_u32)
  then show ?thesis by (simp add: decode_def Let_def take_bit_eq_mod)
qed

lemma lead_table: "list_all (\<lambda>b. utf8d ! (256 + utf8d ! b) = lead_state b \<and> b mod 2 ^ (8 - utf8d ! b) < 0x20
    \<and> (b \<noteq> 0xE0 \<longrightarrow> b \<noteq> 0xF0 \<longrightarrow> 0 < b mod 2 ^ (8 - utf8d ! b)) \<and> (b \<le> 0xDF \<longrightarrow> 2 \<le> b mod 2 ^ (8 - utf8d ! b))) [0xC2..<0xF5]"
  by code_simp

lemma decode_lead:
  assumes "0xC2 \<le> b" and "b \<le> 0xF4"
  shows "fst (decode UTF8_ACCEPT cp b) = lead_state b" "unat (snd (decode UTF8_ACCEPT cp b)) < 0x20"
    "b \<noteq> 0xE0 \<Longrightarrow> b \<noteq> 0xF0 \<Longrightarrow> 0 < unat (snd (decode UTF8_ACCEPT cp b))" "b \<le> 0xDF \<Longrightarrow> 2 \<le> unat (snd (decode UTF8_ACCEPT cp b))"
proof -
  have "fst (decode UTF8_ACCEPT cp b) = utf8d ! (256 + utf8d ! b)" by (simp add: decode_def Let_def UTF8_ACCEPT_def)
  moreover have "unat (snd (decode UTF8_ACCEPT cp b)) = b mod 2 ^ (8 - utf8d ! b)" using assms by (intro decode_lead_value) simp
  moreover note list_all_upt [OF lead_table, of b]
  ultimately show "fst (decode UTF8_ACCEPT cp b) = lead_state b" "unat (snd (decode UTF8_ACCEPT cp b)) < 0x20"
    "b \<noteq> 0xE0 \<Longrightarrow> b \<noteq> 0xF0 \<Longrightarrow> 0 < unat (snd (decode UTF8_ACCEPT cp b))" "b \<le> 0xDF \<Longrightarrow> 2 \<le> unat (snd (decode UTF8_ACCEPT cp b))"
    using assms by simp_all
qed

definition next_state :: "nat \<Rightarrow> nat \<Rightarrow> nat" where
  "next_state state b = utf8d ! (256 + state * 16 + utf8d ! b)"

lemma next_state_table:
  "list_all (\<lambda>b. next_state 2 b = 0 \<and> next_state 3 b = 2 \<and> next_state 7 b = 3) [0x80..<0xC0]"
  "list_all (\<lambda>b. next_state 4 b = 2) [0xA0..<0xC0]" "list_all (\<lambda>b. next_state 5 b = 2) [0x80..<0xA0]"
  "list_all (\<lambda>b. next_state 6 b = 3) [0x90..<0xC0]" "list_all (\<lambda>b. next_state 8 b = 3) [0x80..<0x90]"
  by code_simp+

lemma or_push_bit: "r < 2 ^ n \<Longrightarrow> r OR push_bit n m = 2 ^ n * m + (r :: nat)"
proof -
  assume r: "r < 2 ^ n"
  have "\<not> (bit r k \<and> n \<le> k)" for k
  proof
    assume "bit r k \<and> n \<le> k"
    moreover from this have "r < 2 ^ k" using r by (meson less_le_trans one_le_numeral power_increasing)
    ultimately show False by (simp add: bit_iff_odd)
  qed
  then have "r AND push_bit n m = 0" by (intro bit_eqI) (auto simp: bit_simps)
  then have "r OR push_bit n m = r + push_bit n m" by (simp add: disjunctive_add_eq_or)
  then show ?thesis by (simp add: push_bit_eq_mult)
qed

lemma decode_continue:
  assumes "state \<noteq> UTF8_ACCEPT" and "0x80 \<le> b" and "b < 0xC0" and "unat cp < 2 ^ 20"
  shows "fst (decode state cp b) = next_state state b" "unat (snd (decode state cp b)) = 64 * unat cp + (b - 0x80)"
proof -
  show "fst (decode state cp b) = next_state state b" by (simp add: decode_def next_state_def Let_def)
  have "(0x3F :: u32) = mask 6" by (simp add: mask_eq_exp_minus_1)
  then have "(of_nat b :: u32) AND 0x3F = take_bit 6 (of_nat b)" by (simp only: take_bit_eq_mask)
  moreover have "unat (take_bit 6 (of_nat b :: u32)) = b mod 64"
    using assms(3) by (simp add: take_bit_eq_mod unat_mod unat_of_nat_u32)
  ultimately have "unat ((of_nat b :: u32) AND 0x3F) = b mod 64" by (simp only:)
  also obtain d where d: "b = d + 2 * 64" using assms(2) by (metis add.commute le_Suc_ex mult_2 numeral_Bit0)
  then have "b mod 64 = b - 0x80" using assms(3) by (simp only: mod_mult_self1) simp
  finally have low: "unat ((of_nat b :: u32) AND 0x3F) = b - 0x80" .
  have high: "unat (push_bit 6 cp) = push_bit 6 (unat cp)"
    using assms(4) by (simp add: push_bit_eq_mult unat_word_ariths)
  have "(b - 0x80) OR push_bit 6 (unat cp) = 64 * unat cp + (b - 0x80)"
    using or_push_bit [of "b - 0x80" 6 "unat cp"] assms(3) by simp
  moreover have "snd (decode state cp b) = (of_nat b AND 0x3F) OR push_bit 6 cp" using assms(1) by (simp add: decode_def Let_def)
  ultimately show "unat (snd (decode state cp b)) = 64 * unat cp + (b - 0x80)"
    by (simp only: unsigned_or_eq low high)
qed

section \<open>Escaped strings\<close>

text \<open>Between two code points the buffer has room for one more, 13 bytes.\<close>

definition between :: "escape_state \<Rightarrow> bool" where
  "between es \<longleftrightarrow> es_state es = UTF8_ACCEPT \<and> es_undumped es = 0 \<and> es_accepted es = length (es_buf es)
     \<and> length (es_buf es) + 13 \<le> string_buffer_size"

definition written :: "escape_state \<Rightarrow> string" where
  "written es = es_out es @ es_buf es"

lemma escape_code_point_size: "snd (escape_code_point a cp c) \<le> 13" "length (fst (escape_code_point a cp c)) \<le> snd (escape_code_point a cp c)"
  by (simp_all add: escape_code_point_def hex4_lower_def)

lemma accept_between:
  assumes "length (es_buf es) + snd (escape_code_point a (es_codepoint es) c) \<le> string_buffer_size" and "es_state es = UTF8_ACCEPT"
  shows "\<exists>es'. escape_accept a c es = Ok es' \<and> between es' \<and> written es' = written es @ fst (escape_code_point a (es_codepoint es) c)"
proof -
  let ?buf = "es_buf es @ fst (escape_code_point a (es_codepoint es) c)"
  have put: "buffer_put (es_buf es) (escape_code_point a (es_codepoint es) c) = Ok ?buf" using assms(1) by (simp add: buffer_put_def)
  have "length ?buf \<le> string_buffer_size" using escape_code_point_size(2) [of a "es_codepoint es" c] assms(1) by simp
  then show ?thesis
    using assms(2) by (auto simp: escape_accept_def put buffer_flush_def between_def written_def string_buffer_size_def)
qed

lemma loop_ascii:
  assumes "between es" and "of_char c < (0x80 :: nat)"
  shows "\<exists>es'. escape_loop h a i (c # s) es = escape_loop h a (i + 1) s es' \<and> between es'
    \<and> written es' = written es @ fst (escape_code_point a (of_nat (of_char c)) c)"
proof -
  let ?es = "es\<lparr>es_state := UTF8_ACCEPT, es_codepoint := of_nat (of_char c)\<rparr>"
  have "length (es_buf ?es) + snd (escape_code_point a (es_codepoint ?es) c) \<le> string_buffer_size"
    using assms(1) escape_code_point_size(1) [of a "es_codepoint ?es" c] by (simp add: between_def)
  from accept_between [OF this] obtain es' where "escape_accept a c ?es = Ok es'" "between es'"
      "written es' = written ?es @ fst (escape_code_point a (of_nat (of_char c)) c)" by auto
  moreover have "decode (es_state es) (es_codepoint es) (of_char c) = (UTF8_ACCEPT, of_nat (of_char c))"
    using assms decode_ascii by (simp add: between_def)
  ultimately show ?thesis by (auto simp: written_def)
qed

text \<open>Inside a sequence, \<open>n\<close> bytes of it copied.\<close>

definition inside :: "nat \<Rightarrow> nat \<Rightarrow> escape_state \<Rightarrow> bool" where
  "inside n state es \<longleftrightarrow> es_state es = state \<and> 2 \<le> state \<and> length (es_buf es) + 13 \<le> string_buffer_size + n
     \<and> unat (es_codepoint es) < 64 ^ n"

lemma incomplete_inside:
  assumes "length (es_buf es) < string_buffer_size"
  shows "escape_incomplete False c es = Ok (es\<lparr>es_buf := es_buf es @ [c], es_undumped := es_undumped es + 1\<rparr>)"
  using assms by (simp add: escape_incomplete_def buffer_put_def)

lemma loop_lead:
  assumes "between es" and "0xC2 \<le> (of_char c :: nat)" and "of_char c \<le> (0xF4 :: nat)"
  obtains es' where "escape_loop h False i (c # s) es = escape_loop h False (i + 1) s es'" "inside 1 (lead_state (of_char c)) es'"
    "written es' = written es @ [c]" "of_char c \<noteq> (0xE0 :: nat) \<Longrightarrow> of_char c \<noteq> (0xF0 :: nat) \<Longrightarrow> 0 < unat (es_codepoint es')"
    "of_char c \<le> (0xDF :: nat) \<Longrightarrow> 2 \<le> unat (es_codepoint es')"
proof -
  obtain st cp where d: "decode UTF8_ACCEPT (es_codepoint es) (of_char c) = (st, cp)" by fastforce
  note lead = decode_lead [OF assms(2,3), of "es_codepoint es", unfolded d fst_conv snd_conv]
  have st: "2 \<le> st" using lead(1) by (simp add: lead_state_def)
  let ?es = "es\<lparr>es_state := st, es_codepoint := cp\<rparr>"
  let ?es' = "?es\<lparr>es_buf := es_buf es @ [c], es_undumped := es_undumped es + 1\<rparr>"
  have "escape_incomplete False c ?es = Ok ?es'"
    using assms(1) incomplete_inside [of ?es c] by (simp add: between_def)
  then have "escape_loop h False i (c # s) es = escape_loop h False (i + 1) s ?es'"
    using assms(1) d st by (simp add: between_def UTF8_ACCEPT_def UTF8_REJECT_def)
  moreover have "inside 1 (lead_state (of_char c)) ?es'" using assms(1) lead(1,2) st by (simp add: inside_def between_def)
  ultimately show ?thesis using that [of ?es'] lead(3,4) by (simp add: written_def)
qed

lemma loop_inside:
  assumes "inside n state es" and "n \<le> 3" and "0x80 \<le> (of_char c :: nat)" and "of_char c < (0xC0 :: nat)"
    and "next_state state (of_char c) = state'" and "2 \<le> state'"
  obtains es' where "escape_loop h False i (c # s) es = escape_loop h False (i + 1) s es'" "inside (n + 1) state' es'"
    "written es' = written es @ [c]" "unat (es_codepoint es') = 64 * unat (es_codepoint es) + (of_char c - 0x80)"
proof -
  have "(64 :: nat) ^ n \<le> 64 ^ 3" using assms(2) by (intro power_increasing) simp_all
  then have cp: "unat (es_codepoint es) < 2 ^ 20" "state \<noteq> UTF8_ACCEPT" using assms(1) by (auto simp: inside_def UTF8_ACCEPT_def)
  obtain st cp where d: "decode state (es_codepoint es) (of_char c) = (st, cp)" by fastforce
  note step = decode_continue [OF cp(2) assms(3,4) cp(1), unfolded d fst_conv snd_conv]
  let ?es = "es\<lparr>es_state := st, es_codepoint := cp\<rparr>"
  let ?es' = "?es\<lparr>es_buf := es_buf es @ [c], es_undumped := es_undumped es + 1\<rparr>"
  have "escape_incomplete False c ?es = Ok ?es'"
    using assms(1,2) incomplete_inside [of ?es c] by (simp add: inside_def)
  then have "escape_loop h False i (c # s) es = escape_loop h False (i + 1) s ?es'"
    using assms(1,5,6) d step(1) by (simp add: inside_def UTF8_ACCEPT_def UTF8_REJECT_def)
  moreover have "unat (es_codepoint es) + 1 \<le> 64 ^ n" using assms(1) by (simp add: inside_def)
  then have "64 * (unat (es_codepoint es) + 1) \<le> 64 * 64 ^ n" by (rule mult_le_mono2)
  then have "unat cp < 64 ^ (n + 1)" using assms(3,4) step(2) by simp
  then have "inside (n + 1) state' ?es'" using assms step by (simp add: inside_def)
  ultimately show ?thesis using that [of ?es'] step(2) by (simp add: written_def)
qed

lemma loop_last:
  assumes "inside n 2 es" and "n \<le> 3" and "0x80 \<le> (of_char c :: nat)" and "of_char c < (0xC0 :: nat)" and "2 \<le> unat (es_codepoint es)"
  obtains es' where "escape_loop h False i (c # s) es = escape_loop h False (i + 1) s es'" "between es'"
    "written es' = written es @ [c]"
proof -
  have "(64 :: nat) ^ n \<le> 64 ^ 3" using assms(2) by (intro power_increasing) simp_all
  then have cp: "unat (es_codepoint es) < 2 ^ 20" using assms(1) by (auto simp: inside_def)
  obtain st cp' where d: "decode 2 (es_codepoint es) (of_char c) = (st, cp')" by fastforce
  note step = decode_continue [of 2, OF _ assms(3,4) cp, unfolded d fst_conv snd_conv]
  have st: "st = UTF8_ACCEPT" using step(1) list_all_upt [OF next_state_table(1) assms(3,4)] by (simp add: UTF8_ACCEPT_def)
  have "0x80 \<le> unat cp'" using step(2) assms(5) by (simp add: UTF8_ACCEPT_def)
  then have "0x80 \<le> cp'" by (simp add: word_le_nat_alt)
  then have esc: "escape_code_point False cp' c = ([c], 1)" by (auto simp: escape_code_point_def word_le_nat_alt)
  let ?es = "es\<lparr>es_state := st, es_codepoint := cp'\<rparr>"
  have "length (es_buf ?es) + snd (escape_code_point False (es_codepoint ?es) c) \<le> string_buffer_size"
    using assms(1,2) esc by (simp add: inside_def)
  from accept_between [OF this] st esc obtain es' where "escape_accept False c ?es = Ok es'" "between es'" "written es' = written ?es @ [c]"
    by auto
  then show ?thesis using that [of es'] d st assms(1) by (simp add: inside_def written_def)
qed

text \<open>A whole sequence is copied.\<close>

lemma of_char_int: "(of_char c :: int) = int (of_char c)"
  by (simp add: of_char_def)

lemma ranges_byte: "in_ranges (r # rs) bs \<Longrightarrow> 0 \<le> fst r \<Longrightarrow> \<exists>c cs. bs = c # cs \<and> nat (fst r) \<le> of_char c \<and> of_char c \<le> nat (snd r) \<and> in_ranges rs cs"
  by (cases bs) (auto simp: of_char_int nat_le_iff le_nat_iff)

text \<open>\<open>sequence_read\<close>: the loop passes over \<open>bs\<close>, copying it, and is between code points again.\<close>

definition sequence_read :: "error_handler_t \<Rightarrow> nat \<Rightarrow> string \<Rightarrow> string \<Rightarrow> escape_state \<Rightarrow> bool" where
  "sequence_read h i bs s es \<longleftrightarrow> (\<exists>es'. escape_loop h False i (bs @ s) es = escape_loop h False (i + length bs) s es'
     \<and> between es' \<and> written es' = written es @ bs)"

lemma sequence_readI:
  assumes "escape_loop h False i (c # bs @ s) es = escape_loop h False (i + 1) (bs @ s) es1" and "written es1 = written es @ [c]"
    and "sequence_read h (i + 1) bs s es1"
  shows "sequence_read h i (c # bs) s es"
  using assms by (auto simp: sequence_read_def)

lemma tail_1:
  assumes "inside n 2 es" and "n \<le> 3" and "2 \<le> unat (es_codepoint es)" and "in_ranges [(0x80, 0xBF)] bs"
  shows "sequence_read h i bs s es"
proof -
  obtain c where bs: "bs = [c]" "0x80 \<le> (of_char c :: nat)" "of_char c < (0xC0 :: nat)"
    using ranges_byte [OF assms(4)] by (auto elim: in_ranges.elims)
  show ?thesis
    by (rule loop_last [OF assms(1,2) bs(2,3) assms(3), where h = h and i = i and s = s])
      (auto simp: sequence_read_def bs(1))
qed

text \<open>One continuation byte that leads to the next state.\<close>

lemma tail_step:
  assumes "inside n state es" and "n \<le> 3" and "in_ranges (r # rs) bs" and "0x80 \<le> fst r" and "snd r \<le> 0xBF"
    and "list_all (\<lambda>b. next_state state b = state') [nat (fst r)..<nat (snd r) + 1]" and "2 \<le> state'"
    and "\<And>es' bs'. inside (n + 1) state' es' \<Longrightarrow> in_ranges rs bs' \<Longrightarrow>
      64 * unat (es_codepoint es) + (nat (fst r) - 0x80) \<le> unat (es_codepoint es') \<Longrightarrow> sequence_read h (i + 1) bs' s es'"
  shows "sequence_read h i bs s es"
proof -
  obtain c cs where bs: "bs = c # cs" "nat (fst r) \<le> of_char c" "of_char c \<le> nat (snd r)" "in_ranges rs cs"
    using ranges_byte [OF assms(3)] assms(4) by auto
  have b: "0x80 \<le> (of_char c :: nat)" "of_char c < (0xC0 :: nat)" using bs(2,3) assms(4,5) by linarith+
  have next': "next_state state (of_char c) = state'" using bs(2,3) by (intro list_all_upt [OF assms(6)]) auto
  show ?thesis unfolding bs(1)
  proof (rule loop_inside [OF assms(1,2) b next' assms(7), where h = h and i = i and s = "cs @ s"])
    fix es'
    assume es': "escape_loop h False i (c # cs @ s) es = escape_loop h False (i + 1) (cs @ s) es'" "inside (n + 1) state' es'"
      "written es' = written es @ [c]" "unat (es_codepoint es') = 64 * unat (es_codepoint es) + (of_char c - 0x80)"
    have "sequence_read h (i + 1) cs s es'" by (rule assms(8)) (use es' bs in auto)
    with es' show "sequence_read h i (c # cs) s es" by (intro sequence_readI)
  qed
qed

lemma state_tables:
  "list_all (\<lambda>b. next_state 3 b = 2) [0x80..<0xC0]" "list_all (\<lambda>b. next_state 7 b = 3) [0x80..<0xC0]"
  using next_state_table(1) by (simp_all only: list_all_iff) blast+

lemma tail_2:
  assumes "inside n 3 es" and "n \<le> 2" and "1 \<le> unat (es_codepoint es)" and "in_ranges [(0x80, 0xBF), (0x80, 0xBF)] bs"
  shows "sequence_read h i bs s es"
  by (rule tail_step [OF assms(1) _ assms(4), of 2]) (use assms(2,3) state_tables(1) in \<open>auto intro: tail_1\<close>)

lemma loop_sequence:
  assumes "between es" and "utf8_ranges (of_char c) = Some rs" and "in_ranges rs bs"
  shows "sequence_read h i (c # bs) s es"
proof -
  let ?c = "of_char c :: nat"
  have c: "0xC2 \<le> ?c" "?c \<le> 0xF4" using assms(2) by (auto simp: utf8_ranges_def of_char_int split: if_splits)
  show ?thesis
  proof (rule loop_lead [OF assms(1) c, where h = h and i = i and s = "bs @ s"])
    fix es1
    assume lead: "escape_loop h False i (c # bs @ s) es = escape_loop h False (i + 1) (bs @ s) es1" "inside 1 (lead_state ?c) es1"
      "written es1 = written es @ [c]" "?c \<noteq> 0xE0 \<Longrightarrow> ?c \<noteq> 0xF0 \<Longrightarrow> 0 < unat (es_codepoint es1)"
      "?c \<le> 0xDF \<Longrightarrow> 2 \<le> unat (es_codepoint es1)"
    let ?cont = "(0x80, 0xBF) :: int \<times> int"
    note ranges = assms(2) [unfolded utf8_ranges_def of_char_int]
    consider "?c \<le> 0xDF" "rs = [?cont]" | "?c = 0xE0" "rs = [(0xA0, 0xBF), ?cont]" | "?c = 0xED" "rs = [(0x80, 0x9F), ?cont]"
      | "0xE1 \<le> ?c" "?c \<le> 0xEF" "?c \<noteq> 0xED" "rs = [?cont, ?cont]" | "?c = 0xF0" "rs = [(0x90, 0xBF), ?cont, ?cont]"
      | "?c = 0xF4" "rs = [(0x80, 0x8F), ?cont, ?cont]" | "0xF1 \<le> ?c" "?c \<le> 0xF3" "rs = [?cont, ?cont, ?cont]"
      using ranges c by (auto split: if_splits)
    then have "sequence_read h (i + 1) bs s es1"
    proof cases
      case 1
      with lead c assms(3) show ?thesis by (intro tail_1) (auto simp: lead_state_def)
    next
      case 2
      with lead(2) assms(3) next_state_table(2) show ?thesis
        by (intro tail_step [of 1 4 es1 "(0xA0, 0xBF)" "[?cont]" bs 2]) (auto simp: lead_state_def intro: tail_1)
    next
      case 3
      with lead(2,4) assms(3) next_state_table(3) show ?thesis
        by (intro tail_step [of 1 5 es1 "(0x80, 0x9F)" "[?cont]" bs 2]) (auto simp: lead_state_def intro: tail_1)
    next
      case 4
      with lead(2,4) assms(3) show ?thesis by (intro tail_2 [of 1]) (auto simp: lead_state_def)
    next
      case 5
      with lead(2) assms(3) next_state_table(4) show ?thesis
        by (intro tail_step [of 1 6 es1 "(0x90, 0xBF)" "[?cont, ?cont]" bs 3]) (auto simp: lead_state_def intro: tail_2)
    next
      case 6
      with lead(2,4) assms(3) next_state_table(5) show ?thesis
        by (intro tail_step [of 1 8 es1 "(0x80, 0x8F)" "[?cont, ?cont]" bs 3]) (auto simp: lead_state_def intro: tail_2)
    next
      case 7
      with lead(2,4) assms(3) state_tables(2) show ?thesis
        by (intro tail_step [of 1 7 es1 "(0x80, 0xBF)" "[?cont, ?cont]" bs 3]) (auto simp: lead_state_def intro: tail_2)
    qed
    with lead(1,3) show "sequence_read h i (c # bs) s es" by (intro sequence_readI)
  qed
qed


text \<open>What is written for an ASCII character spells it: the check of the 128 cases.\<close>

definition ascii_escape :: "nat \<Rightarrow> string" where
  "ascii_escape n =
     (if n = 0x08 then [CHR 0x5C, CHR ''b'']
      else if n = 0x09 then [CHR 0x5C, CHR ''t'']
      else if n = 0x0A then [CHR 0x5C, CHR ''n'']
      else if n = 0x0C then [CHR 0x5C, CHR ''f'']
      else if n = 0x0D then [CHR 0x5C, CHR ''r'']
      else if n = 0x22 then [CHR 0x5C, CHR 0x22]
      else if n = 0x5C then [CHR 0x5C, CHR 0x5C]
      else if n \<le> 0x1F then CHR 0x5C # CHR ''u'' # hex4_lower n
      else [char_of n])"

lemma u32_of_nat:
  assumes "n < 2 ^ 16" and "m < 2 ^ 16"
  shows "((of_nat n :: u32) = of_nat m) = (n = m)" "((of_nat n :: u32) \<le> of_nat m) = (n \<le> m)"
  using assms by (simp_all add: word_eq_unat word_le_nat_alt unat_of_nat_u32)

lemma ascii_escape:
  assumes "of_char c < (0x80 :: nat)"
  shows "fst (escape_code_point False (of_nat (of_char c)) c) = ascii_escape (of_char c)"
proof -
  note eq = u32_of_nat(1) [of "of_char c"] and le = u32_of_nat(2) [of "of_char c"]
  show ?thesis
    using assms eq [of "0x08"] eq [of "0x09"] eq [of "0x0A"] eq [of "0x0C"] eq [of "0x0D"] eq [of "0x22"] eq [of "0x5C"]
      le [of "0x1F"] le [of "0xFFFF"]
    by (simp add: escape_code_point_def ascii_escape_def unat_of_nat_u32)
qed

definition spells_ascii :: "nat \<Rightarrow> bool" where
  "spells_ascii n =
     (if plain_ascii (int n) \<and> ascii_escape n = [char_of n] then True
      else case ascii_escape n of
             [b, e] \<Rightarrow> b = CHR 0x5C \<and> (char_of n, e) \<in> set simple_escapes
           | [b, u, h1, h2, h3, h4] \<Rightarrow> b = CHR 0x5C \<and> u = CHR ''u'' \<and> hex4_number [h1, h2, h3, h4] = Some (int n)
           | _ \<Rightarrow> False)"

lemma spells_ascii_table: "list_all spells_ascii [0..<0x80]"
  by code_simp

lemma ascii_unit:
  assumes "of_char c < (0x80 :: nat)"
  shows "string_unit [c] (fst (escape_code_point False (of_nat (of_char c)) c))"
proof -
  have "spells_ascii (of_char c)" by (rule list_all_upt [OF spells_ascii_table _ assms]) simp
  moreover have "utf8_encode (int (of_char c)) = [int (of_char c)]" "\<not> surrogate (int (of_char c))"
    using assms by (simp_all add: utf8_encode_def surrogate_def)
  ultimately show ?thesis
    unfolding ascii_escape [OF assms] spells_ascii_def
    using string_unit.plain [of c] string_unit.escape [of c] string_unit.unicode [of _ "int (of_char c)"]
    by (auto simp: of_char_int [symmetric] split: if_splits list.splits)
qed

lemma dump_escaped_loop:
  "utf8_text s \<Longrightarrow> between es \<Longrightarrow>
   \<exists>es' t. escape_loop h False i s es = Ok es' \<and> between es' \<and> written es' = written es @ t \<and> string_text s t"
proof (induction s arbitrary: es i rule: utf8_text.induct)
  case empty
  then show ?case using string_text.empty by auto
next
  case (ascii c s)
  have c: "of_char c < (0x80 :: nat)" using ascii(1) by (simp add: of_char_int)
  from loop_ascii [OF ascii(4) c, of h False i s] obtain es1 where
    es1: "escape_loop h False i (c # s) es = escape_loop h False (i + 1) s es1" "between es1"
      "written es1 = written es @ fst (escape_code_point False (of_nat (of_char c)) c)" by blast
  from ascii.IH [OF es1(2), of "i + 1"] obtain es' t where
    "escape_loop h False (i + 1) s es1 = Ok es'" "between es'" "written es' = written es1 @ t" "string_text s t" by blast
  with es1 string_text.unit [OF ascii_unit [OF c]] show ?case by fastforce
next
  case (sequence c rs bs s)
  from loop_sequence [OF sequence(5,1,2), of h i s] obtain es1 where
    es1: "escape_loop h False i ((c # bs) @ s) es = escape_loop h False (i + length (c # bs)) s es1" "between es1"
      "written es1 = written es @ c # bs" by (auto simp: sequence_read_def)
  from sequence.IH [OF es1(2), of "i + length (c # bs)"] obtain es' t where
    "escape_loop h False (i + length (c # bs)) s es1 = Ok es'" "between es'" "written es' = written es1 @ t" "string_text s t" by blast
  with es1 string_text.unit [OF string_unit.sequence [OF sequence(1,2)], of s t] show ?case by auto
qed

lemma dump_escaped_spells: "utf8_text s \<Longrightarrow> \<exists>t. dump_escaped h False s = Ok t \<and> string_text s t"
  using dump_escaped_loop [of s escape_start h 0]
  by (auto simp: dump_escaped_def escape_finish_def escape_start_def between_def written_def string_buffer_size_def)

section \<open>Plain strings\<close>

definition plain_string :: "string \<Rightarrow> bool" where
  "plain_string s \<longleftrightarrow> list_all (\<lambda>c. plain_ascii (of_char c)) s"

lemma plain_escape:
  assumes "plain_ascii (of_char c)"
  shows "of_char c < (0x80 :: nat)" "fst (escape_code_point False (of_nat (of_char c)) c) = [c]"
proof -
  have c: "0x20 \<le> (of_char c :: nat)" "of_char c \<le> (0x7F :: nat)" "of_char c \<noteq> (0x22 :: nat)" "of_char c \<noteq> (0x5C :: nat)"
    using assms by (auto simp: plain_ascii_def of_char_int)
  then show "of_char c < (0x80 :: nat)" by simp
  then show "fst (escape_code_point False (of_nat (of_char c)) c) = [c]"
    using c by (simp add: ascii_escape ascii_escape_def)
qed

lemma plain_loop:
  "plain_string s \<Longrightarrow> between es \<Longrightarrow> \<exists>es'. escape_loop h False i s es = Ok es' \<and> between es' \<and> written es' = written es @ s"
proof (induction s arbitrary: es i)
  case (Cons c s)
  then have c: "plain_ascii (of_char c)" "plain_string s" by (simp_all add: plain_string_def)
  from loop_ascii [OF Cons.prems(2) plain_escape(1) [OF c(1)], of h False i s] obtain es1 where
    es1: "escape_loop h False i (c # s) es = escape_loop h False (i + 1) s es1" "between es1" "written es1 = written es @ [c]"
    using plain_escape(2) [OF c(1)] by auto
  from Cons.IH [OF c(2) es1(2), of "i + 1"] es1 show ?case by auto
qed simp

lemma dump_escaped_plain: "plain_string s \<Longrightarrow> dump_escaped h False s = Ok s"
  using plain_loop [of s escape_start h 0]
  by (auto simp: dump_escaped_def escape_finish_def escape_start_def between_def written_def string_buffer_size_def)

lemma plain_string_simps [simp]: "plain_string []" "plain_string (c # s) \<longleftrightarrow> plain_ascii (of_char c) \<and> plain_string s"
  by (simp_all add: plain_string_def)

lemma plain_utf8: "plain_string s \<Longrightarrow> utf8_text s"
proof (induction s)
  case (Cons c s)
  then show ?case using plain_escape(1) [of c] by (intro utf8_text.ascii) (simp_all add: of_char_int)
qed (simp add: utf8_text.empty)

end
