(* ===== verification/JsonIntegers.thy ===== *)
theory JsonIntegers
  imports JsonSerializer
begin

text \<open>
  The integers the serializer of \<^verbatim>\<open>external/json.hpp\<close> writes (\<^verbatim>\<open>count_digits\<close>, the table of digit
  pairs, the buffer filled from its end) are the decimal numerals of their values, minimum of
  \<^verbatim>\<open>int64_t\<close> included.
\<close>

section \<open>Integers\<close>

lemma nat_dec_1: "n < 10 \<Longrightarrow> nat_dec n = [char_of (48 + n)]"
  by (subst nat_dec.simps) simp

lemma nat_dec_step: "10 \<le> n \<Longrightarrow> nat_dec n = nat_dec (n div 10) @ [char_of (48 + n mod 10)]"
  by (subst nat_dec.simps) simp

lemma nat_dec_10: "10 \<le> n \<Longrightarrow> n < 100 \<Longrightarrow> nat_dec n = [char_of (48 + n div 10), char_of (48 + n mod 10)]"
  by (simp add: nat_dec_step [of n] nat_dec_1)

lemma nat_dec_100: "100 \<le> n \<Longrightarrow> nat_dec n = nat_dec (n div 100) @ [char_of (48 + n mod 100 div 10), char_of (48 + n mod 100 mod 10)]"
proof -
  assume n: "100 \<le> n"
  have "n div 10 mod 10 = n mod 100 div 10" "n mod 10 = n mod 100 mod 10"
    using mod_mult2_eq [of n 10 10] by (simp_all add: mod_mod_cancel)
  with n show ?thesis by (simp add: nat_dec_step [of n] nat_dec_step [of "n div 10"] div_mult2_eq [symmetric])
qed

lemma count_loop_length: "count_loop n x = n + length (nat_dec (unat x)) - 1"
proof (induction n x rule: count_loop.induct)
  case (1 n x)
  have big: "length (nat_dec (unat x)) = length (nat_dec (unat (x div 10000))) + 4" if "10000 \<le> unat x"
    using that by (subst nat_dec_100, simp, subst nat_dec_100, simp) (simp add: unat_div div_mult2_eq [symmetric])
  have pos: "0 < length (nat_dec k)" for k using nat_dec_digits [of k] by auto
  consider "unat x < 10" | "10 \<le> unat x" "unat x < 100" | "100 \<le> unat x" "unat x < 1000" | "1000 \<le> unat x" "unat x < 10000"
    | "10000 \<le> unat x" by linarith
  then show ?case
  proof cases
    case 5
    then have "\<not> x < 10" "\<not> x < 100" "\<not> x < 1000" "\<not> x < 10000" by (simp_all add: word_less_nat_alt)
    with 1 big [OF 5] pos [of "unat (x div 10000)"] show ?thesis by (simp add: count_loop.simps [of n x])
  qed (auto simp: count_loop.simps [of n x] word_less_nat_alt nat_dec_1 nat_dec_10 nat_dec_100)
qed

lemma count_digits_length: "count_digits x = length (nat_dec (unat x))"
  using nat_dec_digits [of "unat x"] by (simp add: count_digits_def count_loop_length)

lemma digits_to_99: "n < 100 \<Longrightarrow> digits_to_99 ! n = (char_of (48 + n div 10), char_of (48 + n mod 10))"
  by (simp add: digits_to_99_def)

lemma put_digits_fills:
  assumes "n < 100" and "p + 2 \<le> length buf"
  shows "put_digits n (p + 2, buf) = (p, take p buf @ [char_of (48 + n div 10), char_of (48 + n mod 10)] @ drop (p + 2) buf)"
proof -
  have "(buf[p + 1 := y])[p := x] = take p buf @ [x, y] @ drop (p + 2) buf" for x y :: char
  proof -
    have "Suc (Suc (i - 2)) = i" if "\<not> i \<le> Suc p" for i using that by simp
    then show ?thesis using assms(2)
      by (intro nth_equalityI) (auto simp: nth_append nth_list_update nth_Cons' split: if_splits)
  qed
  then show ?thesis using assms(1) by (simp add: put_digits_def digits_to_99)
qed

text \<open>The digits end at the pointer; what is before and after them stays.\<close>

lemma digits_loop_fills:
  "p + length (nat_dec (unat x)) \<le> length buf \<Longrightarrow>
   snd (digits_loop x (p + length (nat_dec (unat x)), buf)) = take p buf @ nat_dec (unat x) @ drop (p + length (nat_dec (unat x))) buf"
proof (induction x arbitrary: buf rule: measure_induct_rule [of unat])
  case (less x)
  consider "unat x < 10" | "10 \<le> unat x" "unat x < 100" | "100 \<le> unat x" by linarith
  then show ?case
  proof cases
    case 1
    then have "\<not> 100 \<le> x" "\<not> 10 \<le> x" by (simp_all add: word_le_nat_alt)
    with 1 less.prems show ?thesis by (simp add: digits_loop.simps [of x] nat_dec_1 upd_conv_take_nth_drop)
  next
    case 2
    then have "\<not> 100 \<le> x" "10 \<le> x" by (simp_all add: word_le_nat_alt)
    with 2 less.prems put_digits_fills [of "unat x" p buf] show ?thesis by (simp add: digits_loop.simps [of x] nat_dec_10)
  next
    case 3
    let ?y = "x div 100" and ?q = "p + length (nat_dec (unat (x div 100)))"
    have x: "100 \<le> x" using 3 by (simp add: word_le_nat_alt)
    have y: "unat ?y = unat x div 100" by (simp add: unat_div)
    then have dec: "nat_dec (unat x) = nat_dec (unat ?y) @ [char_of (48 + unat x mod 100 div 10), char_of (48 + unat x mod 100 mod 10)]"
      using nat_dec_100 [OF 3] by simp
    have len: "?q + 2 \<le> length buf" using less.prems dec by simp
    have "unat (x mod 100) = unat x mod 100" by (simp add: unat_mod)
    with put_digits_fills [OF _ len, of "unat x mod 100"] have
      put: "put_digits (unat (x mod 100)) (?q + 2, buf)
        = (?q, take ?q buf @ [char_of (48 + unat x mod 100 div 10), char_of (48 + unat x mod 100 mod 10)] @ drop (?q + 2) buf)" by simp
    let ?buf = "take ?q buf @ [char_of (48 + unat x mod 100 div 10), char_of (48 + unat x mod 100 mod 10)] @ drop (?q + 2) buf"
    have "snd (digits_loop ?y (?q, ?buf)) = take p ?buf @ nat_dec (unat ?y) @ drop ?q ?buf"
      by (rule less.IH) (use 3 y len in auto)
    moreover have "take p ?buf = take p buf" "drop ?q ?buf = [char_of (48 + unat x mod 100 div 10), char_of (48 + unat x mod 100 mod 10)] @ drop (?q + 2) buf"
      using len by (simp_all add: min_def)
    moreover have "digits_loop x (?q + 2, buf) = digits_loop ?y (?q, ?buf)" using x put by (simp add: digits_loop.simps [of x])
    ultimately show ?thesis using dec by (simp add: add.assoc)
  qed
qed

lemma length_nat_dec_u64: "length (nat_dec (unat (x :: u64))) \<le> 20"
proof -
  have "n < 10 ^ k \<Longrightarrow> 0 < k \<Longrightarrow> length (nat_dec n) \<le> k" for n k
  proof (induction n arbitrary: k rule: nat_dec.induct)
    case (1 n)
    show ?case
    proof (cases "n < 10")
      case False
      then obtain j where k: "k = Suc j" "0 < j" using 1(2,3) by (cases k; cases "k - 1") auto
      with 1(2) have "n div 10 < 10 ^ j" by (simp add: less_mult_imp_div_less mult.commute)
      from 1(1) [OF False this k(2)] False k show ?thesis by (subst nat_dec.simps) simp
    qed (use 1 in \<open>simp add: nat_dec_1\<close>)
  qed
  from this [of "unat x" 20] unat_u64_less [of x] show ?thesis by simp
qed

lemma dump_digits_dec: "dump_digits neg x = Ok ((if neg then ''-'' else []) @ nat_dec (unat x))"
proof -
  let ?n = "length (nat_dec (unat x))"
  note len = length_nat_dec_u64 [of x]
  define buf where "buf = replicate number_buffer_size NUL"
  have b: "length buf = 64" "length (buf[0 := CHR ''-'']) = 64" by (simp_all add: buf_def number_buffer_size_def)
  have "snd (digits_loop x (0 + ?n, buf)) = take 0 buf @ nat_dec (unat x) @ drop (0 + ?n) buf"
    by (rule digits_loop_fills) (use b len in simp)
  moreover have "snd (digits_loop x (1 + ?n, buf[0 := CHR ''-''])) = take 1 (buf[0 := CHR ''-'']) @ nat_dec (unat x) @ drop (1 + ?n) (buf[0 := CHR ''-''])"
    by (rule digits_loop_fills) (use b len in simp)
  moreover have "take 1 (buf[0 := CHR ''-'']) = ''-''" by (simp add: buf_def number_buffer_size_def numeral_eq_Suc)
  ultimately show ?thesis using len
    by (simp add: dump_digits_def Let_def json_assert_def count_digits_length number_buffer_size_def buf_def [unfolded number_buffer_size_def, symmetric])
qed

lemma nat_dec_0: "nat_dec 0 = ''0''"
  by code_simp

lemma dump_unsigned_dec: "dump_unsigned n = Ok (nat_dec (unat n))"
  by (simp add: dump_unsigned_def dump_digits_dec nat_dec_0)

lemma unat_abs:
  "sint (x :: 64 word) < 0 \<Longrightarrow> unat (- x) = nat (- sint x)" "0 \<le> sint (x :: 64 word) \<Longrightarrow> unat x = nat (sint x)"
proof -
  have r: "0 \<le> uint x" "uint x < 2 ^ 64" using unsigned_less [of x] by simp_all
  have "sint x = (uint x + 2 ^ 63) mod 2 ^ 64 - 2 ^ 63"
    by (simp add: sint_uint signed_take_bit_eq_take_bit_shift take_bit_eq_mod)
  moreover have "(uint x + 2 ^ 63) mod 2 ^ 64 = (if uint x < 2 ^ 63 then uint x + 2 ^ 63 else uint x + 2 ^ 63 - 2 ^ 64)"
  proof (cases "uint x < 2 ^ 63")
    case False
    have "(uint x + 2 ^ 63) mod 2 ^ 64 = (uint x + 2 ^ 63 - 2 ^ 64) mod 2 ^ 64" by (rule minus_mod_self2 [symmetric])
    with False r show ?thesis by (simp add: mod_pos_pos_trivial)
  qed (use r in \<open>simp add: mod_pos_pos_trivial\<close>)
  ultimately have s: "sint x = uint x - (if uint x < 2 ^ 63 then 0 else 2 ^ 64)" by simp
  show "unat x = nat (sint x)" if "0 \<le> sint x"
  proof -
    have "sint x = uint x" using s r that by (cases "uint x < 2 ^ 63") simp_all
    then show ?thesis by (simp only: unat_eq_nat_uint)
  qed
  assume neg: "sint x < 0"
  then have m: "uint x = sint x + 2 ^ 64" using s r by (cases "uint x < 2 ^ 63") simp_all
  moreover have "2 ^ 63 \<le> uint x" using s r neg by (cases "uint x < 2 ^ 63") simp_all
  ultimately have trivial: "- sint x mod 2 ^ 64 = - sint x" using neg by (intro mod_pos_pos_trivial) simp_all
  have "uint (- x) = (- uint x) mod 2 ^ 64" by (simp add: uint_word_ariths)
  also have "- uint x = - sint x + (- 1) * 2 ^ 64" using m by simp
  also have "(- sint x + (- 1) * 2 ^ 64) mod 2 ^ 64 = - sint x" using trivial by (simp only: mod_mult_self1)
  finally show "unat (- x) = nat (- sint x)" by (simp only: unat_eq_nat_uint)
qed

lemma dump_signed_dec: "dump_signed i = Ok (int_dec (sint i))"
proof -
  have "i = 0 \<Longrightarrow> dump_signed i = Ok (int_dec (sint i))" by (simp add: dump_signed_def int_dec_def nat_dec_0)
  moreover have "i \<noteq> 0 \<Longrightarrow> dump_signed i = Ok (int_dec (sint i))"
    using unat_abs [of i]
    by (simp add: dump_signed_def is_negative_number_def remove_sign_def json_assert_def dump_digits_dec int_dec_def)
  ultimately show ?thesis by blast
qed

section \<open>Property\<close>

text \<open>Integers are printed exactly: counting the digits four at a time and writing them two at a time from the
  back of a 64-character buffer gives the decimal notation of every 64-bit number, signed (the
  smallest included) or not, and never leaves the buffer.\<close>

theorem dump_integer_decimal:
  "dump_unsigned n = Ok (nat_dec (unat n)) \<and> dump_signed i = Ok (int_dec (sint i)) \<and> count_digits n = length (nat_dec (unat n))"
  by (simp add: dump_unsigned_dec dump_signed_dec count_digits_length)

end
