(* ===== verification/JsonSafety.thy ===== *)
theory JsonSafety
  imports JsonStrings JsonIntegers
begin

text \<open>
  The serializer of \<^verbatim>\<open>external/json.hpp\<close> on any input: what \<^verbatim>\<open>dump_escaped\<close> may do to a string of
  arbitrary bytes (its 512-byte buffer is never overrun, whatever the error handler), and that \<^verbatim>\<open>dump\<close>
  ends for every value.
\<close>

section \<open>The string buffer\<close>

text \<open>How many bytes a state of the automaton still waits for.\<close>

definition awaited :: "nat \<Rightarrow> nat" where
  "awaited state = (if state \<le> 1 then 0 else if state = 2 then 1 else if state \<le> 5 then 2 else 3)"

lemma class_table: "list_all (\<lambda>b. utf8d ! b < 12) [0..<256]"
  by code_simp

lemma transition_table: "list_all (\<lambda>state. list_all (\<lambda>ty. utf8d ! (256 + state * 16 + ty) \<le> 8
    \<and> (state \<noteq> 0 \<longrightarrow> 2 \<le> utf8d ! (256 + state * 16 + ty) \<longrightarrow> awaited (utf8d ! (256 + state * 16 + ty)) < awaited state)) [0..<12]) [0..<9]"
  by code_simp

lemma decode_states:
  assumes "state \<le> 8" and "b < 256"
  shows "fst (decode state cp b) \<le> 8"
    "state \<noteq> UTF8_ACCEPT \<Longrightarrow> 2 \<le> fst (decode state cp b) \<Longrightarrow> awaited (fst (decode state cp b)) < awaited state"
proof -
  have "utf8d ! b < 12" using list_all_upt [OF class_table _ assms(2)] by simp
  from list_all_upt [OF list_all_upt [OF transition_table, of state] _ this] assms(1)
  show "fst (decode state cp b) \<le> 8"
    "state \<noteq> UTF8_ACCEPT \<Longrightarrow> 2 \<le> fst (decode state cp b) \<Longrightarrow> awaited (fst (decode state cp b)) < awaited state"
    by (simp_all add: decode_def Let_def UTF8_ACCEPT_def)
qed

text \<open>\<open>roomy\<close>: 13 bytes are free after the last accepted code point, and the bytes of an unfinished
  sequence, at most four with those it waits for, stand behind it.\<close>

definition roomy :: "bool \<Rightarrow> escape_state \<Rightarrow> bool" where
  "roomy a es \<longleftrightarrow> es_accepted es + 13 \<le> string_buffer_size \<and> es_accepted es \<le> length (es_buf es)
     \<and> length (es_buf es) \<le> es_accepted es + (if a then 0 else es_undumped es)
     \<and> es_state es \<le> 8 \<and> es_state es \<noteq> UTF8_REJECT \<and> es_undumped es + awaited (es_state es) \<le> 4
     \<and> (es_state es = UTF8_ACCEPT \<longrightarrow> es_undumped es = 0)"

definition safe :: "error_handler_t \<Rightarrow> ('a \<Rightarrow> bool) \<Rightarrow> 'a outcome \<Rightarrow> bool" where
  "safe h P x \<longleftrightarrow> (case x of Ok v \<Rightarrow> P v | Throw e \<Rightarrow> h = strict \<and> (\<exists>j. e = Json_Exception j) | _ \<Rightarrow> False)"

lemma safe_simps [simp]: "safe h P (Ok v) \<longleftrightarrow> P v" "safe strict P (Throw (type_error n msg))"
  by (simp_all add: safe_def type_error_def)

lemma safe_obind: "safe h P x \<Longrightarrow> (\<And>v. P v \<Longrightarrow> x = Ok v \<Longrightarrow> safe h Q (f v)) \<Longrightarrow> safe h Q (obind x f)"
  by (cases x) (auto simp: safe_def)

lemma flush_room: "length buf \<le> string_buffer_size \<Longrightarrow> length (snd (buffer_flush out buf)) + 13 \<le> string_buffer_size"
  by (auto simp: buffer_flush_def string_buffer_size_def)

lemma escape_code_point_utf8: "snd (escape_code_point False cp c) \<le> 7"
  by (auto simp: escape_code_point_def word_le_nat_alt)

lemma accept_safe:
  assumes "es_accepted es + 13 \<le> string_buffer_size" and "length (es_buf es) \<le> es_accepted es + (if a then 0 else 3)"
    and "es_state es = UTF8_ACCEPT"
  shows "safe h (roomy a) (escape_accept a c es)"
proof -
  let ?t = "escape_code_point a (es_codepoint es) c"
  have fits: "length (es_buf es) + snd ?t \<le> string_buffer_size"
    using assms(1,2) escape_code_point_size(1) [of a "es_codepoint es" c] escape_code_point_utf8 [of "es_codepoint es" c]
    by (cases a) simp_all
  then have "length (es_buf es @ fst ?t) \<le> string_buffer_size"
    using escape_code_point_size(2) [of a "es_codepoint es" c] by simp
  from flush_room [OF this, of "es_out es"] show ?thesis
    using fits assms(3) by (simp add: escape_accept_def buffer_put_def roomy_def awaited_def UTF8_ACCEPT_def UTF8_REJECT_def case_prod_beta Let_def)
qed

lemma reject_safe:
  assumes "es_accepted es + 13 \<le> string_buffer_size" and "es_accepted es \<le> length (es_buf es)"
  shows "safe h (roomy a) (escape_reject h a i b es)"
proof -
  let ?r = "replacement_character a" and ?buf = "take (es_accepted es) (es_buf es)"
  have r: "length ?r \<le> 6" by (simp add: replacement_character_def)
  with assms have fits: "length (?buf @ ?r) \<le> string_buffer_size" by simp
  from flush_room [OF this, of "es_out es"] show ?thesis
    using fits assms
    by (cases h) (simp_all add: escape_reject_def buffer_put_def roomy_def awaited_def UTF8_ACCEPT_def UTF8_REJECT_def case_prod_beta Let_def)
qed

lemma escape_loop_safe: "roomy a es \<Longrightarrow> safe h (roomy a) (escape_loop h a i s es)"
proof (induction h a i s es rule: escape_loop.induct)
  case (2 h a i c s es)
  obtain st cp where d: "decode (es_state es) (es_codepoint es) (of_char c) = (st, cp)" by fastforce
  let ?es = "es\<lparr>es_state := st, es_codepoint := cp\<rparr>"
  note step = escape_loop.simps(2) [of h a i c s es]
  have st: "st \<le> 8" "es_state es \<noteq> UTF8_ACCEPT \<Longrightarrow> 2 \<le> st \<Longrightarrow> awaited st < awaited (es_state es)"
    using decode_states [of "es_state es" "of_char c" "es_codepoint es"] 2(5) d by (simp_all add: roomy_def)
  have three: "es_undumped es \<le> 3"
    using 2(5) by (cases "es_state es \<le> 1") (auto simp: roomy_def awaited_def UTF8_ACCEPT_def UTF8_REJECT_def le_Suc_eq split: if_splits)
  consider "st = UTF8_ACCEPT" | "st = UTF8_REJECT" | "st \<noteq> UTF8_ACCEPT" "st \<noteq> UTF8_REJECT" by blast
  then show ?case
  proof cases
    case 1
    have "safe h (roomy a) (escape_accept a c ?es)" using 2(5) three 1 by (intro accept_safe) (auto simp: roomy_def)
    then show ?thesis unfolding step d prod.case Let_def
      using 1 "2.IH"(1) [OF d [symmetric] refl 1] by (simp add: safe_obind)
  next
    case st2: 2
    then have no: "st \<noteq> UTF8_ACCEPT" by (simp add: UTF8_ACCEPT_def UTF8_REJECT_def)
    have "safe h (roomy a) (escape_reject h a i (of_char c) ?es)" using 2(5) by (intro reject_safe) (auto simp: roomy_def)
    then show ?thesis unfolding step d prod.case Let_def
      using st2 no "2.IH"(2,3) [OF d [symmetric] refl no st2] by (auto intro!: safe_obind)
  next
    case 3
    have "safe h (roomy a) (escape_incomplete a c ?es)"
      using 2(5) three st 3
      by (auto simp: escape_incomplete_def buffer_put_def roomy_def string_buffer_size_def UTF8_ACCEPT_def UTF8_REJECT_def awaited_def split: if_splits)
    then show ?thesis unfolding step d prod.case Let_def
      using 3 "2.IH"(4) [OF d [symmetric] refl 3] by (simp add: safe_obind)
  qed
qed simp

lemma dump_escaped_total: "safe h (\<lambda>_. True) (dump_escaped h a s)"
proof -
  have "roomy a escape_start" by (simp add: roomy_def escape_start_def string_buffer_size_def UTF8_ACCEPT_def UTF8_REJECT_def awaited_def)
  moreover have "safe h (\<lambda>_. True) (escape_finish h a s es)" for es by (cases h) (simp_all add: escape_finish_def)
  ultimately show ?thesis unfolding dump_escaped_def by (intro safe_obind [OF escape_loop_safe])
qed

section \<open>Values\<close>

text \<open>\<^verbatim>\<open>dump\<close> ends for every value.\<close>

lemma ends_safe: "safe h P x \<Longrightarrow> ends x"
  by (auto simp: safe_def ends_def split: outcome.splits)

lemma dump_byte_Ok: "\<exists>t. dump_byte b = Ok t"
  by (simp add: dump_byte_def dump_digits_dec)

lemma dump_bytes_Ok: "\<exists>t. dump_bytes sep bs = Ok t"
proof (induction sep bs rule: dump_bytes.induct)
  case (2 sep b)
  then show ?case by (simp add: dump_byte_Ok)
next
  case (3 sep b b' bs)
  then show ?case using dump_byte_Ok [of b] by auto
qed simp

lemma dump_subtype_Ok: "\<exists>t. dump_subtype st = Ok t"
  by (cases st) (simp_all add: dump_subtype_def dump_unsigned_dec)

lemma ends_indentation: "ends (indentation ind n)" "ends (member_indent pretty ind n)"
  by (simp_all add: indentation_def member_indent_def)

lemma ends_obind_iff: "ends (obind x f) \<longleftrightarrow> ends x \<and> (\<forall>v. x = Ok v \<longrightarrow> ends (f v))"
  by (cases x) (auto simp: ends_def)

lemma ends_written: "ends (dump_escaped h a s)" "ends (dump_bytes sep bs)" "ends (dump_subtype st)" "ends (dump_float x)"
  using ends_safe [OF dump_escaped_total [of h a s]] dump_bytes_Ok [of sep bs] dump_subtype_Ok [of st]
  by (auto simp: dump_float_def ends_to_chars)

lemmas ends_dump_simps = ends_obind_iff ends_indentation ends_written dump_signed_dec dump_unsigned_dec

lemma ends_binary: "ends (dump_binary pretty step current bs st ind)"
  by (simp add: dump_binary_def Let_def ends_dump_simps)

lemma ends_dump:
  "ends (dump h pretty a step current v ind)"
  "ends (dump_members h pretty a step current m ind)"
  "ends (dump_elements h pretty a step current vs ind)"
proof (induction h pretty a step current v ind and h pretty a step current m ind and h pretty a step current vs ind
    rule: dump_dump_members_dump_elements.induct)
  case (12 h pretty a step indent k v m ind)
  then show ?case by (auto simp: ends_obind_iff ends_indentation ends_written Let_def)
qed (simp_all add: Let_def ends_dump_simps ends_binary split: prod.split)

text \<open>In the compact form nothing is left undefined, floating-point numbers apart.\<close>

primrec float_free :: "json \<Rightarrow> bool" where
  "float_free JNull = True"
| "float_free (JObject m) = list_all (\<lambda>(k, ok). ok) (map (map_prod id float_free) m)"
| "float_free (JArray xs) = list_all id (map float_free xs)"
| "float_free (JString s) = True"
| "float_free (JBoolean b) = True"
| "float_free (JInteger i) = True"
| "float_free (JUnsigned n) = True"
| "float_free (JFloat x) = False"
| "float_free (JBinary bs st) = True"
| "float_free JDiscarded = True"

lemma safe_dump:
  "float_free v \<Longrightarrow> safe h (\<lambda>_. True) (dump h False a step current v ind)"
  "\<forall>(k, v) \<in> set m. float_free v \<Longrightarrow> safe h (\<lambda>_. True) (dump_members h False a step current m ind)"
  "\<forall>v \<in> set vs. float_free v \<Longrightarrow> safe h (\<lambda>_. True) (dump_elements h False a step current vs ind)"
proof (induction h "False" a step current v ind and h "False" a step current m ind and h "False" a step current vs ind
    rule: dump_dump_members_dump_elements.induct)
  case (4 h a step current bs st ind)
  then show ?case
    using dump_bytes_Ok [of "'',''" bs] dump_subtype_Ok [of st] by (auto simp: dump_binary_def)
qed (auto simp: Let_def member_indent_def dump_signed_dec dump_unsigned_dec list_all_iff dump_escaped_total case_prod_beta
    intro!: safe_obind [where P = "\<lambda>_. True"])

text \<open>The pretty-printed form reads past the indentation string, which doubles once from its 512 characters,
  when asked for a wide indentation.\<close>

theorem indentation_overrun:
  assumes "1025 < indent" and "indent < 2 ^ 32"
  shows "json_dump (JArray (v # vs)) indent ch a h = Undef"
proof -
  have "deeper 0 (nat indent) = nat indent" using assms by (simp add: deeper_def nat_less_iff)
  moreover have "1025 < nat indent" using assms(1) by simp
  ultimately show ?thesis using assms(1)
    by (simp add: json_dump_def Let_def grow_indent_def member_indent_def indentation_def)
qed

section \<open>Properties\<close>

text \<open>C32: the string serializer never overruns its 512-byte buffer, never reads a byte of the automaton's table
  out of range and always ends, for every string of bytes, valid UTF-8 or not, and every error
  handler; only the strict handler throws, and what it throws is the library's own exception.\<close>

theorem dump_escaped_bounded:
  "case dump_escaped h a s of Ok t \<Rightarrow> True | Throw e \<Rightarrow> h = strict \<and> (\<exists>j. e = Json_Exception j) | _ \<Rightarrow> False"
  using dump_escaped_total [of h a s] by (simp add: safe_def)

text \<open>C33: \<^verbatim>\<open>dump\<close> ends for every value and every choice of its parameters: the digit loop of Grisu2 never
  exhausts its 64 rounds, whatever the double.\<close>

theorem json_dump_ends: "json_dump v indent ch a h \<noteq> Hang"
  using ends_obind [of _ "\<lambda>(result, _). Ok result"] ends_dump(1)
  by (auto simp: json_dump_def Let_def ends_def [symmetric] ends_obind_iff)

text \<open>In the compact form, \<^verbatim>\<open>dump\<close> of a value without floating-point numbers has no undefined behaviour: it
  writes a text, or throws the library's exception under the strict handler.\<close>

theorem json_dump_compact:
  assumes "float_free v" and "indent < 0"
  shows "case json_dump v indent ch a h of Ok t \<Rightarrow> True | Throw e \<Rightarrow> h = strict \<and> (\<exists>j. e = Json_Exception j) | _ \<Rightarrow> False"
proof -
  have "safe h (\<lambda>_. True) (json_dump v indent ch a h)"
    unfolding json_dump_def Let_def using assms by (auto intro!: safe_obind [OF safe_dump(1)])
  then show ?thesis by (simp add: safe_def)
qed

theorem json_dump_compact_witness:
  "case json_dump (JObject [(''k'', JString [CHR 0xFF])]) (-1) (CHR '' '') False replace of Ok t \<Rightarrow> True | _ \<Rightarrow> False"
  using json_dump_compact [where v = "JObject [(''k'', JString [CHR 0xFF])]" and indent = "-1"
    and ch = "CHR '' ''" and a = False and h = replace]
  by (simp split: outcome.splits)

end
