(* ===== verification/NodeMain.thy ===== *)
theory NodeMain
  imports WorkerClient
begin

text \<open>
  The two programs (\<^verbatim>\<open>NetClient/src/main.cpp\<close>, \<^verbatim>\<open>NetServer/src/main.cpp\<close>): what their first threads do
  while the networking threads run. A turn of a loop ends in a pause, in which the other threads go on; what
  they have done by the next turn is an argument: the worker each poll finds, the messages each pause brings.
\<close>

section \<open>The worker\<close>

text \<open>The supervising loop: it ends when the connection is gone or the worker was told to leave. A loop
  that goes on for ever has the result \<open>None\<close>. \<open>closed\<close>: the handler \<^verbatim>\<open>Disconnect\<close> posts has run before the
  context stops.\<close>

partial_function (option) supervise :: "bool \<Rightarrow> (nat \<Rightarrow> worker) \<Rightarrow> nat \<Rightarrow> (worker \<times> nat) option" where
  "supervise closed poll i =
     (if \<not> client_IsConnected (w_client (poll i)) then Some (poll i, i)
      else if ShouldDisconnect (poll i)
      then Some ((poll i)\<lparr>w_client := client_Disconnect closed (w_client (poll i))\<rparr>, i)
      else supervise closed poll (i + 1))"

definition worker_main :: "bool \<Rightarrow> (nat \<Rightarrow> worker) \<Rightarrow> (worker \<times> nat) option" where
  "worker_main closed poll =
     (case await_connection (\<lambda>i. client_IsConnected (w_client (poll i))) 0 of (up, n) \<Rightarrow>
        if up then supervise closed poll n else Some (poll n, n))"

lemma supervise_ends:
  assumes "\<not> client_IsConnected (w_client (poll n)) \<or> ShouldDisconnect (poll n)" and "i \<le> n"
  shows "\<exists>w k. supervise closed poll i = Some (w, k) \<and> i \<le> k \<and> k \<le> n \<and> \<not> client_IsConnected (w_client w)"
  using assms(2)
proof (induction "n - i" arbitrary: i)
  case 0
  with assms(1) show ?case
    by (subst supervise.simps) (auto simp: client_Disconnect_def Let_def client_IsConnected_def)
next
  case (Suc d)
  then have less: "d = n - (i + 1)" "i + 1 \<le> n" by simp_all
  show ?case
  proof (cases "client_IsConnected (w_client (poll i)) \<and> \<not> ShouldDisconnect (poll i)")
    case True
    then have "supervise closed poll i = supervise closed poll (i + 1)" by (subst supervise.simps) simp
    with Suc.hyps(1) [OF less] show ?thesis by fastforce
  next
    case False
    with Suc.prems show ?thesis
      by (subst supervise.simps) (auto simp: client_Disconnect_def Let_def client_IsConnected_def)
  qed
qed

lemma supervise_goes_on:
  assumes "\<And>i. client_IsConnected (w_client (poll i)) \<and> \<not> ShouldDisconnect (poll i)"
  shows "supervise closed poll i = None"
proof (rule ccontr)
  assume "supervise closed poll i \<noteq> None"
  then obtain r where run: "supervise closed poll i = Some r" by blast
  have "False" by (rule supervise.raw_induct [OF _ run, of "\<lambda>closed' poll' i r. poll' = poll \<longrightarrow> False", simplified])
    (use assms in \<open>auto split: if_splits\<close>)
  then show False .
qed

section \<open>The master\<close>

text \<open>One turn for each pause: \<^verbatim>\<open>Update()\<close>, which takes as many messages as there are, and then the
  messages that arrive before the next turn.\<close>

definition arrive :: "'app server \<Rightarrow> nat option \<times> message \<Rightarrow> 'app server" where
  "arrive s x = s\<lparr>m_qMessagesIn := push_back (m_qMessagesIn s) x\<rparr>"

fun master_main ::
  "(nat option \<Rightarrow> message \<Rightarrow> 'app server \<Rightarrow> 'app server outcome)
     \<Rightarrow> (nat option \<times> message) list list \<Rightarrow> 'app server \<Rightarrow> 'app server outcome" where
  "master_main OnMessage [] s = Ok s"
| "master_main OnMessage (pause # pauses) s =
     obind (Update OnMessage (-1) s) (\<lambda>s. master_main OnMessage pauses (foldl arrive s pause))"

lemma arrive_all: "foldl arrive s xs = s\<lparr>m_qMessagesIn := foldl push_back (m_qMessagesIn s) xs\<rparr>"
  by (induction xs arbitrary: s) (simp_all add: arrive_def)

text \<open>Every message is handled once, in the order of arrival, a turn after it came.\<close>

lemma master_main_order:
  assumes g: "\<And>r m s. h r m s = Ok (g r m s)"
    and q: "\<And>r m s q. g r m (s\<lparr>m_qMessagesIn := q\<rparr>) = (g r m s)\<lparr>m_qMessagesIn := q\<rparr>"
    and "list_all (\<lambda>p. length p < 2 ^ 64) pauses" and "length (deqQueue (m_qMessagesIn s)) < 2 ^ 64"
    and "pauses \<noteq> []"
  shows "\<exists>s' q. master_main h pauses s = Ok s' \<and> deqQueue (m_qMessagesIn s') = last pauses
    \<and> s' = (foldl (\<lambda>s (r, m). g r m s) s (deqQueue (m_qMessagesIn s) @ concat (butlast pauses)))\<lparr>m_qMessagesIn := q\<rparr>"
  using assms(3-)
proof (induction pauses arbitrary: s)
  case (Cons p ps)
  let ?f = "foldl (\<lambda>s (r, m). g r m s)"
  have fold: "?f (s\<lparr>m_qMessagesIn := q\<rparr>) ms = (?f s ms)\<lparr>m_qMessagesIn := q\<rparr>" for s q ms
    by (induction ms arbitrary: s) (auto simp: assms(2))
  have max: "unat (- 1 :: u64) = 2 ^ 64 - 1" by (simp add: unsigned_minus_1_eq_mask mask_eq_exp_minus_1)
  obtain s1 q1 where s1: "Update h (-1) s = Ok s1" "deqQueue (m_qMessagesIn s1) = []"
    "s1 = (?f s (deqQueue (m_qMessagesIn s)))\<lparr>m_qMessagesIn := q1\<rparr>"
    using update_loop_fold [of h g "unat (- 1 :: u64)" s, OF g q] Cons.prems(2) by (auto simp: Update_def max)
  let ?s2 = "foldl arrive s1 p"
  have waiting: "deqQueue (m_qMessagesIn ?s2) = p" by (simp add: arrive_all tsq.contents_enqs s1(2))
  show ?case
  proof (cases "ps = []")
    case True
    with s1 waiting show ?thesis by (auto simp: arrive_all)
  next
    case False
    from Cons.IH [of ?s2] Cons.prems False waiting obtain s' q where
      "master_main h ps ?s2 = Ok s'" "deqQueue (m_qMessagesIn s') = last ps"
      "s' = (?f ?s2 (p @ concat (butlast ps)))\<lparr>m_qMessagesIn := q\<rparr>" by auto
    with s1 False show ?thesis by (auto simp: arrive_all fold)
  qed
qed simp

end
