(* ===== verification/HttpText.thy ===== *)
theory HttpText
  imports Decimal
begin

unbundle bit_operations_syntax

text \<open>
  The text functions of \<^verbatim>\<open>external/httplib.h\<close> the server uses on a request: character classes,
  trimming and splitting, header fields and the map that holds them, and percent-decoding. A range
  \<^verbatim>\<open>[b, e)\<close> of a buffer is the string it holds; a function that hands its pieces to a callback
  returns the list of the pieces, in the order of the calls.
\<close>

section \<open>Characters\<close>

abbreviation cr :: char where "cr \<equiv> CHR 0x0D"
abbreviation lf :: char where "lf \<equiv> CHR 0x0A"

definition is_alpha :: "char \<Rightarrow> bool" where
  "is_alpha c = (let n = of_char c :: nat in 97 \<le> n \<and> n \<le> 122 \<or> 65 \<le> n \<and> n \<le> 90)"

definition is_alnum :: "char \<Rightarrow> bool" where
  "is_alnum c \<longleftrightarrow> is_digit c \<or> is_alpha c"

text \<open>The table maps the capital letters of Latin-1 to the small ones and all else to itself.\<close>

definition to_lower :: "char \<Rightarrow> char" where
  "to_lower c = (let n = of_char c :: nat in
     if 65 \<le> n \<and> n \<le> 90 \<or> 192 \<le> n \<and> n \<le> 222 \<and> n \<noteq> 215 then char_of (n + 32) else c)"

definition lower_case :: "string \<Rightarrow> string" where
  "lower_case s = map to_lower s"

definition case_equal :: "string \<Rightarrow> string \<Rightarrow> bool" where
  "case_equal a b \<longleftrightarrow> length a = length b \<and> list_all2 (\<lambda>ca cb. to_lower ca = to_lower cb) a b"

definition is_space_or_tab :: "char \<Rightarrow> bool" where
  "is_space_or_tab c \<longleftrightarrow> c = CHR '' '' \<or> c = CHR 0x09"

section \<open>Trimming and splitting\<close>

text \<open>\<open>left\<close> runs to the end of the string, \<open>right\<close> down to its start, as in the code.\<close>

definition trim :: "string \<Rightarrow> nat \<Rightarrow> nat \<Rightarrow> nat \<times> nat" where
  "trim b left right =
     (left + length (takeWhile is_space_or_tab (drop left b)),
      right - length (takeWhile is_space_or_tab (rev (take right b))))"

definition piece :: "string \<Rightarrow> nat \<Rightarrow> nat \<Rightarrow> string list" where
  "piece b beg i = (case trim b beg i of (l, r) \<Rightarrow> if l < r then [slice l (r - l) b] else [])"

function split_loop :: "char \<Rightarrow> string \<Rightarrow> nat \<Rightarrow> nat \<Rightarrow> string list" where
  "split_loop d b beg i =
     (if i < length b
      then if b ! i = d then piece b beg i @ split_loop d b (i + 1) (i + 1) else split_loop d b beg (i + 1)
      else if i \<noteq> 0 then piece b beg i else [])"
  by pat_completeness auto
termination by (relation "measure (\<lambda>(d, b, beg, i). length b - i)") auto

declare split_loop.simps [simp del]

definition split :: "string \<Rightarrow> char \<Rightarrow> string list" where
  "split b d = split_loop d b 0 0"

definition divide :: "string \<Rightarrow> char \<Rightarrow> string \<times> string" where
  "divide s d = (takeWhile (\<lambda>c. c \<noteq> d) s, tl (dropWhile (\<lambda>c. c \<noteq> d) s))"

definition trim_copy :: "string \<Rightarrow> string" where
  "trim_copy s = (case trim s 0 (length s) of (l, r) \<Rightarrow> slice l (r - l) s)"

definition trim_double_quotes_copy :: "string \<Rightarrow> string" where
  "trim_double_quotes_copy s =
     (if 2 \<le> length s \<and> hd s = CHR 0x22 \<and> last s = CHR 0x22 then slice 1 (length s - 2) s else s)"

section \<open>Header fields\<close>

definition is_token_char :: "char \<Rightarrow> bool" where
  "is_token_char c \<longleftrightarrow> is_alnum c \<or> c \<in> set ''!#$%&*+-.^_|~'' \<or> c = CHR 0x27 \<or> c = CHR 0x60"

definition is_token :: "string \<Rightarrow> bool" where
  "is_token s \<longleftrightarrow> s \<noteq> [] \<and> list_all is_token_char s"

definition is_field_name :: "string \<Rightarrow> bool" where
  "is_field_name s = is_token s"

definition is_vchar :: "char \<Rightarrow> bool" where
  "is_vchar c = (let n = of_char c :: nat in 33 \<le> n \<and> n \<le> 126)"

definition is_obs_text :: "char \<Rightarrow> bool" where
  "is_obs_text c \<longleftrightarrow> (128 :: nat) \<le> of_char c"

definition is_field_vchar :: "char \<Rightarrow> bool" where
  "is_field_vchar c \<longleftrightarrow> is_vchar c \<or> is_obs_text c"

definition is_field_content :: "string \<Rightarrow> bool" where
  "is_field_content s =
     (if s = [] then True
      else if length s = 1 then is_field_vchar (s ! 0)
      else if length s = 2 then is_field_vchar (s ! 0) \<and> is_field_vchar (s ! 1)
      else is_field_vchar (s ! 0)
        \<and> list_all (\<lambda>c. c = CHR '' '' \<or> c = CHR 0x09 \<or> is_field_vchar c) (slice 1 (length s - 2) s)
        \<and> is_field_vchar (s ! (length s - 1)))"

definition is_field_value :: "string \<Rightarrow> bool" where
  "is_field_value s = is_field_content s"

definition is_field_valid :: "string \<Rightarrow> string \<Rightarrow> bool" where
  "is_field_valid name val \<longleftrightarrow> is_field_name name \<and> is_field_value val"

text \<open>\<open>None\<close> is the result \<^verbatim>\<open>false\<close>; the callback is called once, with what is returned.\<close>

definition parse_header :: "string \<Rightarrow> (string \<times> string) option" where
  "parse_header line =
     (let s = rev (dropWhile is_space_or_tab (rev line));
          name = takeWhile (\<lambda>c. c \<noteq> CHR '':'') s;
          rest = dropWhile (\<lambda>c. c \<noteq> CHR '':'') s;
          val = dropWhile is_space_or_tab (tl rest)
      in if \<not> is_field_name name then None
         else if rest = [] then None
         else if \<not> is_field_value val then None
         else Some (name, val))"

section \<open>The header map\<close>

text \<open>
  \<^verbatim>\<open>insertion_ordered_multimap\<close>: the entries in the order of insertion, keys compared without regard
  to case (\<open>Headers\<close>) or exactly (\<open>Params\<close>).
\<close>

type_synonym headers = "(string \<times> string) list"
type_synonym params = "(string \<times> string) list"

definition emplace :: "'e list \<Rightarrow> 'e \<Rightarrow> 'e list" where
  "emplace h e = h @ [e]"

definition equal_range :: "headers \<Rightarrow> string \<Rightarrow> string list" where
  "equal_range h key = map snd (filter (\<lambda>e. case_equal (fst e) key) h)"

definition find_header :: "headers \<Rightarrow> string \<Rightarrow> string option" where
  "find_header h key = map_option snd (List.find (\<lambda>e. case_equal (fst e) key) h)"

definition erase_key :: "headers \<Rightarrow> string \<Rightarrow> headers" where
  "erase_key h key = filter (\<lambda>e. \<not> case_equal (fst e) key) h"

definition find_param :: "params \<Rightarrow> string \<Rightarrow> string option" where
  "find_param ps key = map_option snd (List.find (\<lambda>e. fst e = key) ps)"

definition str2tag :: "string \<Rightarrow> u32" where
  "str2tag s = foldl (\<lambda>h c. (drop_bit 6 0xFFFFFFFF AND (h * 33)) XOR ucast (char_byte c)) 0 s"

definition is_prohibited_header_name :: "string \<Rightarrow> bool" where
  "is_prohibited_header_name name \<longleftrightarrow>
     str2tag name \<in> set (map str2tag [''REMOTE_ADDR'', ''REMOTE_PORT'', ''LOCAL_ADDR'', ''LOCAL_PORT''])"

definition has_header :: "headers \<Rightarrow> string \<Rightarrow> bool" where
  "has_header h key = (if is_prohibited_header_name key then False else find_header h key \<noteq> None)"

text \<open>
  The value as the C string the code returns; the code throws \<^verbatim>\<open>invalid_argument\<close> for one of the four
  prohibited names, none of which the server asks for (\<open>literal_names\<close>).
\<close>

definition get_header_value :: "headers \<Rightarrow> string \<Rightarrow> string \<Rightarrow> string" where
  "get_header_value h key def =
     (case equal_range h key of v # _ \<Rightarrow> takeWhile (\<lambda>c. c \<noteq> NUL) v | [] \<Rightarrow> def)"

definition set_header :: "headers \<Rightarrow> string \<Rightarrow> string \<Rightarrow> headers" where
  "set_header h key val = (if is_field_valid key val then emplace h (key, val) else h)"

text \<open>\<^verbatim>\<open>std::from_chars\<close> in base 10 for an unsigned type with the given largest value, on a string of
  digits; \<open>None\<close> is \<^verbatim>\<open>result_out_of_range\<close>.\<close>

fun from_chars :: "nat \<Rightarrow> string \<Rightarrow> nat \<Rightarrow> nat option" where
  "from_chars limit [] r = Some r"
| "from_chars limit (c # cs) r =
     (if is_digit c
      then let digit = of_char c - 48 in
        if (limit - digit) div 10 < r then None else from_chars limit cs (r * 10 + digit)
      else Some r)"

definition SIZE_MAX :: nat where
  "SIZE_MAX = 18446744073709551615"

text \<open>The value and \<open>is_invalid_value\<close>.\<close>

definition get_header_value_u64 :: "headers \<Rightarrow> string \<Rightarrow> nat \<Rightarrow> nat \<times> bool" where
  "get_header_value_u64 h key def =
     (case equal_range h key of [] \<Rightarrow> (def, False)
      | v # _ \<Rightarrow>
         if v \<noteq> [] \<and> list_all is_digit v
         then (case from_chars SIZE_MAX v 0 of None \<Rightarrow> (SIZE_MAX, True) | Some n \<Rightarrow> (n, False))
         else (def, True))"

section \<open>Percent-decoding\<close>

definition is_hex :: "char \<Rightarrow> nat option" where
  "is_hex c = (let n = of_char c :: nat in
     if is_digit c then Some (n - 48)
     else if 65 \<le> n \<and> n \<le> 70 then Some (n - 65 + 10)
     else if 97 \<le> n \<and> n \<le> 102 then Some (n - 97 + 10)
     else None)"

text \<open>The character past the end of a \<^verbatim>\<open>std::string\<close> is the terminator, at which the loop stops.\<close>

fun hex_loop :: "nat \<Rightarrow> string \<Rightarrow> nat \<Rightarrow> nat option" where
  "hex_loop 0 s val = Some val"
| "hex_loop (Suc cnt) [] val = None"
| "hex_loop (Suc cnt) (c # cs) val =
     (if c = NUL then None
      else (case is_hex c of None \<Rightarrow> None | Some v \<Rightarrow> hex_loop cnt cs (val * 16 + v)))"

definition from_hex_to_i :: "string \<Rightarrow> nat \<Rightarrow> nat \<Rightarrow> nat option" where
  "from_hex_to_i s i cnt = (if length s \<le> i then None else hex_loop cnt (drop i s) 0)"

definition to_utf8 :: "nat \<Rightarrow> string" where
  "to_utf8 code =
     (if code < 0x80 then [char_of (code AND 0x7F)]
      else if code < 0x800 then
        [char_of (0xC0 OR (drop_bit 6 code AND 0x1F)), char_of (0x80 OR (code AND 0x3F))]
      else if code < 0xD800 then
        [char_of (0xE0 OR (drop_bit 12 code AND 0xF)), char_of (0x80 OR (drop_bit 6 code AND 0x3F)),
         char_of (0x80 OR (code AND 0x3F))]
      else if code < 0xE000 then []
      else if code < 0x10000 then
        [char_of (0xE0 OR (drop_bit 12 code AND 0xF)), char_of (0x80 OR (drop_bit 6 code AND 0x3F)),
         char_of (0x80 OR (code AND 0x3F))]
      else if code < 0x110000 then
        [char_of (0xF0 OR (drop_bit 18 code AND 0x7)), char_of (0x80 OR (drop_bit 12 code AND 0x3F)),
         char_of (0x80 OR (drop_bit 6 code AND 0x3F)), char_of (0x80 OR (code AND 0x3F))]
      else [])"

text \<open>The loops over the index \<open>i\<close>, on the characters from \<open>i\<close> on.\<close>

fun decode_path_component :: "string \<Rightarrow> string" where
  "decode_path_component [] = []"
| "decode_path_component (c # cs) =
     (if c = CHR ''%'' \<and> cs \<noteq> []
      then if hd cs = CHR ''u''
        then (case from_hex_to_i (c # cs) 2 4 of
            Some val \<Rightarrow> to_utf8 val @ decode_path_component (drop 5 cs)
          | None \<Rightarrow> c # decode_path_component cs)
        else (case from_hex_to_i (c # cs) 1 2 of
            Some val \<Rightarrow> char_of val # decode_path_component (drop 2 cs)
          | None \<Rightarrow> c # decode_path_component cs)
      else c # decode_path_component cs)"

fun decode_query_component :: "string \<Rightarrow> string" where
  "decode_query_component [] = []"
| "decode_query_component (c # cs) =
     (if c = CHR ''%'' \<and> 2 \<le> length cs
      then (case from_hex_to_i (c # cs) 1 2 of
          Some val \<Rightarrow> char_of val # decode_query_component (drop 2 cs)
        | None \<Rightarrow> c # decode_query_component cs)
      else if c = CHR ''+'' then CHR '' '' # decode_query_component cs
      else c # decode_query_component cs)"

declare decode_path_component.simps(2) [simp del] decode_query_component.simps(2) [simp del]

definition divide_query_pair :: "string \<Rightarrow> string \<times> string" where
  "divide_query_pair kv = divide kv CHR ''=''"

fun parse_query_pairs :: "string list \<Rightarrow> string list \<Rightarrow> params \<Rightarrow> params" where
  "parse_query_pairs [] cache params = params"
| "parse_query_pairs (kv # kvs) cache params =
     (if kv \<in> set cache then parse_query_pairs kvs cache params
      else case divide_query_pair kv of (key, val) \<Rightarrow>
        parse_query_pairs kvs (kv # cache)
          (if key = [] then params
           else emplace params (decode_query_component key, decode_query_component val)))"

definition parse_query_text :: "string \<Rightarrow> params \<Rightarrow> params" where
  "parse_query_text data params = parse_query_pairs (split data CHR ''&'') [] params"

end
