(* ===== verification/HttpStream.thy ===== *)
theory HttpStream
  imports HttpText
begin

text \<open>
  \<^verbatim>\<open>external/httplib.h\<close>: the socket stream the server reads a request from (\<^verbatim>\<open>SocketStream\<close>) and the
  line reader on top of it (\<^verbatim>\<open>stream_line_reader\<close>). What the kernel answers to the calls on a socket
  is data of the model: the list of arrivals to come, each handed out by \<^verbatim>\<open>recv\<close> in one or more
  pieces, with the moments at which nothing has arrived, and how many bytes the peer will still
  accept. The result of reading a line is shown to depend on the bytes alone, not on how they were
  cut into pieces nor on which of the two paths of the reader took them.
\<close>

section \<open>Sockets\<close>

text \<open>
  \<open>Data\<close>: bytes (at least one) that arrive together. \<open>Pause\<close>: at this moment nothing has arrived yet,
  but something does within the time-out. \<open>Timeout\<close>: the time-out passes, or the call fails. After
  the last arrival the peer has closed its side, and \<^verbatim>\<open>recv\<close> returns 0.
\<close>

datatype arrival = Data char string | Pause | Timeout

record stream =
  read_buff :: string
  arrivals :: "arrival list"
  send_room :: "nat option"
  sent :: string

definition read_buff_size :: nat where
  "read_buff_size = 4096"

text \<open>\<open>None\<close> is a negative result.\<close>

definition recv :: "nat \<Rightarrow> arrival list \<Rightarrow> string option \<times> arrival list" where
  "recv sz as = (case dropWhile (\<lambda>a. a = Pause) as of
       [] \<Rightarrow> (Some [], [])
     | a # as' \<Rightarrow> (case a of
           Data c cs \<Rightarrow> (Some (take sz (c # cs)),
             (case drop sz (c # cs) of [] \<Rightarrow> as' | d # ds \<Rightarrow> Data d ds # as'))
         | _ \<Rightarrow> (None, as')))"

definition stream_read :: "nat \<Rightarrow> stream \<Rightarrow> string option \<times> stream" where
  "stream_read sz s =
     (if read_buff s \<noteq> []
      then (Some (take sz (read_buff s)), s\<lparr>read_buff := drop sz (read_buff s)\<rparr>)
      else if sz < read_buff_size
      then (case recv read_buff_size (arrivals s) of
          (None, as) \<Rightarrow> (None, s\<lparr>arrivals := as\<rparr>)
        | (Some bs, as) \<Rightarrow> (Some (take sz bs), s\<lparr>read_buff := drop sz bs, arrivals := as\<rparr>))
      else (case recv sz (arrivals s) of (r, as) \<Rightarrow> (r, s\<lparr>arrivals := as\<rparr>)))"

text \<open>\<^verbatim>\<open>select_read\<close> without waiting, and with the keep-alive time-out; both ask the kernel, not the buffer.\<close>

definition select_read_now :: "stream \<Rightarrow> bool \<times> stream" where
  "select_read_now s = (case arrivals s of
       [] \<Rightarrow> (True, s)
     | a # as \<Rightarrow> (case a of Data c cs \<Rightarrow> (True, s) | _ \<Rightarrow> (False, s\<lparr>arrivals := as\<rparr>)))"

definition keep_alive :: "stream \<Rightarrow> bool \<times> stream" where
  "keep_alive s = (case dropWhile (\<lambda>a. a = Pause) (arrivals s) of
       [] \<Rightarrow> (True, s\<lparr>arrivals := []\<rparr>)
     | a # as \<Rightarrow> (case a of Data c cs \<Rightarrow> (True, s\<lparr>arrivals := a # as\<rparr>) | _ \<Rightarrow> (False, s\<lparr>arrivals := as\<rparr>)))"

definition stream_write :: "string \<Rightarrow> stream \<Rightarrow> nat option \<times> stream" where
  "stream_write d s = (case send_room s of
       None \<Rightarrow> (Some (length d), s\<lparr>sent := sent s @ d\<rparr>)
     | Some room \<Rightarrow>
         if room = 0 then (None, s)
         else let n = min (length d) room in
           (Some n, s\<lparr>sent := sent s @ take n d, send_room := Some (room - n)\<rparr>))"

function write_data :: "string \<Rightarrow> stream \<Rightarrow> bool \<times> stream" where
  "write_data d s =
     (if d = [] then (True, s)
      else (case stream_write d s of
          (None, s') \<Rightarrow> (False, s')
        | (Some n, s') \<Rightarrow> write_data (drop n d) s'))"
  by pat_completeness auto
termination
  by (relation "measure (\<lambda>(d, s). length d)") (auto simp: stream_write_def Let_def split: option.splits if_splits)

declare write_data.simps [simp del]

section \<open>The line reader\<close>

record line_reader =
  fixed_buffer :: string
  growable_buffer :: string

definition MAX_LINE_LENGTH :: nat where
  "MAX_LINE_LENGTH = 32768"

definition reader_text :: "line_reader \<Rightarrow> string" where
  "reader_text r = (if growable_buffer r = [] then fixed_buffer r else growable_buffer r)"

definition reader_append :: "nat \<Rightarrow> line_reader \<Rightarrow> string \<Rightarrow> line_reader" where
  "reader_append fixed_buffer_size r data =
     (if growable_buffer r = [] \<and> length (fixed_buffer r) + length data < fixed_buffer_size
      then r\<lparr>fixed_buffer := fixed_buffer r @ data\<rparr>
      else r\<lparr>growable_buffer := (if growable_buffer r = [] then fixed_buffer r else growable_buffer r) @ data\<rparr>)"

definition end_with_crlf :: "line_reader \<Rightarrow> bool" where
  "end_with_crlf r = (let t = reader_text r in
     2 \<le> length t \<and> t ! (length t - 2) = cr \<and> t ! (length t - 1) = lf)"

text \<open>How many bytes of the buffer end the line, if it ends in it; \<open>prev\<close> is the byte before.\<close>

fun crlf_end :: "char \<Rightarrow> string \<Rightarrow> nat option" where
  "crlf_end prev [] = None"
| "crlf_end prev (c # cs) =
     (if c = lf \<and> prev = cr then Some 1 else map_option Suc (crlf_end c cs))"

text \<open>The bytes still to come, for the measure of the loops that read.\<close>

fun arrival_size :: "arrival \<Rightarrow> nat" where
  "arrival_size (Data c cs) = Suc (length cs)"
| "arrival_size _ = 0"

definition unread :: "stream \<Rightarrow> nat" where
  "unread s = length (read_buff s) + sum_list (map arrival_size (arrivals s))"

lemma sum_skip_pauses:
  "sum_list (map arrival_size (dropWhile (\<lambda>a. a = Pause) as)) = sum_list (map arrival_size as)"
  by (induction as) simp_all

lemma recv_pending:
  assumes "recv sz as = (Some bs, as')"
  shows "length bs + sum_list (map arrival_size as') = sum_list (map arrival_size as)"
  using assms sum_skip_pauses [of as]
  by (auto simp: recv_def split: list.splits arrival.splits dest!: arg_cong [where f = length])

lemma stream_read_unread:
  assumes "stream_read sz s = (Some bs, s')"
  shows "length bs + unread s' = unread s"
  using assms
  by (auto simp: stream_read_def unread_def split: if_splits prod.splits option.splits dest!: recv_pending)

function getline_loop :: "nat \<Rightarrow> nat \<Rightarrow> char \<Rightarrow> line_reader \<Rightarrow> stream \<Rightarrow> bool \<times> line_reader \<times> stream" where
  "getline_loop sz i prev_byte r s =
     (if read_buff s \<noteq> []
      then let buffered = read_buff s;
               terminated = crlf_end prev_byte buffered;
               taken = (case terminated of Some n \<Rightarrow> n | None \<Rightarrow> length buffered) in
        if MAX_LINE_LENGTH < length (reader_text r) + taken then (False, r, s)
        else let r' = reader_append sz r (take taken buffered);
                 s' = s\<lparr>read_buff := drop taken buffered\<rparr> in
          if terminated \<noteq> None then (True, r', s')
          else getline_loop sz (i + taken + 1) (buffered ! (taken - 1)) r' s'
      else if MAX_LINE_LENGTH \<le> length (reader_text r) then (False, r, s)
      else (case stream_read 1 s of
          (None, s') \<Rightarrow> (False, r, s')
        | (Some [], s') \<Rightarrow> (i \<noteq> 0, r, s')
        | (Some (byte # _), s') \<Rightarrow>
            let r' = reader_append sz r [byte] in
            if prev_byte = cr \<and> byte = lf then (True, r', s')
            else getline_loop sz (i + 1) byte r' s'))"
  by pat_completeness auto
termination
proof (relation "measure (\<lambda>(sz, i, prev_byte, r, s). unread s)", goal_cases)
  case (3 sz i prev_byte r s x y byte list z)
  then show ?case by (auto dest!: stream_read_unread [OF sym])
qed (auto simp: unread_def)

declare getline_loop.simps [simp del]

definition stream_getline :: "nat \<Rightarrow> stream \<Rightarrow> bool \<times> line_reader \<times> stream" where
  "stream_getline sz s = getline_loop sz 0 NUL \<lparr>fixed_buffer = [], growable_buffer = []\<rparr> s"

section \<open>The bytes of a stream\<close>

text \<open>What can be read before a time-out, and whether the peer's end comes before one.\<close>

fun available :: "arrival list \<Rightarrow> string" where
  "available [] = []"
| "available (Data c cs # as) = c # cs @ available as"
| "available (Pause # as) = available as"
| "available (Timeout # as) = []"

definition inbound :: "stream \<Rightarrow> string" where
  "inbound s = read_buff s @ available (arrivals s)"

definition at_end :: "stream \<Rightarrow> bool" where
  "at_end s \<longleftrightarrow> Timeout \<notin> set (arrivals s)"

lemma available_skip: "available (dropWhile (\<lambda>a. a = Pause) as) = available as"
  by (induction as) simp_all

lemma timeout_skip: "Timeout \<in> set (dropWhile (\<lambda>a. a = Pause) as) \<longleftrightarrow> Timeout \<in> set as"
  by (induction as) auto

lemma recv_cases:
  assumes "0 < sz"
  obtains (bytes) c cs as' where "recv sz as = (Some (c # cs), as')" "available as = c # cs @ available as'"
      "Timeout \<in> set as' \<longleftrightarrow> Timeout \<in> set as" "length (c # cs) \<le> sz"
  | (closed) "recv sz as = (Some [], [])" "available as = []" "Timeout \<notin> set as"
  | (failed) as' where "recv sz as = (None, as')" "available as = []" "Timeout \<in> set as"
proof (cases "dropWhile (\<lambda>a. a = Pause) as")
  case Nil
  show ?thesis
    by (rule closed) (simp only: recv_def Nil list.case, use available_skip [of as, unfolded Nil] timeout_skip [of as, unfolded Nil] in simp_all)
next
  case (Cons a as')
  have "a \<noteq> Pause" using Cons by (metis (mono_tags) dropWhile_eq_Cons_conv)
  then consider c cs where "a = Data c cs" | "a = Timeout" by (cases a) auto
  then show ?thesis
  proof cases
    case (1 c cs)
    obtain n where n: "sz = Suc n" using assms by (cases sz) auto
    show ?thesis
    proof (rule bytes)
      show "recv sz as = (Some (c # take n cs), (case drop n cs of [] \<Rightarrow> as' | d # ds \<Rightarrow> Data d ds # as'))"
        using Cons 1 n by (simp add: recv_def)
      show "available as = c # take n cs @ available (case drop n cs of [] \<Rightarrow> as' | d # ds \<Rightarrow> Data d ds # as')"
        using available_skip [of as, unfolded Cons 1]
        by (cases "drop n cs") (simp_all, metis append_take_drop_id append_assoc append_Cons)
      show "Timeout \<in> set (case drop n cs of [] \<Rightarrow> as' | d # ds \<Rightarrow> Data d ds # as') \<longleftrightarrow> Timeout \<in> set as"
        using timeout_skip [of as, unfolded Cons 1] by (auto split: list.split)
      show "length (c # take n cs) \<le> sz" using n by simp
    qed
  next
    case 2
    with Cons available_skip [of as] timeout_skip [of as] show ?thesis
      by (intro failed [of as']) (simp_all add: recv_def)
  qed
qed

text \<open>A read takes a prefix of what is to come; it reports the end only when nothing is left.\<close>

lemma stream_read_cases:
  assumes "0 < sz"
  obtains (bytes) c cs s' where "stream_read sz s = (Some (c # cs), s')" "inbound s = c # cs @ inbound s'"
      "at_end s' = at_end s" "sent s' = sent s" "send_room s' = send_room s" "length (c # cs) \<le> sz"
  | (closed) s' where "stream_read sz s = (Some [], s')" "inbound s = []" "at_end s" "inbound s' = []" "at_end s'"
      "sent s' = sent s" "send_room s' = send_room s"
  | (failed) s' where "stream_read sz s = (None, s')" "inbound s = []" "\<not> at_end s"
      "sent s' = sent s" "send_room s' = send_room s"
proof (cases "read_buff s")
  case (Cons b bs)
  obtain n where n: "sz = Suc n" using assms by (cases sz) auto
  show ?thesis
    by (rule bytes [of b "take n bs" "s\<lparr>read_buff := drop n bs\<rparr>"])
      (use Cons n in \<open>simp_all add: stream_read_def inbound_def at_end_def\<close>)
next
  case Nil
  have sz': "0 < (if sz < read_buff_size then read_buff_size else sz)" using assms by (simp add: read_buff_size_def)
  obtain n where n: "sz = Suc n" using assms by (cases sz) auto
  from sz' show ?thesis
  proof (cases rule: recv_cases [where as = "arrivals s"])
    case (bytes c cs as')
    show ?thesis
    proof (cases "sz < read_buff_size")
      case True
      show ?thesis
        by (rule that(1) [of c "take n cs" "s\<lparr>read_buff := drop n cs, arrivals := as'\<rparr>"])
          (use bytes True Nil n in \<open>simp_all add: stream_read_def inbound_def at_end_def\<close>)
    next
      case False
      show ?thesis
        by (rule that(1) [of c cs "s\<lparr>arrivals := as'\<rparr>"])
          (use bytes False Nil in \<open>simp_all add: stream_read_def inbound_def at_end_def\<close>)
    qed
  next
    case closed
    show ?thesis
      by (cases "sz < read_buff_size"; rule that(2) [of "s\<lparr>arrivals := []\<rparr>"])
        (use closed Nil in \<open>simp_all add: stream_read_def inbound_def at_end_def\<close>)
  next
    case (failed as')
    show ?thesis
      by (cases "sz < read_buff_size"; rule that(3) [of "s\<lparr>arrivals := as'\<rparr>"])
        (use failed Nil in \<open>simp_all add: stream_read_def inbound_def at_end_def\<close>)
  qed
qed

section \<open>Reading a line\<close>

lemma reader_text_append: "d \<noteq> [] \<Longrightarrow> reader_text (reader_append sz r d) = reader_text r @ d"
  by (simp add: reader_text_def reader_append_def)

text \<open>The fixed buffer always has room for the terminator.\<close>

lemma reader_append_fits:
  "length (fixed_buffer r) < sz \<Longrightarrow> length (fixed_buffer (reader_append sz r d)) < sz"
  by (simp add: reader_append_def)

lemma crlf_end_append: "crlf_end prev (xs @ ys) = (case crlf_end prev xs of Some n \<Rightarrow> Some n
    | None \<Rightarrow> map_option (\<lambda>n. length xs + n) (crlf_end (last (prev # xs)) ys))"
proof (induction xs arbitrary: prev)
  case Nil
  then show ?case by (cases "crlf_end prev ys") simp_all
next
  case (Cons c xs)
  then show ?case by (cases "crlf_end (last (c # xs)) ys") (simp_all add: option.map_comp o_def split: option.split)
qed

lemma crlf_end_bounds: "crlf_end prev xs = Some n \<Longrightarrow> 0 < n \<and> n \<le> length xs"
  by (induction xs arbitrary: prev n) (auto split: if_splits)

text \<open>How many bytes the next line takes, \<open>k\<close> being read already; \<open>None\<close> when there is no line.\<close>

definition line_end :: "char \<Rightarrow> nat \<Rightarrow> string \<Rightarrow> bool \<Rightarrow> nat option" where
  "line_end prev k inp closed = (case crlf_end prev inp of
       Some n \<Rightarrow> if k + n \<le> MAX_LINE_LENGTH then Some n else None
     | None \<Rightarrow> if closed \<and> 0 < k + length inp \<and> k + length inp < MAX_LINE_LENGTH then Some (length inp) else None)"

lemma line_end_shift:
  assumes "crlf_end prev xs = None" and "xs \<noteq> []"
  shows "line_end prev k (xs @ ys) closed
    = map_option (\<lambda>n. length xs + n) (line_end (last xs) (k + length xs) ys closed)"
  using assms by (auto simp: line_end_def crlf_end_append split: option.split)

definition same_output :: "stream \<Rightarrow> stream \<Rightarrow> bool" where
  "same_output s s' \<longleftrightarrow> sent s' = sent s \<and> send_room s' = send_room s"

definition line_read :: "nat option \<Rightarrow> string \<Rightarrow> stream \<Rightarrow> bool \<times> line_reader \<times> stream \<Rightarrow> bool" where
  "line_read n t s res \<longleftrightarrow> (case res of (ok, r', s') \<Rightarrow> same_output s s' \<and> (case n of
       Some n \<Rightarrow> ok \<and> reader_text r' = t @ take n (inbound s) \<and> inbound s' = drop n (inbound s)
         \<and> at_end s' = at_end s
     | None \<Rightarrow> \<not> ok))"

lemma line_read_shift:
  assumes "line_read n (t @ xs) s' res" and "inbound s = xs @ inbound s'" and "at_end s' = at_end s"
    and "same_output s s'"
  shows "line_read (map_option (\<lambda>n. length xs + n) n) t s res"
  using assms by (auto simp: line_read_def same_output_def split: prod.splits option.splits)

lemma getline_loop_reads:
  assumes "i = 0 \<longleftrightarrow> reader_text r = []"
  shows "line_read (line_end prev (length (reader_text r)) (inbound s) (at_end s)) (reader_text r) s
    (getline_loop sz i prev r s)"
  using assms
proof (induction sz i prev r s rule: getline_loop.induct)
  case (1 sz i prev r s)
  note step = getline_loop.simps [of sz i prev r s]
  show ?case
  proof (cases "read_buff s = []")
    case False
    let ?b = "read_buff s"
    have inp: "inbound s = ?b @ available (arrivals s)" by (simp add: inbound_def)
    show ?thesis
    proof (cases "crlf_end prev ?b")
      case (Some n)
      with crlf_end_bounds [OF Some] False show ?thesis
        by (simp add: step Let_def line_end_def inp crlf_end_append line_read_def same_output_def reader_text_append
            inbound_def at_end_def)
    next
      case None
      show ?thesis
      proof (cases "MAX_LINE_LENGTH < length (reader_text r) + length ?b")
        case True
        with None False have "line_end prev (length (reader_text r)) (inbound s) (at_end s) = None"
          by (auto simp: line_end_def inp crlf_end_append split: option.split)
        with True None False show ?thesis
          by (simp add: step Let_def line_read_def same_output_def)
      next
        case fits: False
        let ?r = "reader_append sz r ?b" and ?s = "s\<lparr>read_buff := []\<rparr>"
        have grown: "reader_text ?r = reader_text r @ ?b" using False by (simp add: reader_text_append)
        have rec: "getline_loop sz i prev r s = getline_loop sz (i + length ?b + 1) (?b ! (length ?b - 1)) ?r ?s"
          using None False fits by (simp add: step Let_def)
        from 1(1) [OF False refl refl refl _ refl refl] None fits grown
        have "line_read (line_end (last ?b) (length (reader_text r) + length ?b) (inbound ?s) (at_end ?s))
            (reader_text r @ ?b) ?s (getline_loop sz (i + length ?b + 1) (?b ! (length ?b - 1)) ?r ?s)"
          using False by (simp add: last_conv_nth)
        from line_read_shift [OF this, of s] show ?thesis
          using None False by (simp add: rec inp line_end_shift inbound_def at_end_def same_output_def)
      qed
    qed
  next
    case empty: True
    show ?thesis
    proof (cases "MAX_LINE_LENGTH \<le> length (reader_text r)")
      case True
      then have "line_end prev (length (reader_text r)) (inbound s) (at_end s) = None"
        using crlf_end_bounds [of prev "inbound s"] by (fastforce simp: line_end_def split: option.split)
      with True empty show ?thesis by (simp add: step line_read_def same_output_def)
    next
      case False
      have "(0 :: nat) < 1" by simp
      then show ?thesis
      proof (cases rule: stream_read_cases [where s = s])
        case (bytes c cs s')
        then have cs: "cs = []" by simp
        note read = bytes(1) [unfolded cs]
        show ?thesis
        proof (cases "prev = cr \<and> c = lf")
          case True
          then have "getline_loop sz i prev r s = (True, reader_append sz r [c], s')"
            unfolding step using empty False read by simp
          with True bytes cs False show ?thesis
            by (simp add: line_end_def line_read_def same_output_def reader_text_append)
        next
          case go: False
          have rec: "getline_loop sz i prev r s = getline_loop sz (i + 1) c (reader_append sz r [c]) s'"
            using empty False go read by (auto simp: step Let_def)
          from 1(2) [OF _ _ read [symmetric] refl refl refl] empty False go
          have "line_read (line_end c (length (reader_text r) + 1) (inbound s') (at_end s')) (reader_text r @ [c]) s'
              (getline_loop sz (i + 1) c (reader_append sz r [c]) s')"
            by (simp add: reader_text_append)
          from line_read_shift [OF this, of s] show ?thesis
            using bytes cs go line_end_shift [of prev "[c]" "length (reader_text r)" "inbound s'" "at_end s"]
            by (auto simp: rec same_output_def)
        qed
      next
        case (closed s')
        with empty False 1(3) show ?thesis
          by (auto simp: step line_end_def line_read_def same_output_def)
      next
        case (failed s')
        with empty False show ?thesis
          by (simp add: step line_end_def line_read_def same_output_def)
      qed
    qed
  qed
qed

lemma getline_reads:
  "line_read (line_end NUL 0 (inbound s) (at_end s)) [] s (stream_getline sz s)"
  using getline_loop_reads [of 0 "\<lparr>fixed_buffer = [], growable_buffer = []\<rparr>" NUL s sz]
  by (simp add: stream_getline_def reader_text_def)

lemma stream_read_failed: "stream_read sz s = (None, s') \<Longrightarrow> unread s' \<le> unread s"
proof -
  assume read: "stream_read sz s = (None, s')"
  have "sum_list (map arrival_size as') \<le> sum_list (map arrival_size as)" if "recv n as = (None, as')" for n as as'
    using that sum_skip_pauses [of as] by (auto simp: recv_def split: list.splits arrival.splits)
  with read show ?thesis
    by (auto simp: stream_read_def unread_def split: if_splits prod.splits option.splits)
qed

lemma getline_loop_pending:
  "getline_loop sz i prev r s = (ok, r', s') \<Longrightarrow>
    unread s' \<le> unread s \<and> (ok \<longrightarrow> i = 0 \<longrightarrow> unread s' < unread s)"
proof (induction sz i prev r s arbitrary: ok r' s' rule: getline_loop.induct)
  case (1 sz i prev r s)
  note step = getline_loop.simps [of sz i prev r s]
  show ?case
  proof (cases "read_buff s = []")
    case False
    then show ?thesis
    proof (cases "crlf_end prev (read_buff s)")
      case (Some n)
      with crlf_end_bounds [OF Some] False 1(3) show ?thesis
        by (auto simp: step Let_def unread_def split: if_splits)
    next
      case None
      show ?thesis
      proof (cases "MAX_LINE_LENGTH < length (reader_text r) + length (read_buff s)")
        case True
        with None False 1(3) show ?thesis by (simp add: step Let_def)
      next
        case fits: False
        let ?b = "read_buff s"
        let ?s = "s\<lparr>read_buff := []\<rparr>"
        have less: "unread ?s < unread s" using False by (simp add: unread_def)
        have "getline_loop sz (i + length ?b + 1) (?b ! (length ?b - 1)) (reader_append sz r ?b) ?s = (ok, r', s')"
          using None False fits 1(3) by (simp add: step Let_def)
        from 1(1) [OF False refl refl refl _ refl refl] None fits this less show ?thesis by fastforce
      qed
    qed
  next
    case True
    have "(0 :: nat) < 1" by simp
    then show ?thesis
    proof (cases rule: stream_read_cases [where s = s])
      case (bytes c cs s2)
      from stream_read_unread [OF bytes(1)] have less: "unread s2 < unread s" by simp
      show ?thesis
      proof (cases "MAX_LINE_LENGTH \<le> length (reader_text r) \<or> prev = cr \<and> c = lf")
        case stop: True
        with True 1(3) bytes(1) less show ?thesis by (auto simp: step Let_def split: if_splits)
      next
        case go: False
        with True 1(3) bytes(1)
        have "getline_loop sz (i + 1) c (reader_append sz r [c]) s2 = (ok, r', s')" by (auto simp: step Let_def)
        from 1(2) [OF _ _ bytes(1) [symmetric] refl refl refl _ this] True go less show ?thesis by auto
      qed
    next
      case (closed s2)
      from stream_read_unread [OF closed(1)] closed(1) True 1(3) show ?thesis
        by (auto simp: step split: if_splits)
    next
      case (failed s2)
      from stream_read_failed [OF failed(1)]
      failed(1) True 1(3) show ?thesis by (auto simp: step split: if_splits)
    qed
  qed
qed

lemma getline_unread: "stream_getline sz s = (True, r', s') \<Longrightarrow> unread s' < unread s"
  using getline_loop_pending by (fastforce simp: stream_getline_def)

end
