(* ===== verification/HttpRequest.thy ===== *)
theory HttpRequest
  imports HttpStream
begin

text \<open>
  \<^verbatim>\<open>external/httplib.h\<close>: the head of a request: the request line (\<^verbatim>\<open>Server::parse_request_line\<close>), the
  header block (\<^verbatim>\<open>detail::read_headers\<close>), and the headers the server interprets (\<^verbatim>\<open>Content-Length\<close>,
  \<^verbatim>\<open>Transfer-Encoding\<close>, \<^verbatim>\<open>Connection\<close>, \<^verbatim>\<open>Content-Type\<close>, \<^verbatim>\<open>Accept\<close>, \<^verbatim>\<open>Range\<close>). A function that
  changes a request and reports success returns both.
\<close>

section \<open>Requests\<close>

record form_data =
  fd_name :: string
  fd_content :: string
  fd_filename :: string
  fd_content_type :: string
  fd_headers :: headers

text \<open>\<open>form\<close> holds the text fields (\<open>True\<close>) and the files (\<open>False\<close>) in the order of their arrival.\<close>

record request =
  req_method :: string
  req_path :: string
  matched_route :: string
  req_params :: params
  req_headers :: headers
  req_trailers :: headers
  req_body :: string
  req_version :: string
  req_target :: string
  form :: "(bool \<times> form_data) list"
  ranges :: "(int \<times> int) list"
  path_params :: "(string \<times> string) list"
  accept_content_types :: "string list"
  body_consumed :: bool

definition new_request :: request where
  "new_request = \<lparr>req_method = [], req_path = [], matched_route = [], req_params = [], req_headers = [],
     req_trailers = [], req_body = [], req_version = [], req_target = [], form = [], ranges = [],
     path_params = [], accept_content_types = [], body_consumed = False\<rparr>"

section \<open>The request line\<close>

definition methods :: "string list" where
  "methods = [''GET'', ''HEAD'', ''POST'', ''PUT'', ''DELETE'', ''CONNECT'', ''OPTIONS'', ''TRACE'', ''PATCH'', ''PRI'']"

text \<open>The callback of \<^verbatim>\<open>split\<close> assigns the first three pieces as it meets them.\<close>

definition assign_pieces :: "string list \<Rightarrow> request \<Rightarrow> request" where
  "assign_pieces ps req =
     (let req = (if 0 < length ps then req\<lparr>req_method := ps ! 0\<rparr> else req);
          req = (if 1 < length ps then req\<lparr>req_target := ps ! 1\<rparr> else req)
      in if 2 < length ps then req\<lparr>req_version := ps ! 2\<rparr> else req)"

definition parse_request_line :: "string \<Rightarrow> request \<Rightarrow> bool \<times> request" where
  "parse_request_line line req =
     (let s = takeWhile (\<lambda>c. c \<noteq> NUL) line; len = length s in
      if len < 2 \<or> s ! (len - 2) \<noteq> cr \<or> s ! (len - 1) \<noteq> lf then (False, req)
      else
        let ps = split (take (len - 2) s) CHR '' ''; req = assign_pieces ps req in
        if length ps \<noteq> 3 then (False, req)
        else if req_method req \<notin> set methods then (False, req)
        else if req_version req \<noteq> ''HTTP/1.1'' \<and> req_version req \<noteq> ''HTTP/1.0'' then (False, req)
        else
          let req = req\<lparr>req_target := takeWhile (\<lambda>c. c \<noteq> CHR ''#'') (req_target req)\<rparr> in
          (case divide (req_target req) CHR ''?'' of (lhs, rhs) \<Rightarrow>
            (True, req\<lparr>req_path := decode_path_component lhs, req_params := parse_query_text rhs (req_params req)\<rparr>)))"

section \<open>The header block\<close>

definition HEADER_MAX_LENGTH :: nat where "HEADER_MAX_LENGTH = 8192"
definition HEADER_MAX_COUNT :: nat where "HEADER_MAX_COUNT = 100"

definition content_lengths_agree :: "headers \<Rightarrow> bool" where
  "content_lengths_agree h = (case equal_range h ''Content-Length'' of
     [] \<Rightarrow> True | v # vs \<Rightarrow> list_all (\<lambda>w. w = v) vs)"

function read_headers_loop :: "nat \<Rightarrow> headers \<Rightarrow> stream \<Rightarrow> bool \<times> headers \<times> stream" where
  "read_headers_loop header_count h s =
     (case stream_getline 2048 s of (ok, r, s') \<Rightarrow>
        if \<not> ok then (False, h, s')
        else let line = reader_text r in
          if end_with_crlf r \<and> length line = 2 then (content_lengths_agree h, h, s')
          else if \<not> end_with_crlf r then read_headers_loop header_count h s'
          else if HEADER_MAX_LENGTH < length line then (False, h, s')
          else if HEADER_MAX_COUNT \<le> header_count then (False, h, s')
          else (case parse_header (take (length line - 2) line) of
              None \<Rightarrow> (False, h, s')
            | Some e \<Rightarrow> read_headers_loop (header_count + 1) (emplace h e) s'))"
  by pat_completeness auto
termination
  by (relation "measure (\<lambda>(n, h, s). unread s)") (auto dest!: getline_unread [OF sym])

declare read_headers_loop.simps [simp del]

definition read_headers :: "headers \<Rightarrow> stream \<Rightarrow> bool \<times> headers \<times> stream" where
  "read_headers h s = read_headers_loop 0 h s"

section \<open>Framing and connection headers\<close>

text \<open>The last coding of the last line; each line clears what the one before it left.\<close>

definition is_chunked_transfer_encoding :: "headers \<Rightarrow> bool" where
  "is_chunked_transfer_encoding h = (case equal_range h ''Transfer-Encoding'' of
       [] \<Rightarrow> False
     | vs \<Rightarrow> case_equal (case split (last vs) CHR '','' of [] \<Rightarrow> [] | ps \<Rightarrow> last ps) ''chunked'')"

definition has_framed_body :: "request \<Rightarrow> bool" where
  "has_framed_body req \<longleftrightarrow> is_chunked_transfer_encoding (req_headers req)
     \<or> 0 < fst (get_header_value_u64 (req_headers req) ''Content-Length'' 0)"

definition is_connection_persistent :: "request \<Rightarrow> bool" where
  "is_connection_persistent req =
     (let conn = get_header_value (req_headers req) ''Connection'' [] in
      if conn = ''close'' then False
      else if req_version req = ''HTTP/1.0'' \<and> conn \<noteq> ''Keep-Alive'' then False
      else True)"

definition expect_content :: "request \<Rightarrow> bool" where
  "expect_content req =
     (if req_method req \<in> {''POST'', ''PUT'', ''PATCH'', ''DELETE''} then True else has_framed_body req)"

section \<open>Media types and quality values\<close>

definition assign_param :: "(string \<times> string) list \<Rightarrow> string \<Rightarrow> (string \<times> string) list" where
  "assign_param ps kv =
     (case split kv CHR ''='' of
        [] \<Rightarrow> ps
      | key # vals \<Rightarrow>
          let k = trim_copy key; v = trim_double_quotes_copy (if vals = [] then [] else last vals) in
          if map_of ps k = None then ps @ [(k, v)] else ps)"

definition extract_media_type :: "string \<Rightarrow> string \<times> (string \<times> string) list" where
  "extract_media_type content_type =
     (let rest = dropWhile (\<lambda>c. c \<noteq> CHR '';'') content_type in
      (trim_copy (takeWhile (\<lambda>c. c \<noteq> CHR '';'') content_type),
       if rest = [] then [] else foldl assign_param [] (split (tl rest) CHR '';'')))"

definition is_multipart_form_data :: "request \<Rightarrow> bool" where
  "is_multipart_form_data req \<longleftrightarrow>
     fst (extract_media_type (get_header_value (req_headers req) ''Content-Type'' [])) = ''multipart/form-data''"

text \<open>The quality value: the digits accumulated in 64 bits, divided by an exact power of ten.\<close>

definition accumulate_limit :: nat where
  "accumulate_limit = (SIZE_MAX - 9) div 10"

definition accumulate :: "nat \<Rightarrow> char \<Rightarrow> nat" where
  "accumulate mantissa c = (if mantissa \<le> accumulate_limit then mantissa * 10 + (of_char c - 48) else mantissa)"

definition accumulate_frac :: "nat \<times> nat \<Rightarrow> char \<Rightarrow> nat \<times> nat" where
  "accumulate_frac = (\<lambda>(mantissa, frac_digits) c.
     if frac_digits < 18 \<and> mantissa \<le> accumulate_limit
     then (accumulate mantissa c, frac_digits + 1) else (mantissa, frac_digits))"

definition double_of_chars :: "string \<Rightarrow> double option" where
  "double_of_chars s =
     (let int_digits = takeWhile is_digit s; rest = dropWhile is_digit s;
          frac = (case rest of c # cs \<Rightarrow> if c = CHR ''.'' then takeWhile is_digit cs else [] | [] \<Rightarrow> []);
          (mantissa, frac_digits) = foldl accumulate_frac (foldl accumulate 0 int_digits, 0) frac
      in if int_digits = [] \<and> frac = [] then None
         else Some (double_of_ratio False (double_trunc (double_of_ratio False mantissa 1)) (10 ^ frac_digits)))"

definition one_double :: double where
  "one_double = 0x3FF0000000000000"

text \<open>\<^verbatim>\<open>split_find\<close> stops at the first parameter \<^verbatim>\<open>q=\<close>. Positive doubles are ordered as their bits.\<close>

fun find_quality :: "string list \<Rightarrow> double option" where
  "find_quality [] = Some one_double"
| "find_quality (p # ps) =
     (if length p < 2 \<or> (p ! 0 \<noteq> CHR ''q'' \<and> p ! 0 \<noteq> CHR ''Q'') \<or> p ! 1 \<noteq> CHR ''='' then find_quality ps
      else (case trim p 2 (length p) of (l, r) \<Rightarrow>
        if r \<le> l then None
        else (case double_of_chars (slice l (r - l) p) of
            None \<Rightarrow> None
          | Some v \<Rightarrow> if one_double < v then None else Some v)))"

definition parse_quality :: "string \<Rightarrow> (string \<times> double) option" where
  "parse_quality s =
     (case divide s CHR '';'' of (lhs, params) \<Rightarrow>
        case trim lhs 0 (length lhs) of (l, r) \<Rightarrow>
          if r \<le> l then None
          else let token = slice l (r - l) lhs in
            if params = [] then Some (token, one_double)
            else map_option (\<lambda>q. (token, q)) (find_quality (split params CHR '';'')))"

text \<open>The media types by falling quality, in their order where qualities are equal; \<open>None\<close> is an
  invalid header.\<close>

definition accept_entry :: "string \<Rightarrow> (string \<times> double) option" where
  "accept_entry p =
     (let entry = trim_copy p in
      if entry = [] then None
      else (case parse_quality entry of
          None \<Rightarrow> None
        | Some (token, quality) \<Rightarrow>
            let media_type = fst (extract_media_type token) in
            if media_type = [] then None
            else if media_type \<noteq> ''*'' \<and> CHR ''/'' \<notin> set media_type then None
            else Some (media_type, quality)))"

fun adjacent_commas :: "string \<Rightarrow> bool" where
  "adjacent_commas (c # d # cs) \<longleftrightarrow> c = CHR '','' \<and> d = CHR '','' \<or> adjacent_commas (d # cs)"
| "adjacent_commas _ \<longleftrightarrow> False"

definition parse_accept_header :: "string \<Rightarrow> string list option" where
  "parse_accept_header s =
     (if s = [] then Some []
      else if hd s = CHR '','' \<or> last s = CHR '','' \<or> adjacent_commas s then None
      else let entries = map accept_entry (split s CHR '','') in
        if None \<in> set entries then None
        else Some (map fst (sort_key (\<lambda>e. SIZE_MAX - unat (snd e)) (map the entries))))"

section \<open>Ranges\<close>

definition SSIZE_MAX :: nat where
  "SSIZE_MAX = 9223372036854775807"

definition range_bound :: "string \<Rightarrow> int" where
  "range_bound ds = (if ds = [] then -1
     else (case from_chars SSIZE_MAX ds 0 of Some v \<Rightarrow> int v | None \<Rightarrow> -1))"

text \<open>The callback: nothing more is added after an invalid range.\<close>

definition add_range :: "bool \<times> (int \<times> int) list \<Rightarrow> string \<Rightarrow> bool \<times> (int \<times> int) list" where
  "add_range = (\<lambda>(all_valid_ranges, rs) p.
     if \<not> all_valid_ranges then (all_valid_ranges, rs)
     else if CHR ''-'' \<notin> set p then (False, rs)
     else (case divide p CHR ''-'' of (lhs, rhs) \<Rightarrow>
       if \<not> (list_all is_digit lhs \<and> list_all is_digit rhs) then (False, rs)
       else let first = range_bound lhs; last = range_bound rhs in
         if first = -1 \<and> last = -1 \<or> first \<noteq> -1 \<and> last \<noteq> -1 \<and> last < first then (False, rs)
         else (True, rs @ [(first, last)])))"

definition parse_range_header :: "string \<Rightarrow> (int \<times> int) list \<Rightarrow> bool \<times> (int \<times> int) list" where
  "parse_range_header s rs =
     (if 7 < length s \<and> take 6 s = ''bytes=''
      then (case foldl add_range (True, rs) (split (drop 6 s) CHR '','') of
          (all_valid_ranges, rs') \<Rightarrow> (all_valid_ranges \<and> rs' \<noteq> [], rs'))
      else (False, rs))"

end
