(* ===== verification/HttpForm.thy ===== *)
theory HttpForm
  imports HttpRequest
begin

text \<open>
  \<^verbatim>\<open>external/httplib.h\<close>: the parser of a multipart body (\<^verbatim>\<open>FormDataParser\<close>) with the callbacks
  \<^verbatim>\<open>Server::read_content\<close> gives it, and the receiver of any other body. The parser's buffer is the
  part of \<^verbatim>\<open>buf_\<close> between its two positions.
\<close>

section \<open>Searching\<close>

fun find_sub :: "string \<Rightarrow> string \<Rightarrow> nat option" where
  "find_sub s [] = None"
| "find_sub s (c # cs) = (if take (length s) (c # cs) = s then Some 0 else map_option Suc (find_sub s cs))"

lemma find_sub_less: "find_sub s b = Some n \<Longrightarrow> n < length b"
  by (induction b arbitrary: n) (auto split: if_splits)

definition buf_start_with :: "string \<Rightarrow> string \<Rightarrow> bool" where
  "buf_start_with b s \<longleftrightarrow> take (length s) b = s"

definition start_with_case_ignore :: "string \<Rightarrow> string \<Rightarrow> nat \<Rightarrow> bool" where
  "start_with_case_ignore a b offset \<longleftrightarrow>
     \<not> length a < offset + length b \<and> lower_case (slice offset (length b) a) = lower_case b"

section \<open>Content disposition\<close>

definition parse_content_disposition :: "string \<Rightarrow> string option" where
  "parse_content_disposition header =
     (if \<not> start_with_case_ignore header ''Content-Disposition:'' 0 then None
      else let rest = dropWhile is_space_or_tab (drop (length ''Content-Disposition:'') header) in
        if \<not> start_with_case_ignore rest ''form-data;'' 0 then None
        else Some (dropWhile is_space_or_tab (drop (length ''form-data;'') rest)))"

fun disposition_pairs :: "string list \<Rightarrow> string list \<Rightarrow> params \<Rightarrow> params" where
  "disposition_pairs [] cache params = params"
| "disposition_pairs (kv # kvs) cache params =
     (if kv \<in> set cache then disposition_pairs kvs cache params
      else disposition_pairs kvs (kv # cache)
        (case split kv CHR ''='' of
           [] \<Rightarrow> params
         | key # vals \<Rightarrow> emplace params (trim_double_quotes_copy key,
             trim_double_quotes_copy (if vals = [] then [] else last vals))))"

definition parse_disposition_params :: "string \<Rightarrow> params" where
  "parse_disposition_params s = disposition_pairs (split s CHR '';'') [] []"

definition parse_multipart_boundary :: "string \<Rightarrow> string option" where
  "parse_multipart_boundary content_type =
     (case map_of (snd (extract_media_type content_type)) ''boundary'' of
        None \<Rightarrow> None | Some b \<Rightarrow> if b = [] then None else Some b)"

section \<open>Receivers\<close>

record form_parser =
  fp_boundary :: string
  fp_state :: nat
  fp_valid :: bool
  fp_file :: form_data
  header_count :: nat
  fp_buf :: string

definition no_file :: form_data where
  "no_file = \<lparr>fd_name = [], fd_content = [], fd_filename = [], fd_content_type = [], fd_headers = []\<rparr>"

definition new_form_parser :: "string \<Rightarrow> form_parser" where
  "new_form_parser b = \<lparr>fp_boundary = b, fp_state = 0, fp_valid = False, fp_file = no_file, header_count = 0, fp_buf = []\<rparr>"

text \<open>What the receivers change: the body, the form with the number of its parts, and the parser.\<close>

record received =
  ct_body :: string
  ct_form :: "(bool \<times> form_data) list"
  ct_count :: nat
  ct_parser :: form_parser

definition PAYLOAD_MAX_LENGTH :: nat where "PAYLOAD_MAX_LENGTH = 104857600"
definition FORM_URL_ENCODED_PAYLOAD_MAX_LENGTH :: nat where "FORM_URL_ENCODED_PAYLOAD_MAX_LENGTH = 8192"
definition MULTIPART_FORM_DATA_FILE_MAX_COUNT :: nat where "MULTIPART_FORM_DATA_FILE_MAX_COUNT = 1024"

text \<open>\<^verbatim>\<open>std::string::max_size()\<close> of the library of the build.\<close>

definition string_max_size :: nat where "string_max_size = 9223372036854775807"

definition receive_regular :: "string \<Rightarrow> received \<Rightarrow> bool \<times> received" where
  "receive_regular bs ct =
     (let size = length (ct_body ct); n = length bs in
      if string_max_size \<le> size \<or> string_max_size - size < n then (False, ct)
      else if 0 < PAYLOAD_MAX_LENGTH \<and> (PAYLOAD_MAX_LENGTH \<le> size \<or> PAYLOAD_MAX_LENGTH - size < n) then (False, ct)
      else (True, ct\<lparr>ct_body := ct_body ct @ bs\<rparr>))"

definition form_header :: "form_data \<Rightarrow> received \<Rightarrow> bool \<times> received" where
  "form_header f ct =
     (let full = (ct_count ct = MULTIPART_FORM_DATA_FILE_MAX_COUNT); ct = ct\<lparr>ct_count := ct_count ct + 1\<rparr> in
      if full then (False, ct) else (True, ct\<lparr>ct_form := ct_form ct @ [(fd_filename f = [], f)]\<rparr>))"

definition form_content :: "string \<Rightarrow> received \<Rightarrow> bool \<times> received" where
  "form_content bs ct =
     (case last (ct_form ct) of (is_text_field, f) \<Rightarrow>
        if string_max_size < length (fd_content f) + length bs then (False, ct)
        else (True, ct\<lparr>ct_form := butlast (ct_form ct) @ [(is_text_field, f\<lparr>fd_content := fd_content f @ bs\<rparr>)]\<rparr>))"

section \<open>The multipart parser\<close>

abbreviation "CRLF \<equiv> [cr, lf]"

definition dash_boundary_crlf :: "form_parser \<Rightarrow> string" where
  "dash_boundary_crlf p = ''--'' @ fp_boundary p @ CRLF"

definition crlf_dash_boundary :: "form_parser \<Rightarrow> string" where
  "crlf_dash_boundary p = CRLF @ ''--'' @ fp_boundary p"

abbreviation set_parser :: "(form_parser \<Rightarrow> form_parser) \<Rightarrow> received \<Rightarrow> received" where
  "set_parser f ct \<equiv> ct\<lparr>ct_parser := f (ct_parser ct)\<rparr>"

definition form_erase :: "nat \<Rightarrow> received \<Rightarrow> received" where
  "form_erase n = set_parser (\<lambda>p. p\<lparr>fp_buf := drop n (fp_buf p)\<rparr>)"

definition form_goto :: "nat \<Rightarrow> received \<Rightarrow> received" where
  "form_goto st = set_parser (\<lambda>p. p\<lparr>fp_state := st\<rparr>)"

definition form_invalid :: "received \<Rightarrow> received" where
  "form_invalid = set_parser (\<lambda>p. p\<lparr>fp_valid := False\<rparr>)"

text \<open>One header of a part: the part's description, or \<open>None\<close> where the parser fails.\<close>

definition form_disposition :: "string \<Rightarrow> form_data \<Rightarrow> form_data option" where
  "form_disposition disposition_params f =
     (let params = parse_disposition_params disposition_params in
      case find_param params ''name'' of
        None \<Rightarrow> None
      | Some name \<Rightarrow>
          let f = f\<lparr>fd_name := name\<rparr>;
              f = (case find_param params ''filename'' of None \<Rightarrow> f | Some v \<Rightarrow> f\<lparr>fd_filename := v\<rparr>)
          in (case find_param params ''filename*'' of
              None \<Rightarrow> Some f
            | Some v \<Rightarrow>
                if 7 < length v \<and> start_with_case_ignore v (''UTF-8'' @ [CHR 0x27, CHR 0x27]) 0
                then Some (f\<lparr>fd_filename := decode_path_component (drop 7 v)\<rparr>) else None))"

definition form_header_line :: "string \<Rightarrow> form_data \<Rightarrow> form_data option" where
  "form_header_line header f =
     (case parse_header header of
        None \<Rightarrow> None
      | Some e \<Rightarrow>
          let f = f\<lparr>fd_headers := emplace (fd_headers f) e\<rparr> in
          if start_with_case_ignore header ''Content-Type:'' 0
          then Some (f\<lparr>fd_content_type := trim_copy (drop (length ''Content-Type:'') header)\<rparr>)
          else (case parse_content_disposition header of
              None \<Rightarrow> Some f
            | Some disposition_params \<Rightarrow> form_disposition disposition_params f))"

text \<open>The loop over the headers of a part: \<open>Some True\<close> when the empty line was read, \<open>Some False\<close>
  when more input is needed, \<open>None\<close> when the parser failed.\<close>

definition form_headers_measure :: "received \<Rightarrow> nat" where
  "form_headers_measure ct = length (fp_buf (ct_parser ct))"

function form_headers :: "received \<Rightarrow> bool option \<times> received" where
  "form_headers ct =
     (let p = ct_parser ct in
      case find_sub CRLF (fp_buf p) of
        None \<Rightarrow> (Some False, ct)
      | Some pos \<Rightarrow>
          if pos = 0 then
            (case form_header (fp_file p) ct of (ok, ct') \<Rightarrow>
              if \<not> ok then (None, form_invalid ct') else (Some True, form_goto 3 (form_erase 2 ct')))
          else if HEADER_MAX_COUNT \<le> header_count p then (None, form_invalid ct)
          else let ct = set_parser (\<lambda>p. p\<lparr>header_count := header_count p + 1\<rparr>) ct in
            (case form_header_line (take pos (fp_buf p)) (fp_file p) of
              None \<Rightarrow> (None, form_invalid ct)
            | Some f \<Rightarrow> form_headers (form_erase (pos + 2) (set_parser (\<lambda>p. p\<lparr>fp_file := f\<rparr>) ct))))"
  by pat_completeness auto
termination
  by (relation "measure form_headers_measure") (auto simp: form_headers_measure_def form_erase_def dest: find_sub_less)

declare form_headers.simps [simp del]

text \<open>One turn of the outer loop: \<open>Inl ok\<close> returns, \<open>Inr\<close> goes on.\<close>

definition form_turn :: "received \<Rightarrow> (bool \<times> received) + received" where
  "form_turn ct =
     (let p = ct_parser ct; buf = fp_buf p in
      if fp_state p = 0 then
        (case find_sub (dash_boundary_crlf p) buf of
           None \<Rightarrow> Inl (True, ct)
         | Some pos \<Rightarrow> Inr (form_goto 1 (form_erase (pos + length (dash_boundary_crlf p)) ct)))
      else if fp_state p = 1 then
        Inr (form_goto 2 (set_parser (\<lambda>p. p\<lparr>header_count := 0,
          fp_file := (fp_file p)\<lparr>fd_name := [], fd_filename := [], fd_content_type := [], fd_headers := []\<rparr>\<rparr>) ct))
      else if fp_state p = 2 then
        (if HEADER_MAX_LENGTH < (case find_sub CRLF buf of Some pos \<Rightarrow> pos | None \<Rightarrow> length buf) then Inl (False, ct)
         else (case form_headers ct of
             (Some True, ct') \<Rightarrow> Inr ct'
           | (Some False, ct') \<Rightarrow> Inl (True, ct')
           | (None, ct') \<Rightarrow> Inl (False, ct')))
      else if fp_state p = 3 then
        (if length buf < length (crlf_dash_boundary p) then Inl (True, ct)
         else (case find_sub (crlf_dash_boundary p) buf of
             Some pos \<Rightarrow>
               (case form_content (take pos buf) ct of (ok, ct') \<Rightarrow>
                  if \<not> ok then Inl (False, form_invalid ct')
                  else Inr (form_goto 4 (form_erase (pos + length (crlf_dash_boundary p)) ct')))
           | None \<Rightarrow>
               let len = length buf - length (crlf_dash_boundary p) in
               if 0 < len then
                 (case form_content (take len buf) ct of (ok, ct') \<Rightarrow>
                    if \<not> ok then Inl (False, form_invalid ct') else Inl (True, form_erase len ct'))
               else Inl (True, ct)))
      else
        (if length buf < 2 then Inl (True, ct)
         else if buf_start_with buf CRLF then Inr (form_goto 1 (form_erase 2 ct))
         else if buf_start_with buf ''--''
         then Inr (set_parser (\<lambda>p. p\<lparr>fp_valid := True, fp_buf := []\<rparr>) ct)
         else Inl (True, ct)))"

definition form_measure :: "received \<Rightarrow> nat" where
  "form_measure ct = 2 * length (fp_buf (ct_parser ct)) + (if fp_state (ct_parser ct) = 1 then 1 else 0)"

lemma form_headers_shrinks:
  "form_headers ct = (Some True, ct') \<Longrightarrow>
    fp_state (ct_parser ct') = 3 \<and> length (fp_buf (ct_parser ct')) < length (fp_buf (ct_parser ct))"
proof (induction ct arbitrary: ct' rule: form_headers.induct)
  case (1 ct)
  note step = form_headers.simps [of ct]
  from 1(2) obtain pos where pos: "find_sub CRLF (fp_buf (ct_parser ct)) = Some pos"
    by (auto simp: step Let_def split: option.splits)
  note less = find_sub_less [OF pos]
  show ?case
  proof (cases "pos = 0")
    case True
    with 1(2) pos less show ?thesis
      by (auto simp: step Let_def form_header_def form_goto_def form_erase_def split: if_splits prod.splits)
  next
    case False
    with 1(2) pos less 1(1) [OF refl pos False _ refl] show ?thesis
      by (fastforce simp: step Let_def form_erase_def split: if_splits option.splits)
  qed
qed

lemma form_turn_decreases:
  assumes "form_turn ct = Inr ct'" and "fp_buf (ct_parser ct) \<noteq> []"
  shows "form_measure ct' < form_measure ct"
  using assms
  by (auto simp: form_turn_def Let_def form_measure_def form_goto_def form_erase_def form_content_def
      dash_boundary_crlf_def crlf_dash_boundary_def
      split: if_splits option.splits prod.splits bool.splits dest!: find_sub_less form_headers_shrinks)

function form_loop :: "received \<Rightarrow> bool \<times> received" where
  "form_loop ct =
     (if fp_buf (ct_parser ct) = [] then (True, ct)
      else (case form_turn ct of Inl res \<Rightarrow> res | Inr ct' \<Rightarrow> form_loop ct'))"
  by pat_completeness auto
termination
  by (relation "measure form_measure") (auto dest: form_turn_decreases)

declare form_loop.simps [simp del]

definition receive_form :: "string \<Rightarrow> received \<Rightarrow> bool \<times> received" where
  "receive_form bs ct = form_loop (set_parser (\<lambda>p. p\<lparr>fp_buf := fp_buf p @ bs\<rparr>) ct)"

end
