(* ===== verification/HttpBody.thy ===== *)
theory HttpBody
  imports HttpForm
begin

text \<open>
  \<^verbatim>\<open>external/httplib.h\<close>: how the server reads the body of a request, by its length, in chunks or to
  the end of the stream (\<^verbatim>\<open>BodyReader\<close>, \<^verbatim>\<open>ChunkedDecoder\<close>, \<^verbatim>\<open>read_content_with_length\<close>,
  \<^verbatim>\<open>read_content_chunked\<close>, \<^verbatim>\<open>read_content_without_length\<close>, \<^verbatim>\<open>read_content\<close>), and what
  \<^verbatim>\<open>Server::read_content\<close> makes of it. A receiver takes a piece of the body and changes a state of its
  own; the offsets the code also passes are used by no receiver of the server, and there is no
  progress callback. The library is built without decompressors.
\<close>

type_synonym 'r receiver = "string \<Rightarrow> 'r \<Rightarrow> bool \<times> 'r"

datatype read_result = Success | PayloadTooLarge | ReadError

definition RECV_BUFSIZ :: nat where "RECV_BUFSIZ = 16384"

section \<open>Bodies with a length\<close>

record body_reader =
  content_length :: nat
  bytes_read :: nat
  br_eof :: bool
  exceeded :: bool

definition body_reader_read :: "nat \<Rightarrow> nat \<Rightarrow> body_reader \<Rightarrow> stream \<Rightarrow> string option \<times> body_reader \<times> stream" where
  "body_reader_read payload_max_length len br s =
     (if br_eof br then (Some [], br, s)
      else if content_length br \<le> bytes_read br then (Some [], br\<lparr>br_eof := True\<rparr>, s)
      else (case stream_read (min len (content_length br - bytes_read br)) s of
          (None, s') \<Rightarrow> (None, br\<lparr>br_eof := True\<rparr>, s')
        | (Some [], s') \<Rightarrow> (Some [], br\<lparr>br_eof := True\<rparr>, s')
        | (Some (c # cs), s') \<Rightarrow>
            let br = br\<lparr>bytes_read := bytes_read br + length (c # cs)\<rparr>;
                br = (if content_length br \<le> bytes_read br then br\<lparr>br_eof := True\<rparr> else br) in
            if 0 < payload_max_length \<and> payload_max_length < bytes_read br
            then (None, br\<lparr>exceeded := True, br_eof := True\<rparr>, s')
            else (Some (c # cs), br, s')))"

function with_length_loop :: "nat \<Rightarrow> 'r receiver \<Rightarrow> nat \<Rightarrow> nat \<Rightarrow> body_reader \<Rightarrow> 'r \<Rightarrow> stream \<Rightarrow> read_result \<times> 'r \<times> stream" where
  "with_length_loop payload_max_length out len r br rs s =
     (if r < len then
        (case body_reader_read payload_max_length (min (len - r) RECV_BUFSIZ) br s of
           (Some (c # cs), br', s') \<Rightarrow>
             (case out (c # cs) rs of (ok, rs') \<Rightarrow>
                if \<not> ok then (ReadError, rs', s')
                else with_length_loop payload_max_length out len (r + length (c # cs)) br' rs' s')
         | (_, br', s') \<Rightarrow> (if exceeded br' then PayloadTooLarge else ReadError, rs, s'))
      else (Success, rs, s))"
  by pat_completeness auto
termination
  by (relation "measure (\<lambda>(m, out, len, r, br, rs, s). len - r)") auto

declare with_length_loop.simps [simp del]

definition read_content_with_length :: "nat \<Rightarrow> 'r receiver \<Rightarrow> nat \<Rightarrow> 'r \<Rightarrow> stream \<Rightarrow> read_result \<times> 'r \<times> stream" where
  "read_content_with_length payload_max_length out len rs s =
     with_length_loop payload_max_length out len 0
       \<lparr>content_length = len, bytes_read = 0, br_eof = False, exceeded = False\<rparr> rs s"

section \<open>Bodies to the end of the stream\<close>

function without_length_loop :: "nat \<Rightarrow> 'r receiver \<Rightarrow> nat \<Rightarrow> 'r \<Rightarrow> stream \<Rightarrow> read_result \<times> 'r \<times> stream" where
  "without_length_loop payload_max_length out r rs s =
     (case stream_read RECV_BUFSIZ s of
        (None, s') \<Rightarrow> (ReadError, rs, s')
      | (Some [], s') \<Rightarrow> (Success, rs, s')
      | (Some (c # cs), s') \<Rightarrow>
          if payload_max_length < r \<or> payload_max_length - r < length (c # cs) then (PayloadTooLarge, rs, s')
          else (case out (c # cs) rs of (ok, rs') \<Rightarrow>
             if \<not> ok then (ReadError, rs', s')
             else without_length_loop payload_max_length out (r + length (c # cs)) rs' s'))"
  by pat_completeness auto
termination
  by (relation "measure (\<lambda>(m, out, r, rs, s). unread s)") (auto dest!: stream_read_unread [OF sym])

declare without_length_loop.simps [simp del]

definition read_content_without_length :: "nat \<Rightarrow> 'r receiver \<Rightarrow> 'r \<Rightarrow> stream \<Rightarrow> read_result \<times> 'r \<times> stream" where
  "read_content_without_length payload_max_length out rs s = without_length_loop payload_max_length out 0 rs s"

section \<open>Chunked bodies\<close>

record chunked_decoder =
  chunk_remaining :: nat
  decoder_finished :: bool

text \<open>The size line: the digits, then blanks, then its end or an extension. \<open>None\<close> is an error.\<close>

fun chunk_digits :: "string \<Rightarrow> nat \<Rightarrow> (nat \<times> string) option" where
  "chunk_digits [] chunk_len = Some (chunk_len, [])"
| "chunk_digits (c # cs) chunk_len =
     (case is_hex c of
        None \<Rightarrow> Some (chunk_len, c # cs)
      | Some v \<Rightarrow> if SIZE_MAX div 16 < chunk_len then None else chunk_digits cs (chunk_len * 16 + v))"

definition chunk_size :: "string \<Rightarrow> nat option" where
  "chunk_size line =
     (if line = [] \<or> is_hex (hd line) = None then None
      else (case chunk_digits line 0 of
          None \<Rightarrow> None
        | Some (chunk_len, rest) \<Rightarrow>
            (case dropWhile is_space_or_tab rest of
               [] \<Rightarrow> Some chunk_len
             | c # _ \<Rightarrow> if c = CHR '';'' \<or> c = cr \<or> c = lf then Some chunk_len else None)))"

definition c_text :: "line_reader \<Rightarrow> string" where
  "c_text r = takeWhile (\<lambda>c. c \<noteq> NUL) (reader_text r)"

definition chunk_data :: "nat \<Rightarrow> chunked_decoder \<Rightarrow> stream \<Rightarrow> string option \<times> chunked_decoder \<times> stream" where
  "chunk_data len dec s =
     (case stream_read (min (chunk_remaining dec) len) s of
        (Some (c # cs), s') \<Rightarrow>
          let dec = dec\<lparr>chunk_remaining := chunk_remaining dec - length (c # cs)\<rparr> in
          if chunk_remaining dec = 0
          then (case stream_getline 64 s' of (ok, r, s'') \<Rightarrow>
            if \<not> ok \<or> c_text r \<noteq> CRLF then (None, dec, s'') else (Some (c # cs), dec, s''))
          else (Some (c # cs), dec, s')
      | (_, s') \<Rightarrow> (None, dec, s'))"

definition read_payload :: "nat \<Rightarrow> chunked_decoder \<Rightarrow> stream \<Rightarrow> string option \<times> chunked_decoder \<times> stream" where
  "read_payload len dec s =
     (if decoder_finished dec then (Some [], dec, s)
      else if chunk_remaining dec = 0
      then (case stream_getline 64 s of (ok, r, s') \<Rightarrow>
        if \<not> ok then (None, dec, s')
        else (case chunk_size (c_text r) of
            None \<Rightarrow> (None, dec, s')
          | Some chunk_len \<Rightarrow>
              if chunk_len = 0 then (Some [], dec\<lparr>decoder_finished := True\<rparr>, s')
              else chunk_data len (dec\<lparr>chunk_remaining := chunk_len\<rparr>) s'))
      else chunk_data len dec s)"

definition prohibited_trailers :: "string list" where
  "prohibited_trailers = [''transfer-encoding'', ''content-length'', ''host'', ''authorization'',
     ''www-authenticate'', ''proxy-authenticate'', ''proxy-authorization'', ''cookie'', ''set-cookie'',
     ''cache-control'', ''expect'', ''max-forwards'', ''pragma'', ''range'', ''te'', ''age'', ''expires'', ''date'',
     ''location'', ''retry-after'', ''vary'', ''warning'', ''content-encoding'', ''content-type'',
     ''content-range'', ''trailer'']"

definition declared_trailers :: "headers \<Rightarrow> string list" where
  "declared_trailers src_headers =
     filter (\<lambda>key. key \<noteq> [] \<and> \<not> list_ex (case_equal key) prohibited_trailers)
       (map trim_copy (split (get_header_value src_headers ''Trailer'' []) CHR '',''))"

function parse_trailers_loop :: "string list \<Rightarrow> nat \<Rightarrow> headers \<Rightarrow> line_reader \<Rightarrow> stream \<Rightarrow> bool \<times> headers \<times> stream" where
  "parse_trailers_loop declared trailer_header_count dest r s =
     (let line = reader_text r in
      if c_text r = CRLF then (True, dest, s)
      else if HEADER_MAX_LENGTH < length line then (False, dest, s)
      else if HEADER_MAX_COUNT \<le> trailer_header_count then (False, dest, s)
      else (case parse_header (take (length line - 2) line) of
          None \<Rightarrow> (False, dest, s)
        | Some (key, val) \<Rightarrow>
            let add = list_ex (case_equal key) declared;
                dest = (if add then emplace dest (key, val) else dest) in
            (case stream_getline 64 s of (ok, r', s') \<Rightarrow>
               if \<not> ok then (False, dest, s')
               else parse_trailers_loop declared (trailer_header_count + (if add then 1 else 0)) dest r' s')))"
  by pat_completeness auto
termination
  by (relation "measure (\<lambda>(declared, n, dest, r, s). unread s)") (auto dest!: getline_unread [OF sym])

declare parse_trailers_loop.simps [simp del]

definition parse_trailers_into :: "headers \<Rightarrow> headers \<Rightarrow> stream \<Rightarrow> bool \<times> headers \<times> stream" where
  "parse_trailers_into dest src_headers s =
     (case stream_getline 64 s of (ok, r, s') \<Rightarrow>
        if \<not> ok then (False, dest, s') else parse_trailers_loop (declared_trailers src_headers) 0 dest r s')"

lemma getline_le: "stream_getline sz s = (ok, r, s') \<Longrightarrow> unread s' \<le> unread s"
  using getline_loop_pending by (fastforce simp: stream_getline_def)

lemma chunk_data_pending: "chunk_data len dec s = (Some bs, dec', s') \<Longrightarrow> unread s' < unread s"
  by (auto simp: chunk_data_def Let_def split: prod.splits option.splits list.splits if_splits
      dest!: stream_read_unread getline_le)

lemma read_payload_pending: "read_payload len dec s = (Some (c # cs), dec', s') \<Longrightarrow> unread s' < unread s"
  by (auto simp: read_payload_def split: prod.splits option.splits if_splits
      dest!: chunk_data_pending getline_le)

function chunked_loop :: "nat \<Rightarrow> 'r receiver \<Rightarrow> nat \<Rightarrow> headers \<Rightarrow> headers \<Rightarrow> chunked_decoder \<Rightarrow> 'r \<Rightarrow> stream
    \<Rightarrow> read_result \<times> headers \<times> 'r \<times> stream" where
  "chunked_loop payload_max_length out total_len hs trailers dec rs s =
     (case read_payload RECV_BUFSIZ dec s of
        (None, dec', s') \<Rightarrow> (ReadError, trailers, rs, s')
      | (Some [], dec', s') \<Rightarrow>
          (case parse_trailers_into trailers hs s' of (ok, trailers', s'') \<Rightarrow>
             (if ok then Success else ReadError, trailers', rs, s''))
      | (Some (c # cs), dec', s') \<Rightarrow>
          if payload_max_length < total_len \<or> payload_max_length - total_len < length (c # cs)
          then (PayloadTooLarge, trailers, rs, s')
          else (case out (c # cs) rs of (ok, rs') \<Rightarrow>
             if \<not> ok then (ReadError, trailers, rs', s')
             else chunked_loop payload_max_length out (total_len + length (c # cs)) hs trailers dec' rs' s'))"
  by pat_completeness auto
termination
  by (relation "measure (\<lambda>(m, out, n, hs, trailers, dec, rs, s). unread s)") (auto dest!: read_payload_pending [OF sym])

declare chunked_loop.simps [simp del]

definition read_content_chunked :: "nat \<Rightarrow> 'r receiver \<Rightarrow> request \<Rightarrow> 'r \<Rightarrow> stream \<Rightarrow> read_result \<times> headers \<times> 'r \<times> stream" where
  "read_content_chunked payload_max_length out req rs s =
     chunked_loop payload_max_length out 0 (req_headers req) (req_trailers req)
       \<lparr>chunk_remaining = 0, decoder_finished = False\<rparr> rs s"

section \<open>Reading a body\<close>

definition contains_case_ignore :: "string \<Rightarrow> string \<Rightarrow> bool" where
  "contains_case_ignore s token \<longleftrightarrow> find_sub (lower_case token) (lower_case s) \<noteq> None"

definition is_known_content_encoding :: "string \<Rightarrow> bool" where
  "is_known_content_encoding encoding \<longleftrightarrow> case_equal encoding ''gzip'' \<or> case_equal encoding ''deflate''
     \<or> contains_case_ignore encoding ''br'' \<or> contains_case_ignore encoding ''zstd''"

text \<open>\<open>None\<close> for the status: it is not touched.\<close>

definition read_body :: "bool \<Rightarrow> 'r receiver \<Rightarrow> request \<Rightarrow> 'r \<Rightarrow> stream
    \<Rightarrow> bool \<times> int option \<times> request \<times> 'r \<times> stream" where
  "read_body decompress out req rs s =
     (let hs = req_headers req; encoding = get_header_value hs ''Content-Encoding'' [] in
      if decompress \<and> encoding \<noteq> [] \<and> is_known_content_encoding encoding then (False, Some 415, req, rs, s)
      else case (
        if is_chunked_transfer_encoding hs
        then (case read_content_chunked PAYLOAD_MAX_LENGTH out req rs s of (result, trailers, rs', s') \<Rightarrow>
          (result, req\<lparr>req_trailers := trailers\<rparr>, rs', s'))
        else if \<not> has_header hs ''Content-Length''
        then (case read_content_without_length PAYLOAD_MAX_LENGTH out rs s of (result, rs', s') \<Rightarrow> (result, req, rs', s'))
        else (case get_header_value_u64 hs ''Content-Length'' SIZE_MAX of (len, is_invalid_value) \<Rightarrow>
          if is_invalid_value then (ReadError, req, rs, s)
          else if 0 < len
          then (case read_content_with_length PAYLOAD_MAX_LENGTH out len rs s of (result, rs', s') \<Rightarrow> (result, req, rs', s'))
          else (Success, req, rs, s)))
      of (result, req', rs', s') \<Rightarrow>
        (result = Success,
         (if result = Success then None else Some (if result = PayloadTooLarge then 413 else 400)), req', rs', s'))"

section \<open>The server's reader\<close>

definition read_content_core :: "request \<Rightarrow> received \<Rightarrow> stream \<Rightarrow> bool \<times> int option \<times> request \<times> received \<times> stream" where
  "read_content_core req ct s =
     (let hs = req_headers req; multipart = is_multipart_form_data req;
          boundary' = parse_multipart_boundary (get_header_value hs ''Content-Type'' []) in
      if multipart \<and> boundary' = None then (False, Some 400, req, ct, s)
      else let
          ct = (if multipart then ct\<lparr>ct_parser := new_form_parser (the boundary')\<rparr> else ct);
          out = (if multipart then receive_form else receive_regular) in
        if \<not> has_header hs ''Content-Length'' \<and> \<not> is_chunked_transfer_encoding hs
        then
          (if \<not> is_connection_persistent req
           then (case (if read_buff s \<noteq> [] then (True, s) else select_read_now s) of (has_data, s') \<Rightarrow>
             if has_data then read_body True out req ct s' else (True, None, req, ct, s'))
           else (True, None, req, ct, s))
        else (case read_body True out req ct s of (ok, st, req', ct', s') \<Rightarrow>
          if \<not> ok then (False, st, req', ct', s')
          else let req'' = req'\<lparr>body_consumed := True\<rparr> in
            if multipart \<and> \<not> fp_valid (ct_parser ct') then (False, Some 400, req'', ct', s')
            else (True, st, req'', ct', s')))"

definition new_content :: "request \<Rightarrow> received" where
  "new_content req = \<lparr>ct_body = req_body req, ct_form = form req, ct_count = 0, ct_parser = new_form_parser []\<rparr>"

definition read_content :: "request \<Rightarrow> stream \<Rightarrow> bool \<times> int option \<times> request \<times> stream" where
  "read_content req s =
     (case read_content_core req (new_content req) s of (ok, st, req', ct, s') \<Rightarrow>
        let req' = req'\<lparr>req_body := ct_body ct, form := ct_form ct\<rparr> in
        if \<not> ok then (False, st, req', s')
        else if fst (extract_media_type (get_header_value (req_headers req') ''Content-Type'' []))
            = ''application/x-www-form-urlencoded''
        then (if FORM_URL_ENCODED_PAYLOAD_MAX_LENGTH < length (req_body req') then (False, Some 413, req', s')
              else (True, st, req'\<lparr>req_params := parse_query_text (req_body req') (req_params req')\<rparr>, s'))
        else (True, st, req', s'))"

end
