(* ===== verification/HttpMatch.thy ===== *)
theory HttpMatch
  imports HttpForm
begin

text \<open>
  \<^verbatim>\<open>external/httplib.h\<close>: how a route's pattern is compiled and matched against the path of a request
  (\<^verbatim>\<open>PathParamsMatcher\<close>, \<^verbatim>\<open>Server::make_matcher\<close>). A pattern with a regular expression is matched by
  the standard library's engine, a parameter here, taken to answer yes or no; that it may throw is left out, as no
  pattern of the program is a regular expression.
\<close>

section \<open>Compiling a pattern\<close>

datatype matcher = Path_Params (pattern: string) (static_fragments: "string list") (param_names: "string list")
  | Regex (pattern: string)

definition find_from :: "string \<Rightarrow> string \<Rightarrow> nat \<Rightarrow> nat option" where
  "find_from s b k = map_option (\<lambda>n. k + n) (find_sub s (drop k b))"

lemma find_from_bounds: "find_from s b k = Some n \<Longrightarrow> k \<le> n \<and> n < length b"
  by (auto simp: find_from_def dest!: find_sub_less)

definition next_separator :: "string \<Rightarrow> nat \<Rightarrow> nat" where
  "next_separator b k = (case find_from ''/'' b k of Some n \<Rightarrow> n | None \<Rightarrow> length b)"

function compile_loop :: "string \<Rightarrow> nat \<Rightarrow> string list \<Rightarrow> string list \<Rightarrow> (string list \<times> string list) outcome" where
  "compile_loop pat last_param_end fragments names =
     (case find_from ''/:'' pat (if last_param_end = 0 then last_param_end else last_param_end - 1) of
        None \<Rightarrow> Ok (if last_param_end < length pat then fragments @ [drop last_param_end pat] else fragments, names)
      | Some marker_pos \<Rightarrow>
          let fragment = slice last_param_end (marker_pos + 1 - last_param_end) pat;
              param_name_start = marker_pos + 2;
              sep_pos = next_separator pat param_name_start;
              param_name = slice param_name_start (sep_pos - param_name_start) pat in
          if param_name \<in> set names then Throw Other_Exception
          else compile_loop pat (sep_pos + 1) (fragments @ [fragment]) (names @ [param_name]))"
  by pat_completeness auto
termination
proof (relation "measure (\<lambda>(pat, last, fs, ns). length pat + 2 - last)", goal_cases)
  case (2 pat last fs ns m fragment start sep name)
  then show ?case
    by (auto simp: next_separator_def split: option.split if_splits dest!: find_from_bounds)
qed simp

declare compile_loop.simps [simp del]

definition PathParamsMatcher :: "string \<Rightarrow> matcher outcome" where
  "PathParamsMatcher pat = obind (compile_loop pat 0 [] []) (\<lambda>(fragments, names). Ok (Path_Params pat fragments names))"

definition make_matcher :: "string \<Rightarrow> matcher outcome" where
  "make_matcher pat =
     (if find_sub ''/:'' pat \<noteq> None then PathParamsMatcher pat
      else if \<not> list_ex (\<lambda>c. c \<in> set (''.^$|()[]{}*+?'' @ [CHR 0x5C])) pat then PathParamsMatcher pat
      else Ok (Regex pat))"

section \<open>Matching\<close>

definition strncmp_equal :: "string \<Rightarrow> string \<Rightarrow> nat \<Rightarrow> bool" where
  "strncmp_equal a b n \<longleftrightarrow> takeWhile (\<lambda>c. c \<noteq> NUL) (take n a) = takeWhile (\<lambda>c. c \<noteq> NUL) (take n b)"

fun match_loop :: "string \<Rightarrow> string list \<Rightarrow> string list \<Rightarrow> nat \<Rightarrow> (string \<times> string) list \<Rightarrow> bool \<times> (string \<times> string) list" where
  "match_loop path [] names starting_pos params = (length path \<le> starting_pos, params)"
| "match_loop path (fragment # fragments) names starting_pos params =
     (if length path < starting_pos + length fragment then (False, params)
      else if \<not> strncmp_equal (drop starting_pos path) fragment (length fragment) then (False, params)
      else
        let starting_pos = starting_pos + length fragment in
        (case names of
           [] \<Rightarrow> match_loop path fragments [] starting_pos params
         | param_name # names' \<Rightarrow>
             let sep_pos = next_separator path starting_pos;
                 val = slice starting_pos (sep_pos - starting_pos) path in
             match_loop path fragments names' (sep_pos + 1)
               (if map_of params param_name = None then params @ [(param_name, val)] else params)))"

definition REGEX_ROUTE_PATH_MAX_LENGTH :: nat where "REGEX_ROUTE_PATH_MAX_LENGTH = 256"

fun match :: "(string \<Rightarrow> string \<Rightarrow> bool) \<Rightarrow> matcher \<Rightarrow> request \<Rightarrow> bool \<times> request" where
  "match regex_match (Path_Params pat fragments names) req =
     (if names = [] then (req_path req = pat, req\<lparr>path_params := []\<rparr>)
      else (case match_loop (req_path req) fragments names 0 [] of (ok, params) \<Rightarrow> (ok, req\<lparr>path_params := params\<rparr>)))"
| "match regex_match (Regex pat) req =
     (if REGEX_ROUTE_PATH_MAX_LENGTH < length (req_path req) then (False, req\<lparr>path_params := []\<rparr>)
      else (regex_match pat (req_path req), req\<lparr>path_params := []\<rparr>))"

end
