(* ===== verification/HttpServer.thy ===== *)
theory HttpServer
  imports HttpBody HttpMatch HttpResponse
begin

text \<open>
  \<^verbatim>\<open>external/httplib.h\<close>, class \<^verbatim>\<open>Server\<close>: routing, the processing of one request, and the loop over
  the requests of a connection. The server of this program has handlers for methods and paths only:
  no pre-routing, pre-request, post-routing, error, exception, content-reader, file or WebSocket
  handler, no trusted proxy, default header or logger is ever set, so the branches that ask for one
  are not taken. The addresses of the two ends are not modelled: nothing reads them. What a handler
  does is a parameter: it changes the response and the state of the program, and may throw.
\<close>

section \<open>Handlers\<close>

type_synonym 's handler = "request \<Rightarrow> Response \<Rightarrow> 's \<Rightarrow> unit outcome \<times> Response \<times> 's"
type_synonym 's handlers = "(matcher \<times> 's handler) list"

record 's http_server =
  get_handlers :: "'s handlers"
  post_handlers :: "'s handlers"
  put_handlers :: "'s handlers"
  patch_handlers :: "'s handlers"
  delete_handlers :: "'s handlers"
  options_handlers :: "'s handlers"

definition new_http_server :: "'s http_server" where
  "new_http_server = \<lparr>get_handlers = [], post_handlers = [], put_handlers = [], patch_handlers = [],
     delete_handlers = [], options_handlers = []\<rparr>"

definition add_handler :: "'s handlers \<Rightarrow> string \<Rightarrow> 's handler \<Rightarrow> 's handlers outcome" where
  "add_handler handlers pat handler = obind (make_matcher pat) (\<lambda>m. Ok (handlers @ [(m, handler)]))"

definition Get :: "string \<Rightarrow> 's handler \<Rightarrow> 's http_server \<Rightarrow> 's http_server outcome" where
  "Get pat handler svr = obind (add_handler (get_handlers svr) pat handler) (\<lambda>hs. Ok (svr\<lparr>get_handlers := hs\<rparr>))"

definition Post :: "string \<Rightarrow> 's handler \<Rightarrow> 's http_server \<Rightarrow> 's http_server outcome" where
  "Post pat handler svr = obind (add_handler (post_handlers svr) pat handler) (\<lambda>hs. Ok (svr\<lparr>post_handlers := hs\<rparr>))"

section \<open>Routing\<close>

definition set_status :: "int option \<Rightarrow> Response \<Rightarrow> Response" where
  "set_status st res = (case st of None \<Rightarrow> res | Some v \<Rightarrow> res\<lparr>rsp_status := v\<rparr>)"

text \<open>The result \<^verbatim>\<open>true\<close>, \<^verbatim>\<open>false\<close> or an exception, with what has been changed by then.\<close>

type_synonym 's routed = "bool outcome \<times> request \<times> Response \<times> 's \<times> stream"

definition run_handler :: "'s handler \<Rightarrow> request \<Rightarrow> Response \<Rightarrow> 's \<Rightarrow> stream \<Rightarrow> 's routed" where
  "run_handler handler req res st strm =
     (case handler req res st of (r, res', st') \<Rightarrow> (obind r (\<lambda>_. Ok True), req, res', st', strm))"

fun dispatch_request ::
  "(string \<Rightarrow> string \<Rightarrow> bool) \<Rightarrow> 's handlers \<Rightarrow> request \<Rightarrow> Response \<Rightarrow> 's \<Rightarrow> stream \<Rightarrow> 's routed" where
  "dispatch_request regex_match [] req res st strm = (Ok False, req, res, st, strm)"
| "dispatch_request regex_match ((m, handler) # handlers) req res st strm =
     (case match regex_match m req of (matched, req) \<Rightarrow>
        if \<not> matched then dispatch_request regex_match handlers req res st strm
        else let req = req\<lparr>matched_route := pattern m\<rparr> in
          if expect_content req
          then (case read_content req strm of (ok, code, req, strm) \<Rightarrow>
            let res = set_status code res in
            if \<not> ok then (Ok False, req, res, st, strm) else run_handler handler req res st strm)
          else run_handler handler req res st strm)"

definition routing ::
  "(string \<Rightarrow> string \<Rightarrow> bool) \<Rightarrow> 's http_server \<Rightarrow> request \<Rightarrow> Response \<Rightarrow> 's \<Rightarrow> stream \<Rightarrow> 's routed" where
  "routing regex_match svr req res st strm =
     (if req_method req = ''GET'' \<or> req_method req = ''HEAD''
      then dispatch_request regex_match (get_handlers svr) req res st strm
      else if req_method req = ''POST'' then dispatch_request regex_match (post_handlers svr) req res st strm
      else if req_method req = ''PUT'' then dispatch_request regex_match (put_handlers svr) req res st strm
      else if req_method req = ''DELETE'' then dispatch_request regex_match (delete_handlers svr) req res st strm
      else if req_method req = ''OPTIONS'' then dispatch_request regex_match (options_handlers svr) req res st strm
      else if req_method req = ''PATCH'' then dispatch_request regex_match (patch_handlers svr) req res st strm
      else (Ok False, req, res\<lparr>rsp_status := 400\<rparr>, st, strm))"

section \<open>One request\<close>

definition REQUEST_URI_MAX_LENGTH :: nat where "REQUEST_URI_MAX_LENGTH = 8192"

text \<open>The checks between the header block and routing: \<open>Inl\<close> is the status of a refusal; with it and
  with the request that passes comes \<^verbatim>\<open>connection_closed\<close>.\<close>

definition check_request :: "request \<Rightarrow> (int \<times> bool \<times> request) + (bool \<times> request)" where
  "check_request req =
     (let hs = req_headers req in
      if has_header hs ''Transfer-Encoding'' \<and>
         (0 < fst (get_header_value_u64 hs ''Content-Length'' 0) \<or> \<not> is_chunked_transfer_encoding hs)
      then Inl (400, True, req)
      else if REQUEST_URI_MAX_LENGTH < length (req_target req) then Inl (414, True, req)
      else
        let connection = get_header_value hs ''Connection'' [];
            closed = (connection = ''close'' \<or> req_version req = ''HTTP/1.0'' \<and> connection \<noteq> ''Keep-Alive'');
            accept = (if has_header hs ''Accept'' then parse_accept_header (get_header_value hs ''Accept'' []) else Some []) in
        case accept of
          None \<Rightarrow> Inl (400, True, req)
        | Some types \<Rightarrow>
            let req = req\<lparr>accept_content_types := types\<rparr>;
                (ok, rs) = (if has_header hs ''Range''
                  then parse_range_header (get_header_value hs ''Range'' []) (ranges req) else (True, ranges req));
                req = req\<lparr>ranges := rs\<rparr> in
            if \<not> ok then Inl (416, True, req) else Inr (closed, req))"

definition refuse :: "string \<Rightarrow> bool \<Rightarrow> request \<Rightarrow> int \<Rightarrow> stream \<Rightarrow> bool outcome \<times> stream" where
  "refuse boundary close_connection req code strm =
     (case write_response boundary close_connection req (new_response\<lparr>rsp_status := code\<rparr>) strm of
        (ok, req', res, strm') \<Rightarrow> (Ok ok, strm'))"

definition expect_continue :: "request \<Rightarrow> stream \<Rightarrow> stream" where
  "expect_continue req strm =
     (if get_header_value (req_headers req) ''Expect'' [] = ''100-continue''
      then snd (stream_write [cr, lf] (snd (stream_write (write_response_line 100) strm)))
      else strm)"

text \<open>What follows routing: the response is completed and written.\<close>

definition write_routed :: "string \<Rightarrow> bool \<Rightarrow> bool \<Rightarrow> request \<Rightarrow> Response \<Rightarrow> stream \<Rightarrow> bool \<times> request \<times> Response \<times> stream" where
  "write_routed boundary close_connection routed req res strm =
     (if routed then
        let res = (if rsp_status res = -1 then res\<lparr>rsp_status := (if ranges req = [] then 200 else 206)\<rparr> else res) in
        (case range_error req res of (bad, req) \<Rightarrow>
          if bad
          then write_response boundary close_connection req
            (res\<lparr>rsp_body := [], rsp_content_length := 0, rsp_status := 416\<rparr>) strm
          else (case write_response_core boundary close_connection req res True strm of
            (ok, res', strm') \<Rightarrow> (ok, req, res', strm')))
      else
        write_response boundary close_connection req
          (if rsp_status res = -1 then res\<lparr>rsp_status := 404\<rparr> else res) strm)"

text \<open>The body no handler has read is read and dropped, or the connection is given up.\<close>

definition drain_body :: "request \<Rightarrow> Response \<Rightarrow> bool \<Rightarrow> stream \<Rightarrow> bool \<times> stream" where
  "drain_body req res closed strm =
     (if \<not> body_consumed req \<and> has_framed_body req
      then if get_header_value (rsp_headers res) ''Connection'' [] = ''close'' then (True, strm)
        else (case read_body False (\<lambda>bs u. (True, u)) req () strm of
            (ok, code, req', u, strm') \<Rightarrow> (if ok then closed else True, strm'))
      else (closed, strm))"

definition process_routed ::
  "(string \<Rightarrow> string \<Rightarrow> bool) \<Rightarrow> string \<Rightarrow> 's http_server \<Rightarrow> bool \<Rightarrow> bool \<Rightarrow> request \<Rightarrow> 's \<Rightarrow> stream
     \<Rightarrow> bool outcome \<times> bool \<times> 's \<times> stream" where
  "process_routed regex_match boundary svr close_connection closed req st strm =
     (case routing regex_match svr req new_response st strm of (r, req, res, st', strm) \<Rightarrow>
        case (case r of Ok routed \<Rightarrow> Ok (routed, res)
            | Throw e \<Rightarrow> Ok (False, res\<lparr>rsp_status := 500\<rparr>)
            | Undef \<Rightarrow> Undef | Hang \<Rightarrow> Hang) of
          Ok (routed, res) \<Rightarrow>
            (case write_routed boundary close_connection routed req res strm of (ret, req, res, strm) \<Rightarrow>
              case drain_body req res closed strm of (closed, strm) \<Rightarrow> (Ok ret, closed, st', strm))
        | Throw e \<Rightarrow> (Throw e, closed, st', strm)
        | Undef \<Rightarrow> (Undef, closed, st', strm)
        | Hang \<Rightarrow> (Hang, closed, st', strm))"

definition process_request ::
  "(string \<Rightarrow> string \<Rightarrow> bool) \<Rightarrow> string \<Rightarrow> 's http_server \<Rightarrow> bool \<Rightarrow> 's \<Rightarrow> stream
     \<Rightarrow> bool outcome \<times> bool \<times> 's \<times> stream" where
  "process_request regex_match boundary svr close_connection st strm =
     (case stream_getline 2048 strm of (ok, r, strm) \<Rightarrow>
        if \<not> ok then (Ok False, False, st, strm)
        else (case parse_request_line (reader_text r) new_request of (ok, req) \<Rightarrow>
          if \<not> ok then (case refuse boundary close_connection req 400 strm of (ret, strm) \<Rightarrow> (ret, False, st, strm))
          else (case read_headers (req_headers req) strm of (ok, hs, strm) \<Rightarrow>
            let req = req\<lparr>req_headers := hs\<rparr> in
            if \<not> ok then (case refuse boundary close_connection req 400 strm of (ret, strm) \<Rightarrow> (ret, False, st, strm))
            else (case check_request req of
                Inl (code, closed, req) \<Rightarrow>
                  (case refuse boundary close_connection req code strm of (ret, strm) \<Rightarrow> (ret, closed, st, strm))
              | Inr (closed, req) \<Rightarrow>
                  process_routed regex_match boundary svr close_connection closed req st (expect_continue req strm)))))"

section \<open>The requests of a connection\<close>

text \<open>Each request is read through a stream of its own, with an empty buffer, on the same socket.\<close>

primrec process_server_socket ::
  "(string \<Rightarrow> string \<Rightarrow> bool) \<Rightarrow> string \<Rightarrow> 's http_server \<Rightarrow> nat \<Rightarrow> bool outcome \<Rightarrow> 's \<Rightarrow> stream \<Rightarrow> bool outcome \<times> 's \<times> stream" where
  "process_server_socket regex_match boundary svr 0 ret st strm = (ret, st, strm)"
| "process_server_socket regex_match boundary svr (Suc n) ret st strm =
     (case keep_alive strm of (ready, strm) \<Rightarrow>
        if \<not> ready then (ret, st, strm)
        else (case process_request regex_match boundary svr (n = 0) st (strm\<lparr>read_buff := []\<rparr>) of
          (ret', connection_closed, st', strm') \<Rightarrow>
            if ret' \<noteq> Ok True \<or> connection_closed then (ret', st', strm')
            else process_server_socket regex_match boundary svr n ret' st' strm'))"

definition process_and_close_socket ::
  "(string \<Rightarrow> string \<Rightarrow> bool) \<Rightarrow> string \<Rightarrow> 's http_server \<Rightarrow> 's \<Rightarrow> stream \<Rightarrow> bool outcome \<times> 's \<times> stream" where
  "process_and_close_socket regex_match boundary svr st strm =
     process_server_socket regex_match boundary svr KEEPALIVE_MAX_COUNT (Ok False) st strm"

end
