(* ===== verification/HttpReading.thy ===== *)
theory HttpReading
  imports HttpServer
begin

text \<open>
  What the HTTP server makes of a well-formed request head: how \<^verbatim>\<open>split\<close> cuts a line into words, how a
  header line is read back from its parts, and that the header block written by \<^verbatim>\<open>write_headers\<close> and a
  request line in front of it are read back as what they were made of, however the bytes arrive.
\<close>

section \<open>Splitting\<close>

definition strip :: "string \<Rightarrow> string" where
  "strip s = rev (dropWhile is_space_or_tab (rev (dropWhile is_space_or_tab s)))"

definition nonempty :: "string \<Rightarrow> string list" where
  "nonempty s = (if s = [] then [] else [s])"

lemma takeWhile_append_all: "(\<forall>x \<in> set xs. P x) \<Longrightarrow> takeWhile P (xs @ ys) = xs @ takeWhile P ys"
  by (induction xs) auto

lemma takeWhile_append_some: "\<not> (\<forall>x \<in> set xs. P x) \<Longrightarrow> takeWhile P (xs @ ys) = takeWhile P xs"
  by (induction xs) auto

lemma dropWhile_length: "dropWhile P xs = drop (length (takeWhile P xs)) xs"
  by (induction xs) auto

lemma strip_all: "(\<forall>x \<in> set m. is_space_or_tab x) \<Longrightarrow> strip m = []"
  by (simp add: strip_def dropWhile_eq_Nil_conv [THEN iffD2])

lemma piece_strip: "piece (p @ m @ q) (length p) (length p + length m) = nonempty (strip m)"
proof (cases "\<forall>x \<in> set m. is_space_or_tab x")
  case True
  have "takeWhile is_space_or_tab (rev m @ rev p) = rev m @ takeWhile is_space_or_tab (rev p)"
    using True by (intro takeWhile_append_all) simp
  with True show ?thesis
    by (simp add: piece_def trim_def takeWhile_append_all strip_all nonempty_def)
next
  case False
  then obtain a x r where m: "m = a @ x # r" and a: "\<forall>y \<in> set a. is_space_or_tab y" and x: "\<not> is_space_or_tab x"
    using split_list_first_prop [of m "\<lambda>y. \<not> is_space_or_tab y"] by auto
  obtain r' z b where r: "x # r = r' @ z # b" and b: "\<forall>y \<in> set b. is_space_or_tab y" and z: "\<not> is_space_or_tab z"
    using split_list_last_prop [of "x # r" "\<lambda>y. \<not> is_space_or_tab y"] x by (metis list.set_intros(1))
  have l: "takeWhile is_space_or_tab (m @ q) = a" using a x m by (simp add: takeWhile_append_all)
  have "takeWhile is_space_or_tab (rev m @ rev p) = rev b"
    using b z by (simp add: m r takeWhile_append_all)
  moreover have "strip m = r' @ [z]"
  proof -
    have "dropWhile is_space_or_tab m = x # r" using a x m by (simp add: dropWhile_append)
    then show ?thesis using b z by (simp add: strip_def r dropWhile_append)
  qed
  moreover have "length m = length a + length r' + 1 + length b" using m r by (metis length_append length_Cons add.commute add_Suc_right plus_1_eq_Suc add.assoc)
  moreover have "slice (length p + length a) (length r' + 1) (p @ m @ q) = r' @ [z]"
    using r by (simp add: slice_def m)
  ultimately show ?thesis using l by (simp add: piece_def trim_def nonempty_def)
qed

text \<open>\<open>split_spec d m q\<close>: the pieces of \<open>m @ q\<close>, where \<open>m\<close> is the part of the current piece already seen.\<close>

fun split_spec :: "char \<Rightarrow> string \<Rightarrow> string \<Rightarrow> string list" where
  "split_spec d m [] = nonempty (strip m)"
| "split_spec d m (c # q) = (if c = d then nonempty (strip m) @ split_spec d [] q else split_spec d (m @ [c]) q)"

lemma split_loop_spec: "split_loop d (p @ m @ q) (length p) (length p + length m) = split_spec d m q"
proof (induction d m q arbitrary: p rule: split_spec.induct)
  case (1 d m)
  show ?case
  proof (cases "p = [] \<and> m = []")
    case True
    then show ?thesis by (simp add: split_loop.simps strip_def nonempty_def)
  next
    case False
    then show ?thesis using piece_strip [of p m "[]"] by (auto simp: split_loop.simps)
  qed
next
  case (2 d m c q)
  have nth: "(p @ m @ c # q) ! (length p + length m) = c" by (simp add: nth_append)
  show ?case
  proof (cases "c = d")
    case True
    from 2(1) [OF True, of "p @ m @ [c]"] piece_strip [of p m "c # q"] True show ?thesis
      by (subst split_loop.simps) (simp add: nth)
  next
    case False
    from 2(2) [OF False, of p] False show ?thesis
      by (subst split_loop.simps) (simp add: nth)
  qed
qed

lemma split_as_spec: "split b d = split_spec d [] b"
  using split_loop_spec [of d "[]" "[]" b] by (simp add: split_def)

lemma split_spec_skip: "d \<notin> set w \<Longrightarrow> split_spec d m (w @ q) = split_spec d (m @ w) q"
  by (induction w arbitrary: m) auto

definition word :: "string \<Rightarrow> bool" where
  "word w \<longleftrightarrow> w \<noteq> [] \<and> (\<forall>c \<in> set w. \<not> is_space_or_tab c \<and> c \<notin> {NUL, cr, lf})"

lemma strip_word: "(\<forall>c \<in> set w. \<not> is_space_or_tab c) \<Longrightarrow> strip w = w"
proof -
  assume w: "\<forall>c \<in> set w. \<not> is_space_or_tab c"
  then have "dropWhile is_space_or_tab w = w" by (cases w) auto
  moreover have "dropWhile is_space_or_tab (rev w) = rev w" using w by (cases w rule: rev_cases) auto
  ultimately show ?thesis by (simp add: strip_def)
qed

lemma split_words:
  assumes "word a" "word b" "word c"
  shows "split (a @ '' '' @ b @ '' '' @ c) CHR '' '' = [a, b, c]"
proof -
  have no: "CHR '' '' \<notin> set w" if "word w" for w using that by (auto simp: word_def is_space_or_tab_def)
  have "nonempty (strip w) = [w]" if "word w" for w using that by (simp add: word_def strip_word nonempty_def)
  then show ?thesis
    using assms no split_spec_skip [of "CHR '' ''" c "[]" "[]"]
    by (simp add: split_as_spec split_spec_skip)
qed

section \<open>The request line\<close>

lemma word_NUL: "word w \<Longrightarrow> NUL \<notin> set w"
  by (auto simp: word_def)

lemma word_lf: "word w \<Longrightarrow> lf \<notin> set w"
  by (auto simp: word_def)

lemma known_method_word: "m \<in> set methods \<Longrightarrow> word m"
  by (auto simp: methods_def word_def is_space_or_tab_def NUL_def)

lemma version_word: "v = ''HTTP/1.1'' \<or> v = ''HTTP/1.0'' \<Longrightarrow> word v"
  by (auto simp: word_def is_space_or_tab_def NUL_def)

definition request_line :: "string \<Rightarrow> string \<Rightarrow> string \<Rightarrow> string" where
  "request_line m t v = (m @ '' '' @ t @ '' '' @ v) @ [cr, lf]"

text \<open>The request a request line stands for.\<close>

definition line_request :: "string \<Rightarrow> string \<Rightarrow> string \<Rightarrow> request" where
  "line_request m t v =
     (let target = takeWhile (\<lambda>c. c \<noteq> CHR ''#'') t in
      new_request\<lparr>req_method := m, req_target := target, req_version := v,
        req_path := decode_path_component (fst (divide target CHR ''?'')),
        req_params := parse_query_text (snd (divide target CHR ''?'')) []\<rparr>)"

lemma parse_request_line_exact:
  assumes "m \<in> set methods" and "word t" and "v = ''HTTP/1.1'' \<or> v = ''HTTP/1.0''"
  shows "parse_request_line (request_line m t v) new_request = (True, line_request m t v)"
proof -
  let ?w = "m @ '' '' @ t @ '' '' @ v"
  have words: "word m" "word t" "word v" using assms known_method_word version_word by auto
  then have "NUL \<notin> set (request_line m t v)"
    by (auto simp: request_line_def NUL_def dest!: word_NUL)
  then have whole: "takeWhile (\<lambda>c. c \<noteq> NUL) (request_line m t v) = ?w @ [cr, lf]"
    by (simp add: takeWhile_all request_line_def)
  have "split ?w CHR '' '' = [m, t, v]" by (rule split_words) (use words in auto)
  moreover have "(?w @ [cr, lf]) ! (length ?w + 2 - 2) = cr" "(?w @ [cr, lf]) ! (length ?w + 2 - 1) = lf"
    by (simp_all add: nth_append)
  moreover have "take (length ?w + 2 - 2) (?w @ [cr, lf]) = ?w" "length (?w @ [cr, lf]) = length ?w + 2" by simp_all
  ultimately show ?thesis
    using assms
    by (simp only: parse_request_line_def whole Let_def)
      (auto simp: assign_pieces_def line_request_def new_request_def Let_def split: prod.split)
qed

section \<open>Header lines\<close>

lemma field_vchar_plain: "is_field_vchar c \<Longrightarrow> \<not> is_space_or_tab c \<and> c \<notin> {NUL, cr, lf}"
  by (auto simp: is_field_vchar_def is_vchar_def is_obs_text_def is_space_or_tab_def NUL_def)

lemma token_char_plain: "is_token_char c \<Longrightarrow> \<not> is_space_or_tab c \<and> c \<notin> {NUL, cr, lf, CHR '':''}"
  by (auto simp: is_token_char_def is_alnum_def is_alpha_def is_digit_def is_space_or_tab_def NUL_def)

text \<open>A field value: visible at both ends, and visible or blank between.\<close>

lemma field_value_cases:
  assumes "is_field_value v"
  obtains (empty) "v = []"
  | (visible) "v \<noteq> []" "is_field_vchar (hd v)" "is_field_vchar (last v)" "\<forall>c \<in> set v. is_space_or_tab c \<or> is_field_vchar c"
proof (cases "v = []")
  case True
  then show ?thesis by (rule empty)
next
  case False
  note v = assms [unfolded is_field_value_def is_field_content_def]
  obtain c w where cw: "v = c # w" using False by (cases v) auto
  consider "v = [c]" | d where "v = [c, d]" | m d where "v = c # m @ [d]" "m \<noteq> []"
  proof (cases w rule: rev_cases)
    case Nil
    with cw that(1) show ?thesis by simp
  next
    case (snoc m d)
    with cw that(2,3) show ?thesis by (cases "m = []") auto
  qed
  then show ?thesis
  proof cases
    case (3 m d)
    then have "list_all (\<lambda>c. c = CHR '' '' \<or> c = CHR 0x09 \<or> is_field_vchar c) m" "is_field_vchar c" "is_field_vchar d"
      using v by (auto simp: slice_def nth_append split: if_splits)
    with 3 show ?thesis by (intro visible) (auto simp: list_all_iff is_space_or_tab_def)
  qed (use v in \<open>auto intro!: visible\<close>)
qed

lemma field_value_chars: "is_field_value v \<Longrightarrow> c \<in> set v \<Longrightarrow> c \<notin> {NUL, cr, lf}"
proof (erule field_value_cases)
  assume "\<forall>c \<in> set v. is_space_or_tab c \<or> is_field_vchar c" "c \<in> set v"
  then have "is_space_or_tab c \<or> is_field_vchar c" by blast
  then show ?thesis
  proof
    assume "is_field_vchar c"
    from field_vchar_plain [OF this] show ?thesis by blast
  qed (auto simp: is_space_or_tab_def NUL_def)
qed simp

lemma field_name_chars: "is_field_name n \<Longrightarrow> c \<in> set n \<Longrightarrow> is_token_char c"
  by (simp add: is_field_name_def is_token_def list_all_iff)

definition header_line :: "string \<times> string \<Rightarrow> string" where
  "header_line = (\<lambda>(name, val). name @ '': '' @ val)"

lemma parse_header_line:
  assumes "is_field_valid name val"
  shows "parse_header (header_line (name, val)) = Some (name, val)"
proof -
  have name: "is_field_name name" and val: "is_field_value val" using assms by (simp_all add: is_field_valid_def)
  have no_colon: "takeWhile (\<lambda>c. c \<noteq> CHR '':'') (name @ CHR '':'' # r) = name"
      "dropWhile (\<lambda>c. c \<noteq> CHR '':'') (name @ CHR '':'' # r) = CHR '':'' # r" for r
    using field_name_chars [OF name] token_char_plain by (auto simp: takeWhile_append_all dropWhile_append)
  from val show ?thesis
  proof (cases rule: field_value_cases)
    case empty
    have "rev (dropWhile is_space_or_tab (rev (name @ '': ''))) = name @ '':''"
      by (simp add: is_space_or_tab_def)
    with empty name show ?thesis
      by (simp add: parse_header_def header_line_def no_colon Let_def is_field_value_def is_field_content_def)
  next
    case visible
    then obtain w where w: "val = w @ [last val]" by (metis append_butlast_last_id)
    have "rev (dropWhile is_space_or_tab (rev (name @ '': '' @ val))) = name @ '': '' @ val"
      using visible field_vchar_plain [of "last val"] by (subst (1 2) w) simp
    moreover have "dropWhile is_space_or_tab ('' '' @ val) = val"
      using visible field_vchar_plain [of "hd val"] by (cases val) (auto simp: is_space_or_tab_def)
    ultimately show ?thesis using name val by (simp add: parse_header_def header_line_def no_colon Let_def)
  qed
qed

lemma header_line_chars: "is_field_valid name val \<Longrightarrow> c \<in> set (header_line (name, val)) \<Longrightarrow> c \<notin> {NUL, cr, lf}"
  using field_value_chars [of val c] field_name_chars [of name c] token_char_plain [of c]
  by (auto simp: is_field_valid_def header_line_def NUL_def)

section \<open>Reading a head from a stream\<close>

text \<open>\<open>reads s w s'\<close>: between the two states the bytes \<open>w\<close> were taken from the stream, and nothing was written.\<close>

definition reads :: "stream \<Rightarrow> string \<Rightarrow> stream \<Rightarrow> bool" where
  "reads s w s' \<longleftrightarrow> inbound s = w @ inbound s' \<and> at_end s' = at_end s \<and> same_output s s'"

lemma reads_trans: "reads s v s' \<Longrightarrow> reads s' w s'' \<Longrightarrow> reads s (v @ w) s''"
  by (simp add: reads_def same_output_def)

lemma reads_refl [simp]: "reads s [] s"
  by (simp add: reads_def same_output_def)

lemma crlf_end_line: "lf \<notin> set w \<Longrightarrow> crlf_end prev (w @ cr # lf # rest) = Some (length w + 2)"
proof -
  assume "lf \<notin> set w"
  then have "crlf_end p w = None" for p by (induction w arbitrary: p) auto
  then show ?thesis by (simp add: crlf_end_append)
qed

lemma getline_line:
  assumes "inbound s = w @ [cr, lf] @ rest" and "lf \<notin> set w" and "length w + 2 \<le> MAX_LINE_LENGTH"
  obtains r s' where "stream_getline sz s = (True, r, s')" "reader_text r = w @ [cr, lf]"
    "reads s (w @ [cr, lf]) s'" "inbound s' = rest"
proof -
  obtain ok r s' where run: "stream_getline sz s = (ok, r, s')" by (cases "stream_getline sz s") auto
  have "line_end NUL 0 (inbound s) (at_end s) = Some (length w + 2)"
    using assms by (simp add: line_end_def crlf_end_line)
  with getline_reads [of s sz] run assms(1) show ?thesis
    by (intro that) (auto simp: line_read_def reads_def)
qed

lemma end_with_crlf_line: "reader_text r = w @ [cr, lf] \<Longrightarrow> end_with_crlf r"
  by (simp add: end_with_crlf_def nth_append)

definition header_ok :: "string \<times> string \<Rightarrow> bool" where
  "header_ok h \<longleftrightarrow> is_field_valid (fst h) (snd h) \<and> length (header_line h) + 2 \<le> HEADER_MAX_LENGTH"

lemma write_headers_Cons:
  "header_ok h \<Longrightarrow> write_headers (h # hs) = header_line h @ [cr, lf] @ write_headers hs"
  by (cases h) (simp add: write_headers_def header_ok_def header_line_def)

lemma read_headers_loop_exact:
  assumes "inbound s = write_headers hs @ rest" and "list_all header_ok hs" and "n + length hs \<le> HEADER_MAX_COUNT"
  shows "\<exists>s'. read_headers_loop n h0 s = (content_lengths_agree (h0 @ hs), h0 @ hs, s')
    \<and> reads s (write_headers hs) s' \<and> inbound s' = rest"
  using assms
proof (induction hs arbitrary: n h0 s)
  case Nil
  then have "inbound s = [] @ [cr, lf] @ rest" by (simp add: write_headers_def)
  then obtain r s' where "stream_getline 2048 s = (True, r, s')" "reader_text r = [] @ [cr, lf]"
      "reads s ([] @ [cr, lf]) s'" "inbound s' = rest"
    by (rule getline_line) (simp_all add: MAX_LINE_LENGTH_def)
  then show ?case
    by (subst read_headers_loop.simps) (auto simp: Let_def end_with_crlf_line [of _ "[]"] write_headers_def)
next
  case (Cons h hs)
  obtain name val where h: "h = (name, val)" by (cases h)
  with Cons.prems have ok: "is_field_valid name val" "length (header_line h) + 2 \<le> HEADER_MAX_LENGTH" "header_ok h"
    by (simp_all add: header_ok_def)
  let ?w = "header_line h"
  have nolf: "lf \<notin> set ?w" using header_line_chars [OF ok(1), of lf] by (auto simp: h)
  have "inbound s = ?w @ [cr, lf] @ (write_headers hs @ rest)"
    using Cons.prems write_headers_Cons [OF ok(3)] by simp
  then obtain r s' where line: "stream_getline 2048 s = (True, r, s')" "reader_text r = ?w @ [cr, lf]"
      "reads s (?w @ [cr, lf]) s'" "inbound s' = write_headers hs @ rest"
    by (rule getline_line) (use nolf ok in \<open>auto simp: MAX_LINE_LENGTH_def HEADER_MAX_LENGTH_def\<close>)
  have "?w \<noteq> []" by (simp add: h header_line_def)
  with line ok Cons.prems have step: "read_headers_loop n h0 s = read_headers_loop (n + 1) (emplace h0 h) s'"
    by (subst read_headers_loop.simps)
      (auto simp: Let_def end_with_crlf_line parse_header_line h HEADER_MAX_COUNT_def)
  from Cons.IH [OF line(4), of "n + 1" "emplace h0 h"] Cons.prems obtain s'' where
    "read_headers_loop (n + 1) (emplace h0 h) s' = (content_lengths_agree (h0 @ h # hs), h0 @ h # hs, s'')"
    "reads s' (write_headers hs) s''" "inbound s'' = rest"
    by (auto simp: emplace_def)
  with step reads_trans [OF line(3)] write_headers_Cons [OF ok(3), of hs] show ?case by auto
qed

text \<open>A request that is well-formed on the wire: known method, a target without blanks, one of the two
  versions, and at most a hundred valid headers of bounded length that agree on the content length.\<close>

definition head_ok :: "string \<Rightarrow> string \<Rightarrow> string \<Rightarrow> headers \<Rightarrow> bool" where
  "head_ok m t v hs \<longleftrightarrow> m \<in> set methods \<and> word t \<and> length t \<le> REQUEST_URI_MAX_LENGTH
     \<and> (v = ''HTTP/1.1'' \<or> v = ''HTTP/1.0'')
     \<and> list_all header_ok hs \<and> length hs \<le> HEADER_MAX_COUNT \<and> content_lengths_agree hs"

definition head_bytes :: "string \<Rightarrow> string \<Rightarrow> string \<Rightarrow> headers \<Rightarrow> string" where
  "head_bytes m t v hs = request_line m t v @ write_headers hs"

lemma methods_short: "m \<in> set methods \<Longrightarrow> length m \<le> 7"
  by (auto simp: methods_def)

lemma read_one_line:
  assumes "head_ok m t v hs" and "inbound s = request_line m t v @ rest"
  obtains r s' where "stream_getline 2048 s = (True, r, s')" "reader_text r = request_line m t v"
    "reads s (request_line m t v) s'" "inbound s' = rest"
proof -
  let ?w = "m @ '' '' @ t @ '' '' @ v"
  have words: "word m" "word t" "word v"
    using assms(1) known_method_word version_word by (auto simp: head_ok_def)
  have bytes: "inbound s = ?w @ [cr, lf] @ rest"
    using assms(2) by (simp add: request_line_def)
  have "lf \<notin> set ?w" using word_lf [OF words(1)] word_lf [OF words(2)] word_lf [OF words(3)] by simp
  moreover have "length ?w + 2 \<le> MAX_LINE_LENGTH"
  proof -
    have "length m \<le> 7" "length t \<le> 8192" "length v = 8"
      using assms(1) methods_short by (auto simp: head_ok_def REQUEST_URI_MAX_LENGTH_def)
    then show ?thesis by (simp add: MAX_LINE_LENGTH_def)
  qed
  ultimately obtain r s' where "stream_getline 2048 s = (True, r, s')" "reader_text r = ?w @ [cr, lf]"
      "reads s (?w @ [cr, lf]) s'" "inbound s' = rest"
    by (rule getline_line [OF bytes])
  with that show ?thesis by (simp add: request_line_def)
qed

lemma read_request_line:
  assumes "head_ok m t v hs" and "inbound s = head_bytes m t v hs @ rest"
  obtains r s' where "stream_getline 2048 s = (True, r, s')" "reader_text r = request_line m t v"
    "reads s (request_line m t v) s'" "inbound s' = write_headers hs @ rest"
  using read_one_line [OF assms(1), of s "write_headers hs @ rest"] assms(2) by (auto simp: head_bytes_def)

lemma read_headers_exact:
  assumes "head_ok m t v hs" and "inbound s = write_headers hs @ rest"
  obtains s' where "read_headers [] s = (True, hs, s')" "reads s (write_headers hs) s'" "inbound s' = rest"
  using read_headers_loop_exact [of s hs rest 0 "[]"] assms by (auto simp: head_ok_def read_headers_def)

text \<open>The server's run on a well-formed head, up to the checks of the request.\<close>

definition head_request :: "string \<Rightarrow> string \<Rightarrow> string \<Rightarrow> headers \<Rightarrow> request" where
  "head_request m t v hs = (line_request m t v)\<lparr>req_headers := hs\<rparr>"

lemma process_head:
  assumes "head_ok m t v hs" and "inbound s = head_bytes m t v hs @ rest"
  obtains s' where "reads s (head_bytes m t v hs) s'" "inbound s' = rest"
    "process_request regex_match boundary svr close_connection st s
      = (case check_request (head_request m t v hs) of
           Inl (code, closed, req) \<Rightarrow>
             (case refuse boundary close_connection req code s' of (ret, s'') \<Rightarrow> (ret, closed, st, s''))
         | Inr (closed, req) \<Rightarrow>
             process_routed regex_match boundary svr close_connection closed req st (expect_continue req s'))"
proof -
  obtain r s1 where line: "stream_getline 2048 s = (True, r, s1)" "reader_text r = request_line m t v"
      "reads s (request_line m t v) s1" "inbound s1 = write_headers hs @ rest"
    by (rule read_request_line [OF assms])
  obtain s2 where hdr: "read_headers [] s1 = (True, hs, s2)" "reads s1 (write_headers hs) s2" "inbound s2 = rest"
    by (rule read_headers_exact [OF assms(1) line(4)])
  have "parse_request_line (request_line m t v) new_request = (True, line_request m t v)"
    using assms(1) by (intro parse_request_line_exact) (auto simp: head_ok_def)
  moreover have "req_headers (line_request m t v) = []" by (simp add: line_request_def new_request_def Let_def)
  ultimately show ?thesis
    using line hdr reads_trans [OF line(3) hdr(2)]
    by (intro that [of s2]) (simp_all add: process_request_def Let_def head_request_def head_bytes_def)
qed

section \<open>The head of a request\<close>

text \<open>C22: A well-formed request head, however its bytes are cut into arrivals, is read back as the request
  it spells: the reader's first line parses to its method, target, version, decoded path and query, the
  header block to exactly its headers in their order, and the stream is left at the byte after the head.\<close>

theorem http_head_roundtrip:
  assumes "head_ok m t v hs" and "inbound s = head_bytes m t v hs @ rest"
  shows "case stream_getline 2048 s of (ok, r, s1) \<Rightarrow> ok
    \<and> parse_request_line (reader_text r) new_request = (True, line_request m t v)
    \<and> (case read_headers [] s1 of (ok', hs', s2) \<Rightarrow> ok' \<and> hs' = hs \<and> inbound s2 = rest
        \<and> reads s (head_bytes m t v hs) s2)"
proof -
  obtain r s1 where line: "stream_getline 2048 s = (True, r, s1)" "reader_text r = request_line m t v"
      "reads s (request_line m t v) s1" "inbound s1 = write_headers hs @ rest"
    by (rule read_request_line [OF assms])
  obtain s2 where "read_headers [] s1 = (True, hs, s2)" "reads s1 (write_headers hs) s2" "inbound s2 = rest"
    by (rule read_headers_exact [OF assms(1) line(4)])
  moreover have "parse_request_line (request_line m t v) new_request = (True, line_request m t v)"
    using assms(1) by (intro parse_request_line_exact) (auto simp: head_ok_def)
  ultimately show ?thesis using line reads_trans by (auto simp: head_bytes_def)
qed

text \<open>A request for a status, cut in two between the characters of a header's name.\<close>

definition demo_headers :: headers where
  "demo_headers = [(''Host'', ''localhost:8080'')]"

definition demo_stream :: stream where
  "demo_stream = \<lparr>read_buff = [],
     arrivals = [Data CHR ''G'' (''ET /api/status/7?x=1 HTTP/1.1'' @ [cr, lf] @ ''Ho''), Pause,
       Data CHR ''s'' (''t: localhost:8080'' @ [cr, lf, cr, lf])],
     send_room = None, sent = []\<rparr>"

lemma demo_head_ok: "head_ok ''GET'' ''/api/status/7?x=1'' ''HTTP/1.1'' demo_headers"
  by (simp add: head_ok_def methods_def word_def is_space_or_tab_def NUL_def REQUEST_URI_MAX_LENGTH_def demo_headers_def
      header_ok_def is_field_valid_def is_field_name_def is_token_def is_token_char_def is_alnum_def is_alpha_def
      is_digit_def is_field_value_def is_field_content_def is_field_vchar_def is_vchar_def is_obs_text_def slice_def
      header_line_def HEADER_MAX_LENGTH_def HEADER_MAX_COUNT_def content_lengths_agree_def equal_range_def
      case_equal_def)

lemma demo_stream_head: "inbound demo_stream = head_bytes ''GET'' ''/api/status/7?x=1'' ''HTTP/1.1'' demo_headers @ []"
proof -
  have "write_headers demo_headers = header_line (''Host'', ''localhost:8080'') @ [cr, lf] @ write_headers []"
    using demo_head_ok write_headers_Cons by (simp add: head_ok_def demo_headers_def)
  then show ?thesis
    by (simp add: inbound_def demo_stream_def head_bytes_def request_line_def header_line_def write_headers_def)
qed

theorem http_head_roundtrip_witness:
  "case stream_getline 2048 demo_stream of (ok, r, s1) \<Rightarrow> ok
    \<and> parse_request_line (reader_text r) new_request = (True, line_request ''GET'' ''/api/status/7?x=1'' ''HTTP/1.1'')
    \<and> (case read_headers [] s1 of (ok', hs', s2) \<Rightarrow> ok' \<and> hs' = demo_headers \<and> inbound s2 = []
        \<and> reads demo_stream (head_bytes ''GET'' ''/api/status/7?x=1'' ''HTTP/1.1'' demo_headers) s2)"
  by (rule http_head_roundtrip [OF demo_head_ok demo_stream_head])

end
