(* ===== verification/HttpContent.thy ===== *)
theory HttpContent
  imports HttpReading
begin

text \<open>
  Bodies (\<^verbatim>\<open>external/httplib.h\<close>): what a receiver owes the readers of a body, as a locale with the
  receivers of the server as its interpretations, and what each reader then delivers: a body with a
  length and a body in chunks arrive whole, however the bytes are cut, and the stream is left at the
  byte after the body. The encoder for chunks uses the library's own \<^verbatim>\<open>from_i_to_hex\<close>.
\<close>

section \<open>Reading part of what is there\<close>

lemma prefix_of_part: "xs @ ys = body @ rest \<Longrightarrow> length xs \<le> length body \<Longrightarrow> \<exists>b. body = xs @ b \<and> ys = b @ rest"
  by (auto simp: append_eq_append_conv2)

lemma stream_read_part:
  assumes "0 < k" and "inbound s = body @ rest" and "k \<le> length body"
  obtains c cs body' s' where "stream_read k s = (Some (c # cs), s')" "body = (c # cs) @ body'" "reads s (c # cs) s'"
    "inbound s' = body' @ rest"
  using assms(1)
proof (cases rule: stream_read_cases [where s = s])
  case (bytes c cs s')
  then obtain body' where "body = (c # cs) @ body'" "inbound s' = body' @ rest"
    using prefix_of_part [of "c # cs" "inbound s'" body rest] assms by auto
  with bytes show ?thesis by (intro that [of c cs s' body']) (auto simp: reads_def same_output_def)
qed (use assms in auto)

section \<open>Chunks\<close>

definition hex_digit :: "nat \<Rightarrow> char" where
  "hex_digit n = ''0123456789abcdef'' ! n"

fun from_i_to_hex :: "nat \<Rightarrow> string" where
  "from_i_to_hex n = (if n div 16 = 0 then [hex_digit (n mod 16)] else from_i_to_hex (n div 16) @ [hex_digit (n mod 16)])"

declare from_i_to_hex.simps [simp del]

lemma hex_digit_facts:
  assumes "k < 16"
  shows "is_hex (hex_digit k) = Some k" "hex_digit k \<notin> {NUL, lf}"
proof -
  have "k \<in> {0, 1, 2, 3, 4, 5, 6, 7, 8, 9, 10, 11, 12, 13, 14, 15}" using assms by (simp, presburger)
  then show "is_hex (hex_digit k) = Some k" "hex_digit k \<notin> {NUL, lf}"
    by (auto simp: hex_digit_def is_hex_def is_digit_def NUL_def)
qed

lemma hex_digits_plain: "\<forall>c \<in> set (from_i_to_hex n). c \<notin> {NUL, lf}"
proof (induction n rule: from_i_to_hex.induct)
  case (1 n)
  then show ?case using hex_digit_facts(2) [of "n mod 16"] by (subst from_i_to_hex.simps) auto
qed

lemma chunk_digits_hex: "n \<le> SIZE_MAX \<Longrightarrow> chunk_digits (from_i_to_hex n @ rest) 0 = chunk_digits rest n"
proof (induction n arbitrary: rest rule: from_i_to_hex.induct)
  case (1 n)
  have d: "is_hex (hex_digit (n mod 16)) = Some (n mod 16)" by (rule hex_digit_facts) simp
  show ?case
  proof (cases "n div 16 = 0")
    case True
    then have "n mod 16 = n" by (simp add: div_eq_0_iff)
    with True d show ?thesis by (subst from_i_to_hex.simps) simp
  next
    case False
    have "n div 16 \<le> SIZE_MAX" "\<not> SIZE_MAX div 16 < n div 16" using 1(2) by (auto simp: not_less intro: div_le_mono)
    with 1(1) [OF False, of "hex_digit (n mod 16) # rest"] False d show ?thesis
      by (subst from_i_to_hex.simps) simp
  qed
qed

lemma hex_length: "n < 16 ^ Suc k \<Longrightarrow> length (from_i_to_hex n) \<le> Suc k"
proof (induction k arbitrary: n)
  case 0
  then show ?case by (subst from_i_to_hex.simps) simp
next
  case (Suc k)
  then have "n div 16 < 16 ^ Suc k" by (simp add: less_mult_imp_div_less mult.commute)
  with Suc.IH show ?case by (subst from_i_to_hex.simps) simp
qed

lemma chunk_size_hex:
  assumes "n \<le> SIZE_MAX"
  shows "chunk_size (from_i_to_hex n @ CRLF) = Some n" "length (from_i_to_hex n) \<le> 16"
proof -
  obtain d ds where hex: "from_i_to_hex n = d # ds" "is_hex d \<noteq> None"
  proof (induction n arbitrary: thesis rule: from_i_to_hex.induct)
    case (1 n)
    show ?case
    proof (cases "n div 16 = 0")
      case True
      with 1(2) [of "hex_digit (n mod 16)" "[]"] hex_digit_facts(1) [of "n mod 16"] show ?thesis
        by (simp add: from_i_to_hex.simps [of n])
    next
      case False
      from 1(1) [OF False] obtain d ds where "from_i_to_hex (n div 16) = d # ds" "is_hex d \<noteq> None" by auto
      with 1(2) [of d "ds @ [hex_digit (n mod 16)]"] False show ?thesis
        by (simp add: from_i_to_hex.simps [of n])
    qed
  qed
  have "chunk_digits CRLF n = Some (n, CRLF)" by (simp add: is_hex_def is_digit_def)
  with chunk_digits_hex [OF assms, of CRLF] hex show "chunk_size (from_i_to_hex n @ CRLF) = Some n"
    by (simp add: chunk_size_def is_space_or_tab_def)
  show "length (from_i_to_hex n) \<le> 16" using hex_length [of n 15] assms by (simp add: SIZE_MAX_def)
qed

definition chunk_bytes :: "string \<Rightarrow> string" where
  "chunk_bytes d = from_i_to_hex (length d) @ CRLF @ d @ CRLF"

definition chunked_bytes :: "string list \<Rightarrow> string" where
  "chunked_bytes ds = concat (map chunk_bytes ds) @ ''0'' @ CRLF @ CRLF"

definition chunk_ok :: "string \<Rightarrow> bool" where
  "chunk_ok d \<longleftrightarrow> d \<noteq> [] \<and> length d \<le> SIZE_MAX"

text \<open>What is left of a chunked body: the rest \<open>d\<close> of a chunk that was begun, and whole chunks.\<close>

definition chunks_left :: "string \<Rightarrow> string list \<Rightarrow> string" where
  "chunks_left d ds = (if d = [] then [] else d @ CRLF) @ chunked_bytes ds"

lemma getline_plain:
  assumes "inbound s = w @ CRLF @ rest" and "\<forall>c \<in> set w. c \<notin> {NUL, lf}" and "length w \<le> 16"
  obtains r s' where "stream_getline sz s = (True, r, s')" "c_text r = w @ CRLF" "reads s (w @ CRLF) s'" "inbound s' = rest"
proof -
  obtain r s' where line: "stream_getline sz s = (True, r, s')" "reader_text r = w @ CRLF" "reads s (w @ CRLF) s'" "inbound s' = rest"
    by (rule getline_line [OF assms(1)]) (use assms(2,3) in \<open>auto simp: MAX_LINE_LENGTH_def\<close>)
  have "NUL \<notin> set (w @ CRLF)" using assms(2) by (auto simp: NUL_def)
  with line show ?thesis by (intro that [of r s']) (simp_all add: c_text_def takeWhile_all)
qed

lemma chunk_data_part:
  assumes "inbound s = d @ CRLF @ rest" and "d \<noteq> []" and "chunk_remaining dec = length d" and "0 < len"
  obtains a as d' s' where "d = (a # as) @ d'" "chunk_data len dec s = (Some (a # as), dec\<lparr>chunk_remaining := length d'\<rparr>, s')"
    "reads s (a # as @ (if d' = [] then CRLF else [])) s'" "inbound s' = (if d' = [] then [] else d' @ CRLF) @ rest"
proof -
  have k: "0 < min (chunk_remaining dec) len" "min (chunk_remaining dec) len \<le> length d" using assms by auto
  obtain a as d' s1 where rd: "stream_read (min (chunk_remaining dec) len) s = (Some (a # as), s1)" "d = (a # as) @ d'"
      "reads s (a # as) s1" "inbound s1 = d' @ CRLF @ rest"
    by (rule stream_read_part [OF k(1) assms(1) k(2)])
  have rem: "chunk_remaining dec - length (a # as) = length d'" using assms(3) rd(2) by simp
  show ?thesis
  proof (cases "d' = []")
    case True
    have "inbound s1 = [] @ CRLF @ rest" using rd(4) True by simp
    then obtain r s' where line: "stream_getline 64 s1 = (True, r, s')" "c_text r = [] @ CRLF" "reads s1 ([] @ CRLF) s'" "inbound s' = rest"
      by (rule getline_plain) simp_all
    with rd True rem reads_trans [OF rd(3) line(3)] show ?thesis
      by (intro that [of a as d' s']) (simp_all add: chunk_data_def Let_def)
  next
    case False
    then have "\<not> chunk_remaining dec \<le> Suc (length as)" using rem by (cases d') auto
    with False rd rem show ?thesis by (intro that [of a as d' s1]) (simp_all add: chunk_data_def Let_def)
  qed
qed

lemma read_payload_part:
  assumes "inbound s = chunks_left d ds @ rest" and "d @ concat ds \<noteq> []" and "list_all chunk_ok ds"
    and "dec = \<lparr>chunk_remaining = length d, decoder_finished = False\<rparr>"
  obtains a as d' ds' s' w where
    "read_payload RECV_BUFSIZ dec s = (Some (a # as), \<lparr>chunk_remaining = length d', decoder_finished = False\<rparr>, s')"
    "d @ concat ds = (a # as) @ d' @ concat ds'" "chunks_left d ds = w @ chunks_left d' ds'" "reads s w s'"
    "inbound s' = chunks_left d' ds' @ rest" "list_all chunk_ok ds'"
proof -
  have len: "0 < RECV_BUFSIZ" by (simp add: RECV_BUFSIZ_def)
  show ?thesis
  proof (cases "d = []")
    case False
    have "inbound s = d @ CRLF @ (chunked_bytes ds @ rest)" using assms(1) False by (simp add: chunks_left_def)
    then obtain a as d' s' where part: "d = (a # as) @ d'"
        "chunk_data RECV_BUFSIZ dec s = (Some (a # as), dec\<lparr>chunk_remaining := length d'\<rparr>, s')"
        "reads s (a # as @ (if d' = [] then CRLF else [])) s'"
        "inbound s' = (if d' = [] then [] else d' @ CRLF) @ (chunked_bytes ds @ rest)"
      by (rule chunk_data_part [OF _ False _ len, where dec = dec]) (simp add: assms(4))
    show ?thesis
      by (rule that [of a as d' s' ds "a # as @ (if d' = [] then CRLF else [])"])
        (use part False assms(3,4) in \<open>auto simp: read_payload_def chunks_left_def\<close>)
  next
    case True
    with assms(2,3) obtain e es where ds: "ds = e # es" "e \<noteq> []" "length e \<le> SIZE_MAX" "list_all chunk_ok es"
      by (cases ds) (auto simp: chunk_ok_def)
    let ?h = "from_i_to_hex (length e)"
    have "inbound s = ?h @ CRLF @ (e @ CRLF @ chunked_bytes es @ rest)"
      using assms(1) True ds by (simp add: chunks_left_def chunked_bytes_def chunk_bytes_def)
    then obtain r s1 where line: "stream_getline 64 s = (True, r, s1)" "c_text r = ?h @ CRLF" "reads s (?h @ CRLF) s1"
        "inbound s1 = e @ CRLF @ (chunked_bytes es @ rest)"
      by (rule getline_plain) (use hex_digits_plain chunk_size_hex(2) [OF ds(3)] in auto)
    obtain a as d' s' where part: "e = (a # as) @ d'"
        "chunk_data RECV_BUFSIZ (dec\<lparr>chunk_remaining := length e\<rparr>) s1
          = (Some (a # as), dec\<lparr>chunk_remaining := length e\<rparr>\<lparr>chunk_remaining := length d'\<rparr>, s')"
        "reads s1 (a # as @ (if d' = [] then CRLF else [])) s'"
        "inbound s' = (if d' = [] then [] else d' @ CRLF) @ (chunked_bytes es @ rest)"
      by (rule chunk_data_part [OF line(4) ds(2) _ len, where dec = "dec\<lparr>chunk_remaining := length e\<rparr>"]) auto
    show ?thesis
    proof (rule that [of a as d' s' es "(?h @ CRLF) @ (a # as @ (if d' = [] then CRLF else []))"])
      show "read_payload RECV_BUFSIZ dec s = (Some (a # as), \<lparr>chunk_remaining = length d', decoder_finished = False\<rparr>, s')"
        using line part True ds chunk_size_hex(1) [OF ds(3)] assms(4) by (simp add: read_payload_def)
      show "reads s ((?h @ CRLF) @ (a # as @ (if d' = [] then CRLF else []))) s'"
        by (rule reads_trans [OF line(3) part(3)])
    qed (use part True ds in \<open>auto simp: chunks_left_def chunked_bytes_def chunk_bytes_def\<close>)
  qed
qed

section \<open>The contract of a receiver\<close>

text \<open>
  \<open>take_in rs bs\<close> is the state after the bytes \<open>bs\<close>; \<open>fits rs n\<close> says the receiver has room for \<open>n\<close> more.
\<close>

locale receiver =
  fixes out :: "'r receiver"
    and take_in :: "'r \<Rightarrow> string \<Rightarrow> 'r"
    and fits :: "'r \<Rightarrow> nat \<Rightarrow> bool"
  assumes accepts: "bs \<noteq> [] \<Longrightarrow> fits rs (length bs) \<Longrightarrow> out bs rs = (True, take_in rs bs)"
    and fits_less: "fits rs (k + n) \<Longrightarrow> fits rs k"
    and fits_rest: "fits rs (length bs + n) \<Longrightarrow> fits (take_in rs bs) n"
    and take_in_append: "take_in (take_in rs a) b = take_in rs (a @ b)"
    and take_in_Nil: "take_in rs [] = rs"
begin

lemma accepts_piece:
  assumes "fits rs (length a + n)" and "a \<noteq> []"
  shows "out a rs = (True, take_in rs a)" "fits (take_in rs a) n"
  using assms accepts fits_less fits_rest by blast+

subsection \<open>Bodies with a length\<close>

lemma with_length_exact:
  assumes "inbound s = body @ rest" and "len = r + length body" and "len \<le> m"
    and "content_length br = len" "bytes_read br = r" "br_eof br \<longrightarrow> body = []"
    and "fits rs (length body)"
  shows "\<exists>s'. with_length_loop m out len r br rs s = (Success, take_in rs body, s') \<and> reads s body s' \<and> inbound s' = rest"
  using assms
proof (induction "length body" arbitrary: body r br rs s rule: less_induct)
  case less
  note step = with_length_loop.simps [of m out len r br rs s]
  show ?case
  proof (cases "body = []")
    case True
    with less show ?thesis by (intro exI [of _ s]) (auto simp: with_length_loop.simps [of m out r r] take_in_Nil)
  next
    case False
    let ?k = "min (len - r) RECV_BUFSIZ"
    have k: "0 < ?k" "?k \<le> length body" using False less(3) by (auto simp: RECV_BUFSIZ_def)
    obtain c cs body' s1 where rd: "stream_read ?k s = (Some (c # cs), s1)" "body = (c # cs) @ body'"
        "reads s (c # cs) s1" "inbound s1 = body' @ rest"
      by (rule stream_read_part [OF k(1) less(2) k(2)])
    let ?r = "r + length (c # cs)"
    let ?br = "br\<lparr>bytes_read := ?r, br_eof := (len \<le> ?r)\<rparr>"
    have small: "r < len" "\<not> m < ?r" "(len \<le> ?r) = (body' = [])" using less(3,4) rd(2) by auto
    have body: "body_reader_read m ?k br s = (Some (c # cs), ?br, s1)"
      using less(5-7) False small rd(1) by (auto simp: body_reader_read_def Let_def)
    note acc = accepts_piece [of rs "c # cs" "length body'"]
    from less(8) rd(2) acc have out: "out (c # cs) rs = (True, take_in rs (c # cs))" "fits (take_in rs (c # cs)) (length body')"
      by auto
    have "\<exists>s'. with_length_loop m out len ?r ?br (take_in rs (c # cs)) s1 = (Success, take_in (take_in rs (c # cs)) body', s')
        \<and> reads s1 body' s' \<and> inbound s' = rest"
      by (rule less(1) [OF _ rd(4)]) (use less rd small out in auto)
    then show ?thesis
      using small(1) body out rd(2,3) reads_trans by (fastforce simp: step take_in_append)
  qed
qed

subsection \<open>Bodies in chunks\<close>

lemma trailers_done:
  assumes "inbound s = CRLF @ rest"
  obtains s' where "parse_trailers_into trailers hs s = (True, trailers, s')" "reads s CRLF s'" "inbound s' = rest"
proof -
  have "inbound s = [] @ CRLF @ rest" using assms by simp
  then obtain r s' where "stream_getline 64 s = (True, r, s')" "c_text r = [] @ CRLF" "reads s ([] @ CRLF) s'" "inbound s' = rest"
    by (rule getline_plain) simp_all
  then show ?thesis by (intro that [of s']) (simp_all add: parse_trailers_into_def parse_trailers_loop.simps Let_def)
qed

lemma chunked_exact:
  assumes "inbound s = chunks_left d ds @ rest" and "list_all chunk_ok ds"
    and "dec = \<lparr>chunk_remaining = length d, decoder_finished = False\<rparr>"
    and "read_len + length (d @ concat ds) \<le> m" and "fits rs (length (d @ concat ds))"
  shows "\<exists>s'. chunked_loop m out read_len hs trailers dec rs s = (Success, trailers, take_in rs (d @ concat ds), s')
    \<and> reads s (chunks_left d ds) s' \<and> inbound s' = rest"
  using assms
proof (induction "length (d @ concat ds)" arbitrary: d ds read_len dec rs s rule: less_induct)
  case less
  note step = chunked_loop.simps [of m out read_len hs trailers dec rs s]
  show ?case
  proof (cases "d @ concat ds = []")
    case True
    then have ds: "d = []" "ds = []" using less(3) by (cases ds; auto simp: chunk_ok_def)+
    have "inbound s = ''0'' @ CRLF @ (CRLF @ rest)" using less(2) ds by (simp add: chunks_left_def chunked_bytes_def)
    then obtain r s1 where line: "stream_getline 64 s = (True, r, s1)" "c_text r = ''0'' @ CRLF" "reads s (''0'' @ CRLF) s1"
        "inbound s1 = CRLF @ rest"
      by (rule getline_plain) (simp_all add: NUL_def)
    obtain s2 where tr: "parse_trailers_into trailers hs s1 = (True, trailers, s2)" "reads s1 CRLF s2" "inbound s2 = rest"
      by (rule trailers_done [OF line(4)])
    have "chunk_size (''0'' @ CRLF) = Some 0" by (simp add: chunk_size_def is_hex_def is_digit_def is_space_or_tab_def)
    then have "read_payload RECV_BUFSIZ dec s = (Some [], dec\<lparr>decoder_finished := True\<rparr>, s1)"
      using line less(4) ds by (simp add: read_payload_def)
    with tr reads_trans [OF line(3) tr(2)] ds show ?thesis
      by (simp add: step take_in_Nil chunks_left_def chunked_bytes_def)
  next
    case False
    obtain a as d' ds' s1 w where part:
      "read_payload RECV_BUFSIZ dec s = (Some (a # as), \<lparr>chunk_remaining = length d', decoder_finished = False\<rparr>, s1)"
      "d @ concat ds = (a # as) @ d' @ concat ds'" "chunks_left d ds = w @ chunks_left d' ds'" "reads s w s1"
      "inbound s1 = chunks_left d' ds' @ rest" "list_all chunk_ok ds'"
      by (rule read_payload_part [OF less(2) False less(3,4)])
    have fits: "fits rs (length (a # as) + length (d' @ concat ds'))" using less(6) part(2) by simp
    note acc = accepts_piece [OF fits, simplified]
    have "\<exists>s'. chunked_loop m out (read_len + length (a # as)) hs trailers \<lparr>chunk_remaining = length d', decoder_finished = False\<rparr>
          (take_in rs (a # as)) s1 = (Success, trailers, take_in (take_in rs (a # as)) (d' @ concat ds'), s')
        \<and> reads s1 (chunks_left d' ds') s' \<and> inbound s' = rest"
      by (rule less(1) [OF _ part(5,6) refl]) (use less(5) part(2) acc in auto)
    moreover have "\<not> (m < read_len \<or> m - read_len < length (a # as))" using less(5) part(2) by auto
    ultimately show ?thesis
      using part(1-4) acc reads_trans [OF part(4)] by (fastforce simp: step take_in_append)
  qed
qed

end

section \<open>The receivers of the server\<close>

definition absorb :: "received \<Rightarrow> string \<Rightarrow> received" where
  "absorb ct bs = ct\<lparr>ct_body := ct_body ct @ bs\<rparr>"

definition has_room :: "received \<Rightarrow> nat \<Rightarrow> bool" where
  "has_room ct n \<longleftrightarrow> length (ct_body ct) + n \<le> PAYLOAD_MAX_LENGTH"

interpretation regular: receiver receive_regular absorb has_room
proof
  fix bs :: string and rs :: received
  assume "bs \<noteq> []" "has_room rs (length bs)"
  moreover from this have "0 < length bs" by simp
  ultimately show "receive_regular bs rs = (True, absorb rs bs)"
    by (auto simp: receive_regular_def absorb_def has_room_def Let_def PAYLOAD_MAX_LENGTH_def string_max_size_def simp del: length_greater_0_conv)
qed (auto simp: has_room_def absorb_def)

text \<open>The receiver that drains a body nobody reads.\<close>

interpretation drain: receiver "\<lambda>bs u. (True, u)" "\<lambda>u bs. ()" "\<lambda>u n. True"
  by unfold_locales auto

section \<open>What a handler finds in the body\<close>

text \<open>None of the names the server looks up is one of the four prohibited ones.\<close>

lemma literal_names:
  "\<not> is_prohibited_header_name ''Content-Length''" "\<not> is_prohibited_header_name ''Transfer-Encoding''"
  "\<not> is_prohibited_header_name ''Accept''" "\<not> is_prohibited_header_name ''Range''"
  "\<not> is_prohibited_header_name ''Content-Type''" "\<not> is_prohibited_header_name ''Accept-Ranges''"
  by (simp_all add: is_prohibited_header_name_def str2tag_def char_byte_def)

lemma find_header_range: "find_header h key = (case equal_range h key of [] \<Rightarrow> None | v # _ \<Rightarrow> Some v)"
  by (induction h) (auto simp: find_header_def equal_range_def)

lemmas header_simps = has_header_def literal_names find_header_range

text \<open>A body the server takes as it comes: neither a form nor in a coding it would have to undo.\<close>

definition raw_body :: "headers \<Rightarrow> bool" where
  "raw_body hs \<longleftrightarrow>
     fst (extract_media_type (get_header_value hs ''Content-Type'' []))
       \<notin> {''multipart/form-data'', ''application/x-www-form-urlencoded''}
     \<and> \<not> is_known_content_encoding (get_header_value hs ''Content-Encoding'' [])"

lemma read_content_raw:
  assumes "raw_body (req_headers req)" and "req_body req = []"
    and "has_header (req_headers req) ''Content-Length'' \<or> is_chunked_transfer_encoding (req_headers req)"
    and "\<exists>s'. read_body True receive_regular req (new_content req) s
      = (True, None, req, absorb (new_content req) b, s') \<and> reads s b' s' \<and> inbound s' = rest"
  shows "\<exists>s'. read_content req s = (True, None, req\<lparr>req_body := b, body_consumed := True\<rparr>, s')
    \<and> reads s b' s' \<and> inbound s' = rest"
  using assms
  by (auto simp: read_content_def read_content_core_def Let_def raw_body_def is_multipart_form_data_def absorb_def
      new_content_def)

lemma room_for: "length b \<le> PAYLOAD_MAX_LENGTH \<Longrightarrow> req_body req = [] \<Longrightarrow> has_room (new_content req) (length b)"
  by (simp add: has_room_def new_content_def)

text \<open>\<open>frames hs b w\<close>: under the headers \<open>hs\<close> the bytes \<open>w\<close> on the wire stand for the body \<open>b\<close>.\<close>

inductive frames :: "headers \<Rightarrow> string \<Rightarrow> string \<Rightarrow> bool" where
  by_length: "equal_range hs ''Transfer-Encoding'' = [] \<Longrightarrow> equal_range hs ''Content-Length'' \<noteq> []
    \<Longrightarrow> get_header_value_u64 hs ''Content-Length'' SIZE_MAX = (length b, False) \<Longrightarrow> frames hs b b"
| by_chunks: "is_chunked_transfer_encoding hs \<Longrightarrow> list_all chunk_ok ds \<Longrightarrow> frames hs (concat ds) (chunked_bytes ds)"

lemma read_content_framed:
  assumes "frames (req_headers req) b w" and "raw_body (req_headers req)" and "req_body req = []"
    and "length b \<le> PAYLOAD_MAX_LENGTH" and "inbound s = w @ rest"
  shows "\<exists>s'. read_content req s = (True, None, req\<lparr>req_body := b, body_consumed := True\<rparr>, s')
    \<and> reads s w s' \<and> inbound s' = rest"
  using assms(1)
proof cases
  case by_length
  let ?br = "\<lparr>content_length = length b, bytes_read = 0, br_eof = False, exceeded = False\<rparr>"
  have "\<exists>s'. with_length_loop PAYLOAD_MAX_LENGTH receive_regular (length b) 0 ?br (new_content req) s
      = (Success, absorb (new_content req) b, s') \<and> reads s b s' \<and> inbound s' = rest"
    by (rule regular.with_length_exact) (use assms by_length room_for in auto)
  moreover have "\<not> is_chunked_transfer_encoding (req_headers req)"
    using by_length by (simp add: is_chunked_transfer_encoding_def)
  moreover have "has_header (req_headers req) ''Content-Length''"
    using by_length by (auto simp: header_simps split: list.split)
  moreover have "s = s' \<longrightarrow> reads s [] s'" for s' by simp
  ultimately have "\<exists>s'. read_body True receive_regular req (new_content req) s
      = (True, None, req, absorb (new_content req) b, s') \<and> reads s w s' \<and> inbound s' = rest"
    using by_length assms
    by (cases "b = []") (auto simp: read_body_def Let_def raw_body_def read_content_with_length_def absorb_def)
  with \<open>has_header (req_headers req) ''Content-Length''\<close> assms show ?thesis by (intro read_content_raw) auto
next
  case (by_chunks ds)
  have "\<exists>s'. chunked_loop PAYLOAD_MAX_LENGTH receive_regular 0 (req_headers req) (req_trailers req)
        \<lparr>chunk_remaining = 0, decoder_finished = False\<rparr> (new_content req) s
      = (Success, req_trailers req, absorb (new_content req) ([] @ concat ds), s')
      \<and> reads s (chunks_left [] ds) s' \<and> inbound s' = rest"
    by (rule regular.chunked_exact) (use assms by_chunks room_for in \<open>auto simp: chunks_left_def\<close>)
  then have "\<exists>s'. read_body True receive_regular req (new_content req) s
      = (True, None, req, absorb (new_content req) b, s') \<and> reads s w s' \<and> inbound s' = rest"
    using by_chunks assms
    by (auto simp: read_body_def Let_def raw_body_def read_content_chunked_def chunks_left_def)
  with by_chunks assms show ?thesis by (intro read_content_raw) auto
qed

text \<open>C23: A body sent with its length, or in chunks of any sizes, is put together again as it was: the
  server's reader hands the handler exactly its bytes, answers no error, and leaves the stream at the
  byte after the body, however the bytes are cut into arrivals (for bodies up to the payload limit that
  are not a form or in a content coding).\<close>

theorem http_body_roundtrip:
  assumes "frames (req_headers req) b w" and "raw_body (req_headers req)" and "req_body req = []"
    and "length b \<le> PAYLOAD_MAX_LENGTH" and "inbound s = w @ rest"
  shows "case read_content req s of (ok, code, req', s') \<Rightarrow> ok \<and> code = None
    \<and> req' = req\<lparr>req_body := b, body_consumed := True\<rparr> \<and> reads s w s' \<and> inbound s' = rest"
  using read_content_framed [OF assms] by auto

text \<open>The body \<open>abc\<close> in two chunks, under a header that spells the coding in capitals.\<close>

definition demo_chunked :: request where
  "demo_chunked = new_request\<lparr>req_headers := [(''transfer-encoding'', ''gzip , CHUNKED'')]\<rparr>"

definition demo_chunks :: stream where
  "demo_chunks = \<lparr>read_buff = ''2'', arrivals = [Data cr (lf # ''a''), Data CHR ''b'' ([cr, lf] @ ''1'' @ [cr, lf] @ ''c'' @ [cr]),
     Pause, Data lf (''0'' @ [cr, lf, cr, lf] @ ''GET'')], send_room = None, sent = []\<rparr>"

lemma demo_chunked_frames: "frames (req_headers demo_chunked) ''abc'' (chunked_bytes [''ab'', ''c''])"
proof -
  have "is_chunked_transfer_encoding (req_headers demo_chunked)"
    by (simp add: demo_chunked_def is_chunked_transfer_encoding_def equal_range_def case_equal_def to_lower_def split_as_spec
        strip_def is_space_or_tab_def nonempty_def char_of_def bit_0)
  from by_chunks [OF this, of "[''ab'', ''c'']"] show ?thesis by (simp add: chunk_ok_def SIZE_MAX_def)
qed

theorem http_body_roundtrip_witness:
  "case read_content demo_chunked demo_chunks of (ok, code, req', s') \<Rightarrow> ok \<and> code = None
    \<and> req' = demo_chunked\<lparr>req_body := ''abc'', body_consumed := True\<rparr>
    \<and> reads demo_chunks (chunked_bytes [''ab'', ''c'']) s' \<and> inbound s' = ''GET''"
proof (rule http_body_roundtrip [OF demo_chunked_frames])
  show "raw_body (req_headers demo_chunked)"
    by (simp add: raw_body_def demo_chunked_def get_header_value_def equal_range_def case_equal_def extract_media_type_def
        is_known_content_encoding_def contains_case_ignore_def lower_case_def trim_copy_def trim_def slice_def)
  show "inbound demo_chunks = chunked_bytes [''ab'', ''c''] @ ''GET''"
    by (simp add: inbound_def demo_chunks_def chunked_bytes_def chunk_bytes_def from_i_to_hex.simps hex_digit_def)
qed (simp_all add: demo_chunked_def new_request_def PAYLOAD_MAX_LENGTH_def)

end
