(* ===== verification/HttpRouting.thy ===== *)
theory HttpRouting
  imports HttpContent
begin

text \<open>
  Routes (\<^verbatim>\<open>external/httplib.h\<close>, \<^verbatim>\<open>PathParamsMatcher\<close>): which paths a pattern matches and what its
  parameters are then, for any pattern; the compiled matcher takes a path apart exactly where the
  pattern, with values in place of its parameters, would put it together.
\<close>

section \<open>Separators\<close>

lemma takeWhile_no_slash: "CHR ''/'' \<notin> set v \<Longrightarrow> takeWhile (\<lambda>c. c \<noteq> CHR ''/'') v = v"
  by (induction v) auto

lemma find_slash: "find_sub ''/'' b = (if CHR ''/'' \<in> set b then Some (length (takeWhile (\<lambda>c. c \<noteq> CHR ''/'') b)) else None)"
  by (induction b) auto

lemma next_separator_split:
  "next_separator (p @ q) (length p) = length p + length (takeWhile (\<lambda>c. c \<noteq> CHR ''/'') q)"
  by (auto simp: next_separator_def find_from_def find_slash takeWhile_no_slash)

lemma strncmp_prefix:
  assumes "NUL \<notin> set f" and "length f \<le> length q"
  shows "strncmp_equal q f (length f) \<longleftrightarrow> take (length f) q = f"
proof -
  have f: "takeWhile (\<lambda>c. c \<noteq> NUL) (take (length f) f) = f" using assms(1) by (simp add: takeWhile_all)
  show ?thesis
  proof
    assume "strncmp_equal q f (length f)"
    then have eq: "takeWhile (\<lambda>c. c \<noteq> NUL) (take (length f) q) = f" using f by (simp add: strncmp_equal_def)
    then have "length (takeWhile (\<lambda>c. c \<noteq> NUL) (take (length f) q)) = length (take (length f) q)" using assms(2) by simp
    then have "takeWhile (\<lambda>c. c \<noteq> NUL) (take (length f) q) = take (length f) q" by (metis take_all_iff takeWhile_eq_take order_refl)
    with eq show "take (length f) q = f" by simp
  qed (use f in \<open>simp add: strncmp_equal_def\<close>)
qed

section \<open>Putting a path together\<close>

fun assemble :: "string list \<Rightarrow> string list \<Rightarrow> string" where
  "assemble [] vs = []"
| "assemble (f # fs) [] = f @ assemble fs []"
| "assemble (f # fs) (v # vs) = f @ v @ (if fs = [] then [] else CHR ''/'' # assemble fs vs)"

definition no_slash :: "string \<Rightarrow> bool" where
  "no_slash v \<longleftrightarrow> CHR ''/'' \<notin> set v"

text \<open>A path with the values \<open>vs\<close>; one that ends in a parameter may end in a further separator.\<close>

definition route_path :: "string list \<Rightarrow> string list \<Rightarrow> string list \<Rightarrow> string \<Rightarrow> bool" where
  "route_path fragments names vs path \<longleftrightarrow> length vs = length names \<and> list_all no_slash vs
     \<and> (path = assemble fragments vs
        \<or> length fragments = length names \<and> fragments \<noteq> [] \<and> path = assemble fragments vs @ ''/'')"

definition balanced :: "string list \<Rightarrow> string list \<Rightarrow> bool" where
  "balanced fragments names \<longleftrightarrow> length names \<le> length fragments \<and> length fragments \<le> length names + 1
     \<and> distinct names \<and> list_all (\<lambda>f. NUL \<notin> set f) fragments"

lemma take_segment: "no_slash v \<Longrightarrow> takeWhile (\<lambda>c. c \<noteq> CHR ''/'') (v @ CHR ''/'' # q) = v"
  "no_slash v \<Longrightarrow> takeWhile (\<lambda>c. c \<noteq> CHR ''/'') v = v"
  by (auto simp: no_slash_def takeWhile_no_slash takeWhile_tail)

lemma segment_cases:
  obtains (last) "no_slash q" | (more) v q' where "q = v @ CHR ''/'' # q'" "no_slash v"
proof (cases "CHR ''/'' \<in> set q")
  case True
  then obtain v q' where "q = v @ CHR ''/'' # q'" "CHR ''/'' \<notin> set v" by (meson split_list_first)
  then show ?thesis by (intro more) (auto simp: no_slash_def)
qed (auto simp: no_slash_def intro: last)

lemma segment_unique:
  "v @ CHR ''/'' # q = v' @ CHR ''/'' # q' \<Longrightarrow> no_slash v \<Longrightarrow> no_slash v' \<Longrightarrow> v = v' \<and> q = q'"
  using take_segment(1) [of v q] take_segment(1) [of v' q'] by auto

lemma route_path_Cons:
  assumes "length ns \<le> length fs" and "length fs \<le> length ns + 1"
  shows "route_path (f # fs) (n # ns) vs (f @ q) \<longleftrightarrow> (\<exists>v vs'. vs = v # vs' \<and> no_slash v
    \<and> (fs = [] \<and> vs' = [] \<and> q = v \<or> (\<exists>q'. q = v @ CHR ''/'' # q' \<and> route_path fs ns vs' q')))"
proof (cases vs)
  case (Cons v vs')
  then show ?thesis using assms by (cases "fs = []") (auto simp: route_path_def)
qed (simp add: route_path_def)

declare match_loop.simps(2) [simp del]

lemma match_loop_exact:
  assumes "balanced fragments names" and "fst ` set params \<inter> set names = {}"
  shows "match_loop (p @ q) fragments names (length p) params = (ok, ps)
    \<Longrightarrow> ok \<longleftrightarrow> (\<exists>vs. route_path fragments names vs q)"
    and "route_path fragments names vs q
    \<Longrightarrow> match_loop (p @ q) fragments names (length p) params = (True, params @ zip names vs)"
proof -
  have "(fst (match_loop (p @ q) fragments names (length p) params) \<longrightarrow> (\<exists>vs. route_path fragments names vs q))
    \<and> (\<forall>vs. route_path fragments names vs q
      \<longrightarrow> match_loop (p @ q) fragments names (length p) params = (True, params @ zip names vs))"
    using assms
  proof (induction fragments arbitrary: names p q params)
    case Nil
    then show ?case by (auto simp: balanced_def route_path_def)
  next
    case (Cons f fs)
    have nul: "NUL \<notin> set f" using Cons.prems(1) by (simp add: balanced_def)
    show ?case
    proof (cases "take (length f) q = f")
      case False
      have "\<not> route_path (f # fs) names vs q" for vs
        using False by (cases vs) (auto simp: route_path_def)
      moreover have "\<not> fst (match_loop (p @ q) (f # fs) names (length p) params)"
        using False strncmp_prefix [OF nul, of q] by (simp add: match_loop.simps(2) not_less)
      ultimately show ?thesis by blast
    next
      case True
      then obtain q1 where q: "q = f @ q1" by (metis append_take_drop_id)
      have pre: "strncmp_equal (f @ q1) f (length f)" using strncmp_prefix [OF nul, of "f @ q1"] by simp
      show ?thesis
      proof (cases names)
        case Nil
        then have "fs = []" using Cons.prems(1) by (cases fs) (auto simp: balanced_def)
        with Nil q pre show ?thesis by (auto simp: match_loop.simps(2) route_path_def)
      next
        case names: (Cons n ns)
        have "length ns \<le> length fs" "length fs \<le> length ns + 1" using Cons.prems(1) names by (auto simp: balanced_def)
        note route = route_path_Cons [OF this, of f n _ q1]
        have fresh: "map_of params n = None" using Cons.prems(2) names by (auto simp: map_of_eq_None_iff)
        have bal: "balanced fs ns" using Cons.prems(1) names by (simp add: balanced_def)
        have sep: "next_separator (p @ f @ q1) (length p + length f)
            = length p + length f + length (takeWhile (\<lambda>c. c \<noteq> CHR ''/'') q1)"
          using next_separator_split [of "p @ f" q1] by simp
        show ?thesis
        proof (cases rule: segment_cases [where q = q1])
          case last
          then have run: "match_loop (p @ q) (f # fs) names (length p) params
              = match_loop (p @ q) fs ns (Suc (length (p @ q))) (params @ [(n, q1)])"
            using pre fresh by (simp add: match_loop.simps(2) q names sep take_segment slice_def add.assoc)
          have no: "\<not> (no_slash v \<and> (\<exists>q'. q1 = v @ CHR ''/'' # q' \<and> P q'))" for v P
            using last by (auto simp: no_slash_def)
          have found: "route_path (f # fs) (n # ns) vs (f @ q1) \<longleftrightarrow> fs = [] \<and> vs = [q1]" for vs
            using route [of vs] no last by blast
          show ?thesis
          proof (cases fs)
            case Nil
            then have "ns = []" using bal by (simp add: balanced_def)
            then have "match_loop (p @ q) (f # fs) names (length p) params = (True, params @ [(n, q1)])"
              using run Nil by simp
            with \<open>ns = []\<close> Nil found show ?thesis by (simp add: q names)
          next
            case (Cons g gs)
            have "match_loop (p @ q) (f # fs) names (length p) params = (False, params @ [(n, q1)])"
              unfolding run by (simp add: Cons match_loop.simps(2))
            with Cons found show ?thesis by (simp add: q names)
          qed
        next
          case (more v q')
          let ?p = "p @ f @ v @ ''/''"
          have sep': "next_separator (p @ f @ v @ CHR ''/'' # q') (length p + length f) = length p + length f + length v"
            using sep more by (simp add: take_segment)
          have run: "match_loop (p @ q) (f # fs) names (length p) params
              = match_loop (?p @ q') fs ns (length ?p) (params @ [(n, v)])"
            using pre fresh more by (simp add: match_loop.simps(2) q names sep' Let_def slice_def add.assoc)
          have "fst ` set (params @ [(n, v)]) \<inter> set ns = {}"
            using Cons.prems names by (auto simp: balanced_def)
          from Cons.IH [OF bal this, of ?p q'] have IH:
            "fst (match_loop (?p @ q') fs ns (length ?p) (params @ [(n, v)])) \<Longrightarrow> \<exists>vs. route_path fs ns vs q'"
            "\<And>vs. route_path fs ns vs q' \<Longrightarrow>
              match_loop (?p @ q') fs ns (length ?p) (params @ [(n, v)]) = (True, (params @ [(n, v)]) @ zip ns vs)"
            by blast+
          have found: "route_path (f # fs) names vs q \<longleftrightarrow> (\<exists>vs'. vs = v # vs' \<and> route_path fs ns vs' q')" for vs
          proof -
            have slash: "\<not> no_slash q1" using more by (simp add: no_slash_def)
            have uniq: "no_slash u \<Longrightarrow> q1 = u @ CHR ''/'' # r \<longleftrightarrow> u = v \<and> r = q'" for u r
              using segment_unique [of v q' u r] more(2) unfolding more(1) by fastforce
            show ?thesis
            proof (cases vs)
              case (Cons u us)
              show ?thesis
              proof (cases "no_slash u")
                case True
                with slash have "q1 \<noteq> u" by blast
                with True show ?thesis using uniq [OF True] by (simp add: q names route Cons)
              next
                case False
                with more(2) show ?thesis by (auto simp: q names route Cons)
              qed
            qed (simp add: q names route)
          qed
          show ?thesis unfolding run found
            using IH(1) by (auto simp: names simp del: length_append dest: IH(2))
        qed
      qed
    qed
  qed
  then show "match_loop (p @ q) fragments names (length p) params = (ok, ps)
    \<Longrightarrow> ok \<longleftrightarrow> (\<exists>vs. route_path fragments names vs q)"
    and "route_path fragments names vs q
    \<Longrightarrow> match_loop (p @ q) fragments names (length p) params = (True, params @ zip names vs)"
    by auto
qed

section \<open>What a pattern describes\<close>

text \<open>The paths a pattern describes, read off its text: \<^verbatim>\<open>/:name\<close> stands for a slash and a value without a slash, and
  every other character for itself; at the end of a pattern that ends in a parameter a slash may be there or not, in the
  pattern and in the path. Such a path gives the names of the pattern their values.\<close>

inductive describes :: "string \<Rightarrow> string \<Rightarrow> (string \<times> string) list \<Rightarrow> bool" where
  empty: "describes [] [] []"
| plain: "take 2 (c # pat) \<noteq> ''/:'' \<Longrightarrow> describes pat path bs \<Longrightarrow> describes (c # pat) (c # path) bs"
| param: "no_slash name \<Longrightarrow> no_slash v \<Longrightarrow> describes (CHR ''/'' # pat) path bs
    \<Longrightarrow> describes (''/:'' @ name @ CHR ''/'' # pat) (CHR ''/'' # v @ path) ((name, v) # bs)"
| last: "no_slash name \<Longrightarrow> no_slash v \<Longrightarrow> end \<in> {[], ''/''} \<Longrightarrow> end' \<in> {[], ''/''}
    \<Longrightarrow> describes (''/:'' @ name @ end) (CHR ''/'' # v @ end') [(name, v)]"

inductive_cases describes_NilE: "describes [] path bs"
inductive_cases describes_ConsE: "describes (c # pat) path bs"

lemma describes_slash: "describes (CHR ''/'' # pat) path bs \<Longrightarrow> \<exists>q. path = CHR ''/'' # q"
  by (erule describes_ConsE) auto

lemma describes_skip:
  "find_sub ''/:'' (u @ ''/:'' @ x) = Some (length u) \<Longrightarrow>
    describes (u @ ''/:'' @ x) path bs \<longleftrightarrow> (\<exists>q. path = u @ q \<and> describes (''/:'' @ x) q bs)"
proof (induction u arbitrary: path)
  case (Cons c u)
  have no: "take 2 (c # u @ ''/:'' @ x) \<noteq> ''/:''" using Cons.prems by (auto simp: numeral_2_eq_2 split: if_splits)
  then have "find_sub ''/:'' (u @ ''/:'' @ x) = Some (length u)" using Cons.prems by (auto simp: numeral_2_eq_2 split: if_splits)
  note IH = Cons.IH [OF this]
  have "describes (c # u @ ''/:'' @ x) path bs \<longleftrightarrow> (\<exists>path'. path = c # path' \<and> describes (u @ ''/:'' @ x) path' bs)"
  proof
    assume "describes (c # u @ ''/:'' @ x) path bs"
    then show "\<exists>path'. path = c # path' \<and> describes (u @ ''/:'' @ x) path' bs"
      by (cases rule: describes.cases) (use no in auto)
  qed (use no in \<open>auto intro: describes.plain\<close>)
  with IH show ?case by auto
qed simp

lemma describes_literal:
  "find_sub ''/:'' pat = None \<Longrightarrow> describes pat path bs \<longleftrightarrow> path = pat \<and> bs = []"
proof (induction pat arbitrary: path)
  case Nil
  show ?case by (auto intro: describes.empty elim: describes_NilE)
next
  case (Cons c pat)
  have no: "take 2 (c # pat) \<noteq> ''/:''" "find_sub ''/:'' pat = None"
    using Cons.prems by (auto simp: numeral_2_eq_2 split: if_splits)
  note IH = Cons.IH [OF no(2)]
  show ?case
  proof
    assume "describes (c # pat) path bs"
    then show "path = c # pat \<and> bs = []" by (cases rule: describes.cases) (use no IH in auto)
  next
    assume "path = c # pat \<and> bs = []"
    with describes.plain [OF no(1), of pat bs] IH [of pat] show "describes (c # pat) path bs" by simp
  qed
qed

lemma describes_param:
  assumes "no_slash name" and tail: "tail = [] \<or> (\<exists>r. tail = CHR ''/'' # r)"
  shows "describes (''/:'' @ name @ tail) path bs \<longleftrightarrow> (\<exists>v. no_slash v \<and>
     (tail \<in> {[], ''/''} \<and> (path = CHR ''/'' # v \<or> path = CHR ''/'' # v @ ''/'') \<and> bs = [(name, v)]
      \<or> (\<exists>q bs'. tail \<noteq> [] \<and> path = CHR ''/'' # v @ q \<and> bs = (name, v) # bs' \<and> describes tail q bs')))"
    (is "?l \<longleftrightarrow> ?r")
proof
  assume ?l
  then show ?r
  proof (cases rule: describes.cases)
    case (param name' v pat path' bs')
    from param(1) have "name @ tail = name' @ CHR ''/'' # pat" by simp
    moreover from this tail obtain r where "tail = CHR ''/'' # r" using assms(1) by (auto simp: no_slash_def)
    ultimately have "name = name'" "tail = CHR ''/'' # pat"
      using segment_unique [of name r name' pat] assms(1) param(4) by auto
    with param show ?thesis by auto
  next
    case (last name' v e e')
    have "name = name' \<and> tail = e"
    proof (cases "tail = []")
      case True
      with last assms(1) show ?thesis by (auto simp: no_slash_def)
    next
      case False
      with tail obtain r where "tail = CHR ''/'' # r" by auto
      with last assms(1) segment_unique [of name r name' "[]"] show ?thesis by (auto simp: no_slash_def)
    qed
    with last show ?thesis by auto
  qed auto
next
  assume ?r
  then show ?l
  proof (elim exE conjE disjE)
    fix v q bs'
    assume "tail \<noteq> []" "path = CHR ''/'' # v @ q" "bs = (name, v) # bs'" "describes tail q bs'" "no_slash v"
    moreover from this tail obtain r where "tail = CHR ''/'' # r" by auto
    ultimately show ?l using describes.param [OF assms(1), of v r q bs'] by simp
  qed (use assms(1) describes.last [of name _ tail "[]"] describes.last [of name _ tail "''/''"] in auto)
qed

text \<open>A parameter and what follows it, in the pattern and in the fragments.\<close>

lemma describes_step:
  assumes name: "no_slash name" and tail: "tail = [] \<or> tail = CHR ''/'' # r"
    and rest: "\<And>q bs. tail \<noteq> [] \<Longrightarrow> describes tail (CHR ''/'' # q) bs \<longleftrightarrow> (\<exists>vs. bs = zip ns vs \<and> route_path fs ns vs q)"
    and last: "fs = [] \<longleftrightarrow> tail \<in> {[], ''/''}" and len: "length ns \<le> length fs" "length fs \<le> length ns + 1"
  shows "describes (''/:'' @ name @ tail) (CHR ''/'' # q) bs
    \<longleftrightarrow> (\<exists>vs. bs = zip (name # ns) vs \<and> route_path (f # fs) (name # ns) vs (f @ q))"
proof -
  have more: "(\<exists>q' bs'. tail \<noteq> [] \<and> q = v @ q' \<and> bs = (name, v) # bs' \<and> describes tail q' bs')
      \<longleftrightarrow> tail \<noteq> [] \<and> (\<exists>q' vs'. q = v @ CHR ''/'' # q' \<and> bs = zip (name # ns) (v # vs') \<and> route_path fs ns vs' q')" for v
  proof -
    have "tail \<noteq> [] \<Longrightarrow> describes tail q' bs' \<Longrightarrow> \<exists>p. q' = CHR ''/'' # p" for q' bs' using tail describes_slash by blast
    then show ?thesis using rest by (safe; force)
  qed
  have none: "route_path [] [] vs' q' \<longleftrightarrow> vs' = [] \<and> q' = []" for vs' q' by (auto simp: route_path_def)
  have "tail = [] \<or> (\<exists>r. tail = CHR ''/'' # r)" using tail by blast
  from describes_param [OF name this, of "CHR ''/'' # q" bs] more
  have left: "describes (''/:'' @ name @ tail) (CHR ''/'' # q) bs \<longleftrightarrow> (\<exists>v. no_slash v \<and>
     (tail \<in> {[], ''/''} \<and> (q = v \<or> q = v @ ''/'') \<and> bs = [(name, v)]
      \<or> tail \<noteq> [] \<and> (\<exists>q' vs'. q = v @ CHR ''/'' # q' \<and> bs = zip (name # ns) (v # vs') \<and> route_path fs ns vs' q')))"
    by simp
  have right: "(\<exists>vs. bs = zip (name # ns) vs \<and> (\<exists>v vs'. vs = v # vs' \<and> P v vs'))
      \<longleftrightarrow> (\<exists>v vs'. bs = zip (name # ns) (v # vs') \<and> P v vs')" for P :: "string \<Rightarrow> string list \<Rightarrow> bool" by blast
  show ?thesis
  proof (cases "fs = []")
    case True
    with len last have "ns = []" "tail \<in> {[], ''/''}" by simp_all
    with True show ?thesis unfolding left route_path_Cons [OF len] right by (auto simp: none)
  next
    case False
    with last have "tail \<notin> {[], ''/''}" "tail \<noteq> []" by simp_all
    with False show ?thesis unfolding left route_path_Cons [OF len] right by auto
  qed
qed

section \<open>Compiling a pattern\<close>

lemma find_marker:
  assumes "find_from ''/:'' pat k = Some m"
  shows "m < length pat" "k \<le> m" "pat ! m = CHR ''/''" "drop (m + 1) pat = CHR '':'' # drop (m + 2) pat"
proof -
  have sub: "find_sub ''/:'' b = Some n \<Longrightarrow> b ! n = CHR ''/'' \<and> drop (Suc n) b = CHR '':'' # drop (Suc (Suc n)) b" for b n
  proof (induction b arbitrary: n)
    case (Cons c b)
    show ?case
    proof (cases "take (length ''/:'') (c # b) = ''/:''")
      case True
      with Cons.prems have "n = 0" by simp
      with True show ?thesis by (cases b) simp_all
    next
      case False
      then have "find_sub ''/:'' (c # b) = map_option Suc (find_sub ''/:'' b)" by (simp only: find_sub.simps if_False)
      then obtain n' where "n = Suc n'" "find_sub ''/:'' b = Some n'" using Cons.prems by (cases "find_sub ''/:'' b") simp_all
      with Cons.IH [of n'] show ?thesis by simp
    qed
  qed simp
  from assms obtain n where n: "find_sub ''/:'' (drop k pat) = Some n" "m = k + n" by (auto simp: find_from_def)
  from sub [OF n(1)] n find_from_bounds [OF assms]
  show "m < length pat" "k \<le> m" "pat ! m = CHR ''/''" "drop (m + 1) pat = CHR '':'' # drop (m + 2) pat"
    by (simp_all add: add.commute [of k])
qed

lemma drop_to_separator:
  assumes "k \<le> length pat"
  shows "drop k pat = slice k (next_separator pat k - k) pat @ (if next_separator pat k < length pat then CHR ''/'' # drop (next_separator pat k + 1) pat else [])
   \<and> no_slash (slice k (next_separator pat k - k) pat)"
proof -
  define p q where "p = take k pat" and "q = drop k pat"
  then have pq: "pat = p @ q" "length p = k" using assms by simp_all
  have sep: "next_separator pat k = k + length (takeWhile (\<lambda>c. c \<noteq> CHR ''/'') q)"
    using next_separator_split [of p q] pq by simp
  show ?thesis
  proof (cases rule: segment_cases [where q = q])
    case last
    with sep show ?thesis by (simp add: pq [symmetric] slice_def) (simp add: pq take_segment)
  next
    case (more v q')
    with sep show ?thesis by (simp add: pq [symmetric] slice_def) (simp add: pq take_segment)
  qed
qed

text \<open>The search for the next parameter starts at the slash the last one ended in.\<close>

definition search_start :: "nat \<Rightarrow> nat" where
  "search_start k = (if k = 0 then k else k - 1)"

definition last_slash :: "nat \<Rightarrow> string" where
  "last_slash k = (if k = 0 then [] else ''/'')"

lemma drop_search_start:
  assumes "k \<le> length pat" and "0 < k \<Longrightarrow> pat ! (k - 1) = CHR ''/''"
  shows "drop (search_start k) pat = last_slash k @ drop k pat"
proof (cases k)
  case (Suc n)
  with assms have "n < length pat" "pat ! n = CHR ''/''" by simp_all
  with Suc show ?thesis by (simp add: search_start_def last_slash_def Cons_nth_drop_Suc [symmetric])
qed (simp add: search_start_def last_slash_def)

text \<open>Where the next parameter begins, the fragment before it is what the pattern has there.\<close>

lemma next_fragment:
  assumes found: "find_from ''/:'' pat (search_start k) = Some m" and k: "k \<le> length pat"
    and slash: "0 < k \<Longrightarrow> pat ! (k - 1) = CHR ''/''"
  shows "describes (drop (search_start k) pat) (last_slash k @ q) bs
    \<longleftrightarrow> (\<exists>q'. q = slice k (m + 1 - k) pat @ q' \<and> describes (''/:'' @ drop (m + 2) pat) (CHR ''/'' # q') bs)"
proof -
  note mark = find_marker [OF found]
  let ?D = "drop (search_start k) pat" and ?u = "slice (search_start k) (m - search_start k) pat"
  have rest: "drop m pat = ''/:'' @ drop (m + 2) pat"
    using mark(1,3,4) by (metis Cons_nth_drop_Suc Suc_eq_plus1 append_Cons append_Nil)
  have "?D = ?u @ drop m pat"
    using mark(2) by (metis slice_def append_take_drop_id drop_drop le_add_diff_inverse2)
  then have D: "?D = ?u @ ''/:'' @ drop (m + 2) pat" by (simp only: rest)
  have "length ?u = m - search_start k" using mark(1) by (simp add: slice_def)
  moreover have "find_sub ''/:'' ?D = Some (m - search_start k)" using found by (auto simp: find_from_def)
  ultimately have "find_sub ''/:'' (?u @ ''/:'' @ drop (m + 2) pat) = Some (length ?u)" unfolding D [symmetric] by simp
  note skip = describes_skip [OF this, folded D]
  have "last_slash k @ slice k (m + 1 - k) pat = ?u @ ''/''"
  proof -
    have km: "k \<le> m + 1" using mark(2) by (simp add: search_start_def split: if_splits)
    have "last_slash k @ slice k (m + 1 - k) pat = take (m + 1 - search_start k) (last_slash k @ drop k pat)"
      using km by (cases k) (simp_all add: last_slash_def search_start_def slice_def Suc_diff_le)
    also have "\<dots> = take (m + 1 - search_start k) ?D" by (simp only: drop_search_start [OF k slash])
    also have "\<dots> = ?u @ ''/''"
      using mark(1,2,3) by (simp add: slice_def Suc_diff_le take_Suc_conv_app_nth)
    finally show ?thesis .
  qed
  then have split: "last_slash k @ q = ?u @ CHR ''/'' # q' \<longleftrightarrow> q = slice k (m + 1 - k) pat @ q'" for q'
    by (metis append.assoc append_Cons append_Nil same_append_eq)
  have "describes (''/:'' @ x) p bs \<Longrightarrow> \<exists>q'. p = CHR ''/'' # q'" for x p
    using describes_slash [of "'':'' @ x"] by simp
  then show ?thesis unfolding skip using split by metis
qed

text \<open>The fragments and names a pattern is compiled to stand for the paths it describes.\<close>

lemma compile_loop_exact:
  assumes "compile_loop pat k frs nms = Ok (fs, ns)" and "k \<le> length pat + 1" and "NUL \<notin> set pat"
    and "0 < k \<Longrightarrow> k \<le> length pat \<Longrightarrow> pat ! (k - 1) = CHR ''/''"
  shows "\<exists>fs' ns'. fs = frs @ fs' \<and> ns = nms @ ns' \<and> (distinct nms \<longrightarrow> distinct ns)
    \<and> length ns' \<le> length fs' \<and> length fs' \<le> length ns' + 1 \<and> list_all (\<lambda>f. NUL \<notin> set f) fs'
    \<and> (fs' = [] \<longleftrightarrow> length pat \<le> k) \<and> (ns' = [] \<longrightarrow> find_from ''/:'' pat (search_start k) = None)
    \<and> (k \<le> length pat \<longrightarrow> (\<forall>q bs. describes (drop (search_start k) pat) (last_slash k @ q) bs
          \<longleftrightarrow> (\<exists>vs. bs = zip ns' vs \<and> route_path fs' ns' vs q)))"
  using assms
proof (induction pat k frs nms arbitrary: fs ns rule: compile_loop.induct)
  case (1 pat k frs nms)
  note step = compile_loop.simps [of pat k frs nms, folded search_start_def]
  show ?case
  proof (cases "find_from ''/:'' pat (search_start k)")
    case None
    have nul: "NUL \<notin> set (drop k pat)" using 1(4) by (auto dest: in_set_dropD)
    have fs: "fs = frs @ (if k < length pat then [drop k pat] else [])" "ns = nms"
      using None 1(2) by (auto simp: step split: if_splits)
    have "find_sub ''/:'' (drop (search_start k) pat) = None" using None by (simp add: find_from_def)
    note literal = describes_literal [OF this]
    have "describes (drop (search_start k) pat) (last_slash k @ q) bs
      \<longleftrightarrow> (\<exists>vs. bs = zip [] vs \<and> route_path (if k < length pat then [drop k pat] else []) [] vs q)" if "k \<le> length pat" for q bs
      unfolding literal using that drop_search_start [OF that 1(5)] by (auto simp: route_path_def)
    with fs nul None show ?thesis
      by (intro exI [of _ "if k < length pat then [drop k pat] else []"] exI [of _ "[]"]) auto
  next
    case (Some m)
    let ?sep = "next_separator pat (m + 2)"
    let ?name = "slice (m + 2) (?sep - (m + 2)) pat"
    let ?frag = "slice k (m + 1 - k) pat"
    let ?tail = "if ?sep < length pat then CHR ''/'' # drop (?sep + 1) pat else []"
    note mark = find_marker [OF Some]
    have len: "m + 2 \<le> length pat" using arg_cong [OF mark(4), of length] by simp
    have k: "k \<le> m + 1" using mark(2) by (simp add: search_start_def split: if_splits)
    then have kl: "k \<le> length pat" "\<not> length pat \<le> k" using len by simp_all
    have new: "?name \<notin> set nms" and rc: "compile_loop pat (?sep + 1) (frs @ [?frag]) (nms @ [?name]) = Ok (fs, ns)"
      using 1(2) Some by (auto simp: step Let_def split: if_splits)
    note seg = drop_to_separator [OF len]
    have sep: "?sep + 1 \<le> length pat + 1"
      by (auto simp: next_separator_def split: option.split dest!: find_from_bounds)
    have slash: "pat ! ?sep = CHR ''/''" if "?sep < length pat"
    proof -
      have "drop (m + 2) pat = ?name @ CHR ''/'' # drop (?sep + 1) pat" using seg that by simp
      moreover have "length ?name = ?sep - (m + 2)" "m + 2 \<le> ?sep"
        using that len by (auto simp: slice_def next_separator_def split: option.split dest!: find_from_bounds)
      ultimately have "drop (m + 2) pat ! (?sep - (m + 2)) = CHR ''/''" by (metis nth_append_length)
      then have "pat ! (m + 2 + (?sep - (m + 2))) = CHR ''/''" by (simp only: nth_drop [OF len])
      then show ?thesis by (simp only: le_add_diff_inverse [OF \<open>m + 2 \<le> ?sep\<close>])
    qed
    have slash': "0 < ?sep + 1 \<Longrightarrow> ?sep + 1 \<le> length pat \<Longrightarrow> pat ! (?sep + 1 - 1) = CHR ''/''" using slash by simp
    obtain fs' ns' where IH: "fs = (frs @ [?frag]) @ fs'" "ns = (nms @ [?name]) @ ns'" "distinct (nms @ [?name]) \<longrightarrow> distinct ns"
      "length ns' \<le> length fs'" "length fs' \<le> length ns' + 1" "list_all (\<lambda>f. NUL \<notin> set f) fs'"
      "fs' = [] \<longleftrightarrow> length pat \<le> ?sep + 1"
      "?sep + 1 \<le> length pat \<longrightarrow> (\<forall>q bs. describes (drop (search_start (?sep + 1)) pat) (last_slash (?sep + 1) @ q) bs
        \<longleftrightarrow> (\<exists>vs. bs = zip ns' vs \<and> route_path fs' ns' vs q))"
      using 1(1) [folded search_start_def, OF Some refl refl refl refl new rc sep 1(4) slash'] by blast
    have nul: "NUL \<notin> set ?frag" using 1(4) by (auto simp: slice_def dest: in_set_takeD in_set_dropD)
    have name: "no_slash ?name" and rest: "drop (m + 2) pat = ?name @ ?tail" using seg by simp_all
    have after: "describes ?tail (CHR ''/'' # q) bs \<longleftrightarrow> (\<exists>vs. bs = zip ns' vs \<and> route_path fs' ns' vs q)" if "?tail \<noteq> []" for q bs
    proof -
      from that have "?sep < length pat" by (simp split: if_splits)
      with IH(8) drop_search_start [of "?sep + 1" pat] slash show ?thesis by (simp add: last_slash_def)
    qed
    have none: "fs' = [] \<longleftrightarrow> ?tail \<in> {[], ''/''}" using IH(7) by auto
    have "?tail = [] \<or> ?tail = CHR ''/'' # drop (?sep + 1) pat" by simp
    then have one: "describes (''/:'' @ ?name @ ?tail) (CHR ''/'' # q) bs
        \<longleftrightarrow> (\<exists>vs. bs = zip (?name # ns') vs \<and> route_path (?frag # fs') (?name # ns') vs (?frag @ q))" for q bs
      by (rule describes_step [OF name _ _ none IH(4,5)]) (rule after)
    have "describes (drop (search_start k) pat) (last_slash k @ q) bs
      \<longleftrightarrow> (\<exists>vs. bs = zip (?name # ns') vs \<and> route_path (?frag # fs') (?name # ns') vs q)" for q bs
    proof -
      have "route_path (?frag # fs') (?name # ns') vs q \<Longrightarrow> \<exists>q'. q = ?frag @ q'" for vs
        by (cases vs) (auto simp: route_path_def)
      moreover have "describes (drop (search_start k) pat) (last_slash k @ q) bs
          \<longleftrightarrow> (\<exists>q'. q = ?frag @ q' \<and> describes (''/:'' @ drop (m + 2) pat) (CHR ''/'' # q') bs)"
        by (rule next_fragment [OF Some kl(1)]) (use 1(5) kl in simp)
      ultimately show ?thesis unfolding rest one by blast
    qed
    with IH(1-6) new nul kl show ?thesis
      by (intro exI [of _ "?frag # fs'"] exI [of _ "?name # ns'"]) auto
  qed
qed

section \<open>Routes with parameters\<close>

definition status_matcher :: matcher where
  "status_matcher = Path_Params ''/api/status/:id'' [''/api/status/''] [''id'']"

lemma status_compiled: "make_matcher ''/api/status/:id'' = Ok status_matcher"
  by (simp add: make_matcher_def PathParamsMatcher_def status_matcher_def compile_loop.simps find_from_def
      next_separator_def slice_def)

text \<open>C24: Whatever pattern a route is registered with that is not a regular expression, the compiled matcher accepts
  exactly the paths the text of the pattern describes: \<^verbatim>\<open>/:name\<close> stands for a slash and a value without a
  slash, every other character for itself, and a slash at the end is optional after a parameter. The parameters the
  handler sees are the values under the names of the pattern, in order, and no name occurs twice.\<close>

theorem route_pattern_exact:
  assumes "PathParamsMatcher pat = Ok m" and "NUL \<notin> set pat"
  shows "(fst (match regex_match m req) \<longleftrightarrow> (\<exists>bs. describes pat (req_path req) bs))
    \<and> (\<forall>bs. describes pat (req_path req) bs
      \<longrightarrow> path_params (snd (match regex_match m req)) = bs \<and> distinct (map fst bs))"
proof -
  obtain fs ns where c: "compile_loop pat 0 [] [] = Ok (fs, ns)" and m: "m = Path_Params pat fs ns"
    using assms(1) by (auto simp: PathParamsMatcher_def obind_eq_Ok)
  from compile_loop_exact [OF c _ assms(2)] have exact: "distinct ns" "length ns \<le> length fs" "length fs \<le> length ns + 1"
    "list_all (\<lambda>f. NUL \<notin> set f) fs" "ns = [] \<Longrightarrow> find_from ''/:'' pat 0 = None"
    and desc: "describes pat q bs \<longleftrightarrow> (\<exists>vs. bs = zip ns vs \<and> route_path fs ns vs q)" for q bs
    by (simp_all add: search_start_def last_slash_def)
  show ?thesis
  proof (cases ns)
    case Nil
    then have "find_sub ''/:'' pat = None" using exact(5) by (simp add: find_from_def)
    from describes_literal [OF this] show ?thesis by (simp add: m Nil)
  next
    case (Cons n ns')
    have bal: "balanced fs ns" using exact by (simp add: balanced_def)
    obtain ok ps where run: "match_loop (req_path req) fs ns 0 [] = (ok, ps)" by force
    have found: "ok \<longleftrightarrow> (\<exists>vs. route_path fs ns vs (req_path req))" and
      vals: "route_path fs ns vs (req_path req) \<Longrightarrow> ps = zip ns vs \<and> length vs = length ns" for vs
      using match_loop_exact(1) [OF bal, of "[]" "[]" "req_path req" ok ps]
        match_loop_exact(2) [OF bal, of "[]" vs "req_path req" "[]"] run by (auto simp: route_path_def)
    have "match regex_match m req = (ok, req\<lparr>path_params := ps\<rparr>)" using run by (simp add: m Cons)
    with found show ?thesis using exact(1) by (auto simp: desc dest: vals)
  qed
qed

theorem route_pattern_exact_witness:
  "fst (match (\<lambda>p s. False) status_matcher (new_request\<lparr>req_path := ''/api/status/42''\<rparr>))
   \<and> path_params (snd (match (\<lambda>p s. False) status_matcher (new_request\<lparr>req_path := ''/api/status/42''\<rparr>)))
     = [(''id'', ''42'')]"
proof -
  have "PathParamsMatcher ''/api/status/:id'' = Ok status_matcher"
    using status_compiled by (simp add: make_matcher_def)
  note exact = route_pattern_exact [OF this, of "\<lambda>p s. False" "new_request\<lparr>req_path := ''/api/status/42''\<rparr>"]
  have "find_sub ''/:'' (''/api/status'' @ ''/:'' @ ''id'') = Some (length ''/api/status'')" by simp
  from describes_skip [OF this, of "''/api/status/42''"] describes.last [of "''id''" "''42''" "[]" "[]"]
  have "describes ''/api/status/:id'' ''/api/status/42'' [(''id'', ''42'')]" by (simp add: no_slash_def)
  with exact show ?thesis by (auto simp: NUL_def)
qed

end
