(* ===== verification/HttpTyping.thy ===== *)
theory HttpTyping
  imports HttpRouting
begin

text \<open>
  What a handler can rely on: every request the server of \<^verbatim>\<open>external/httplib.h\<close> hands to a handler
  is well-formed, whatever bytes the peer sends. A handler that would fail on any other request
  is told apart from one that would not by no connection.
\<close>

section \<open>Well-formed requests\<close>

definition headers_typed :: "headers \<Rightarrow> bool" where
  "headers_typed hs \<longleftrightarrow> list_all (\<lambda>(name, val). is_field_valid name val) hs
     \<and> length hs \<le> HEADER_MAX_COUNT \<and> content_lengths_agree hs"

definition head_typed :: "request \<Rightarrow> bool" where
  "head_typed req \<longleftrightarrow> req_method req \<in> set methods
     \<and> (req_version req = ''HTTP/1.1'' \<or> req_version req = ''HTTP/1.0'')
     \<and> headers_typed (req_headers req)
     \<and> length (req_target req) \<le> REQUEST_URI_MAX_LENGTH"

definition request_typed :: "request \<Rightarrow> bool" where
  "request_typed req \<longleftrightarrow> head_typed req \<and> length (req_body req) \<le> PAYLOAD_MAX_LENGTH
     \<and> list_all (\<lambda>(name, val). no_slash val) (path_params req)"

definition same_head :: "request \<Rightarrow> request \<Rightarrow> bool" where
  "same_head req req' \<longleftrightarrow> req_method req' = req_method req \<and> req_version req' = req_version req
     \<and> req_headers req' = req_headers req \<and> req_target req' = req_target req
     \<and> path_params req' = path_params req"

lemma same_head_typed: "same_head req req' \<Longrightarrow> head_typed req \<Longrightarrow> head_typed req'"
  by (simp add: same_head_def head_typed_def)

section \<open>The head\<close>

lemma parse_request_line_typed:
  assumes "parse_request_line line new_request = (True, req)"
  shows "req_method req \<in> set methods" "req_version req = ''HTTP/1.1'' \<or> req_version req = ''HTTP/1.0''"
    "req_body req = []"
proof -
  have "req_body (assign_pieces ps new_request) = []" for ps
    by (simp add: assign_pieces_def Let_def new_request_def)
  with assms show "req_method req \<in> set methods" "req_version req = ''HTTP/1.1'' \<or> req_version req = ''HTTP/1.0''"
    "req_body req = []"
    by (auto simp: parse_request_line_def Let_def split: if_splits prod.splits)
qed

lemma parse_header_valid: "parse_header line = Some (name, val) \<Longrightarrow> is_field_valid name val"
  by (auto simp: parse_header_def Let_def is_field_valid_def split: if_splits)

lemma read_headers_loop_typed:
  assumes "read_headers_loop n h s = (True, h', s')" and "list_all (\<lambda>(name, val). is_field_valid name val) h"
    and "length h = n" and "n \<le> HEADER_MAX_COUNT"
  shows "headers_typed h'"
  using assms
proof (induction n h s rule: read_headers_loop.induct)
  case (1 n h s)
  note step = read_headers_loop.simps [of n h s]
  obtain ok r s1 where line: "stream_getline 2048 s = (ok, r, s1)" by (cases "stream_getline 2048 s") auto
  note IH = 1(1,2) [OF line [symmetric] refl _ refl]
  show ?case
  proof (cases "ok \<and> \<not> (end_with_crlf r \<and> length (reader_text r) = 2)")
    case False
    with 1(3-) line show ?thesis by (auto simp: step headers_typed_def split: if_splits)
  next
    case True
    show ?thesis
    proof (cases "end_with_crlf r")
      case False
      with True 1(3-) line IH(1) show ?thesis by (auto simp: step)
    next
      case crlf: True
      with True 1(3) line obtain name val where
        h: "parse_header (take (length (reader_text r) - 2) (reader_text r)) = Some (name, val)"
        and small: "length (reader_text r) \<le> HEADER_MAX_LENGTH" "n < HEADER_MAX_COUNT"
        and rc: "read_headers_loop (n + 1) (emplace h (name, val)) s1 = (True, h', s')"
        by (auto simp: step Let_def split: if_splits option.splits)
      show ?thesis
        by (rule IH(2) [OF _ _ _ _ _ h rc])
          (use True crlf small 1(4-) parse_header_valid [OF h] in \<open>auto simp: emplace_def\<close>)
    qed
  qed
qed

lemma check_request_same:
  assumes "check_request req = Inr (closed, req')"
  shows "same_head req req' \<and> req_body req' = req_body req \<and> length (req_target req) \<le> REQUEST_URI_MAX_LENGTH"
  using assms by (auto simp: check_request_def Let_def same_head_def split: if_splits option.splits prod.splits)

section \<open>The parameters of the path\<close>

lemma match_loop_no_slash:
  assumes "match_loop path fs ns pos ps = (ok, ps')" and "list_all (\<lambda>(name, val). no_slash val) ps"
  shows "list_all (\<lambda>(name, val). no_slash val) ps'"
  using assms
proof (induction fs arbitrary: ns pos ps)
  case (Cons f fs)
  show ?case
  proof (cases "length path < pos + length f \<or> \<not> strncmp_equal (drop pos path) f (length f)")
    case True
    with Cons.prems show ?thesis by (auto simp: match_loop.simps(2) split: if_splits)
  next
    case False
    show ?thesis
    proof (cases ns)
      case Nil
      with False Cons show ?thesis by (auto simp: match_loop.simps(2))
    next
      case ns: (Cons n ns')
      let ?pos = "pos + length f"
      have "no_slash (slice ?pos (next_separator path ?pos - ?pos) path)"
        using False drop_to_separator [of ?pos path] by simp
      with False Cons.prems Cons.IH show ?thesis
        by (auto simp: match_loop.simps(2) ns Let_def split: if_splits)
    qed
  qed
qed simp

lemma match_typed:
  assumes "match regex_match m req = (ok, req')" and "head_typed req"
  shows "head_typed req'" "req_body req' = req_body req" "list_all (\<lambda>(name, val). no_slash val) (path_params req')"
  using assms match_loop_no_slash
  by (cases m; fastforce simp: head_typed_def split: if_splits prod.splits)+

section \<open>The body\<close>

text \<open>What every receiver keeps, the loops that feed it keep.\<close>

lemma with_length_loop_keeps:
  assumes keep: "\<And>bs u. P u \<Longrightarrow> P (snd (out bs u))"
  shows "P rs \<Longrightarrow> P (fst (snd (with_length_loop m out len r br rs s)))"
proof (induction "len - r" arbitrary: r br rs s rule: less_induct)
  case less
  note step = with_length_loop.simps [of m out len r br rs s]
  obtain a br' s' where rd: "body_reader_read m (min (len - r) RECV_BUFSIZ) br s = (a, br', s')" by (rule prod_cases3)
  show ?case
  proof (cases "r < len \<and> a \<noteq> None \<and> a \<noteq> Some []")
    case False
    with less.prems rd show ?thesis by (auto simp: step split: option.split list.split)
  next
    case True
    then obtain c cs where a: "a = Some (c # cs)" by (cases a; cases "the a"; simp)
    obtain ok rs' where out: "out (c # cs) rs = (ok, rs')" by (rule prod.exhaust)
    have rs': "P rs'" using keep [OF less.prems, of "c # cs"] by (simp add: out)
    then have "P (fst (snd (with_length_loop m out len (r + length (c # cs)) br' rs' s')))"
      using True by (intro less.hyps) auto
    with rs' True show ?thesis by (simp add: step rd a out)
  qed
qed

lemma without_length_loop_keeps:
  assumes keep: "\<And>bs u. P u \<Longrightarrow> P (snd (out bs u))"
  shows "P rs \<Longrightarrow> P (fst (snd (without_length_loop m out r rs s)))"
proof (induction "unread s" arbitrary: r rs s rule: less_induct)
  case less
  note step = without_length_loop.simps [of m out r rs s]
  obtain a s' where rd: "stream_read RECV_BUFSIZ s = (a, s')" by (rule prod.exhaust)
  show ?case
  proof (cases "a \<noteq> None \<and> a \<noteq> Some []")
    case False
    with less.prems rd show ?thesis by (auto simp: step split: option.split list.split)
  next
    case True
    then obtain c cs where a: "a = Some (c # cs)" by (cases a; cases "the a"; simp)
    obtain ok rs' where out: "out (c # cs) rs = (ok, rs')" by (rule prod.exhaust)
    have rs': "P rs'" using keep [OF less.prems, of "c # cs"] by (simp add: out)
    have "unread s' < unread s" using stream_read_unread [of RECV_BUFSIZ s "c # cs" s'] rd a by simp
    then have "P (fst (snd (without_length_loop m out (r + length (c # cs)) rs' s')))"
      using rs' by (rule less.hyps)
    with rs' less.prems show ?thesis by (simp add: step rd a out)
  qed
qed

lemma chunked_loop_keeps:
  assumes keep: "\<And>bs u. P u \<Longrightarrow> P (snd (out bs u))"
  shows "P rs \<Longrightarrow> P (fst (snd (snd (chunked_loop m out n hs trailers dec rs s))))"
proof (induction "unread s" arbitrary: n dec rs s rule: less_induct)
  case less
  note step = chunked_loop.simps [of m out n hs trailers dec rs s]
  obtain a dec' s' where rd: "read_payload RECV_BUFSIZ dec s = (a, dec', s')" by (rule prod_cases3)
  show ?case
  proof (cases "a \<noteq> None \<and> a \<noteq> Some []")
    case False
    with less.prems rd show ?thesis by (auto simp: step split: option.split list.split prod.split)
  next
    case True
    then obtain c cs where a: "a = Some (c # cs)" by (cases a; cases "the a"; simp)
    obtain ok rs' where out: "out (c # cs) rs = (ok, rs')" by (rule prod.exhaust)
    have rs': "P rs'" using keep [OF less.prems, of "c # cs"] by (simp add: out)
    have "unread s' < unread s" using read_payload_pending rd a by blast
    then have "P (fst (snd (snd (chunked_loop m out (n + length (c # cs)) hs trailers dec' rs' s'))))"
      using rs' by (rule less.hyps)
    with rs' less.prems show ?thesis by (simp add: step rd a out)
  qed
qed

lemma read_body_keeps:
  assumes keep: "\<And>bs u. P u \<Longrightarrow> P (snd (out bs u))" and "P rs"
    and "read_body dc out req rs s = (ok, code, req', rs', s')"
  shows "P rs' \<and> same_head req req' \<and> req_body req' = req_body req"
proof -
  have w: "with_length_loop m out len r br rs s = (res, u, t) \<Longrightarrow> P u" for m len r br s res u t
    using with_length_loop_keeps [of P out rs m len r br s] keep assms(2) by simp
  have wo: "without_length_loop m out r rs s = (res, u, t) \<Longrightarrow> P u" for m r s res u t
    using without_length_loop_keeps [of P out rs m r s] keep assms(2) by simp
  have c: "chunked_loop m out n hs trailers dec rs s = (res, tr, u, t) \<Longrightarrow> P u" for m n hs trailers dec s res tr u t
    using chunked_loop_keeps [of P out rs m n hs trailers dec s] keep assms(2) by simp
  from assms(2,3) show ?thesis
    by (auto simp: read_body_def Let_def same_head_def read_content_chunked_def read_content_with_length_def
      read_content_without_length_def split: if_splits prod.splits dest!: w wo c)
qed

definition body_fits :: "received \<Rightarrow> bool" where
  "body_fits ct \<longleftrightarrow> length (ct_body ct) \<le> PAYLOAD_MAX_LENGTH"

lemma receive_regular_fits: "body_fits ct \<Longrightarrow> body_fits (snd (receive_regular bs ct))"
  by (auto simp: receive_regular_def body_fits_def Let_def PAYLOAD_MAX_LENGTH_def)

lemma form_headers_body: "ct_body (snd (form_headers ct)) = ct_body ct"
proof (induction ct rule: form_headers.induct)
  case (1 ct)
  then show ?case
    by (subst form_headers.simps)
      (auto simp: Let_def form_erase_def form_goto_def form_invalid_def form_header_def split: option.splits prod.splits if_splits)
qed

lemma form_turn_body: "form_turn ct = Inl (ok, ct') \<Longrightarrow> ct_body ct' = ct_body ct"
  "form_turn ct = Inr ct' \<Longrightarrow> ct_body ct' = ct_body ct"
  using form_headers_body [of ct]
  by (auto simp: form_turn_def Let_def form_erase_def form_goto_def form_invalid_def form_content_def
      split: option.splits prod.splits if_splits bool.splits)

lemma receive_form_body: "ct_body (snd (receive_form bs ct)) = ct_body ct"
proof -
  have "ct_body (snd (form_loop ct)) = ct_body ct" for ct
  proof (induction ct rule: form_loop.induct)
    case (1 ct)
    then show ?case using form_turn_body
      by (subst form_loop.simps) (fastforce split: sum.split)
  qed
  then show ?thesis by (simp add: receive_form_def)
qed

lemma read_content_typed:
  assumes "read_content req s = (ok, code, req', s')" and "length (req_body req) \<le> PAYLOAD_MAX_LENGTH"
  shows "same_head req req' \<and> length (req_body req') \<le> PAYLOAD_MAX_LENGTH"
proof -
  obtain ok1 st r1 ct1 s1 where core: "read_content_core req (new_content req) s = (ok1, st, r1, ct1, s1)"
    by (rule prod_cases5)
  have start: "body_fits (new_content req)" using assms(2) by (simp add: body_fits_def new_content_def)
  have parser: "body_fits (ct\<lparr>ct_parser := p\<rparr>) \<longleftrightarrow> body_fits ct" for ct p by (simp add: body_fits_def)
  have form: "body_fits ct \<Longrightarrow> body_fits (snd (receive_form bs ct))" for bs ct
    by (simp add: body_fits_def receive_form_body)
  have keeps: "read_body True out req ct s = (ok2, st2, req2, ct2, s2) \<Longrightarrow> body_fits ct
      \<Longrightarrow> out = receive_form \<or> out = receive_regular \<Longrightarrow> body_fits ct2 \<and> same_head req req2"
    for out ct s ok2 st2 req2 ct2 s2
    using read_body_keeps [of body_fits out ct True req s ok2 st2 req2 ct2 s2] form receive_regular_fits by auto
  have "body_fits ct1 \<and> same_head req r1"
    using core start
    by (auto simp: read_content_core_def Let_def parser same_head_def split: if_splits prod.splits dest!: keeps)
  with assms(1) core show ?thesis
    by (auto simp: read_content_def Let_def same_head_def body_fits_def split: if_splits)
qed

section \<open>Handlers on well-formed requests\<close>

text \<open>A handler that has no defined behaviour on a request that is not well-formed.\<close>

definition guard_handler :: "'s handler \<Rightarrow> 's handler" where
  "guard_handler h req res st = (if request_typed req then h req res st else (Undef, res, st))"

definition guard_handlers :: "'s handlers \<Rightarrow> 's handlers" where
  "guard_handlers = map (apsnd guard_handler)"

definition guard_server :: "'s http_server \<Rightarrow> 's http_server" where
  "guard_server svr = \<lparr>get_handlers = guard_handlers (get_handlers svr), post_handlers = guard_handlers (post_handlers svr),
     put_handlers = guard_handlers (put_handlers svr), patch_handlers = guard_handlers (patch_handlers svr),
     delete_handlers = guard_handlers (delete_handlers svr), options_handlers = guard_handlers (options_handlers svr)\<rparr>"

lemma run_guarded: "request_typed req \<Longrightarrow> run_handler (guard_handler h) req res st s = run_handler h req res st s"
  by (simp add: run_handler_def guard_handler_def)

lemma route_typed:
  "head_typed (req\<lparr>matched_route := r\<rparr>) = head_typed req" "request_typed (req\<lparr>matched_route := r\<rparr>) = request_typed req"
  by (simp_all add: head_typed_def request_typed_def)

lemma dispatch_guarded:
  assumes "head_typed req" and "length (req_body req) \<le> PAYLOAD_MAX_LENGTH"
  shows "dispatch_request regex_match (guard_handlers hs) req res st s = dispatch_request regex_match hs req res st s"
  using assms
proof (induction hs arbitrary: req)
  case (Cons mh hs)
  obtain m h where mh: "mh = (m, h)" by (rule prod.exhaust)
  obtain ok req1 where mt: "match regex_match m req = (ok, req1)" by (rule prod.exhaust)
  note typed = match_typed [OF mt Cons.prems(1)]
  let ?req = "req1\<lparr>matched_route := pattern m\<rparr>"
  have ty: "request_typed ?req" using typed Cons.prems by (simp add: request_typed_def route_typed)
  obtain ok2 code req2 s2 where rc: "read_content ?req s = (ok2, code, req2, s2)" by (rule prod_cases4)
  have "request_typed req2"
    using read_content_typed [OF rc] ty same_head_typed [of ?req req2] by (simp add: request_typed_def same_head_def)
  with Cons typed ty mt rc show ?case by (simp add: mh guard_handlers_def run_guarded Let_def)
qed (simp add: guard_handlers_def)

lemma routing_guarded:
  "head_typed req \<Longrightarrow> length (req_body req) \<le> PAYLOAD_MAX_LENGTH
    \<Longrightarrow> routing regex_match (guard_server svr) req res st s = routing regex_match svr req res st s"
  by (simp add: routing_def guard_server_def dispatch_guarded)

lemma process_request_guarded:
  "process_request regex_match boundary (guard_server svr) close_connection st s
    = process_request regex_match boundary svr close_connection st s"
proof -
  obtain ok r s1 where line: "stream_getline 2048 s = (ok, r, s1)" by (rule prod_cases3)
  obtain ok2 req where rl: "parse_request_line (reader_text r) new_request = (ok2, req)" by (rule prod.exhaust)
  obtain ok3 hs s3 where rh: "read_headers (req_headers req) s1 = (ok3, hs, s3)" by (rule prod_cases3)
  show ?thesis
  proof (cases "ok \<and> ok2 \<and> ok3 \<and> (\<exists>closed req'. check_request (req\<lparr>req_headers := hs\<rparr>) = Inr (closed, req'))")
    case False
    with line rl rh show ?thesis by (auto simp: process_request_def Let_def split: sum.split)
  next
    case True
    then obtain closed req' where ck: "check_request (req\<lparr>req_headers := hs\<rparr>) = Inr (closed, req')" by blast
    from True rl have rl': "parse_request_line (reader_text r) new_request = (True, req)" by simp
    have "req_headers req = []"
      using rl' by (auto simp: parse_request_line_def Let_def assign_pieces_def new_request_def split: if_splits prod.splits)
    with True rh have "headers_typed hs"
      using read_headers_loop_typed [of 0 "[]" s1 hs s3] by (simp add: read_headers_def)
    then have "head_typed req'" "length (req_body req') \<le> PAYLOAD_MAX_LENGTH"
      using parse_request_line_typed [OF rl'] check_request_same [OF ck] by (auto simp: head_typed_def same_head_def)
    with True line rl rh ck show ?thesis
      by (simp add: process_request_def Let_def process_routed_def routing_guarded)
  qed
qed

text \<open>C21: Whatever bytes a peer sends on a connection, and however they arrive, every request the server
  hands to a handler is well-formed: one of the known methods, one of the two versions, at most a
  hundred headers, each with a valid name and a valid value, content lengths that agree, a target and a
  body within their limits, and parameters of the path without a slash. A server whose handlers are
  undefined on any other request cannot be told apart from the one whose handlers are not.\<close>

theorem handlers_get_typed_requests:
  "process_and_close_socket regex_match boundary (guard_server svr) st s
    = process_and_close_socket regex_match boundary svr st s"
proof -
  have "process_server_socket regex_match boundary (guard_server svr) n ret st s
      = process_server_socket regex_match boundary svr n ret st s" for n ret st s
    by (induction n arbitrary: ret st s) (auto simp: process_request_guarded split: prod.split)
  then show ?thesis by (simp add: process_and_close_socket_def)
qed

end
