(* ===== verification/JsonParser.thy ===== *)
theory JsonParser
  imports JsonLexer
begin

text \<open>
  The parser of \<^verbatim>\<open>external/json.hpp\<close>: the token loop \<^verbatim>\<open>sax_parse_internal\<close>, which reports to a SAX
  handler, and the two handlers \<^verbatim>\<open>json_sax_dom_parser\<close>, which builds the value, and
  \<^verbatim>\<open>json_sax_acceptor\<close>. A handler is a record of its two entry points on its own state. The pointers
  of the DOM handler into the value under construction are paths from its root, and an assertion
  that fails or a pointer to nothing is \<open>Undef\<close>. The stacks have their back first. One iteration of
  the loop is \<open>parse_step\<close>; the loop is total, since every iteration that goes on uses up input.
\<close>

section \<open>Handlers\<close>

text \<open>The calls of a handler other than \<^verbatim>\<open>parse_error\<close>; the sizes passed to \<^verbatim>\<open>start_object\<close> and
  \<^verbatim>\<open>start_array\<close> are always the "unknown" marker.\<close>

datatype sax_event =
    Null_event | Boolean_event bool | Number_integer_event "64 word" | Number_unsigned_event u64
  | Number_float_event double string | String_event string
  | Start_object | Key string | End_object | Start_array | End_array

record 's sax =
  sax_call :: "sax_event \<Rightarrow> 's \<Rightarrow> (bool \<times> 's) outcome"
  sax_parse_error :: "position_t \<Rightarrow> string \<Rightarrow> exn \<Rightarrow> 's \<Rightarrow> (bool \<times> 's) outcome"

section \<open>Exceptions\<close>

definition position_string :: "position_t \<Rightarrow> string" where
  "position_string pos = '' at line '' @ nat_dec (lines_read pos + 1) @ '', column '' @ nat_dec (chars_read_current_line pos)"

definition parse_error_exn :: "nat \<Rightarrow> position_t \<Rightarrow> string \<Rightarrow> exn" where
  "parse_error_exn code pos what_arg = Json_Exception (Parse_Error code (chars_read_total pos)
     (exception_name ''parse_error'' code @ ''parse error'' @ position_string pos @ '': '' @ what_arg))"

section \<open>The parser's state\<close>

record 's parse_state =
  last_token :: token_type
  m_lexer :: lexer
  states :: "bool list"
  skip_to_state_evaluation :: bool
  sax_state :: 's

definition get_token :: "'s parse_state \<Rightarrow> 's parse_state" where
  "get_token ps = (case scan (m_lexer ps) of (t, lx) \<Rightarrow> ps\<lparr>last_token := t, m_lexer := lx\<rparr>)"

definition exception_message :: "'s parse_state \<Rightarrow> token_type \<Rightarrow> string \<Rightarrow> string" where
  "exception_message ps expected context =
     ''syntax error ''
     @ (if context \<noteq> [] then ''while parsing '' @ context @ '' '' else [])
     @ ''- ''
     @ (if last_token ps = parse_error
        then lx_error_message (m_lexer ps) @ ''; last read: '' @ [CHR 0x27] @ get_token_string (m_lexer ps) @ [CHR 0x27]
        else ''unexpected '' @ token_type_name (last_token ps))
     @ (if expected \<noteq> uninitialized then ''; expected '' @ token_type_name expected else [])"

text \<open>The loop returns, or goes round again.\<close>

datatype 's flow = Return bool "'s parse_state" | Continue "'s parse_state"

text \<open>Calling the handler: \<^verbatim>\<open>if (!sax->...) return false\<close>, and \<^verbatim>\<open>return sax->parse_error(...)\<close>.\<close>

definition sax_do :: "'s sax \<Rightarrow> sax_event \<Rightarrow> 's parse_state \<Rightarrow> ('s parse_state \<Rightarrow> ('s parse_state + 's flow) outcome)
    \<Rightarrow> ('s parse_state + 's flow) outcome" where
  "sax_do sax ev ps k = obind (sax_call sax ev (sax_state ps)) (\<lambda>(ok, s).
     if ok then k (ps\<lparr>sax_state := s\<rparr>) else Ok (Inr (Return False (ps\<lparr>sax_state := s\<rparr>))))"

definition sax_error :: "'s sax \<Rightarrow> exn \<Rightarrow> 's parse_state \<Rightarrow> ('s parse_state + 's flow) outcome" where
  "sax_error sax e ps = obind (sax_parse_error sax (lx_position (m_lexer ps)) (get_token_string (m_lexer ps)) e (sax_state ps))
     (\<lambda>(r, s). Ok (Inr (Return r (ps\<lparr>sax_state := s\<rparr>))))"

definition sax_syntax_error :: "'s sax \<Rightarrow> token_type \<Rightarrow> string \<Rightarrow> 's parse_state \<Rightarrow> ('s parse_state + 's flow) outcome" where
  "sax_syntax_error sax expected context ps =
     sax_error sax (parse_error_exn 101 (lx_position (m_lexer ps)) (exception_message ps expected context)) ps"

section \<open>One value\<close>

text \<open>A key and its colon, the key being the last token read; then the first token of the value.\<close>

definition parse_key :: "'s sax \<Rightarrow> 's parse_state \<Rightarrow> ('s parse_state \<Rightarrow> 's parse_state) \<Rightarrow> ('s parse_state + 's flow) outcome" where
  "parse_key sax ps remember =
     (if last_token ps \<noteq> value_string then sax_syntax_error sax value_string ''object key'' ps
      else sax_do sax (Key (lx_token_buffer (m_lexer ps))) ps (\<lambda>ps.
        let ps = get_token ps in
        if last_token ps \<noteq> name_separator then sax_syntax_error sax name_separator ''object separator'' ps
        else Ok (Inr (Continue (get_token (remember ps))))))"

definition parse_begin_object :: "'s sax \<Rightarrow> 's parse_state \<Rightarrow> ('s parse_state + 's flow) outcome" where
  "parse_begin_object sax ps = sax_do sax Start_object ps (\<lambda>ps.
     let ps = get_token ps in
     if last_token ps = end_object then sax_do sax End_object ps (\<lambda>ps. Ok (Inl ps))
     else parse_key sax ps (\<lambda>ps. ps\<lparr>states := False # states ps\<rparr>))"

definition parse_begin_array :: "'s sax \<Rightarrow> 's parse_state \<Rightarrow> ('s parse_state + 's flow) outcome" where
  "parse_begin_array sax ps = sax_do sax Start_array ps (\<lambda>ps.
     let ps = get_token ps in
     if last_token ps = end_array then sax_do sax End_array ps (\<lambda>ps. Ok (Inl ps))
     else Ok (Inr (Continue (ps\<lparr>states := True # states ps\<rparr>))))"

definition parse_float :: "'s sax \<Rightarrow> 's parse_state \<Rightarrow> ('s parse_state + 's flow) outcome" where
  "parse_float sax ps =
     (let res = lx_value_float (m_lexer ps) in
      if \<not> isfinite res
      then sax_error sax (out_of_range 406 (''number overflow parsing '' @ [CHR 0x27] @ get_token_string (m_lexer ps) @ [CHR 0x27])) ps
      else sax_do sax (Number_float_event res (lx_token_buffer (m_lexer ps))) ps (\<lambda>ps. Ok (Inl ps)))"

text \<open>The switch on the last token. \<open>Inl\<close> is reaching the code after the switch.\<close>

definition parse_value :: "'s sax \<Rightarrow> 's parse_state \<Rightarrow> ('s parse_state + 's flow) outcome" where
  "parse_value sax ps =
     (let lx = m_lexer ps in
      case last_token ps of
        begin_object \<Rightarrow> parse_begin_object sax ps
      | begin_array \<Rightarrow> parse_begin_array sax ps
      | value_float \<Rightarrow> parse_float sax ps
      | literal_false \<Rightarrow> sax_do sax (Boolean_event False) ps (\<lambda>ps. Ok (Inl ps))
      | literal_null \<Rightarrow> sax_do sax Null_event ps (\<lambda>ps. Ok (Inl ps))
      | literal_true \<Rightarrow> sax_do sax (Boolean_event True) ps (\<lambda>ps. Ok (Inl ps))
      | value_integer \<Rightarrow> sax_do sax (Number_integer_event (lx_value_integer lx)) ps (\<lambda>ps. Ok (Inl ps))
      | value_string \<Rightarrow> sax_do sax (String_event (lx_token_buffer lx)) ps (\<lambda>ps. Ok (Inl ps))
      | value_unsigned \<Rightarrow> sax_do sax (Number_unsigned_event (lx_value_unsigned lx)) ps (\<lambda>ps. Ok (Inl ps))
      | parse_error \<Rightarrow> sax_syntax_error sax uninitialized ''value'' ps
      | end_of_input \<Rightarrow>
          (if chars_read_total (lx_position lx) = 1
           then sax_error sax (parse_error_exn 101 (lx_position lx)
             ''attempting to parse an empty input; check that your input string or stream contains the expected JSON'') ps
           else sax_syntax_error sax literal_or_value ''value'' ps)
      | _ \<Rightarrow> sax_syntax_error sax literal_or_value ''value'' ps)"

section \<open>After a value\<close>

definition after_array_value :: "'s sax \<Rightarrow> 's parse_state \<Rightarrow> ('s parse_state + 's flow) outcome" where
  "after_array_value sax ps =
     (let ps = get_token ps in
      if last_token ps = value_separator then Ok (Inr (Continue (get_token ps)))
      else if last_token ps = end_array
      then sax_do sax End_array ps (\<lambda>ps.
        Ok (Inr (Continue (ps\<lparr>states := tl (states ps), skip_to_state_evaluation := True\<rparr>))))
      else sax_syntax_error sax end_array ''array'' ps)"

definition after_object_value :: "'s sax \<Rightarrow> 's parse_state \<Rightarrow> ('s parse_state + 's flow) outcome" where
  "after_object_value sax ps =
     (let ps = get_token ps in
      if last_token ps = value_separator then parse_key sax (get_token ps) (\<lambda>ps. ps)
      else if last_token ps = end_object
      then sax_do sax End_object ps (\<lambda>ps.
        Ok (Inr (Continue (ps\<lparr>states := tl (states ps), skip_to_state_evaluation := True\<rparr>))))
      else sax_syntax_error sax end_object ''object'' ps)"

definition evaluate_state :: "'s sax \<Rightarrow> 's parse_state \<Rightarrow> ('s parse_state + 's flow) outcome" where
  "evaluate_state sax ps =
     (case states ps of
        [] \<Rightarrow> Ok (Inr (Return True ps))
      | True # _ \<Rightarrow> after_array_value sax ps
      | False # _ \<Rightarrow> after_object_value sax ps)"

section \<open>The loop\<close>

definition parse_step :: "'s sax \<Rightarrow> 's parse_state \<Rightarrow> ('s parse_state + 's flow) outcome" where
  "parse_step sax ps =
     obind (if skip_to_state_evaluation ps then Ok (Inl (ps\<lparr>skip_to_state_evaluation := False\<rparr>)) else parse_value sax ps)
       (\<lambda>r. case r of Inl ps \<Rightarrow> evaluate_state sax ps | Inr f \<Rightarrow> Ok (Inr f))"

subsection \<open>Progress\<close>

definition token_left :: "'s parse_state \<Rightarrow> nat" where
  "token_left ps = 2 * left (m_lexer ps) + (if last_token ps = end_of_input then 0 else 1)"

lemma get_token_left:
  "left (m_lexer (get_token ps)) \<le> left (m_lexer ps)"
  "last_token (get_token ps) \<noteq> end_of_input \<Longrightarrow> left (m_lexer (get_token ps)) < left (m_lexer ps)"
  using scan_progress [of "m_lexer ps"] by (cases "scan (m_lexer ps)"; simp add: get_token_def)+

lemma get_token_token_left: "token_left (get_token ps) \<le> 2 * left (m_lexer ps) + 1"
  using get_token_left(1) [of ps] by (simp add: token_left_def)

lemma get_token_fields [simp]:
  "states (get_token ps) = states ps" "skip_to_state_evaluation (get_token ps) = skip_to_state_evaluation ps"
  "sax_state (get_token ps) = sax_state ps"
  by (simp_all add: get_token_def split: prod.split)

lemma sax_do_eq:
  "sax_do sax ev ps k = Ok r \<longleftrightarrow> (\<exists>ok s. sax_call sax ev (sax_state ps) = Ok (ok, s)
     \<and> (if ok then k (ps\<lparr>sax_state := s\<rparr>) = Ok r else r = Inr (Return False (ps\<lparr>sax_state := s\<rparr>))))"
  by (auto simp: sax_do_def obind_eq_Ok)

lemma sax_error_not_continue [simp]:
  "sax_error sax e ps \<noteq> Ok (Inl ps')" "sax_error sax e ps \<noteq> Ok (Inr (Continue ps'))"
  "sax_syntax_error sax t c ps \<noteq> Ok (Inl ps')" "sax_syntax_error sax t c ps \<noteq> Ok (Inr (Continue ps'))"
  by (auto simp: sax_syntax_error_def sax_error_def obind_eq_Ok)

lemma parse_key_progress:
  assumes "parse_key sax ps rem = Ok (Inr (Continue ps'))" and "\<And>ps. m_lexer (rem ps) = m_lexer ps"
  shows "token_left ps' < 2 * left (m_lexer ps)"
proof -
  obtain s where "ps' = get_token (rem (get_token (ps\<lparr>sax_state := s\<rparr>)))"
    and sep: "last_token (get_token (ps\<lparr>sax_state := s\<rparr>)) = name_separator"
    using assms(1) by (auto simp: parse_key_def Let_def sax_do_eq split: if_splits)
  then have "token_left ps' \<le> 2 * left (m_lexer (get_token (ps\<lparr>sax_state := s\<rparr>))) + 1"
    using get_token_token_left [of "rem (get_token (ps\<lparr>sax_state := s\<rparr>))"] assms(2) by simp
  moreover have "left (m_lexer (get_token (ps\<lparr>sax_state := s\<rparr>))) < left (m_lexer ps)"
    using get_token_left(2) [of "ps\<lparr>sax_state := s\<rparr>"] sep by simp
  ultimately show ?thesis by linarith
qed

lemma parse_key_not_Inl [simp]: "parse_key sax ps rem \<noteq> Ok (Inl ps')"
  by (auto simp: parse_key_def Let_def sax_do_eq split: if_splits)

lemma parse_value_Inl:
  assumes "parse_value sax ps = Ok (Inl ps')"
  shows "left (m_lexer ps') \<le> left (m_lexer ps)"
proof -
  have *: "left (m_lexer (get_token (ps\<lparr>sax_state := s\<rparr>))) \<le> left (m_lexer ps)" for s
    using get_token_left(1) [of "ps\<lparr>sax_state := s\<rparr>"] by simp
  show ?thesis
    using assms *
    by (cases "last_token ps")
      (auto simp: parse_value_def Let_def parse_begin_object_def parse_begin_array_def parse_float_def sax_do_eq
        split: if_splits)
qed

lemma parse_value_progress:
  assumes "parse_value sax ps = Ok (Inr (Continue ps'))"
  shows "token_left ps' < token_left ps"
proof (cases "last_token ps = begin_object")
  case True
  then obtain s where "parse_key sax (get_token (ps\<lparr>sax_state := s\<rparr>)) (\<lambda>ps. ps\<lparr>states := False # states ps\<rparr>)
      = Ok (Inr (Continue ps'))"
    using assms by (auto simp: parse_value_def Let_def parse_begin_object_def sax_do_eq split: if_splits)
  from parse_key_progress [OF this] have "token_left ps' < 2 * left (m_lexer (get_token (ps\<lparr>sax_state := s\<rparr>)))" by simp
  then show ?thesis using get_token_left(1) [of "ps\<lparr>sax_state := s\<rparr>"] True by (simp add: token_left_def)
next
  case False
  then have arr: "last_token ps = begin_array"
    using assms by (cases "last_token ps")
      (auto simp: parse_value_def Let_def parse_float_def sax_do_eq split: if_splits)
  then obtain s where "ps' = get_token (ps\<lparr>sax_state := s\<rparr>)
      \<lparr>states := True # states (get_token (ps\<lparr>sax_state := s\<rparr>))\<rparr>"
    using assms by (auto simp: parse_value_def Let_def parse_begin_array_def sax_do_eq split: if_splits)
  then show ?thesis
    using get_token_left [of "ps\<lparr>sax_state := s\<rparr>"] arr by (auto simp: token_left_def)
qed

lemma evaluate_progress:
  assumes "evaluate_state sax ps = Ok (Inr (Continue ps'))"
  shows "token_left ps' < 2 * left (m_lexer ps)"
proof -
  let ?t = "get_token ps"
  have lt: "last_token ?t \<noteq> end_of_input \<Longrightarrow> 2 * left (m_lexer ?t) + 1 < 2 * left (m_lexer ps)"
    using get_token_left(2) [of ps] by linarith
  have closed: "token_left ps' < 2 * left (m_lexer ps)"
    if "\<exists>s. ps' = ?t\<lparr>sax_state := s, states := tl (states ?t), skip_to_state_evaluation := True\<rparr>"
      and "last_token ?t \<noteq> end_of_input"
    using that lt by (auto simp: token_left_def)
  show ?thesis
  proof (cases "states ps")
    case (Cons b bs)
    show ?thesis
    proof (cases b)
      case True
      with Cons assms have "(last_token ?t = value_separator \<and> ps' = get_token ?t) \<or>
          (last_token ?t = end_array \<and> (\<exists>s. ps' = ?t\<lparr>sax_state := s, states := tl (states ?t), skip_to_state_evaluation := True\<rparr>))"
        by (auto simp: evaluate_state_def after_array_value_def Let_def sax_do_eq split: if_splits)
      then show ?thesis
      proof (elim disjE conjE)
        assume "last_token ?t = value_separator" "ps' = get_token ?t"
        then show ?thesis using lt get_token_token_left [of ?t] by simp
      qed (use closed in simp)
    next
      case False
      with Cons assms have "(last_token ?t = value_separator \<and> parse_key sax (get_token ?t) (\<lambda>ps. ps) = Ok (Inr (Continue ps'))) \<or>
          (last_token ?t = end_object \<and> (\<exists>s. ps' = ?t\<lparr>sax_state := s, states := tl (states ?t), skip_to_state_evaluation := True\<rparr>))"
        by (auto simp: evaluate_state_def after_object_value_def Let_def sax_do_eq split: if_splits)
      then show ?thesis
      proof (elim disjE conjE)
        assume "last_token ?t = value_separator" "parse_key sax (get_token ?t) (\<lambda>ps. ps) = Ok (Inr (Continue ps'))"
        then show ?thesis
          using lt parse_key_progress [of sax "get_token ?t" "\<lambda>ps. ps" ps'] get_token_left(1) [of ?t] by simp
      qed (use closed in simp)
    qed
  qed (use assms in \<open>simp add: evaluate_state_def\<close>)
qed

lemma parse_step_progress:
  assumes "parse_step sax ps = Ok (Inr (Continue ps'))"
  shows "token_left ps' < token_left ps"
proof (cases "skip_to_state_evaluation ps")
  case True
  with assms evaluate_progress [of sax "ps\<lparr>skip_to_state_evaluation := False\<rparr>" ps'] show ?thesis
    by (simp add: parse_step_def token_left_def split: if_splits)
next
  case False
  with assms obtain r where r: "parse_value sax ps = Ok r" "(case r of Inl ps \<Rightarrow> evaluate_state sax ps | Inr f \<Rightarrow> Ok (Inr f)) = Ok (Inr (Continue ps'))"
    by (auto simp: parse_step_def obind_eq_Ok)
  then show ?thesis
  proof (cases r)
    case (Inl q)
    with r evaluate_progress [of sax q ps'] parse_value_Inl [of sax ps q] show ?thesis by (simp add: token_left_def)
  qed (use r parse_value_progress [of sax ps ps'] in simp)
qed

function sax_parse_internal :: "'s sax \<Rightarrow> 's parse_state \<Rightarrow> (bool \<times> 's parse_state) outcome" where
  "sax_parse_internal sax ps =
     (case parse_step sax ps of
        Ok (Inr (Continue ps')) \<Rightarrow> sax_parse_internal sax ps'
      | Ok (Inr (Return r ps')) \<Rightarrow> Ok (r, ps')
      | Ok (Inl ps') \<Rightarrow> Undef
      | Throw e \<Rightarrow> Throw e
      | Undef \<Rightarrow> Undef
      | Hang \<Rightarrow> Hang)"
  by pat_completeness auto
termination
  by (relation "measure (token_left \<circ> snd)") (auto intro: parse_step_progress)

declare sax_parse_internal.simps [simp del]

text \<open>A step never stops between the switch and the code after it.\<close>

lemma evaluate_not_Inl [simp]: "evaluate_state sax ps \<noteq> Ok (Inl ps')"
  by (auto simp: evaluate_state_def after_array_value_def after_object_value_def Let_def sax_do_eq
      split: list.splits bool.splits if_splits)

lemma parse_step_not_Inl [simp]: "parse_step sax ps \<noteq> Ok (Inl ps')"
  by (auto simp: parse_step_def obind_eq_Ok split: sum.splits if_splits)

section \<open>The parser\<close>

text \<open>The constructor reads the first token.\<close>

definition new_parser :: "string \<Rightarrow> bool \<Rightarrow> 's \<Rightarrow> 's parse_state" where
  "new_parser adapter skip_comments s = get_token \<lparr>last_token = uninitialized, m_lexer = new_lexer adapter skip_comments,
     states = [], skip_to_state_evaluation = False, sax_state = s\<rparr>"

definition strict_error :: "'s parse_state \<Rightarrow> exn" where
  "strict_error ps = parse_error_exn 101 (lx_position (m_lexer ps)) (exception_message ps end_of_input ''value'')"

definition sax_parse :: "'s sax \<Rightarrow> bool \<Rightarrow> 's parse_state \<Rightarrow> (bool \<times> 's) outcome" where
  "sax_parse sax strict ps =
     obind (sax_parse_internal sax ps) (\<lambda>(result, ps).
       if result \<and> strict
       then (let ps = get_token ps in
             if last_token ps \<noteq> end_of_input
             then sax_parse_error sax (lx_position (m_lexer ps)) (get_token_string (m_lexer ps)) (strict_error ps) (sax_state ps)
             else Ok (result, sax_state ps))
       else Ok (result, sax_state ps))"

section \<open>The handler that accepts\<close>

definition json_sax_acceptor :: "unit sax" where
  "json_sax_acceptor = \<lparr>sax_call = (\<lambda>ev s. Ok (True, s)), sax_parse_error = (\<lambda>pos tok e s. Ok (False, s))\<rparr>"

definition json_accept :: "string \<Rightarrow> bool \<Rightarrow> bool outcome" where
  "json_accept i skip_comments = obind (sax_parse json_sax_acceptor True (new_parser i skip_comments ())) (\<lambda>(r, s). Ok r)"

section \<open>The handler that builds the value\<close>

datatype step = Elem nat | Member string

type_synonym path = "step list"

fun json_get :: "path \<Rightarrow> json \<Rightarrow> json option" where
  "json_get [] j = Some j"
| "json_get (Elem i # p) (JArray xs) = (if i < length xs then json_get p (xs ! i) else None)"
| "json_get (Member k # p) (JObject m) = (case map_of m k of Some v \<Rightarrow> json_get p v | None \<Rightarrow> None)"
| "json_get (_ # p) j = None"

fun json_put :: "path \<Rightarrow> json \<Rightarrow> json \<Rightarrow> json" where
  "json_put [] v j = v"
| "json_put (Elem i # p) v (JArray xs) = JArray (xs[i := json_put p v (xs ! i)])"
| "json_put (Member k # p) v (JObject m) =
     JObject (case map_of m k of Some w \<Rightarrow> map_assign k (json_put p v w) m | None \<Rightarrow> m)"
| "json_put (_ # p) v j = j"

record dom =
  root :: json
  ref_stack :: "path list"
  object_element :: "path option"
  errored :: bool
  allow_exceptions :: bool

definition new_dom :: "bool \<Rightarrow> dom" where
  "new_dom allow = \<lparr>root = JNull, ref_stack = [], object_element = None, errored = False, allow_exceptions = allow\<rparr>"

definition handle_value :: "json \<Rightarrow> dom \<Rightarrow> (path \<times> dom) outcome" where
  "handle_value v d =
     (case ref_stack d of
        [] \<Rightarrow> Ok ([], d\<lparr>root := v\<rparr>)
      | p # _ \<Rightarrow>
          (case json_get p (root d) of
             Some (JArray xs) \<Rightarrow> Ok (p @ [Elem (length xs)], d\<lparr>root := json_put p (JArray (xs @ [v])) (root d)\<rparr>)
           | Some (JObject m) \<Rightarrow>
               (case object_element d of
                  Some q \<Rightarrow> (if json_get q (root d) = None then Undef else Ok (q, d\<lparr>root := json_put q v (root d)\<rparr>))
                | None \<Rightarrow> Undef)
           | _ \<Rightarrow> Undef))"

definition dom_value :: "json \<Rightarrow> dom \<Rightarrow> (bool \<times> dom) outcome" where
  "dom_value v d = obind (handle_value v d) (\<lambda>(_, d). Ok (True, d))"

definition dom_start :: "json \<Rightarrow> dom \<Rightarrow> (bool \<times> dom) outcome" where
  "dom_start v d = obind (handle_value v d) (\<lambda>(p, d). Ok (True, d\<lparr>ref_stack := p # ref_stack d\<rparr>))"

text \<open>Closing pops the stack; the parents are only used for diagnostics.\<close>

definition dom_end_object :: "dom \<Rightarrow> (bool \<times> dom) outcome" where
  "dom_end_object d = (case ref_stack d of
       [] \<Rightarrow> Undef
     | p # ps \<Rightarrow> (case json_get p (root d) of Some (JObject m) \<Rightarrow> Ok (True, d\<lparr>ref_stack := ps\<rparr>) | _ \<Rightarrow> Undef))"

definition dom_end_array :: "dom \<Rightarrow> (bool \<times> dom) outcome" where
  "dom_end_array d = (case ref_stack d of
       [] \<Rightarrow> Undef
     | p # ps \<Rightarrow> (case json_get p (root d) of Some (JArray xs) \<Rightarrow> Ok (True, d\<lparr>ref_stack := ps\<rparr>) | _ \<Rightarrow> Undef))"

definition dom_key :: "string \<Rightarrow> dom \<Rightarrow> (bool \<times> dom) outcome" where
  "dom_key val d = (case ref_stack d of
       [] \<Rightarrow> Undef
     | p # _ \<Rightarrow> (case json_get p (root d) of
           Some (JObject m) \<Rightarrow> Ok (True, d\<lparr>root := json_put p (JObject (map_emplace val JNull m)) (root d),
                                        object_element := Some (p @ [Member val])\<rparr>)
         | _ \<Rightarrow> Undef))"

primrec dom_call :: "sax_event \<Rightarrow> dom \<Rightarrow> (bool \<times> dom) outcome" where
  "dom_call Null_event d = dom_value JNull d"
| "dom_call (Boolean_event b) d = dom_value (JBoolean b) d"
| "dom_call (Number_integer_event i) d = dom_value (JInteger i) d"
| "dom_call (Number_unsigned_event n) d = dom_value (JUnsigned n) d"
| "dom_call (Number_float_event x s) d = dom_value (JFloat x) d"
| "dom_call (String_event s) d = dom_value (JString s) d"
| "dom_call Start_object d = dom_start (JObject []) d"
| "dom_call (Key k) d = dom_key k d"
| "dom_call End_object d = dom_end_object d"
| "dom_call Start_array d = dom_start (JArray []) d"
| "dom_call End_array d = dom_end_array d"

definition dom_parse_error :: "position_t \<Rightarrow> string \<Rightarrow> exn \<Rightarrow> dom \<Rightarrow> (bool \<times> dom) outcome" where
  "dom_parse_error pos tok ex d =
     (let d = d\<lparr>errored := True\<rparr> in if allow_exceptions d then Throw ex else Ok (False, d))"

definition json_sax_dom_parser :: "dom sax" where
  "json_sax_dom_parser = \<lparr>sax_call = dom_call, sax_parse_error = dom_parse_error\<rparr>"

text \<open>\<^verbatim>\<open>parser::parse\<close> without a callback, and \<^verbatim>\<open>basic_json::parse\<close>.\<close>

definition parser_parse :: "bool \<Rightarrow> dom parse_state \<Rightarrow> json outcome" where
  "parser_parse strict ps =
     obind (sax_parse_internal json_sax_dom_parser ps) (\<lambda>(_, ps).
     let ps = (if strict then get_token ps else ps) in
     obind (if strict \<and> last_token ps \<noteq> end_of_input
            then dom_parse_error (lx_position (m_lexer ps)) (get_token_string (m_lexer ps)) (strict_error ps) (sax_state ps)
            else Ok (True, sax_state ps)) (\<lambda>(_, d).
     Ok (if errored d then JDiscarded else root d)))"

definition json_parse :: "string \<Rightarrow> bool \<Rightarrow> bool \<Rightarrow> json outcome" where
  "json_parse i allow skip_comments = parser_parse True (new_parser i skip_comments (new_dom allow))"

end
