(* ===== verification/JsonDom.thy ===== *)
theory JsonDom
  imports JsonParser
begin

text \<open>
  What the token loop promises its handlers and what a handler promises the loop
  (\<^verbatim>\<open>external/json.hpp\<close>, \<^verbatim>\<open>sax_parse_internal\<close> and the SAX interface), as a locale, and its two
  providers: the acceptor, and the DOM handler, whose pointers into the value under construction
  implement a stack of open containers. From this follow that parsing neither fails an assertion nor
  follows a pointer to nothing, that it throws exceptions of the library only, and that
  \<^verbatim>\<open>accept\<close> says yes exactly when \<^verbatim>\<open>parse\<close> returns a value.
\<close>

section \<open>The interface\<close>

text \<open>What may come next: a value, a key or the end of an object, nothing more. \<open>after st\<close> is the mode once a
  value is complete inside the open containers \<open>st\<close> (\<open>True\<close> for an array), innermost first.\<close>

datatype mode = Due | Open | Done

primrec after :: "bool list \<Rightarrow> mode" where
  "after [] = Done"
| "after (b # st) = (if b then Due else Open)"

primrec is_scalar :: "sax_event \<Rightarrow> bool" where
  "is_scalar Null_event = True"
| "is_scalar (Boolean_event b) = True"
| "is_scalar (Number_integer_event i) = True"
| "is_scalar (Number_unsigned_event n) = True"
| "is_scalar (Number_float_event x s) = True"
| "is_scalar (String_event s) = True"
| "is_scalar Start_object = False"
| "is_scalar (Key k) = False"
| "is_scalar End_object = False"
| "is_scalar Start_array = False"
| "is_scalar End_array = False"

text \<open>An answer: the library's exception, a refusal (\<open>F\<close> then holds), or consent (\<open>P\<close> then holds).\<close>

fun answers :: "('s \<Rightarrow> bool) \<Rightarrow> ('s \<Rightarrow> bool) \<Rightarrow> (bool \<times> 's) outcome \<Rightarrow> bool" where
  "answers F P (Ok (ok, s)) = (if ok then P s else F s)"
| "answers F P (Throw (Json_Exception e)) = True"
| "answers F P _ = False"

locale sax_handler =
  fixes sax :: "'s sax" and inv :: "bool list \<Rightarrow> mode \<Rightarrow> 's \<Rightarrow> bool" and failed :: "'s \<Rightarrow> bool"
  assumes on_value: "inv st Due s \<Longrightarrow> is_scalar ev \<Longrightarrow> answers failed (inv st (after st)) (sax_call sax ev s)"
    and on_start_object: "inv st Due s \<Longrightarrow> answers failed (inv (False # st) Open) (sax_call sax Start_object s)"
    and on_start_array: "inv st Due s \<Longrightarrow> answers failed (inv (True # st) Due) (sax_call sax Start_array s)"
    and on_key: "inv (False # st) Open s \<Longrightarrow> answers failed (inv (False # st) Due) (sax_call sax (Key k) s)"
    and on_end_object: "inv (False # st) Open s \<Longrightarrow> answers failed (inv st (after st)) (sax_call sax End_object s)"
    and on_end_array: "inv (True # st) Due s \<Longrightarrow> answers failed (inv st (after st)) (sax_call sax End_array s)"
    and on_error: "inv st m s \<Longrightarrow> answers failed (\<lambda>_. False) (sax_parse_error sax pos tok (Json_Exception e) s)"
begin

definition live :: "'s parse_state \<Rightarrow> bool" where
  "live ps \<longleftrightarrow> (\<exists>st m. inv st m (sax_state ps))"

lemma liveI: "inv st m (sax_state ps) \<Longrightarrow> live ps"
  by (auto simp: live_def)

lemma live_update: "inv st m s \<Longrightarrow> live (ps\<lparr>sax_state := s\<rparr>)"
  by (auto simp: live_def)

lemma live_token [simp]: "live (get_token ps) = live ps"
  by (simp add: live_def)

definition at_head :: "'s parse_state \<Rightarrow> bool" where
  "at_head ps \<longleftrightarrow> inv (states ps) (if skip_to_state_evaluation ps then after (states ps) else Due) (sax_state ps)"

definition after_value :: "'s parse_state \<Rightarrow> bool" where
  "after_value ps \<longleftrightarrow> \<not> skip_to_state_evaluation ps \<and> inv (states ps) (after (states ps)) (sax_state ps)"

fun flow_ok :: "('s parse_state + 's flow) outcome \<Rightarrow> bool" where
  "flow_ok (Ok (Inl ps)) = after_value ps"
| "flow_ok (Ok (Inr (Continue ps))) = at_head ps"
| "flow_ok (Ok (Inr (Return r ps))) = (if r then inv [] Done (sax_state ps) else failed (sax_state ps))"
| "flow_ok (Throw (Json_Exception e)) = True"
| "flow_ok _ = False"

lemma do_ok:
  "answers failed Q (sax_call sax ev (sax_state ps)) \<Longrightarrow> (\<And>s. Q s \<Longrightarrow> flow_ok (k (ps\<lparr>sax_state := s\<rparr>))) \<Longrightarrow>
   flow_ok (sax_do sax ev ps k)"
  by (cases "(failed, Q, sax_call sax ev (sax_state ps))" rule: answers.cases) (auto simp: sax_do_def)

lemma error_ok:
  assumes "live ps"
  shows "flow_ok (sax_error sax (Json_Exception e) ps)"
proof -
  obtain st m where "inv st m (sax_state ps)" using assms by (auto simp: live_def)
  from on_error [OF this, of "lx_position (m_lexer ps)" "get_token_string (m_lexer ps)" e] show ?thesis
    by (cases "(failed, \<lambda>_::'s. False, sax_parse_error sax (lx_position (m_lexer ps)) (get_token_string (m_lexer ps))
      (Json_Exception e) (sax_state ps))" rule: answers.cases) (auto simp: sax_error_def split: if_splits)
qed

lemma errors_ok [simp]:
  "live ps \<Longrightarrow> flow_ok (sax_syntax_error sax t c ps)" "live ps \<Longrightarrow> flow_ok (sax_error sax (parse_error_exn n pos msg) ps)"
  "live ps \<Longrightarrow> flow_ok (sax_error sax (out_of_range n msg) ps)"
  by (simp_all add: sax_syntax_error_def parse_error_exn_def out_of_range_def error_ok)

lemma key_ok:
  assumes "inv (False # st) Open (sax_state ps)" and "\<not> skip_to_state_evaluation ps"
    and "\<And>q. states q = states ps \<Longrightarrow> states (rem q) = False # st" "\<And>q. sax_state (rem q) = sax_state q"
    and "\<And>q. skip_to_state_evaluation (rem q) = skip_to_state_evaluation q"
  shows "flow_ok (parse_key sax ps rem)"
proof -
  have "flow_ok (let q = get_token (ps\<lparr>sax_state := s\<rparr>) in
      if last_token q \<noteq> name_separator then sax_syntax_error sax name_separator ''object separator'' q
      else Ok (Inr (Continue (get_token (rem q)))))" if "inv (False # st) Due s" for s
    using assms(2-) that live_update [OF that, of ps] by (simp add: Let_def at_head_def)
  then show ?thesis
    using liveI [OF assms(1)] by (auto simp: parse_key_def intro!: do_ok [OF on_key [OF assms(1)]])
qed

lemma value_ok:
  assumes "inv (states ps) Due (sax_state ps)" and "\<not> skip_to_state_evaluation ps"
  shows "flow_ok (parse_value sax ps)"
proof -
  have scalar: "flow_ok (sax_do sax ev ps (\<lambda>ps. Ok (Inl ps)))" if "is_scalar ev" for ev
    using assms(2) by (auto simp: after_value_def intro: do_ok [OF on_value [OF assms(1) that]])
  have object: "flow_ok (parse_begin_object sax ps)"
    unfolding parse_begin_object_def Let_def
  proof (rule do_ok [OF on_start_object [OF assms(1)]])
    fix s
    let ?q = "get_token (ps\<lparr>sax_state := s\<rparr>)"
    assume inv: "inv (False # states ps) Open s"
    have "flow_ok (sax_do sax End_object ?q (\<lambda>ps. Ok (Inl ps)))"
      by (rule do_ok [OF on_end_object [of "states ps"]]) (use inv assms(2) in \<open>auto simp: after_value_def\<close>)
    moreover have "flow_ok (parse_key sax ?q (\<lambda>ps. ps\<lparr>states := False # states ps\<rparr>))"
      by (rule key_ok [of "states ps"]) (use inv assms(2) in auto)
    ultimately show "flow_ok (if last_token ?q = end_object then sax_do sax End_object ?q (\<lambda>ps. Ok (Inl ps))
        else parse_key sax ?q (\<lambda>ps. ps\<lparr>states := False # states ps\<rparr>))" by simp
  qed
  have array: "flow_ok (parse_begin_array sax ps)"
    unfolding parse_begin_array_def Let_def
  proof (rule do_ok [OF on_start_array [OF assms(1)]])
    fix s
    let ?q = "get_token (ps\<lparr>sax_state := s\<rparr>)"
    assume inv: "inv (True # states ps) Due s"
    have "flow_ok (sax_do sax End_array ?q (\<lambda>ps. Ok (Inl ps)))"
      by (rule do_ok [OF on_end_array [of "states ps"]]) (use inv assms(2) in \<open>auto simp: after_value_def\<close>)
    then show "flow_ok (if last_token ?q = end_array then sax_do sax End_array ?q (\<lambda>ps. Ok (Inl ps))
        else Ok (Inr (Continue (?q\<lparr>states := True # states ?q\<rparr>))))"
      using inv assms(2) by (simp add: at_head_def)
  qed
  show ?thesis
    using scalar object array liveI [OF assms(1)]
    by (cases "last_token ps") (simp_all add: parse_value_def parse_float_def Let_def)
qed

lemma evaluate_ok:
  assumes "after_value ps"
  shows "flow_ok (evaluate_state sax ps)"
proof (cases "states ps")
  case Nil
  with assms show ?thesis by (simp add: evaluate_state_def after_value_def)
next
  case (Cons b st)
  let ?q = "get_token ps"
  show ?thesis
  proof (cases b)
    case True
    with Cons assms have inv: "inv (True # st) Due (sax_state ?q)" "\<not> skip_to_state_evaluation ?q"
      by (auto simp: after_value_def)
    have "flow_ok (sax_do sax End_array ?q (\<lambda>ps. Ok (Inr (Continue (ps\<lparr>states := tl (states ps), skip_to_state_evaluation := True\<rparr>)))))"
      by (rule do_ok [OF on_end_array [OF inv(1)]]) (use Cons in \<open>simp add: at_head_def\<close>)
    with inv Cons True liveI [OF inv(1)] show ?thesis
      by (simp add: evaluate_state_def after_array_value_def Let_def at_head_def)
  next
    case False
    with Cons assms have inv: "inv (False # st) Open (sax_state ?q)" "\<not> skip_to_state_evaluation ?q"
      by (auto simp: after_value_def)
    have "flow_ok (sax_do sax End_object ?q (\<lambda>ps. Ok (Inr (Continue (ps\<lparr>states := tl (states ps), skip_to_state_evaluation := True\<rparr>)))))"
      by (rule do_ok [OF on_end_object [OF inv(1)]]) (use Cons in \<open>simp add: at_head_def\<close>)
    moreover have "flow_ok (parse_key sax (get_token ?q) (\<lambda>ps. ps))"
      by (rule key_ok [of st]) (use inv Cons False in auto)
    ultimately show ?thesis using Cons False liveI [OF inv(1)]
      by (simp add: evaluate_state_def after_object_value_def Let_def)
  qed
qed

lemma step_ok:
  assumes "at_head ps"
  shows "flow_ok (parse_step sax ps)"
proof (cases "skip_to_state_evaluation ps")
  case True
  with assms evaluate_ok [of "ps\<lparr>skip_to_state_evaluation := False\<rparr>"] show ?thesis
    by (simp add: parse_step_def at_head_def after_value_def)
next
  case False
  with assms value_ok [of ps] have v: "flow_ok (parse_value sax ps)" by (simp add: at_head_def)
  have "parse_step sax ps = obind (parse_value sax ps) (\<lambda>r. case r of Inl ps \<Rightarrow> evaluate_state sax ps | Inr f \<Rightarrow> Ok (Inr f))"
    using False by (simp add: parse_step_def)
  with v evaluate_ok show ?thesis by (cases "parse_value sax ps" rule: flow_ok.cases) simp_all
qed

text \<open>The loop answers: with the handler's last word.\<close>

lemma loop_answers:
  "at_head ps \<Longrightarrow> answers (\<lambda>ps. failed (sax_state ps)) (\<lambda>ps. inv [] Done (sax_state ps)) (sax_parse_internal sax ps)"
proof (induction "token_left ps" arbitrary: ps rule: less_induct)
  case less
  from step_ok [OF less.prems] show ?case
  proof (cases "parse_step sax ps" rule: flow_ok.cases)
    case (2 ps')
    with less.hyps [OF parse_step_progress [OF 2]] step_ok [OF less.prems] show ?thesis
      by (simp add: sax_parse_internal.simps [of sax ps])
  qed (auto simp: sax_parse_internal.simps [of sax ps])
qed

lemma new_parser_head: "inv [] Due s \<Longrightarrow> at_head (new_parser i c s)"
  by (simp add: at_head_def new_parser_def)

end

section \<open>The acceptor\<close>

text \<open>The acceptor keeps no state and refuses nothing but an error.\<close>

interpretation acceptor: sax_handler json_sax_acceptor "\<lambda>st m s. True" "\<lambda>s. True"
  by unfold_locales (simp_all add: json_sax_acceptor_def)

section \<open>The DOM handler as a stack of open containers\<close>

text \<open>The containers under construction, the innermost first: an array with its elements so far, an object
  with its members so far and the key last read. The value under construction is the innermost
  container put into its parents. The position of an open container in its parent is the next element,
  or the member of that key.\<close>

datatype frame = Arr "json list" | Obj "(string \<times> json) list" string

primrec content :: "frame \<Rightarrow> json" where
  "content (Arr xs) = JArray xs"
| "content (Obj m k) = JObject m"

primrec add_value :: "json \<Rightarrow> frame \<Rightarrow> frame" where
  "add_value v (Arr xs) = Arr (xs @ [v])"
| "add_value v (Obj m k) = Obj (map_assign k v m) k"

primrec plug :: "json \<Rightarrow> frame list \<Rightarrow> json" where
  "plug c [] = c"
| "plug c (f # fs) = plug (content (add_value c f)) fs"

primrec next_step :: "frame \<Rightarrow> step" where
  "next_step (Arr xs) = Elem (length xs)"
| "next_step (Obj m k) = Member k"

primrec path_of :: "frame list \<Rightarrow> path" where
  "path_of [] = []"
| "path_of (f # fs) = path_of fs @ [next_step f]"

primrec paths :: "frame list \<Rightarrow> path list" where
  "paths [] = []"
| "paths (f # fs) = path_of fs # paths fs"

primrec frame_ok :: "frame \<Rightarrow> bool" where
  "frame_ok (Arr xs) = True"
| "frame_ok (Obj m k) = sorted_keys m"

primrec is_array :: "frame \<Rightarrow> bool" where
  "is_array (Arr xs) = True"
| "is_array (Obj m k) = False"

lemma map_assign_twice: "map_assign k v (map_assign k w m) = map_assign k v m"
  by (induction k w m rule: map_assign.induct) auto

lemma get_plug: "list_all frame_ok fs \<Longrightarrow> json_get (path_of fs @ p) (plug c fs) = json_get p c"
proof (induction fs arbitrary: p c)
  case (Cons f fs)
  then show ?case by (cases f) (simp_all add: map_of_assign)
qed simp

lemma put_plug: "list_all frame_ok fs \<Longrightarrow> json_put (path_of fs @ p) v (plug c fs) = plug (json_put p v c) fs"
proof (induction fs arbitrary: p c)
  case (Cons f fs)
  then show ?case by (cases f) (simp_all add: map_of_assign map_assign_twice)
qed simp

lemmas plug_simps = get_plug [of _ "[]", simplified] put_plug [of _ "[]", simplified]

lemma is_array_add [simp]: "is_array (add_value v f) = is_array f"
  by (cases f) simp_all

lemma frame_ok_add: "frame_ok f \<Longrightarrow> frame_ok (add_value v f)"
  by (cases f) (simp_all add: sorted_map_assign)

text \<open>The machine on open containers: a finished value is placed in the innermost one, or is the result.\<close>

type_synonym build = "frame list \<times> json"

fun place :: "json \<Rightarrow> build \<Rightarrow> build" where
  "place x ([], v) = ([], x)"
| "place x (f # fs, v) = (add_value x f # fs, v)"

fun build_key :: "string \<Rightarrow> build \<Rightarrow> build" where
  "build_key k (Obj m k' # fs, v) = (Obj (map_emplace k JNull m) k # fs, v)"
| "build_key k b = b"

fun build_end :: "build \<Rightarrow> build" where
  "build_end (f # fs, v) = place (content f) (fs, v)"
| "build_end b = b"

primrec build_call :: "sax_event \<Rightarrow> build \<Rightarrow> build" where
  "build_call Null_event b = place JNull b"
| "build_call (Boolean_event x) b = place (JBoolean x) b"
| "build_call (Number_integer_event i) b = place (JInteger i) b"
| "build_call (Number_unsigned_event n) b = place (JUnsigned n) b"
| "build_call (Number_float_event x s) b = place (JFloat x) b"
| "build_call (String_event s) b = place (JString s) b"
| "build_call Start_object b = (Obj [] [] # fst b, snd b)"
| "build_call (Key k) b = build_key k b"
| "build_call End_object b = build_end b"
| "build_call Start_array b = (Arr [] # fst b, snd b)"
| "build_call End_array b = build_end b"

fun value_of :: "build \<Rightarrow> json" where
  "value_of ([], v) = v"
| "value_of (f # fs, v) = plug (content f) fs"

fun due_at :: "frame list \<Rightarrow> path option \<Rightarrow> bool" where
  "due_at (Obj m k # fs) q \<longleftrightarrow> q = Some (path_of (Obj m k # fs)) \<and> k \<in> fst ` set m"
| "due_at fs q \<longleftrightarrow> True"

definition mode_fits :: "mode \<Rightarrow> bool list \<Rightarrow> bool" where
  "mode_fits m st = (case m of Due \<Rightarrow> True | Open \<Rightarrow> st \<noteq> [] \<and> \<not> hd st | Done \<Rightarrow> st = [])"

text \<open>A handler that has met no error, and lets exceptions through if \<open>al\<close>.\<close>

definition clean :: "bool \<Rightarrow> dom \<Rightarrow> bool" where
  "clean al d \<longleftrightarrow> \<not> errored d \<and> allow_exceptions d = al"

lemma clean_simps [simp]:
  "clean al (d\<lparr>root := v\<rparr>) = clean al d" "clean al (d\<lparr>object_element := q\<rparr>) = clean al d"
  "clean al (d\<lparr>ref_stack := ps\<rparr>) = clean al d"
  by (simp_all add: clean_def)

definition represents :: "bool list \<Rightarrow> mode \<Rightarrow> build \<Rightarrow> dom \<Rightarrow> bool" where
  "represents st m b d \<longleftrightarrow> st = map is_array (fst b) \<and> mode_fits m st \<and> list_all frame_ok (fst b)
     \<and> ref_stack d = paths (fst b) \<and> root d = value_of b \<and> (m = Due \<longrightarrow> due_at (fst b) (object_element d))"

lemma set_map_emplace: "fst ` set (map_emplace k v m) = insert k (fst ` set m)"
  by (induction k v m rule: map_emplace.induct) auto

lemma sorted_map_emplace: "sorted_keys m \<Longrightarrow> sorted_keys (map_emplace k v m)"
proof (induction k v m rule: map_emplace.induct)
  case (2 k v k' v' m)
  have "\<forall>x \<in> fst ` set (map_emplace k v m). k' < x" if "k' < k"
    unfolding set_map_emplace using 2(2) that by (auto simp: sorted_keys_def)
  with 2 show ?case by (auto simp: sorted_keys_def)
qed (simp add: sorted_keys_def)

lemma mode_fits_after [simp]: "mode_fits (after st) st"
  by (cases st) (auto simp: mode_fits_def)

text \<open>Handling a value places it; the pointer it returns is where the value now is.\<close>

lemma handle_value_represents:
  assumes "represents st Due b d"
  obtains d' where "handle_value v d = Ok (path_of (fst b), d')" "clean al d' = clean al d" "ref_stack d' = ref_stack d"
    "object_element d' = object_element d" "root d' = value_of (place v b)"
proof -
  note rep = assms [unfolded represents_def]
  show ?thesis
  proof (cases b rule: value_of.cases)
    case (1 w)
    with rep show ?thesis by (auto intro!: that [of "d\<lparr>root := v\<rparr>"] simp: handle_value_def)
  next
    case (2 f fs w)
    with rep have ok: "list_all frame_ok fs" "frame_ok f" by auto
    show ?thesis
    proof (cases f)
      case (Arr xs)
      with rep 2 ok show ?thesis
        by (auto intro!: that [of "d\<lparr>root := plug (JArray (xs @ [v])) fs\<rparr>"] simp: handle_value_def plug_simps)
    next
      case (Obj m k)
      then have elem: "object_element d = Some (path_of fs @ [Member k])" and "k \<in> fst ` set m"
        using rep 2 by auto
      then obtain w' where "map_of m k = Some w'" by (metis map_of_eq_None_iff not_None_eq)
      with rep 2 ok Obj elem show ?thesis
        by (auto intro!: that [of "d\<lparr>root := plug (JObject (map_assign k v m)) fs\<rparr>"]
            simp: handle_value_def plug_simps get_plug put_plug)
    qed
  qed
qed

lemma place_frames: "map is_array (fst (place v b)) = map is_array (fst b)"
  "list_all frame_ok (fst b) \<Longrightarrow> list_all frame_ok (fst (place v b))" "paths (fst (place v b)) = paths (fst b)"
  by (cases "(v, b)" rule: place.cases; simp add: frame_ok_add)+

lemma due_after_place: "after (map is_array (fst b)) = Due \<Longrightarrow> due_at (fst (place v b)) q"
  by (cases "(v, b)" rule: place.cases; cases "hd (fst b)") (auto split: if_splits)

lemma represents_place:
  assumes "represents st m b d" and "ref_stack d' = paths (fst b)" and "root d' = value_of (place v b)"
  shows "represents st (after st) (place v b) d'"
  using assms place_frames due_after_place [of b v "object_element d'"] by (auto simp: represents_def)

definition scalar_value :: "sax_event \<Rightarrow> json" where
  "scalar_value ev = snd (build_call ev ([], JNull))"

lemma dom_scalar:
  assumes "is_scalar ev"
  shows "dom_call ev d = dom_value (scalar_value ev) d" "build_call ev b = place (scalar_value ev) b"
  using assms by (cases ev; simp add: scalar_value_def)+

lemma value_represents:
  assumes "represents st Due b d" and "is_scalar ev"
  shows "\<exists>d'. dom_call ev d = Ok (True, d') \<and> clean al d' = clean al d \<and> represents st (after st) (build_call ev b) d'"
proof (rule handle_value_represents [OF assms(1), of "scalar_value ev"])
  fix d'
  assume d': "handle_value (scalar_value ev) d = Ok (path_of (fst b), d')" "clean al d' = clean al d"
    "ref_stack d' = ref_stack d" "root d' = value_of (place (scalar_value ev) b)"
  with assms(1) have "ref_stack d' = paths (fst b)" by (simp add: represents_def)
  from represents_place [OF assms(1) this d'(4)] show ?thesis
    using d' dom_scalar [OF assms(2)] by (simp add: dom_value_def)
qed

lemma start_represents:
  assumes "represents st Due b d" and "f = Arr [] \<or> f = Obj [] []"
  shows "\<exists>d'. dom_start (content f) d = Ok (True, d') \<and> clean al d' = clean al d
    \<and> represents (is_array f # st) (if is_array f then Due else Open) (f # fst b, snd b) d'"
proof (rule handle_value_represents [OF assms(1), of "content f"])
  fix d'
  assume d': "handle_value (content f) d = Ok (path_of (fst b), d')" "clean al d' = clean al d"
    "ref_stack d' = ref_stack d" "root d' = value_of (place (content f) b)"
  have "value_of (place (content f) b) = plug (content f) (fst b)" by (cases b rule: value_of.cases) simp_all
  with d' assms show ?thesis
    by (auto simp: dom_start_def represents_def mode_fits_def sorted_keys_def)
qed

lemma key_represents:
  assumes "represents (False # st) Open b d"
  shows "\<exists>d'. dom_call (Key k) d = Ok (True, d') \<and> clean al d' = clean al d \<and> represents (False # st) Due (build_call (Key k) b) d'"
proof -
  from assms obtain m k' fs v where b: "b = (Obj m k' # fs, v)"
    by (cases "(k, b)" rule: build_key.cases) (auto simp: represents_def)
  note rep = assms [unfolded represents_def b]
  then have "json_get (path_of fs) (root d) = Some (JObject m)"
    "json_put (path_of fs) (JObject (map_emplace k JNull m)) (root d) = plug (JObject (map_emplace k JNull m)) fs"
    by (auto simp: plug_simps)
  with rep show ?thesis
    by (auto simp: dom_key_def represents_def b set_map_emplace sorted_map_emplace mode_fits_def)
qed

lemma end_represents:
  assumes "represents (a # st) (if a then Due else Open) b d"
  shows "\<exists>d'. dom_call (if a then End_array else End_object) d = Ok (True, d') \<and> clean al d' = clean al d
    \<and> represents st (after st) (build_end b) d'"
proof -
  from assms obtain f fs v where b: "b = (f # fs, v)" "a = is_array f"
    by (cases b rule: build_end.cases) (auto simp: represents_def)
  note rep = assms [unfolded represents_def b]
  have get: "json_get (path_of fs) (root d) = Some (content f)" using rep by (simp add: plug_simps)
  have val: "value_of (place (content f) (fs, v)) = plug (content f) fs" by (cases fs) simp_all
  let ?d = "d\<lparr>ref_stack := paths fs\<rparr>"
  have "dom_call (if a then End_array else End_object) d = Ok (True, ?d)"
    using rep get by (cases f) (simp_all add: b dom_end_array_def dom_end_object_def)
  moreover have "represents st (after st) (place (content f) (fs, v)) ?d"
    using rep val place_frames [where b = "(fs, v)" and v = "content f"] due_after_place [of "(fs, v)" "content f" "object_element d"]
    by (auto simp: represents_def)
  ultimately show ?thesis by (auto simp: b)
qed

definition dom_inv :: "bool \<Rightarrow> bool list \<Rightarrow> mode \<Rightarrow> dom \<Rightarrow> bool" where
  "dom_inv al st m d \<longleftrightarrow> clean al d \<and> (\<exists>b. represents st m b d)"

definition dom_failed :: "bool \<Rightarrow> dom \<Rightarrow> bool" where
  "dom_failed al d \<longleftrightarrow> errored d \<and> \<not> al"

lemma represents_answers:
  assumes "\<exists>d'. x = Ok (True, d') \<and> clean al d' = clean al d \<and> represents st m b d'" and "clean al d"
  shows "answers F (dom_inv al st m) x"
  using assms by (auto simp: dom_inv_def simp del: split_paired_Ex)

lemma dom_invE:
  assumes "dom_inv al st m d"
  obtains b where "clean al d" "represents st m b d"
  using assms by (auto simp: dom_inv_def)

interpretation dom: sax_handler json_sax_dom_parser "dom_inv al" "dom_failed al" for al :: bool
proof (unfold_locales, unfold json_sax_dom_parser_def sax.simps, goal_cases)
  case (1 st s ev)
  from 1(1) show ?case by (elim dom_invE) (rule represents_answers [OF value_represents [OF _ 1(2)]])
next
  case (2 st s)
  then show ?case
    by (simp, elim dom_invE) (rule represents_answers [OF start_represents [where f = "Obj [] []", simplified]])
next
  case (3 st s)
  then show ?case
    by (simp, elim dom_invE) (rule represents_answers [OF start_represents [where f = "Arr []", simplified]])
next
  case (4 st s k)
  then show ?case by (elim dom_invE) (rule represents_answers [OF key_represents])
next
  case (5 st s)
  then show ?case by (simp, elim dom_invE) (rule represents_answers [OF end_represents [where a = False, simplified]])
next
  case (6 st s)
  then show ?case by (simp, elim dom_invE) (rule represents_answers [OF end_represents [where a = True, simplified]])
next
  case (7 st m s pos tok e)
  then show ?case by (auto simp: dom_parse_error_def Let_def dom_inv_def dom_failed_def clean_def)
qed

section \<open>Handlers that consent\<close>

text \<open>A handler that never refuses an event (it may still throw from \<^verbatim>\<open>parse_error\<close>) sees the same tokens as
  the acceptor, whatever it builds from them.\<close>

fun agree :: "'s parse_state \<Rightarrow> 't parse_state \<Rightarrow> bool" where
  "agree ps qs \<longleftrightarrow> last_token ps = last_token qs \<and> m_lexer ps = m_lexer qs \<and> states ps = states qs
     \<and> skip_to_state_evaluation ps = skip_to_state_evaluation qs"

fun follows :: "('s parse_state + 's flow) outcome \<Rightarrow> ('t parse_state + 't flow) outcome \<Rightarrow> bool" where
  "follows (Ok (Inl ps)) (Ok (Inl qs)) = agree ps qs"
| "follows (Ok (Inr (Continue ps))) (Ok (Inr (Continue qs))) = agree ps qs"
| "follows (Ok (Inr (Return r ps))) (Ok (Inr (Return r' qs))) = (r = r' \<and> agree ps qs)"
| "follows (Throw e) (Ok (Inr (Return r qs))) = (\<not> r)"
| "follows _ _ = False"

lemma get_token_agree: "agree ps qs \<Longrightarrow> agree (get_token ps) (get_token qs)"
  by (simp add: get_token_def split: prod.split)

lemma unit_state [simp]: "qs\<lparr>sax_state := ()\<rparr> = qs"
  by (cases qs) simp

locale consenting_handler = sax_handler +
  assumes consents: "sax_call sax ev s = Undef \<or> (\<exists>s'. sax_call sax ev s = Ok (True, s'))"
begin

lemma do_follows:
  assumes "answers failed Q (sax_call sax ev (sax_state ps))" and "agree ps qs"
    and "\<And>s. Q s \<Longrightarrow> agree (ps\<lparr>sax_state := s\<rparr>) qs \<Longrightarrow> follows (k (ps\<lparr>sax_state := s\<rparr>)) (k' qs)"
  shows "follows (sax_do sax ev ps k) (sax_do json_sax_acceptor ev qs k')"
proof -
  obtain s where "sax_call sax ev (sax_state ps) = Ok (True, s)" "Q s"
    using assms(1) consents [of ev "sax_state ps"] by auto
  with assms(2,3) show ?thesis by (simp add: sax_do_def json_sax_acceptor_def)
qed

lemma error_follows:
  assumes "live ps" and "agree ps qs"
  shows "follows (sax_error sax (Json_Exception e) ps) (sax_error json_sax_acceptor e' qs)"
proof -
  obtain st m where "inv st m (sax_state ps)" using assms(1) by (auto simp: live_def)
  from assms(2) on_error [OF this, of "lx_position (m_lexer ps)" "get_token_string (m_lexer ps)" e] show ?thesis
    by (cases "(failed, \<lambda>_::'a. False, sax_parse_error sax (lx_position (m_lexer ps)) (get_token_string (m_lexer ps))
      (Json_Exception e) (sax_state ps))" rule: answers.cases) (auto simp: sax_error_def json_sax_acceptor_def split: if_splits)
qed

lemma errors_follow [simp]:
  "live ps \<Longrightarrow> agree ps qs \<Longrightarrow> follows (sax_syntax_error sax t c ps) (sax_syntax_error json_sax_acceptor t c qs)"
  "live ps \<Longrightarrow> agree ps qs \<Longrightarrow> follows (sax_error sax (parse_error_exn n pos msg) ps) (sax_error json_sax_acceptor e' qs)"
  "live ps \<Longrightarrow> agree ps qs \<Longrightarrow> follows (sax_error sax (out_of_range n msg) ps) (sax_error json_sax_acceptor e' qs)"
  by (simp_all add: sax_syntax_error_def parse_error_exn_def out_of_range_def error_follows del: agree.simps)

lemma key_follows:
  assumes "inv (False # st) Open (sax_state ps)" and "agree ps qs"
    and "\<And>p q. agree p q \<Longrightarrow> agree (rem p) (rem' q)"
  shows "follows (parse_key sax ps rem) (parse_key json_sax_acceptor qs rem')"
proof -
  have lx: "m_lexer qs = m_lexer ps" "last_token qs = last_token ps" using assms(2) by simp_all
  have rest: "follows
      (if last_token (get_token p) \<noteq> name_separator then sax_syntax_error sax name_separator c (get_token p)
       else Ok (Inr (Continue (get_token (rem (get_token p))))))
      (if last_token (get_token qs) \<noteq> name_separator then sax_syntax_error json_sax_acceptor name_separator c (get_token qs)
       else Ok (Inr (Continue (get_token (rem' (get_token qs))))))" if "live p" "agree p qs" for p c
  proof -
    note t = get_token_agree [OF that(2)]
    have "last_token (get_token p) = last_token (get_token qs)" using t by simp
    with that(1) errors_follow(1) [OF _ t] get_token_agree [OF assms(3) [OF t]] show ?thesis by (simp del: agree.simps)
  qed
  have "follows (sax_do sax (Key (lx_token_buffer (m_lexer ps))) ps (\<lambda>p.
          let p = get_token p in if last_token p \<noteq> name_separator then sax_syntax_error sax name_separator ''object separator'' p
          else Ok (Inr (Continue (get_token (rem p))))))
      (sax_do json_sax_acceptor (Key (lx_token_buffer (m_lexer ps))) qs (\<lambda>p.
          let p = get_token p in if last_token p \<noteq> name_separator then sax_syntax_error json_sax_acceptor name_separator ''object separator'' p
          else Ok (Inr (Continue (get_token (rem' p))))))"
    unfolding Let_def by (rule do_follows [OF on_key [OF assms(1)] assms(2)]) (rule rest [OF live_update])
  with errors_follow(1) [OF liveI [OF assms(1)] assms(2)] show ?thesis by (simp add: parse_key_def lx del: agree.simps)
qed

lemma value_follows:
  assumes "inv (states ps) Due (sax_state ps)" and "agree ps qs"
  shows "follows (parse_value sax ps) (parse_value json_sax_acceptor qs)"
proof -
  have same: "m_lexer qs = m_lexer ps" "last_token qs = last_token ps" "states qs = states ps" using assms(2) by simp_all
  have scalar: "follows (sax_do sax ev ps (\<lambda>ps. Ok (Inl ps))) (sax_do json_sax_acceptor ev qs (\<lambda>ps. Ok (Inl ps)))"
    if "is_scalar ev" for ev
    by (rule do_follows [OF on_value [OF assms(1) that] assms(2)]) simp
  have object: "follows (parse_begin_object sax ps) (parse_begin_object json_sax_acceptor qs)"
    unfolding parse_begin_object_def Let_def
  proof (rule do_follows [OF on_start_object [OF assms(1)] assms(2)])
    fix s
    let ?p = "get_token (ps\<lparr>sax_state := s\<rparr>)" and ?q = "get_token qs"
    assume inv: "inv (False # states ps) Open s" and "agree (ps\<lparr>sax_state := s\<rparr>) qs"
    from get_token_agree [OF this(2)] have a: "agree ?p ?q" .
    have "follows (sax_do sax End_object ?p (\<lambda>ps. Ok (Inl ps))) (sax_do json_sax_acceptor End_object ?q (\<lambda>ps. Ok (Inl ps)))"
      by (rule do_follows [OF on_end_object [of "states ps"] a]) (use inv in simp_all)
    moreover have "follows (parse_key sax ?p (\<lambda>ps. ps\<lparr>states := False # states ps\<rparr>))
        (parse_key json_sax_acceptor ?q (\<lambda>ps. ps\<lparr>states := False # states ps\<rparr>))"
      by (rule key_follows [of "states ps", OF _ a]) (use inv in simp_all)
    ultimately show "follows
        (if last_token ?p = end_object then sax_do sax End_object ?p (\<lambda>ps. Ok (Inl ps))
         else parse_key sax ?p (\<lambda>ps. ps\<lparr>states := False # states ps\<rparr>))
        (if last_token ?q = end_object then sax_do json_sax_acceptor End_object ?q (\<lambda>ps. Ok (Inl ps))
         else parse_key json_sax_acceptor ?q (\<lambda>ps. ps\<lparr>states := False # states ps\<rparr>))" using a by simp
  qed
  have array: "follows (parse_begin_array sax ps) (parse_begin_array json_sax_acceptor qs)"
    unfolding parse_begin_array_def Let_def
  proof (rule do_follows [OF on_start_array [OF assms(1)] assms(2)])
    fix s
    let ?p = "get_token (ps\<lparr>sax_state := s\<rparr>)" and ?q = "get_token qs"
    assume inv: "inv (True # states ps) Due s" and "agree (ps\<lparr>sax_state := s\<rparr>) qs"
    from get_token_agree [OF this(2)] have a: "agree ?p ?q" .
    have "follows (sax_do sax End_array ?p (\<lambda>ps. Ok (Inl ps))) (sax_do json_sax_acceptor End_array ?q (\<lambda>ps. Ok (Inl ps)))"
      by (rule do_follows [OF on_end_array [of "states ps"] a]) (use inv in simp_all)
    then show "follows
        (if last_token ?p = end_array then sax_do sax End_array ?p (\<lambda>ps. Ok (Inl ps))
         else Ok (Inr (Continue (?p\<lparr>states := True # states ?p\<rparr>))))
        (if last_token ?q = end_array then sax_do json_sax_acceptor End_array ?q (\<lambda>ps. Ok (Inl ps))
         else Ok (Inr (Continue (?q\<lparr>states := True # states ?q\<rparr>))))" using a by simp
  qed
  show ?thesis
    using scalar object array errors_follow [OF liveI [OF assms(1)] assms(2)]
    by (cases "last_token ps") (simp_all add: parse_value_def parse_float_def Let_def same del: agree.simps)
qed

lemma close_follows:
  assumes "answers failed (inv st (after st)) (sax_call sax ev (sax_state p))" and "agree p q"
  shows "follows (sax_do sax ev p (\<lambda>ps. Ok (Inr (Continue (ps\<lparr>states := tl (states ps), skip_to_state_evaluation := True\<rparr>)))))
    (sax_do json_sax_acceptor ev q (\<lambda>ps. Ok (Inr (Continue (ps\<lparr>states := tl (states ps), skip_to_state_evaluation := True\<rparr>)))))"
  by (rule do_follows [OF assms]) simp

lemma evaluate_follows:
  assumes "after_value ps" and "agree ps qs"
  shows "follows (evaluate_state sax ps) (evaluate_state json_sax_acceptor qs)"
proof (cases "states ps")
  case Nil
  with assms show ?thesis by (simp add: evaluate_state_def)
next
  case (Cons b st)
  let ?p = "get_token ps" and ?q = "get_token qs"
  have a: "agree ?p ?q" by (rule get_token_agree [OF assms(2)])
  note aa = get_token_agree [OF a]
  have st: "states qs = b # st" "last_token ?q = last_token ?p" using a assms(2) Cons by simp_all
  show ?thesis
  proof (cases b)
    case True
    with Cons assms have inv: "inv (True # st) Due (sax_state ?p)" by (auto simp: after_value_def)
    from close_follows [OF on_end_array [OF inv] a] show ?thesis
      using Cons True st errors_follow [OF liveI [OF inv] a] aa by (simp add: evaluate_state_def after_array_value_def Let_def del: agree.simps)
  next
    case False
    with Cons assms have inv: "inv (False # st) Open (sax_state ?p)" by (auto simp: after_value_def)
    have "follows (parse_key sax (get_token ?p) (\<lambda>ps. ps)) (parse_key json_sax_acceptor (get_token ?q) (\<lambda>ps. ps))"
      by (rule key_follows [of st, OF _ aa]) (use inv in auto)
    with close_follows [OF on_end_object [OF inv] a] show ?thesis
      using Cons False st errors_follow [OF liveI [OF inv] a] by (simp add: evaluate_state_def after_object_value_def Let_def del: agree.simps)
  qed
qed

lemma step_follows:
  assumes "at_head ps" and "agree ps qs"
  shows "follows (parse_step sax ps) (parse_step json_sax_acceptor qs)"
proof (cases "skip_to_state_evaluation ps")
  case True
  with assms evaluate_follows [of "ps\<lparr>skip_to_state_evaluation := False\<rparr>" "qs\<lparr>skip_to_state_evaluation := False\<rparr>"]
  show ?thesis by (simp add: parse_step_def at_head_def after_value_def)
next
  case False
  with assms have "inv (states ps) Due (sax_state ps)" by (simp add: at_head_def)
  from value_follows [OF this assms(2)] value_ok [OF this False]
  have v: "follows (parse_value sax ps) (parse_value json_sax_acceptor qs)" "flow_ok (parse_value sax ps)" .
  have "parse_step sax ps = obind (parse_value sax ps) (\<lambda>r. case r of Inl ps \<Rightarrow> evaluate_state sax ps | Inr f \<Rightarrow> Ok (Inr f))"
    "parse_step json_sax_acceptor qs = obind (parse_value json_sax_acceptor qs)
       (\<lambda>r. case r of Inl ps \<Rightarrow> evaluate_state json_sax_acceptor ps | Inr f \<Rightarrow> Ok (Inr f))"
    using False assms(2) by (simp_all add: parse_step_def)
  with v evaluate_follows show ?thesis
    by (cases "(parse_value sax ps, parse_value json_sax_acceptor qs)" rule: follows.cases) simp_all
qed

text \<open>The two loops end together: an exception of the one is a refusal of the other.\<close>

lemma loop_follows:
  "at_head ps \<Longrightarrow> agree ps qs \<Longrightarrow>
   (\<exists>r ps' qs'. sax_parse_internal sax ps = Ok (r, ps') \<and> sax_parse_internal json_sax_acceptor qs = Ok (r, qs') \<and> agree ps' qs')
   \<or> (\<exists>e qs'. sax_parse_internal sax ps = Throw (Json_Exception e) \<and> sax_parse_internal json_sax_acceptor qs = Ok (False, qs'))"
proof (induction "token_left ps" arbitrary: ps qs rule: less_induct)
  case less
  note unfold = sax_parse_internal.simps [of sax ps] sax_parse_internal.simps [of json_sax_acceptor qs]
  note ok = step_ok [OF less.prems(1)]
  from step_follows [OF less.prems] show ?case
  proof (cases "(parse_step sax ps, parse_step json_sax_acceptor qs)" rule: follows.cases)
    case (2 ps' qs')
    then have run: "parse_step sax ps = Ok (Inr (Continue ps'))" "parse_step json_sax_acceptor qs = Ok (Inr (Continue qs'))"
      by simp_all
    from less.hyps [OF parse_step_progress [OF run(1)]] ok step_follows [OF less.prems] show ?thesis
      by (simp add: unfold run del: agree.simps)
  next
    case (4 e r qs')
    with ok obtain e' where "e = Json_Exception e'" by (cases e) auto
    with 4 step_follows [OF less.prems] show ?thesis by (simp add: unfold)
  qed (auto simp: unfold)
qed

end

interpretation dom: consenting_handler json_sax_dom_parser "dom_inv al" "dom_failed al" for al :: bool
proof
  fix ev and s :: dom
  have "handle_value v s = Undef \<or> (\<exists>p s'. handle_value v s = Ok (p, s'))" for v
    by (auto simp: handle_value_def split: list.splits option.splits json.splits)
  then have "dom_value v s = Undef \<or> (\<exists>s'. dom_value v s = Ok (True, s'))"
    "dom_start v s = Undef \<or> (\<exists>s'. dom_start v s = Ok (True, s'))" for v
    unfolding dom_value_def dom_start_def by (metis (no_types, lifting) case_prod_conv obind.simps(1,3))+
  moreover have "dom_key k s = Undef \<or> (\<exists>s'. dom_key k s = Ok (True, s'))" for k
    by (auto simp: dom_key_def split: list.splits option.splits json.splits)
  moreover have "dom_end_object s = Undef \<or> (\<exists>s'. dom_end_object s = Ok (True, s'))"
    "dom_end_array s = Undef \<or> (\<exists>s'. dom_end_array s = Ok (True, s'))"
    by (auto simp: dom_end_object_def dom_end_array_def split: list.splits option.splits json.splits)
  ultimately show "sax_call json_sax_dom_parser ev s = Undef \<or> (\<exists>s'. sax_call json_sax_dom_parser ev s = Ok (True, s'))"
    by (cases ev) (simp_all add: json_sax_dom_parser_def)
qed

section \<open>Parsing answers\<close>

lemma new_dom_inv: "dom_inv al [] Due (new_dom al)"
proof -
  have "represents [] Due ([], JNull) (new_dom al)" by (simp add: represents_def new_dom_def mode_fits_def)
  then show ?thesis unfolding dom_inv_def clean_def by (auto simp: new_dom_def)
qed

lemma new_parsers_agree: "agree (new_parser i c s) (new_parser i c t)"
  by (simp add: new_parser_def get_token_def split: prod.split)

lemma loop_cases:
  fixes i c al
  defines "ps \<equiv> new_parser i c (new_dom al)" and "qs \<equiv> new_parser i c ()"
  obtains (finished) ps' qs' where "sax_parse_internal json_sax_dom_parser ps = Ok (True, ps')"
      "sax_parse_internal json_sax_acceptor qs = Ok (True, qs')" "agree ps' qs'" "clean al (sax_state ps')"
  | (refused) ps' qs' where "\<not> al" "sax_parse_internal json_sax_dom_parser ps = Ok (False, ps')"
      "sax_parse_internal json_sax_acceptor qs = Ok (False, qs')" "errored (sax_state ps')"
  | (thrown) e qs' where "sax_parse_internal json_sax_dom_parser ps = Throw (Json_Exception e)"
      "sax_parse_internal json_sax_acceptor qs = Ok (False, qs')"
proof -
  have head: "dom.at_head al ps" unfolding ps_def by (rule dom.new_parser_head [OF new_dom_inv])
  have "agree ps qs" unfolding ps_def qs_def by (rule new_parsers_agree)
  from dom.loop_follows [OF head this] dom.loop_answers [OF head] show ?thesis
    using that by (auto simp: dom_inv_def dom_failed_def simp del: agree.simps split: if_splits)
qed

text \<open>Every text is parsed or refused with an exception of the library, and the acceptor tells which.\<close>

lemma json_parse_cases:
  obtains (accepted) v where "json_parse i True c = Ok v" "json_accept i c = Ok True"
  | (rejected) e where "json_parse i True c = Throw (Json_Exception e)" "json_accept i c = Ok False"
proof (rule loop_cases [where al = True and i = i and c = c])
  fix ps' and qs' :: "unit parse_state"
  assume run: "sax_parse_internal json_sax_dom_parser (new_parser i c (new_dom True)) = Ok (True, ps')"
    "sax_parse_internal json_sax_acceptor (new_parser i c ()) = Ok (True, qs')"
    and a: "agree ps' qs'" and clean: "clean True (sax_state ps')"
  have "last_token (get_token qs') = last_token (get_token ps')" using get_token_agree [OF a] by simp
  with run clean that show ?thesis
    by (cases "last_token (get_token ps') = end_of_input")
      (auto simp: json_parse_def parser_parse_def json_accept_def sax_parse_def Let_def dom_parse_error_def
        clean_def strict_error_def parse_error_exn_def json_sax_acceptor_def)
qed (use that in \<open>auto simp: json_parse_def parser_parse_def json_accept_def sax_parse_def\<close>)

section \<open>Runs of the DOM handler\<close>

text \<open>Which events may come, and what may come after them; a run of the handler over a list of events.\<close>

definition expects :: "sax_event \<Rightarrow> bool list \<times> mode \<Rightarrow> (bool list \<times> mode) option" where
  "expects ev c = (case c of (st, m) \<Rightarrow>
     if m = Due \<and> is_scalar ev then Some (st, after st)
     else if m = Due \<and> ev = Start_object then Some (False # st, Open)
     else if m = Due \<and> ev = Start_array then Some (True # st, Due)
     else if m = Open \<and> st \<noteq> [] \<and> \<not> hd st \<and> (\<exists>k. ev = Key k) then Some (st, Due)
     else if m = Open \<and> st \<noteq> [] \<and> \<not> hd st \<and> ev = End_object then Some (tl st, after (tl st))
     else if m = Due \<and> st \<noteq> [] \<and> hd st \<and> ev = End_array then Some (tl st, after (tl st))
     else None)"

fun expected :: "sax_event list \<Rightarrow> bool list \<times> mode \<Rightarrow> (bool list \<times> mode) option" where
  "expected [] c = Some c"
| "expected (ev # evs) c = (case expects ev c of None \<Rightarrow> None | Some c' \<Rightarrow> expected evs c')"

primrec dom_calls :: "sax_event list \<Rightarrow> dom \<Rightarrow> (bool \<times> dom) outcome" where
  "dom_calls [] d = Ok (True, d)"
| "dom_calls (ev # evs) d = obind (dom_call ev d) (\<lambda>(ok, d). if ok then dom_calls evs d else Ok (False, d))"

lemma dom_call_represents:
  assumes "represents st m b d" and "expects ev (st, m) = Some (st', m')"
  shows "\<exists>d'. dom_call ev d = Ok (True, d') \<and> represents st' m' (build_call ev b) d'"
proof -
  consider "m = Due" "is_scalar ev" "st' = st" "m' = after st"
    | "m = Due" "ev = Start_object" "st' = False # st" "m' = Open" | "m = Due" "ev = Start_array" "st' = True # st" "m' = Due"
    | k where "m = Open" "ev = Key k" "st = False # tl st" "st' = False # tl st" "m' = Due"
    | "m = Open" "ev = End_object" "st = False # st'" "m' = after st'"
    | "m = Due" "ev = End_array" "st = True # st'" "m' = after st'"
    using assms(2) by (cases st) (auto simp: expects_def split: if_splits)
  then show ?thesis
  proof cases
    case 1
    with value_represents [of st b d ev] assms(1) show ?thesis by auto
  next
    case 2
    with start_represents [of st b d "Obj [] []"] assms(1) show ?thesis by auto
  next
    case 3
    with start_represents [of st b d "Arr []"] assms(1) show ?thesis by auto
  next
    case 4
    with key_represents [of "tl st" b d k] assms(1) show ?thesis by auto
  next
    case 5
    with end_represents [of False st' b d] assms(1) show ?thesis by auto
  next
    case 6
    with end_represents [of True st' b d] assms(1) show ?thesis by auto
  qed
qed

lemma dom_calls_represent:
  "represents st m b d \<Longrightarrow> expected evs (st, m) = Some (st', m') \<Longrightarrow>
   \<exists>d'. dom_calls evs d = Ok (True, d') \<and> represents st' m' (fold build_call evs b) d'"
proof (induction evs arbitrary: st m b d)
  case (Cons ev evs)
  then obtain st1 m1 where e: "expects ev (st, m) = Some (st1, m1)" "expected evs (st1, m1) = Some (st', m')"
    by (auto split: option.splits)
  from dom_call_represents [OF Cons.prems(1) e(1)] obtain d1 where
    d1: "dom_call ev d = Ok (True, d1)" "represents st1 m1 (build_call ev b) d1" by blast
  from Cons.IH [OF d1(2) e(2)] d1(1) show ?case by simp
qed simp

section \<open>Properties\<close>

text \<open>C30: parsing a text never fails an assertion, never follows a pointer to nothing and never runs on: the
  answer is a value, or an exception of the library.\<close>

theorem json_parse_answers: "(\<exists>v. json_parse i True c = Ok v) \<or> (\<exists>e. json_parse i True c = Throw (Json_Exception e))"
  by (rule json_parse_cases [of i c]) blast+

text \<open>\<^verbatim>\<open>accept\<close> decides whether \<^verbatim>\<open>parse\<close> returns a value, although the two share only the token loop.\<close>

theorem json_accept_iff_parse: "json_accept i c = Ok (\<exists>v. json_parse i True c = Ok v)"
  by (rule json_parse_cases [of i c]) auto

text \<open>C31: the DOM handler implements the stack of open containers: on every list of events that describes one
  value, following its pointers into the value under construction never fails, and in the end it
  holds the value the stack machine builds, in which no pointer occurs.\<close>

theorem dom_refines_build:
  assumes "expected evs ([], Due) = Some ([], Done)"
  shows "\<exists>d. dom_calls evs (new_dom al) = Ok (True, d) \<and> root d = snd (fold build_call evs ([], JNull)) \<and> ref_stack d = []"
proof -
  have "represents [] Due ([], JNull) (new_dom al)" by (simp add: represents_def new_dom_def mode_fits_def)
  from dom_calls_represent [OF this assms] obtain d where
    d: "dom_calls evs (new_dom al) = Ok (True, d)" "represents [] Done (fold build_call evs ([], JNull)) d" by blast
  from d(2) have "fst (fold build_call evs ([], JNull)) = []" by (simp add: represents_def)
  then show ?thesis using d by (cases "fold build_call evs ([], JNull)") (simp add: represents_def)
qed

theorem dom_refines_build_witness:
  "\<exists>d. dom_calls [Start_array, Start_object, Key ''k'', Null_event, Key ''k'', Boolean_event True, End_object, End_array] (new_dom True) = Ok (True, d)
    \<and> root d = JArray [JObject [(''k'', JBoolean True)]]"
  using dom_refines_build [of "[Start_array, Start_object, Key ''k'', Null_event, Key ''k'', Boolean_event True, End_object, End_array]" True]
  by (simp add: expects_def del: dom_calls.simps) blast

end
