(* ===== verification/JsonText.thy ===== *)
theory JsonText
  imports JsonDom JsonReading
begin

text \<open>
  The JSON grammar (RFC 8259), without unpaired surrogates and numbers too large for a double, as a relation between
  values and texts, and the proof that the parser of
  \<^verbatim>\<open>external/json.hpp\<close> is complete for it: every spelling of a value, with any white space, is parsed
  to that value. Members are in the order of the text; \<open>assemble\<close> makes the sorted map of them, in
  which the last of several members with one key stays.
\<close>

section \<open>The grammar\<close>

primrec assemble :: "json \<Rightarrow> json" where
  "assemble JNull = JNull"
| "assemble (JObject m) = JObject (fold (\<lambda>(k, v). map_assign k v) (map (map_prod id assemble) m) [])"
| "assemble (JArray xs) = JArray (map assemble xs)"
| "assemble (JString s) = JString s"
| "assemble (JBoolean b) = JBoolean b"
| "assemble (JInteger i) = JInteger i"
| "assemble (JUnsigned n) = JUnsigned n"
| "assemble (JFloat x) = JFloat x"
| "assemble (JBinary bs st) = JBinary bs st"
| "assemble JDiscarded = JDiscarded"

text \<open>A number too large for a double is refused.\<close>

definition finite_number :: "json \<Rightarrow> bool" where
  "finite_number v \<longleftrightarrow> (case v of JFloat x \<Rightarrow> isfinite x | _ \<Rightarrow> True)"

inductive spells_scalar :: "json \<Rightarrow> string \<Rightarrow> bool" where
  null: "spells_scalar JNull ''null''"
| true: "spells_scalar (JBoolean True) ''true''"
| false: "spells_scalar (JBoolean False) ''false''"
| str: "string_text s t \<Longrightarrow> spells_scalar (JString s) (CHR 0x22 # t @ [CHR 0x22])"
| number: "number_text nt t \<Longrightarrow> finite_number (number_json nt t) \<Longrightarrow> spells_scalar (number_json nt t) t"

text \<open>\<open>spells_elements\<close> and \<open>spells_members\<close> run up to and including the closing bracket.\<close>

inductive spells :: "json \<Rightarrow> string \<Rightarrow> bool"
  and spells_elements :: "json list \<Rightarrow> string \<Rightarrow> bool"
  and spells_members :: "(string \<times> json) list \<Rightarrow> string \<Rightarrow> bool" where
  scalar: "white w \<Longrightarrow> spells_scalar v t \<Longrightarrow> spells v (w @ t)"
| empty_array: "white w \<Longrightarrow> white w' \<Longrightarrow> spells (JArray []) (w @ CHR ''['' # w' @ '']'')"
| array: "white w \<Longrightarrow> spells_elements vs t \<Longrightarrow> spells (JArray vs) (w @ CHR ''['' # t)"
| empty_object: "white w \<Longrightarrow> white w' \<Longrightarrow> spells (JObject []) (w @ CHR ''{'' # w' @ ''}'')"
| object: "white w \<Longrightarrow> spells_members m t \<Longrightarrow> spells (JObject m) (w @ CHR ''{'' # t)"
| last_element: "spells v t \<Longrightarrow> white w \<Longrightarrow> spells_elements [v] (t @ w @ '']'')"
| element: "spells v t \<Longrightarrow> white w \<Longrightarrow> spells_elements vs ts \<Longrightarrow> spells_elements (v # vs) (t @ w @ CHR '','' # ts)"
| last_member: "white w \<Longrightarrow> string_text k s \<Longrightarrow> white w' \<Longrightarrow> spells v t \<Longrightarrow> white w'' \<Longrightarrow>
    spells_members [(k, v)] (w @ CHR 0x22 # s @ CHR 0x22 # w' @ CHR '':'' # t @ w'' @ ''}'')"
| member: "white w \<Longrightarrow> string_text k s \<Longrightarrow> white w' \<Longrightarrow> spells v t \<Longrightarrow> white w'' \<Longrightarrow> spells_members m ts \<Longrightarrow>
    spells_members ((k, v) # m) (w @ CHR 0x22 # s @ CHR 0x22 # w' @ CHR '':'' # t @ w'' @ CHR '','' # ts)"

section \<open>Tokens\<close>

text \<open>The last token read is the first of the text \<open>cs\<close>.\<close>

definition ready :: "'s parse_state \<Rightarrow> string \<Rightarrow> bool" where
  "ready ps cs \<longleftrightarrow> (\<exists>lx. before_token lx cs \<and> scan lx = (last_token ps, m_lexer ps))"

lemma before_tokenI: "pending lx cs \<and> started lx \<Longrightarrow> before_token lx cs"
  by (simp add: before_token_def)

lemma get_token_ready: "before_token (m_lexer ps) cs \<Longrightarrow> ready (get_token ps) cs"
  by (auto simp: ready_def get_token_def split: prod.split)

lemma ready_punctuation:
  assumes "ready ps (w @ c # cs)" and "white w" and "punctuation c = Some t"
  shows "last_token ps = t \<and> before_token (m_lexer ps) cs"
  using assms scan_punctuation [OF _ assms(2,3)] by (fastforce simp: ready_def before_token_def)

lemma ready_string:
  assumes "ready ps (w @ CHR 0x22 # t @ CHR 0x22 # cs)" and "white w" and "string_text s t"
  shows "last_token ps = value_string \<and> before_token (m_lexer ps) cs \<and> lx_token_buffer (m_lexer ps) = s"
  using assms scan_strings [OF _ assms(2,3)] by (fastforce simp: ready_def before_token_def)

lemma ready_literal:
  assumes "ready ps (w @ l @ cs)" and "white w" and "(l, t) \<in> set literals"
  shows "last_token ps = t \<and> before_token (m_lexer ps) cs"
  using assms scan_literals [OF _ assms(2,3)] by (fastforce simp: ready_def before_token_def)

lemma ready_number:
  assumes "ready ps (w @ t @ cs)" and "white w" and "number_text nt t" and "number_ends cs"
  shows "token_value (last_token ps) (m_lexer ps) = Some (number_json nt t) \<and> before_token (m_lexer ps) cs"
  using assms scan_numbers [OF _ assms(2,3,4)] by (fastforce simp: ready_def before_token_def)

lemma punctuation_simps [simp]:
  "punctuation CHR ''['' = Some begin_array" "punctuation CHR '']'' = Some end_array"
  "punctuation CHR ''{'' = Some begin_object" "punctuation CHR ''}'' = Some end_object"
  "punctuation CHR '':'' = Some name_separator" "punctuation CHR '','' = Some value_separator"
  by (simp_all add: punctuation_def)

text \<open>Before a bracket or a comma, perhaps after white space, no number goes on.\<close>

lemma number_ends_white:
  assumes "white w" and "c \<in> {CHR '']'', CHR ''}'', CHR '',''}"
  shows "number_ends (w @ c # cs)"
  using assms by (cases w) (auto simp: number_ends_def is_whitespace_def is_0_9_def is_e_def)

section \<open>Runs of the loop\<close>

definition run :: "dom parse_state \<Rightarrow> dom parse_state \<Rightarrow> bool" where
  "run ps ps' \<longleftrightarrow> sax_parse_internal json_sax_dom_parser ps = sax_parse_internal json_sax_dom_parser ps'"

text \<open>Before a value, and after one: the handler is in the state \<open>b\<close> and \<open>rest\<close> is still to be read.\<close>

definition value_due :: "dom parse_state \<Rightarrow> string \<Rightarrow> bool list \<Rightarrow> build \<Rightarrow> bool" where
  "value_due ps cs st b \<longleftrightarrow> ready ps cs \<and> \<not> skip_to_state_evaluation ps \<and> states ps = st
     \<and> represents st Due b (sax_state ps) \<and> clean True (sax_state ps)"

definition value_read :: "dom parse_state \<Rightarrow> string \<Rightarrow> bool list \<Rightarrow> build \<Rightarrow> bool" where
  "value_read ps rest st b \<longleftrightarrow> before_token (m_lexer ps) rest \<and> skip_to_state_evaluation ps \<and> states ps = st
     \<and> represents st (after st) b (sax_state ps) \<and> clean True (sax_state ps)"

lemma run_trans [trans]: "run a b \<Longrightarrow> run b c \<Longrightarrow> run a c"
  by (simp add: run_def)

lemma run_continue: "parse_step json_sax_dom_parser ps = Ok (Inr (Continue ps')) \<Longrightarrow> run ps ps'"
  by (simp add: run_def sax_parse_internal.simps [of json_sax_dom_parser ps])

lemma run_value:
  assumes "parse_value json_sax_dom_parser ps = Ok (Inl ps1)" and "\<not> skip_to_state_evaluation ps" and "\<not> skip_to_state_evaluation ps1"
  shows "run ps (ps1\<lparr>skip_to_state_evaluation := True\<rparr>)"
proof -
  have "ps1\<lparr>skip_to_state_evaluation := False\<rparr> = ps1" using assms(3) by (cases ps1) simp
  then have "evaluate_state json_sax_dom_parser (ps1\<lparr>skip_to_state_evaluation := False\<rparr>) = evaluate_state json_sax_dom_parser ps1"
    by (simp only:)
  then have "parse_step json_sax_dom_parser ps = parse_step json_sax_dom_parser (ps1\<lparr>skip_to_state_evaluation := True\<rparr>)"
    using assms by (simp add: parse_step_def)
  then show ?thesis
    by (simp add: run_def sax_parse_internal.simps [of _ ps] sax_parse_internal.simps [of _ "ps1\<lparr>skip_to_state_evaluation := True\<rparr>"])
qed

lemma dom_do: "dom_call ev (sax_state ps) = Ok (True, d) \<Longrightarrow> sax_do json_sax_dom_parser ev ps k = k (ps\<lparr>sax_state := d\<rparr>)"
  by (simp add: sax_do_def json_sax_dom_parser_def)

lemma scalar_event_run:
  assumes "value_due ps cs st b" and "is_scalar ev" and "before_token (m_lexer ps) rest"
    and "parse_value json_sax_dom_parser ps = sax_do json_sax_dom_parser ev ps (\<lambda>ps. Ok (Inl ps))"
  shows "\<exists>ps'. run ps ps' \<and> value_read ps' rest st (place (scalar_value ev) b)"
proof -
  from assms(1) have due: "represents st Due b (sax_state ps)" "clean True (sax_state ps)" "\<not> skip_to_state_evaluation ps" "states ps = st"
    by (simp_all add: value_due_def)
  from value_represents [OF due(1) assms(2), of True] dom_scalar(2) [OF assms(2), of b] obtain d where
    d: "dom_call ev (sax_state ps) = Ok (True, d)" "clean True d" "represents st (after st) (place (scalar_value ev) b) d"
    using due(2) by auto
  let ?ps = "ps\<lparr>sax_state := d, skip_to_state_evaluation := True\<rparr>"
  have "run ps ((ps\<lparr>sax_state := d\<rparr>)\<lparr>skip_to_state_evaluation := True\<rparr>)"
    by (rule run_value) (use assms(4) due d in \<open>simp_all add: dom_do\<close>)
  moreover have "value_read ?ps rest st (place (scalar_value ev) b)"
    using d due assms(3) by (simp add: value_read_def)
  ultimately show ?thesis by auto
qed

lemma scalar_run:
  assumes "value_due ps (w @ t @ rest) st b" and "white w" and "spells_scalar v t" and "number_ends rest"
  shows "\<exists>ps'. run ps ps' \<and> value_read ps' rest st (place v b)"
proof -
  have ready: "ready ps (w @ t @ rest)" using assms(1) by (simp add: value_due_def)
  note run = scalar_event_run [OF assms(1)]
  note defs = parse_value_def Let_def scalar_value_def
  from assms(3) show ?thesis
  proof cases
    case null
    with ready_literal [of ps w "''null''" rest literal_null] ready assms(2) run [of Null_event rest] show ?thesis
      by (simp add: literals_def defs)
  next
    case true
    with ready_literal [of ps w "''true''" rest literal_true] ready assms(2) run [of "Boolean_event True" rest] show ?thesis
      by (simp add: literals_def defs)
  next
    case false
    with ready_literal [of ps w "''false''" rest literal_false] ready assms(2) run [of "Boolean_event False" rest] show ?thesis
      by (simp add: literals_def defs)
  next
    case (str s t')
    with ready_string [of ps w t' rest s] ready assms(2) run [of "String_event s" rest] show ?thesis
      by (simp add: defs)
  next
    case (number nt)
    from ready_number [OF ready assms(2) number(2) assms(4)] have
      tv: "token_value (last_token ps) (m_lexer ps) = Some v" and before: "before_token (m_lexer ps) rest"
      and fin: "finite_number v"
      using number(1,3) by simp_all
    from tv show ?thesis
      using run [OF _ before, of "Number_unsigned_event (lx_value_unsigned (m_lexer ps))"]
        run [OF _ before, of "Number_integer_event (lx_value_integer (m_lexer ps))"]
        run [OF _ before, of "Number_float_event (lx_value_float (m_lexer ps)) (lx_token_buffer (m_lexer ps))"] fin
      by (cases "last_token ps") (auto simp: defs parse_float_def finite_number_def)
  qed
qed

subsection \<open>Containers\<close>

text \<open>A step from a value just read evaluates the state.\<close>

lemma step_after_value:
  assumes "value_read ps (w @ c # cs) (a # st) b" and "white w" and "punctuation c = Some t"
  obtains q where "parse_step json_sax_dom_parser ps = evaluate_state json_sax_dom_parser (ps\<lparr>skip_to_state_evaluation := False\<rparr>)"
    "q = get_token (ps\<lparr>skip_to_state_evaluation := False\<rparr>)" "last_token q = t" "before_token (m_lexer q) cs"
    "\<not> skip_to_state_evaluation q" "states q = a # st" "represents (a # st) (if a then Due else Open) b (sax_state q)"
    "clean True (sax_state q)"
proof -
  have "ready (get_token (ps\<lparr>skip_to_state_evaluation := False\<rparr>)) (w @ c # cs)"
    using assms(1) by (intro get_token_ready) (simp add: value_read_def)
  from ready_punctuation [OF this assms(2,3)] assms(1) that show ?thesis
    by (simp add: value_read_def parse_step_def)
qed

lemma end_run:
  assumes "value_read ps (w @ c # rest) (a # st) b" and "white w" and "c = (if a then CHR '']'' else CHR ''}'')"
  shows "\<exists>ps'. run ps ps' \<and> value_read ps' rest st (build_end b)"
proof -
  have "punctuation c = Some (if a then end_array else end_object)" using assms(3) by simp
  from step_after_value [OF assms(1,2) this] obtain q where
    step: "parse_step json_sax_dom_parser ps = evaluate_state json_sax_dom_parser (ps\<lparr>skip_to_state_evaluation := False\<rparr>)"
      "q = get_token (ps\<lparr>skip_to_state_evaluation := False\<rparr>)"
    and q: "last_token q = (if a then end_array else end_object)" "before_token (m_lexer q) rest" "states q = a # st"
      "represents (a # st) (if a then Due else Open) b (sax_state q)" "clean True (sax_state q)" by blast
  from end_represents [OF q(4), of True] q(5) obtain d where
    d: "dom_call (if a then End_array else End_object) (sax_state q) = Ok (True, d)" "clean True d"
      "represents st (after st) (build_end b) d" by auto
  let ?ps = "q\<lparr>sax_state := d, states := st, skip_to_state_evaluation := True\<rparr>"
  have "states (ps\<lparr>skip_to_state_evaluation := False\<rparr>) = a # st" using q(3) step(2) by simp
  then have "parse_step json_sax_dom_parser ps = Ok (Inr (Continue ?ps))"
    using step q(1,3) dom_do [OF d(1)]
    by (cases a) (simp_all add: evaluate_state_def after_array_value_def after_object_value_def Let_def)
  moreover have "value_read ?ps rest st (build_end b)" using d q by (simp add: value_read_def)
  ultimately show ?thesis using run_continue by blast
qed

lemma next_element_run:
  assumes "value_read ps (w @ CHR '','' # cs) (True # st) b" and "white w"
  shows "\<exists>ps'. run ps ps' \<and> value_due ps' cs (True # st) b"
proof -
  from step_after_value [OF assms punctuation_simps(6)] obtain q where
    step: "parse_step json_sax_dom_parser ps = evaluate_state json_sax_dom_parser (ps\<lparr>skip_to_state_evaluation := False\<rparr>)"
      "q = get_token (ps\<lparr>skip_to_state_evaluation := False\<rparr>)"
    and q: "last_token q = value_separator" "before_token (m_lexer q) cs" "states q = True # st" "\<not> skip_to_state_evaluation q"
      "represents (True # st) Due b (sax_state q)" "clean True (sax_state q)" by auto
  have "states (ps\<lparr>skip_to_state_evaluation := False\<rparr>) = True # st" using q(3) step(2) by simp
  then have "parse_step json_sax_dom_parser ps = Ok (Inr (Continue (get_token q)))"
    using step q(1) by (simp add: evaluate_state_def after_array_value_def Let_def)
  moreover have "value_due (get_token q) cs (True # st) b" using q get_token_ready [OF q(2)] by (simp add: value_due_def)
  ultimately show ?thesis using run_continue by blast
qed

text \<open>At a key of an open object.\<close>

definition key_due :: "dom parse_state \<Rightarrow> string \<Rightarrow> bool list \<Rightarrow> build \<Rightarrow> bool" where
  "key_due ps cs st b \<longleftrightarrow> ready ps cs \<and> \<not> skip_to_state_evaluation ps
     \<and> represents (False # st) Open b (sax_state ps) \<and> clean True (sax_state ps)"

definition remembers :: "(dom parse_state \<Rightarrow> dom parse_state) \<Rightarrow> dom parse_state \<Rightarrow> bool list \<Rightarrow> bool" where
  "remembers f ps st \<longleftrightarrow> (\<forall>q. (states q = states ps \<longrightarrow> states (f q) = False # st) \<and> sax_state (f q) = sax_state q
     \<and> skip_to_state_evaluation (f q) = skip_to_state_evaluation q \<and> m_lexer (f q) = m_lexer q)"

lemma next_member_run:
  assumes "value_read ps (w @ CHR '','' # cs) (False # st) b" and "white w"
  shows "\<exists>q. parse_step json_sax_dom_parser ps = parse_key json_sax_dom_parser q (\<lambda>ps. ps)
    \<and> key_due q cs st b \<and> remembers (\<lambda>ps. ps) q st"
proof -
  from step_after_value [OF assms punctuation_simps(6)] obtain q where
    step: "parse_step json_sax_dom_parser ps = evaluate_state json_sax_dom_parser (ps\<lparr>skip_to_state_evaluation := False\<rparr>)"
      "q = get_token (ps\<lparr>skip_to_state_evaluation := False\<rparr>)"
    and q: "last_token q = value_separator" "before_token (m_lexer q) cs" "states q = False # st" "\<not> skip_to_state_evaluation q"
      "represents (False # st) Open b (sax_state q)" "clean True (sax_state q)" by auto
  have "states (ps\<lparr>skip_to_state_evaluation := False\<rparr>) = False # st" using q(3) step(2) by simp
  then have "parse_step json_sax_dom_parser ps = parse_key json_sax_dom_parser (get_token q) (\<lambda>ps. ps)"
    using step q(1) by (simp add: evaluate_state_def after_object_value_def Let_def)
  moreover have "key_due (get_token q) cs st b \<and> remembers (\<lambda>ps. ps) (get_token q) st"
    using q get_token_ready [OF q(2)] by (simp add: key_due_def remembers_def)
  ultimately show ?thesis by blast
qed

lemma key_run:
  assumes "key_due ps (w @ CHR 0x22 # s @ CHR 0x22 # w' @ CHR '':'' # cs) st (Obj m0 k0 # fs, v0)" and "remembers f ps st"
    and "white w" and "string_text k s" and "white w'"
  shows "\<exists>ps1. parse_key json_sax_dom_parser ps f = Ok (Inr (Continue ps1))
    \<and> value_due ps1 cs (False # st) (Obj (map_emplace k JNull m0) k # fs, v0)"
proof -
  note due = assms(1) [unfolded key_due_def]
  from ready_string [of ps w s "w' @ CHR '':'' # cs" k] due assms(3,4) have
    tok: "last_token ps = value_string" "before_token (m_lexer ps) (w' @ CHR '':'' # cs)" "lx_token_buffer (m_lexer ps) = k"
    by auto
  from key_represents [of st "(Obj m0 k0 # fs, v0)" "sax_state ps" k True] due obtain d where
    d: "dom_call (Key k) (sax_state ps) = Ok (True, d)" "clean True d"
      "represents (False # st) Due (Obj (map_emplace k JNull m0) k # fs, v0) d" by auto
  define q where "q = get_token (ps\<lparr>sax_state := d\<rparr>)"
  have "ready q (w' @ CHR '':'' # cs)" unfolding q_def using tok(2) by (intro get_token_ready) simp
  from ready_punctuation [OF this assms(5) punctuation_simps(5)] have
    colon: "last_token q = name_separator" "before_token (m_lexer q) cs" by simp_all
  have fields: "sax_state q = d" "states q = states ps" "\<not> skip_to_state_evaluation q" using due by (simp_all add: q_def)
  have "parse_key json_sax_dom_parser ps f = Ok (Inr (Continue (get_token (f q))))"
    using tok(1,3) colon(1) dom_do [OF d(1)] by (simp add: parse_key_def Let_def q_def [symmetric])
  moreover have "value_due (get_token (f q)) cs (False # st) (Obj (map_emplace k JNull m0) k # fs, v0)"
    using assms(2) fields colon(2) d get_token_ready [of "f q" cs] by (simp add: value_due_def remembers_def)
  ultimately show ?thesis by blast
qed

lemma start_call:
  assumes "represents st Due b d"
  shows "\<exists>d'. dom_call (if a then Start_array else Start_object) d = Ok (True, d') \<and> clean al d' = clean al d
    \<and> represents (a # st) (if a then Due else Open) ((if a then Arr [] else Obj [] []) # fst b, snd b) d'"
  using start_represents [OF assms, of "Arr []" al] start_represents [OF assms, of "Obj [] []" al]
  by (cases a) simp_all

lemma open_run:
  assumes "value_due ps (w @ c # cs) st b" and "white w" and "c = (if a then CHR ''['' else CHR ''{'')"
  obtains q d where "dom_call (if a then Start_array else Start_object) (sax_state ps) = Ok (True, d)" "q = get_token (ps\<lparr>sax_state := d\<rparr>)"
    "last_token ps = (if a then begin_array else begin_object)" "ready q cs" "\<not> skip_to_state_evaluation q" "states q = st"
    "represents (a # st) (if a then Due else Open) ((if a then Arr [] else Obj [] []) # fst b, snd b) (sax_state q)" "clean True (sax_state q)"
proof -
  note due = assms(1) [unfolded value_due_def]
  have "punctuation c = Some (if a then begin_array else begin_object)" using assms(3) by simp
  from ready_punctuation [OF _ assms(2) this] due have
    tok: "last_token ps = (if a then begin_array else begin_object)" "before_token (m_lexer ps) cs" by blast+
  from start_call [of st b "sax_state ps" a True] due obtain d where
    d: "dom_call (if a then Start_array else Start_object) (sax_state ps) = Ok (True, d)" "clean True d"
      "represents (a # st) (if a then Due else Open) ((if a then Arr [] else Obj [] []) # fst b, snd b) d" by blast
  have "ready (get_token (ps\<lparr>sax_state := d\<rparr>)) cs" using tok(2) by (intro get_token_ready) simp
  from that [OF d(1) refl tok(1) this] d(2,3) due show ?thesis by simp
qed

lemma build_end_start: "build_end (f # fst b, snd b) = place (content f) b"
  by (cases b) simp

lemma empty_run:
  assumes "value_due ps (w @ c # w' @ c' # rest) st b" and "white w" and "white w'"
    and "c = (if a then CHR ''['' else CHR ''{'')" and "c' = (if a then CHR '']'' else CHR ''}'')"
  shows "\<exists>ps'. run ps ps' \<and> value_read ps' rest st (place (if a then JArray [] else JObject []) b)"
proof (rule open_run [OF assms(1,2,4)])
  fix q d0
  assume start: "dom_call (if a then Start_array else Start_object) (sax_state ps) = Ok (True, d0)" "q = get_token (ps\<lparr>sax_state := d0\<rparr>)"
    and tok: "last_token ps = (if a then begin_array else begin_object)" and ready: "ready q (w' @ c' # rest)"
    and q: "\<not> skip_to_state_evaluation q" "states q = st" "clean True (sax_state q)"
      "represents (a # st) (if a then Due else Open) ((if a then Arr [] else Obj [] []) # fst b, snd b) (sax_state q)"
  have "punctuation c' = Some (if a then end_array else end_object)" using assms(5) by simp
  from ready_punctuation [OF ready assms(3) this] have
    "end": "last_token q = (if a then end_array else end_object)" "before_token (m_lexer q) rest" by simp_all
  from end_represents [OF q(4), of True] q(3) obtain d where
    d: "dom_call (if a then End_array else End_object) (sax_state q) = Ok (True, d)" "clean True d"
      "represents st (after st) (place (if a then JArray [] else JObject []) b) d" by (cases a) (auto simp: build_end_start)
  have "parse_value json_sax_dom_parser ps = Ok (Inl (q\<lparr>sax_state := d\<rparr>))"
    using tok start "end"(1) dom_do [OF d(1)] dom_do [of _ ps d0]
    by (cases a) (simp_all add: parse_value_def parse_begin_array_def parse_begin_object_def Let_def)
  moreover have "\<not> skip_to_state_evaluation ps" using assms(1) by (simp add: value_due_def)
  ultimately have "run ps (q\<lparr>sax_state := d, skip_to_state_evaluation := True\<rparr>)" using run_value [of ps "q\<lparr>sax_state := d\<rparr>"] q(1) by simp
  moreover have "value_read (q\<lparr>sax_state := d, skip_to_state_evaluation := True\<rparr>) rest st (place (if a then JArray [] else JObject []) b)"
    using d q "end" by (simp add: value_read_def)
  ultimately show ?thesis by blast
qed

lemma array_run:
  assumes "value_due ps (w @ CHR ''['' # cs) st b" and "white w" and "\<And>q :: dom parse_state. ready q cs \<Longrightarrow> last_token q \<noteq> end_array"
  shows "\<exists>ps'. run ps ps' \<and> value_due ps' cs (True # st) (Arr [] # fst b, snd b)"
proof (rule open_run [OF assms(1,2), of True])
  fix q d
  assume start: "dom_call (if True then Start_array else Start_object) (sax_state ps) = Ok (True, d)" "q = get_token (ps\<lparr>sax_state := d\<rparr>)"
    and tok: "last_token ps = (if True then begin_array else begin_object)" and ready: "ready q cs"
    and q: "\<not> skip_to_state_evaluation q" "states q = st" "clean True (sax_state q)"
      "represents (True # st) (if True then Due else Open) ((if True then Arr [] else Obj [] []) # fst b, snd b) (sax_state q)"
  have "parse_step json_sax_dom_parser ps = Ok (Inr (Continue (q\<lparr>states := True # st\<rparr>)))"
    using tok start assms(1) assms(3) [OF ready] q(2) dom_do [of Start_array ps d]
    by (simp add: Let_def parse_step_def parse_value_def parse_begin_array_def value_due_def)
  moreover have "value_due (q\<lparr>states := True # st\<rparr>) cs (True # st) (Arr [] # fst b, snd b)"
    using q ready by (simp add: value_due_def ready_def)
  ultimately show ?thesis using run_continue by blast
qed simp

lemma object_run:
  assumes "value_due ps (w @ CHR ''{'' # cs) st b" and "white w" and "\<And>q :: dom parse_state. ready q cs \<Longrightarrow> last_token q \<noteq> end_object"
  shows "\<exists>q f. parse_step json_sax_dom_parser ps = parse_key json_sax_dom_parser q f
    \<and> key_due q cs st (Obj [] [] # fst b, snd b) \<and> remembers f q st"
proof (rule open_run [OF assms(1,2), of False])
  fix q d
  assume start: "dom_call (if False then Start_array else Start_object) (sax_state ps) = Ok (True, d)" "q = get_token (ps\<lparr>sax_state := d\<rparr>)"
    and tok: "last_token ps = (if False then begin_array else begin_object)" and ready: "ready q cs"
    and q: "\<not> skip_to_state_evaluation q" "states q = st" "clean True (sax_state q)"
      "represents (False # st) (if False then Due else Open) ((if False then Arr [] else Obj [] []) # fst b, snd b) (sax_state q)"
  let ?f = "\<lambda>ps :: dom parse_state. ps\<lparr>states := False # states ps\<rparr>"
  have "parse_step json_sax_dom_parser ps = obind (parse_key json_sax_dom_parser q ?f)
      (\<lambda>r. case r of Inl ps \<Rightarrow> evaluate_state json_sax_dom_parser ps | Inr f \<Rightarrow> Ok (Inr f))"
    using tok start assms(1) assms(3) [OF ready] dom_do [of Start_object ps d]
    by (simp add: Let_def parse_step_def parse_value_def parse_begin_object_def value_due_def)
  also have "\<dots> = parse_key json_sax_dom_parser q ?f"
    by (cases "parse_key json_sax_dom_parser q ?f") (auto split: sum.split)
  finally have "parse_step json_sax_dom_parser ps = parse_key json_sax_dom_parser q ?f" .
  moreover have "key_due q cs st (Obj [] [] # fst b, snd b)" using q ready by (simp add: key_due_def)
  moreover have "remembers ?f q st" using q(2) by (simp add: remembers_def)
  ultimately show ?thesis by blast
qed simp

section \<open>Every spelling is parsed\<close>

text \<open>No value begins with a closing bracket, and no member list either.\<close>

lemma literal_tokens: "spells_scalar v t \<Longrightarrow> white w \<Longrightarrow> number_ends cs \<Longrightarrow> ready (ps :: 's parse_state) (w @ t @ cs) \<Longrightarrow> last_token ps \<noteq> end_array"
proof (induction rule: spells_scalar.induct)
  case null
  then show ?case using ready_literal [of ps w "''null''" cs literal_null] by (simp add: literals_def)
next
  case true
  then show ?case using ready_literal [of ps w "''true''" cs literal_true] by (simp add: literals_def)
next
  case false
  then show ?case using ready_literal [of ps w "''false''" cs literal_false] by (simp add: literals_def)
next
  case (str s t)
  then show ?case using ready_string [of ps w t cs s] by simp
next
  case (number nt t)
  from ready_number [OF number(5,3,1,4)] show ?case by (cases "last_token ps") auto
qed

lemma value_tokens:
  assumes "spells v t" and "number_ends cs" and "ready (ps :: 's parse_state) (t @ cs)"
  shows "last_token ps \<noteq> end_array"
  using assms
proof cases
  case (scalar w t')
  with literal_tokens [of v t' w cs ps] assms(2,3) show ?thesis by simp
next
  case (empty_array w w')
  with ready_punctuation [of ps w "CHR ''[''" "w' @ '']'' @ cs"] assms(3) show ?thesis by simp
next
  case (array w vs t')
  with ready_punctuation [of ps w "CHR ''[''" "t' @ cs"] assms(3) show ?thesis by simp
next
  case (empty_object w w')
  with ready_punctuation [of ps w "CHR ''{''" "w' @ ''}'' @ cs"] assms(3) show ?thesis by simp
next
  case (object w m t')
  with ready_punctuation [of ps w "CHR ''{''" "t' @ cs"] assms(3) show ?thesis by simp
qed

lemma elements_tokens:
  assumes "spells_elements vs t" and "ready (ps :: 's parse_state) (t @ cs)"
  shows "last_token ps \<noteq> end_array"
  using assms
proof cases
  case (last_element v t' w)
  with value_tokens [of v t' "w @ '']'' @ cs" ps] number_ends_white [of w "CHR '']''" cs] assms(2) show ?thesis by simp
next
  case (element v t' w vs' ts)
  with value_tokens [of v t' "w @ CHR '','' # ts @ cs" ps] number_ends_white [of w "CHR '',''" "ts @ cs"] assms(2)
  show ?thesis by simp
qed

lemma members_tokens:
  assumes "spells_members m t" and "ready (ps :: 's parse_state) (t @ cs)"
  shows "last_token ps \<noteq> end_object"
  using assms
proof cases
  case (last_member w k s w' v t' w'')
  with ready_string [of ps w s "w' @ CHR '':'' # t' @ w'' @ ''}'' @ cs" k] assms(2) show ?thesis by simp
next
  case (member w k s w' v t' w'' m' ts)
  with ready_string [of ps w s "w' @ CHR '':'' # t' @ w'' @ CHR '','' # ts @ cs" k] assms(2) show ?thesis by simp
qed

definition assemble_members :: "(string \<times> json) list \<Rightarrow> (string \<times> json) list \<Rightarrow> (string \<times> json) list" where
  "assemble_members m m0 = fold (\<lambda>(k, v). map_assign k v) (map (map_prod id assemble) m) m0"

lemma assemble_members_simps [simp]:
  "assemble_members [] m0 = m0"
  "assemble_members ((k, v) # m) m0 = assemble_members m (map_assign k (assemble v) m0)"
  "JObject (assemble_members m []) = assemble (JObject m)"
  by (simp_all add: assemble_members_def)

lemma assign_emplace: "map_assign k v (map_emplace k w m) = map_assign k v m"
  by (induction k w m rule: map_emplace.induct) auto

lemma spelling_run:
  "spells v t \<Longrightarrow> value_due ps (t @ rest) st b \<Longrightarrow> number_ends rest \<Longrightarrow>
     \<exists>ps'. run ps ps' \<and> value_read ps' rest st (place (assemble v) b)"
  "spells_elements vs t' \<Longrightarrow> value_due ps (t' @ rest) (True # st) (Arr xs # fs, u) \<Longrightarrow>
     \<exists>ps'. run ps ps' \<and> value_read ps' rest st (place (JArray (xs @ map assemble vs)) (fs, u))"
  "spells_members m t'' \<Longrightarrow> key_due ps (t'' @ rest) st (Obj m0 k0 # fs, u) \<Longrightarrow> remembers f ps st \<Longrightarrow>
     \<exists>ps1 ps'. parse_key json_sax_dom_parser ps f = Ok (Inr (Continue ps1)) \<and> run ps1 ps'
       \<and> value_read ps' rest st (place (JObject (assemble_members m m0)) (fs, u))"
proof (induction arbitrary: ps rest st b and ps rest st xs fs u and ps rest st m0 k0 fs u f rule: spells_spells_elements_spells_members.inducts)
  case (scalar w v t)
  have "assemble v = v" using scalar(2) by cases (auto simp: number_json_def split: option.split)
  with scalar_run [of ps w t rest st b v] scalar show ?case by simp
next
  case (empty_array w w')
  then show ?case using empty_run [of ps w "CHR ''[''" w' "CHR '']''" rest st b True] by simp
next
  case (array w vs t)
  have "value_due ps (w @ CHR ''['' # (t @ rest)) st b" using array(4) by simp
  from array_run [OF this array(1) elements_tokens [where cs = rest, OF array(2)]] obtain p1 where
    p1: "run ps p1" "value_due p1 (t @ rest) (True # st) (Arr [] # fst b, snd b)" by blast
  from array(3) [OF p1(2)] obtain p2 where "run p1 p2" "value_read p2 rest st (place (JArray ([] @ map assemble vs)) (fst b, snd b))"
    by blast
  with run_trans [OF p1(1)] show ?case by auto
next
  case (empty_object w w')
  then show ?case using empty_run [of ps w "CHR ''{''" w' "CHR ''}''" rest st b False] by simp
next
  case (object w m t)
  have "value_due ps (w @ CHR ''{'' # (t @ rest)) st b" using object(4) by simp
  from object_run [OF this object(1) members_tokens [where cs = rest, OF object(2)]] obtain q f where
    q: "parse_step json_sax_dom_parser ps = parse_key json_sax_dom_parser q f" "key_due q (t @ rest) st (Obj [] [] # fst b, snd b)"
      "remembers f q st" by blast
  from object(3) [OF q(2,3)] q(1) obtain p1 p2 where "parse_step json_sax_dom_parser ps = Ok (Inr (Continue p1))" "run p1 p2"
      "value_read p2 rest st (place (JObject (assemble_members m [])) (fst b, snd b))" by auto
  with run_trans [OF run_continue] show ?case by (auto simp del: assemble.simps)
next
  case (last_element v t w)
  have "value_due ps (t @ w @ CHR '']'' # rest) (True # st) (Arr xs # fs, u)" using last_element(4) by simp
  from last_element(3) [OF this number_ends_white [OF last_element(2)]] obtain p1 where
    p1: "run ps p1" "value_read p1 (w @ CHR '']'' # rest) (True # st) (Arr (xs @ [assemble v]) # fs, u)" by auto
  from end_run [OF p1(2) last_element(2)] obtain p2 where "run p1 p2"
      "value_read p2 rest st (build_end (Arr (xs @ [assemble v]) # fs, u))" by auto
  with run_trans [OF p1(1)] show ?case by auto
next
  case (element v t w vs ts)
  have "value_due ps (t @ w @ CHR '','' # (ts @ rest)) (True # st) (Arr xs # fs, u)" using element(6) by simp
  from element(4) [OF this number_ends_white [OF element(2)]] obtain p1 where
    p1: "run ps p1" "value_read p1 (w @ CHR '','' # (ts @ rest)) (True # st) (Arr (xs @ [assemble v]) # fs, u)" by auto
  from next_element_run [OF p1(2) element(2)] obtain p2 where
    p2: "run p1 p2" "value_due p2 (ts @ rest) (True # st) (Arr (xs @ [assemble v]) # fs, u)" by blast
  from element(5) [OF p2(2)] obtain p3 where "run p2 p3"
      "value_read p3 rest st (place (JArray ((xs @ [assemble v]) @ map assemble vs)) (fs, u))" by blast
  with run_trans [OF run_trans [OF p1(1) p2(1)]] show ?case by auto
next
  case (last_member w k s w' v t w'')
  have due: "key_due ps (w @ CHR 0x22 # s @ CHR 0x22 # w' @ CHR '':'' # (t @ w'' @ CHR ''}'' # rest)) st (Obj m0 k0 # fs, u)"
    using last_member(7) by simp
  from key_run [OF due last_member(8,1,2,3)] obtain p1 where
    p1: "parse_key json_sax_dom_parser ps f = Ok (Inr (Continue p1))"
      "value_due p1 (t @ w'' @ CHR ''}'' # rest) (False # st) (Obj (map_emplace k JNull m0) k # fs, u)" by blast
  from last_member(6) [OF p1(2) number_ends_white [OF last_member(5)]] obtain p2 where
    p2: "run p1 p2" "value_read p2 (w'' @ CHR ''}'' # rest) (False # st) (Obj (map_assign k (assemble v) m0) k # fs, u)"
    by (auto simp: assign_emplace)
  from end_run [OF p2(2) last_member(5)] obtain p3 where "run p2 p3"
      "value_read p3 rest st (build_end (Obj (map_assign k (assemble v) m0) k # fs, u))" by auto
  with p1(1) run_trans [OF p2(1)] show ?case by auto
next
  case (member w k s w' v t w'' m ts)
  have due: "key_due ps (w @ CHR 0x22 # s @ CHR 0x22 # w' @ CHR '':'' # (t @ w'' @ CHR '','' # ts @ rest)) st (Obj m0 k0 # fs, u)"
    using member(9) by simp
  from key_run [OF due member(10,1,2,3)] obtain p1 where
    p1: "parse_key json_sax_dom_parser ps f = Ok (Inr (Continue p1))"
      "value_due p1 (t @ w'' @ CHR '','' # ts @ rest) (False # st) (Obj (map_emplace k JNull m0) k # fs, u)" by blast
  from member(7) [OF p1(2) number_ends_white [OF member(5)]] obtain p2 where
    p2: "run p1 p2" "value_read p2 (w'' @ CHR '','' # ts @ rest) (False # st) (Obj (map_assign k (assemble v) m0) k # fs, u)"
    by (auto simp: assign_emplace)
  from next_member_run [OF p2(2) member(5)] obtain q where
    q: "parse_step json_sax_dom_parser p2 = parse_key json_sax_dom_parser q (\<lambda>ps. ps)"
      "key_due q (ts @ rest) st (Obj (map_assign k (assemble v) m0) k # fs, u)" "remembers (\<lambda>ps. ps) q st" by blast
  from member(8) [OF q(2,3)] q(1) obtain p3 p4 where "parse_step json_sax_dom_parser p2 = Ok (Inr (Continue p3))" "run p3 p4"
      "value_read p4 rest st (place (JObject (assemble_members m (map_assign k (assemble v) m0))) (fs, u))" by auto
  with p1(1) run_trans [OF run_trans [OF p2(1) run_continue]] show ?case by auto
qed

text \<open>A text of the grammar does not begin with a byte order mark.\<close>

lemma white_first: "white w \<Longrightarrow> fst (next_char t) \<noteq> 0xEF \<Longrightarrow> fst (next_char (w @ t)) \<noteq> 0xEF"
  by (cases w) (auto simp: is_whitespace_def)

lemma scalar_first: "spells_scalar v t \<Longrightarrow> fst (next_char (t @ r)) \<noteq> 0xEF"
proof (induction rule: spells_scalar.induct)
  case (number nt t)
  from number(1) obtain c cs where "t = c # cs" "c = CHR ''-'' \<or> is_digit c"
    by cases (auto simp: integer_text_def digits_def is_digit_def neq_Nil_conv)
  moreover have "is_digit c \<Longrightarrow> is_0_9 (of_char c)" by (simp add: is_0_9_of_char)
  ultimately show ?case by (auto simp: is_0_9_def)
qed auto

lemma spells_first: "spells v t \<Longrightarrow> fst (next_char (t @ r)) \<noteq> 0xEF"
  by (erule spells.cases) (simp_all add: white_first scalar_first)

lemma parse_spelled:
  assumes "spells v t" and "white w"
  shows "json_parse (t @ w) True c = Ok (assemble v)"
proof -
  let ?ps = "new_parser (t @ w) c (new_dom True)"
  have "before_token (new_lexer (t @ w) c) (t @ w)"
    using spells_first [OF assms(1)] by (simp add: before_token_def pending_def new_lexer_def)
  then have "ready ?ps (t @ w)" unfolding new_parser_def by (intro get_token_ready) simp
  moreover have "represents [] Due ([], JNull) (new_dom True)" by (simp add: represents_def new_dom_def mode_fits_def)
  ultimately have due: "value_due ?ps (t @ w) [] ([], JNull)"
    by (simp add: value_due_def new_parser_def clean_def) (simp add: new_dom_def)
  have "number_ends w" using assms(2) by (cases w) (auto simp: number_ends_def is_whitespace_def is_0_9_def is_e_def EOF_def)
  from spelling_run(1) [OF assms(1) due this] obtain p where
    p: "run ?ps p" "before_token (m_lexer p) w" "skip_to_state_evaluation p" "states p = []"
      "represents [] Done ([], assemble v) (sax_state p)" "clean True (sax_state p)"
    by (auto simp: value_read_def)
  have "parse_step json_sax_dom_parser p = Ok (Inr (Return True (p\<lparr>skip_to_state_evaluation := False\<rparr>)))"
    using p(3,4) by (simp add: parse_step_def evaluate_state_def)
  with p(1) have loop: "sax_parse_internal json_sax_dom_parser ?ps = Ok (True, p\<lparr>skip_to_state_evaluation := False\<rparr>)"
    by (simp add: run_def sax_parse_internal.simps [of _ p])
  have "last_token (get_token (p\<lparr>skip_to_state_evaluation := False\<rparr>)) = end_of_input"
    using scan_end [OF p(2) assms(2)] by (simp add: get_token_def split: prod.split) (metis fst_conv)
  with loop p(5,6) show ?thesis by (simp add: json_parse_def parser_parse_def Let_def represents_def clean_def)
qed

lemma accept_parsed: "json_parse i True c = Ok v \<Longrightarrow> json_accept i c = Ok True"
  by (rule json_parse_cases [of i c]) simp_all

section \<open>Property\<close>

text \<open>C29: the parser is complete for the texts of RFC 8259 that spell a value it can represent: those whose strings
  are UTF-8 with every escaped surrogate in a pair and whose numbers are finite as doubles. Every such spelling,
  whatever its white space, its escapes and its way to write a number, is accepted and parsed to that value, of
  several members with one key the last. (The grammar alone also allows an unpaired surrogate such as \<^verbatim>\<open>\uDEAD\<close> and a
  number such as \<^verbatim>\<open>1e999\<close>; these \<open>spells\<close> leaves out, and the parser refuses them.)\<close>

theorem json_parse_complete:
  assumes "spells v t" and "white w"
  shows "json_parse (t @ w) True c = Ok (assemble v) \<and> json_accept (t @ w) c = Ok True"
proof -
  from parse_spelled [OF assms, of c] show ?thesis by (simp add: accept_parsed)
qed

theorem json_parse_complete_witness: "json_parse (''[ null'' @ ''] '') True False = Ok (JArray [JNull])"
proof -
  have "spells_elements [JNull] ('' null'' @ [] @ '']'')"
    using spells_spells_elements_spells_members.scalar [of "'' ''", OF _ spells_scalar.null]
    by (intro spells_spells_elements_spells_members.last_element) (simp_all add: is_whitespace_def)
  then have "spells (JArray [JNull]) ([] @ CHR ''['' # '' null'' @ [] @ '']'')"
    by (intro spells_spells_elements_spells_members.array) simp_all
  from json_parse_complete [OF this, of "'' ''" False] show ?thesis by (simp add: is_whitespace_def)
qed

end
