(* ===== verification/JsonRoundtrip.thy ===== *)
theory JsonRoundtrip
  imports JsonText JsonStrings JsonIntegers
begin

text \<open>
  Writing a value and reading it back (\<^verbatim>\<open>external/json.hpp\<close>, \<^verbatim>\<open>dump\<close> and \<^verbatim>\<open>parse\<close>): what \<^verbatim>\<open>dump\<close>
  writes, compact or pretty-printed, is a spelling of the value in the grammar of \<open>JsonText\<close>, so that
  \<^verbatim>\<open>parse\<close> returns the value. Floating-point numbers are left out (that the digits of Grisu2 denote
  the number they are made of is not proved here), as are binary values and discarded ones, which the
  grammar has no text for.
\<close>

section \<open>Values that can be written\<close>

primrec writable :: "json \<Rightarrow> bool" where
  "writable JNull = True"
| "writable (JObject m) = list_all (\<lambda>(k, ok). utf8_text k \<and> ok) (map (map_prod id writable) m)"
| "writable (JArray xs) = list_all id (map writable xs)"
| "writable (JString s) = utf8_text s"
| "writable (JBoolean b) = True"
| "writable (JInteger i) = True"
| "writable (JUnsigned n) = True"
| "writable (JFloat x) = False"
| "writable (JBinary bs st) = False"
| "writable JDiscarded = False"

text \<open>A signed number that is not negative is read as an unsigned one.\<close>

primrec as_read :: "json \<Rightarrow> json" where
  "as_read JNull = JNull"
| "as_read (JObject m) = JObject (map (map_prod id as_read) m)"
| "as_read (JArray xs) = JArray (map as_read xs)"
| "as_read (JString s) = JString s"
| "as_read (JBoolean b) = JBoolean b"
| "as_read (JInteger i) = (if 0 \<le> sint i then JUnsigned i else JInteger i)"
| "as_read (JUnsigned n) = JUnsigned n"
| "as_read (JFloat x) = JFloat x"
| "as_read (JBinary bs st) = JBinary bs st"
| "as_read JDiscarded = JDiscarded"

text \<open>How deep containers nest: with the step, how wide the indentation grows.\<close>

primrec depth :: "json \<Rightarrow> nat" where
  "depth JNull = 0"
| "depth (JObject m) = Suc (foldr (max \<circ> snd) (map (map_prod id depth) m) 0)"
| "depth (JArray xs) = Suc (foldr max (map depth xs) 0)"
| "depth (JString s) = 0"
| "depth (JBoolean b) = 0"
| "depth (JInteger i) = 0"
| "depth (JUnsigned n) = 0"
| "depth (JFloat x) = 0"
| "depth (JBinary bs st) = 0"
| "depth JDiscarded = 0"

section \<open>Numbers\<close>

lemma nat_dec_leading: "0 < n \<Longrightarrow> hd (nat_dec n) \<noteq> CHR ''0''"
proof (induction n rule: nat_dec.induct)
  case (1 n)
  show ?case
  proof (cases "n < 10")
    case True
    then have "list_all (\<lambda>d. d = 0 \<or> char_of (48 + d) \<noteq> CHR ''0'') [0..<10 :: nat]" by code_simp
    from list_all_upt [OF this _ True] 1(2) True show ?thesis by (simp add: nat_dec_1)
  next
    case False
    with 1 nat_dec_digits [of "n div 10"] show ?thesis by (simp add: nat_dec_step)
  qed
qed

lemma integer_text_dec: "integer_text (nat_dec n)"
  using nat_dec_digits [of n] nat_dec_leading [of n] nat_dec_0 by (auto simp: integer_text_def digits_def)

lemma unsigned_spells: "spells_scalar (JUnsigned n) (nat_dec (unat n))"
proof -
  have "number_text (number_kind value_unsigned [] []) (nat_dec (unat n) @ [] @ [])"
    by (rule number_text.positive) (simp_all add: integer_text_dec fraction_text_def exponent_text_def)
  then have "number_text value_unsigned (nat_dec (unat n))" by (simp add: number_kind_def)
  from spells_scalar.number [OF this] show ?thesis by (simp add: number_json_def strtoull_nat_dec finite_number_def)
qed

lemma negative_spells:
  assumes "sint i < 0"
  shows "spells_scalar (JInteger i) (CHR ''-'' # nat_dec (nat (- sint i)))"
proof -
  have "number_text (number_kind value_integer [] []) (CHR ''-'' # nat_dec (nat (- sint i)) @ [] @ [])"
    by (rule number_text.negative) (simp_all add: integer_text_dec fraction_text_def exponent_text_def)
  then have num: "number_text value_integer (CHR ''-'' # nat_dec (nat (- sint i)))" by (simp add: number_kind_def)
  have "- (2 ^ 63) \<le> sint i" using sint_greater_eq [of i] by simp
  then have "nat (- sint i) \<le> 2 ^ 63" "0 < nat (- sint i)" using assms by simp_all
  from strtoll_neg_dec [OF this(2,1)] have "strtoll (CHR ''-'' # nat_dec (nat (- sint i))) = Some (- of_nat (nat (- sint i)))" .
  moreover have "of_nat (unat (- i)) = - i" by simp
  then have "- of_nat (nat (- sint i)) = i" by (simp add: unat_abs(1) [OF assms])
  ultimately show ?thesis using spells_scalar.number [OF num] by (simp add: number_json_def finite_number_def)
qed

lemma signed_spells: "spells_scalar (as_read (JInteger i)) (int_dec (sint i))"
  using unsigned_spells [of i] negative_spells [of i] unat_abs(2) [of i] by (cases "sint i < 0") (simp_all add: int_dec_def)

section \<open>Values\<close>

text \<open>White space before a spelling belongs to it.\<close>

lemma spells_white:
  "spells v t \<Longrightarrow> white w0 \<Longrightarrow> spells v (w0 @ t)"
  "spells_elements vs t' \<Longrightarrow> white w0 \<Longrightarrow> spells_elements vs (w0 @ t')"
  "spells_members m t'' \<Longrightarrow> white w0 \<Longrightarrow> spells_members m (w0 @ t'')"
proof (induction rule: spells_spells_elements_spells_members.inducts)
  case (scalar w v t)
  then show ?case using spells_spells_elements_spells_members.scalar [of "w0 @ w"] by simp
next
  case (empty_array w w')
  then show ?case using spells_spells_elements_spells_members.empty_array [of "w0 @ w" w'] by simp
next
  case (array w vs t)
  then show ?case using spells_spells_elements_spells_members.array [of "w0 @ w" vs t] by simp
next
  case (empty_object w w')
  then show ?case using spells_spells_elements_spells_members.empty_object [of "w0 @ w" w'] by simp
next
  case (object w m t)
  then show ?case using spells_spells_elements_spells_members.object [of "w0 @ w" m t] by simp
next
  case (last_element v t w)
  then show ?case using spells_spells_elements_spells_members.last_element [of v "w0 @ t" w] by simp
next
  case (element v t w vs ts)
  then show ?case using spells_spells_elements_spells_members.element [of v "w0 @ t" w vs ts] by simp
next
  case (last_member w k s w' v t w'')
  then show ?case using spells_spells_elements_spells_members.last_member [of "w0 @ w" k s w' v t w''] by simp
next
  case (member w k s w' v t w'' m ts)
  then show ?case using spells_spells_elements_spells_members.member [of "w0 @ w" k s w' v t w'' m ts] by simp
qed

text \<open>The indentation: white space, and long enough for a value of depth \<open>d\<close> at \<open>n\<close>.\<close>

definition indent_ok :: "bool \<Rightarrow> string \<Rightarrow> nat \<Rightarrow> bool" where
  "indent_ok pretty ind n \<longleftrightarrow> (pretty \<longrightarrow> white ind \<and> n \<le> length ind \<and> length ind < 2 ^ 32)"

lemma indentation_white: "white ind \<Longrightarrow> n \<le> length ind \<Longrightarrow> \<exists>w. indentation ind n = Ok w \<and> white w"
  by (auto simp: indentation_def white_def list_all_iff dest: in_set_takeD)

lemma member_indent_white: "indent_ok pretty ind n \<Longrightarrow> \<exists>w. member_indent pretty ind n = Ok w \<and> white w"
  using indentation_white by (auto simp: member_indent_def indent_ok_def)

lemma indent_deeper:
  assumes "indent_ok True ind (n + Suc d * st)"
  shows "deeper n st = n + st" "grow_indent ind (n + st) = ind" "indent_ok True ind (n + st + d * st)" "white ind" "n \<le> length ind"
  using assms by (auto simp: indent_ok_def deeper_def grow_indent_def)

lemma indent_inner:
  assumes "indent_ok pretty ind (n + Suc d * step)" and "e \<le> d"
  shows "indent_ok pretty ind ((if pretty then n + step else n) + e * step)"
proof -
  have "e * step \<le> d * step" using assms(2) by (rule mult_le_mono1)
  then have "n + (step + d * step) \<le> l \<Longrightarrow> n + step + e * step \<le> l" for l by linarith
  with assms(1) show ?thesis by (simp add: indent_ok_def)
qed

lemma depth_member: "(k, v) \<in> set m \<Longrightarrow> depth (JObject m) = Suc d \<Longrightarrow> depth v \<le> d"
  by (induction m arbitrary: d) (auto simp: less_Suc_eq_le max_def split: if_splits)

lemma depth_element: "v \<in> set xs \<Longrightarrow> depth (JArray xs) = Suc d \<Longrightarrow> depth v \<le> d"
  by (induction xs arbitrary: d) (auto simp: less_Suc_eq_le max_def split: if_splits)

lemma scalar_spells: "spells_scalar v t \<Longrightarrow> spells v t"
  using spells_spells_elements_spells_members.scalar [of "[]"] by simp

text \<open>A value is written as a spelling of it.\<close>

definition dumps :: "error_handler_t \<Rightarrow> bool \<Rightarrow> nat \<Rightarrow> string \<Rightarrow> nat \<Rightarrow> json \<Rightarrow> bool" where
  "dumps h pretty step ind n v \<longleftrightarrow> (\<exists>t. dump h pretty False step n v ind = Ok (t, ind) \<and> spells (as_read v) t)"

lemma white_separator [simp]: "separator pretty @ ts = CHR '','' # (if pretty then [CHR 0x0A] else []) @ ts"
  by (simp add: separator_def)

lemma white_newline [simp]: "white (if b then [CHR 0x0A] else [])"
  by (simp add: is_whitespace_def)

lemma elements_dump:
  assumes "\<forall>v \<in> set vs. dumps h pretty step ind n v" and "indent_ok pretty ind n" and "vs \<noteq> []"
  shows "\<exists>t. dump_elements h pretty False step n vs ind = Ok (t, ind)
    \<and> (\<forall>w. white w \<longrightarrow> spells_elements (map as_read vs) (t @ w @ '']''))"
  using assms(1,3)
proof (induction vs)
  case (Cons v vs)
  obtain pre where pre: "member_indent pretty ind n = Ok pre" "white pre" using member_indent_white [OF assms(2)] by blast
  obtain t where t: "dump h pretty False step n v ind = Ok (t, ind)" "spells (as_read v) t" using Cons.prems by (auto simp: dumps_def)
  note first = spells_white(1) [OF t(2) pre(2)]
  show ?case
  proof (cases "vs = []")
    case True
    then show ?thesis using pre t first by (auto intro: spells_spells_elements_spells_members.last_element [of _ "pre @ t", simplified])
  next
    case False
    with Cons obtain ts where ts: "dump_elements h pretty False step n vs ind = Ok (ts, ind)"
        "\<forall>w. white w \<longrightarrow> spells_elements (map as_read vs) (ts @ w @ '']'')" by auto
    have "spells_elements (as_read v # map as_read vs) ((pre @ t) @ [] @ CHR '','' # ((if pretty then [CHR 0x0A] else []) @ ts @ w @ '']''))"
      if "white w" for w
      by (rule spells_spells_elements_spells_members.element [OF first white_simps(1) spells_white(2) [OF _ white_newline]])
        (use ts(2) that in simp)
    with pre t ts False show ?thesis by simp
  qed
qed simp

lemma members_dump:
  assumes "\<forall>(k, v) \<in> set m. utf8_text k \<and> dumps h pretty step ind n v" and "indent_ok pretty ind n" and "m \<noteq> []"
  shows "\<exists>t. dump_members h pretty False step n m ind = Ok (t, ind)
    \<and> (\<forall>w. white w \<longrightarrow> spells_members (map (map_prod id as_read) m) (t @ w @ ''}''))"
  using assms(1,3)
proof (induction m)
  case (Cons p m)
  obtain k v where p: "p = (k, v)" by (cases p)
  obtain pre where pre: "member_indent pretty ind n = Ok pre" "white pre" using member_indent_white [OF assms(2)] by blast
  obtain t where t: "dump h pretty False step n v ind = Ok (t, ind)" "spells (as_read v) t" using Cons.prems p by (auto simp: dumps_def)
  obtain key where key: "dump_escaped h False k = Ok key" "string_text k key" using Cons.prems p dump_escaped_spells [of k h] by auto
  let ?sp = "if pretty then '' '' else []"
  have sp: "(if pretty then '': '' else '':'') = CHR '':'' # ?sp" "white ?sp" by (auto simp: is_whitespace_def)
  note val = spells_white(1) [OF t(2) sp(2)]
  show ?case
  proof (cases "m = []")
    case True
    have "spells_members [(k, as_read v)] (pre @ CHR 0x22 # key @ CHR 0x22 # [] @ CHR '':'' # (?sp @ t) @ w @ ''}'')" if "white w" for w
      by (rule spells_spells_elements_spells_members.last_member) (use pre key val that in auto)
    with True pre key t sp p show ?thesis by simp
  next
    case False
    with Cons.prems(1) have "\<forall>(k, v) \<in> set m. utf8_text k \<and> dumps h pretty step ind n v" by simp
    from Cons.IH [OF this False] obtain ts where ts: "dump_members h pretty False step n m ind = Ok (ts, ind)"
        "\<forall>w. white w \<longrightarrow> spells_members (map (map_prod id as_read) m) (ts @ w @ ''}'')" by blast
    have "spells_members ((k, as_read v) # map (map_prod id as_read) m) (pre @ CHR 0x22 # key @ CHR 0x22 # [] @ CHR '':'' # (?sp @ t) @ []
        @ CHR '','' # ((if pretty then [CHR 0x0A] else []) @ ts @ w @ ''}''))" if "white w" for w
      by (rule spells_spells_elements_spells_members.member
          [OF pre(2) key(2) white_simps(1) val white_simps(1) spells_white(3) [OF _ white_newline]]) (use ts(2) that in simp)
    moreover have "map (map_prod id as_read) (p # m) = (k, as_read v) # map (map_prod id as_read) m" by (simp add: p)
    moreover have "dump_members h pretty False step n (p # m) ind = Ok (pre @ CHR 0x22 # key @ CHR 0x22 # CHR '':'' # (?sp @ t)
        @ CHR '','' # (if pretty then [CHR 0x0A] else []) @ ts, ind)"
      using False pre(1) key(1) t(1) ts(1) sp(1) p by simp
    ultimately show ?thesis by (intro exI conjI) (assumption, simp only: append_assoc append_Cons append_Nil, blast)
  qed
qed simp

lemma dump_dumps: "writable v \<Longrightarrow> indent_ok pretty ind (n + depth v * step) \<Longrightarrow> dumps h pretty step ind n v"
proof (induction v arbitrary: n)
  case (JObject m)
  show ?case
  proof (cases "m = []")
    case True
    then show ?thesis using spells_spells_elements_spells_members.empty_object [of "[]" "[]"] by (simp add: dumps_def)
  next
    case False
    obtain d where d: "depth (JObject m) = Suc d" by simp
    let ?n = "if pretty then n + step else n"
    have deep: "deeper n step = n + step" "grow_indent ind (n + step) = ind" "white ind" "n \<le> length ind" if pretty
      using indent_deeper [of ind n d step] JObject.prems(2) d that by simp_all
    have ok: "indent_ok pretty ind (?n + e * step)" if "e \<le> d" for e
      by (rule indent_inner [OF _ that]) (use JObject.prems(2) d in simp)
    have "utf8_text k \<and> dumps h pretty step ind ?n v" if "(k, v) \<in> set m" for k v
    proof -
      have "utf8_text k" "writable v" using JObject.prems(1) that by (auto simp: list_all_iff)
      moreover have "indent_ok pretty ind (?n + depth v * step)" by (rule ok [OF depth_member [OF that d]])
      ultimately show ?thesis using JObject.IH [of "(k, v)" v ?n] that by (auto simp: Basic_BNFs.snds.simps)
    qed
    then obtain t where t: "dump_members h pretty False step ?n m ind = Ok (t, ind)"
        "\<And>w. white w \<Longrightarrow> spells_members (map (map_prod id as_read) m) (t @ w @ ''}'')"
      using members_dump [of m h pretty step ind ?n] ok [of 0] False by auto
    show ?thesis
    proof (cases pretty)
      case True
      obtain w where w: "indentation ind n = Ok w" "white w" using indentation_white deep(3,4) True by blast
      have "spells_members (map (map_prod id as_read) m) ([CHR 0x0A] @ t @ (CHR 0x0A # w) @ ''}'')"
        by (rule spells_white(3) [OF t(2)]) (use w in \<open>simp_all add: is_whitespace_def\<close>)
      from spells_spells_elements_spells_members.object [OF _ this, of "[]"] show ?thesis
        using True False t(1) w(1) deep(1,2) by (simp add: dumps_def)
    next
      case np: False
      from spells_spells_elements_spells_members.object [OF _ t(2) [of "[]"], of "[]"] show ?thesis
        using np False t(1) by (simp add: dumps_def)
    qed
  qed
next
  case (JArray xs)
  show ?case
  proof (cases "xs = []")
    case True
    then show ?thesis using spells_spells_elements_spells_members.empty_array [of "[]" "[]"] by (simp add: dumps_def)
  next
    case False
    obtain d where d: "depth (JArray xs) = Suc d" by simp
    let ?n = "if pretty then n + step else n"
    have deep: "deeper n step = n + step" "grow_indent ind (n + step) = ind" "white ind" "n \<le> length ind" if pretty
      using indent_deeper [of ind n d step] JArray.prems(2) d that by simp_all
    have ok: "indent_ok pretty ind (?n + e * step)" if "e \<le> d" for e
      by (rule indent_inner [OF _ that]) (use JArray.prems(2) d in simp)
    have "dumps h pretty step ind ?n v" if "v \<in> set xs" for v
    proof -
      have "writable v" using JArray.prems(1) that by (auto simp: list_all_iff)
      moreover have "indent_ok pretty ind (?n + depth v * step)" by (rule ok [OF depth_element [OF that d]])
      ultimately show ?thesis using JArray.IH that by blast
    qed
    then obtain t where t: "dump_elements h pretty False step ?n xs ind = Ok (t, ind)"
        "\<And>w. white w \<Longrightarrow> spells_elements (map as_read xs) (t @ w @ '']'')"
      using elements_dump [of xs h pretty step ind ?n] ok [of 0] False by auto
    show ?thesis
    proof (cases pretty)
      case True
      obtain w where w: "indentation ind n = Ok w" "white w" using indentation_white deep(3,4) True by blast
      have "spells_elements (map as_read xs) ([CHR 0x0A] @ t @ (CHR 0x0A # w) @ '']'')"
        by (rule spells_white(2) [OF t(2)]) (use w in \<open>simp_all add: is_whitespace_def\<close>)
      from spells_spells_elements_spells_members.array [OF _ this, of "[]"] show ?thesis
        using True False t(1) w(1) deep(1,2) by (simp add: dumps_def)
    next
      case np: False
      from spells_spells_elements_spells_members.array [OF _ t(2) [of "[]"], of "[]"] show ?thesis
        using np False t(1) by (simp add: dumps_def)
    qed
  qed
next
  case (JString s)
  then obtain t where "dump_escaped h False s = Ok t" "string_text s t" using dump_escaped_spells [of s h] by auto
  with scalar_spells [OF spells_scalar.str] show ?case by (simp add: dumps_def)
next
  case (JBoolean b)
  show ?case using scalar_spells [OF spells_scalar.true] scalar_spells [OF spells_scalar.false] by (cases b) (simp_all add: dumps_def)
next
  case (JInteger i)
  show ?case using scalar_spells [OF signed_spells [of i]] by (simp add: dumps_def dump_signed_dec)
qed (use scalar_spells [OF spells_scalar.null] scalar_spells [OF unsigned_spells] in \<open>auto simp: dumps_def dump_unsigned_dec\<close>)

section \<open>The round trip\<close>

text \<open>A canonical value: what the parser makes, members sorted, and non-negative integers unsigned.\<close>

primrec canonical :: "json \<Rightarrow> bool" where
  "canonical JNull = True"
| "canonical (JObject m) = (sorted_keys m \<and> list_all (\<lambda>(k, ok). ok) (map (map_prod id canonical) m))"
| "canonical (JArray xs) = list_all id (map canonical xs)"
| "canonical (JString s) = True"
| "canonical (JBoolean b) = True"
| "canonical (JInteger i) = (sint i < 0)"
| "canonical (JUnsigned n) = True"
| "canonical (JFloat x) = True"
| "canonical (JBinary bs st) = True"
| "canonical JDiscarded = True"

lemma fold_assign_sorted: "sorted_keys (m0 @ m) \<Longrightarrow> fold (\<lambda>(k, v). map_assign k v) m m0 = m0 @ m"
proof (induction m arbitrary: m0)
  case (Cons p m)
  obtain k v where p: "p = (k, v)" by (cases p)
  have "map_assign k v m0 = m0 @ [(k, v)]"
    by (rule map_assign_last) (use Cons.prems p in \<open>auto simp: sorted_keys_def sorted_wrt_append\<close>)
  with Cons p show ?case by simp
qed simp

lemma canonical_read: "canonical v \<Longrightarrow> assemble (as_read v) = v"
proof (induction v)
  case (JObject m)
  have "map (map_prod id assemble) (map (map_prod id as_read) m) = m"
    using JObject by (auto simp: map_idI list_all_iff Basic_BNFs.snds.simps map_prod_def intro!: map_idI)
  with JObject.prems fold_assign_sorted [of "[]" m] show ?case by simp
next
  case (JArray xs)
  then have "map assemble (map as_read xs) = xs" by (auto simp: list_all_iff intro!: map_idI)
  then show ?case by simp
qed simp_all

lemma json_dump_spells:
  assumes "writable v" and "indent < 0 \<or> is_whitespace (of_char ch) \<and> depth v * nat indent \<le> 512"
  shows "\<exists>t. json_dump v indent ch False h = Ok t \<and> spells (as_read v) t"
proof -
  let ?ind = "replicate 512 ch"
  have "dumps h False 0 ?ind 0 v" using assms(1) by (rule dump_dumps) (simp add: indent_ok_def)
  moreover have "dumps h True (nat indent) ?ind 0 v" if "0 \<le> indent"
    using assms(1) by (rule dump_dumps) (use assms(2) that in \<open>simp add: indent_ok_def white_def list_all_iff\<close>)
  ultimately show ?thesis by (auto simp: dumps_def json_dump_def Let_def not_less)
qed

lemma dump_then_parse:
  assumes "writable v" and "indent < 0 \<or> is_whitespace (of_char ch) \<and> depth v * nat indent \<le> 512"
  shows "\<exists>t. json_dump v indent ch False h = Ok t \<and> json_parse t True c = Ok (assemble (as_read v))"
  using json_dump_spells [OF assms, of h] parse_spelled [of _ _ "[]" c] by fastforce

section \<open>Property\<close>

text \<open>C28: what \<^verbatim>\<open>dump\<close> writes, \<^verbatim>\<open>parse\<close> reads back: every value of well-formed UTF-8 strings, booleans, integers,
  arrays and sorted objects is written, compact or pretty-printed with white space, as a text that is
  accepted and parsed to the same value.\<close>

theorem json_roundtrip:
  assumes "writable v" and "canonical v" and "indent < 0 \<or> is_whitespace (of_char ch) \<and> depth v * nat indent \<le> 512"
  shows "\<exists>t. json_dump v indent ch False h = Ok t \<and> json_parse t True c = Ok v \<and> json_accept t c = Ok True"
proof -
  from dump_then_parse [OF assms(1,3), of h c] canonical_read [OF assms(2)] obtain t where
    "json_dump v indent ch False h = Ok t" "json_parse t True c = Ok v" by auto
  moreover from this(2) have "json_accept t c = Ok True" by (rule accept_parsed)
  ultimately show ?thesis by blast
qed

theorem json_roundtrip_witness:
  "\<exists>t. json_dump (JObject [(''a'', JArray [JUnsigned 7, JInteger (- 7)]), (''b'', JString [CHR 0xC3, CHR 0xA9])]) 4 (CHR '' '') False strict = Ok t
    \<and> json_parse t True False = Ok (JObject [(''a'', JArray [JUnsigned 7, JInteger (- 7)]), (''b'', JString [CHR 0xC3, CHR 0xA9])])"
proof -
  let ?v = "JObject [(''a'', JArray [JUnsigned 7, JInteger (- 7)]), (''b'', JString [CHR 0xC3, CHR 0xA9])]"
  have "utf8_text (CHR 0xC3 # [CHR 0xA9] @ [])"
    by (rule utf8_text.sequence [where rs = "[(0x80, 0xBF)]", OF _ _ utf8_text.empty]) (simp_all add: utf8_ranges_def)
  moreover have "utf8_text ''a''" "utf8_text ''b''" by (simp_all add: plain_utf8 plain_ascii_def)
  ultimately have "writable ?v" by simp
  moreover have "canonical ?v" by (simp add: sorted_keys_def less_char_def)
  moreover have "is_whitespace (of_char (CHR '' '')) \<and> depth ?v * nat 4 \<le> 512" by (simp add: is_whitespace_def)
  ultimately show ?thesis using json_roundtrip [of ?v 4 "CHR '' ''" strict False] by blast
qed

end
