(* ===== verification/SearchController.thy ===== *)
theory SearchController
  imports MasterGuarantees JsonRoundtrip
begin

text \<open>
  \<^verbatim>\<open>NetServer/src/SearchController.cpp\<close>: the two HTTP handlers, on any search service, with the JSON
  library of \<open>JsonParser\<close>, \<open>JsonValue\<close> and \<open>JsonSerializer\<close> underneath: a request is the text of
  its body, a response a status and a text. That a request ends in one of the documented answers, and
  that an answer read by a JSON parser gives the number or the state it was made of, are facts of the
  composition of handler, master and library.
\<close>

section \<open>Requests and responses\<close>

record response =
  res_status :: nat
  res_body :: string
  res_content_type :: string

definition reply :: "nat \<Rightarrow> string \<Rightarrow> response" where
  "reply st answer = \<lparr>res_status = st, res_body = answer, res_content_type = ''text/plain''\<rparr>"

text \<open>\<^verbatim>\<open>response.dump()\<close> with the defaults of its parameters.\<close>

definition json_reply :: "nat \<Rightarrow> json \<Rightarrow> response outcome" where
  "json_reply st j = obind (json_dump j (-1) (CHR '' '') False strict)
     (\<lambda>answer. Ok \<lparr>res_status = st, res_body = answer, res_content_type = ''application/json''\<rparr>)"

section \<open>Handlers\<close>

text \<open>The \<^verbatim>\<open>catch\<close> clauses of the two handlers, in their order. \<open>what\<close> is the exception's text.\<close>

definition post_error :: "exn \<Rightarrow> response" where
  "post_error e = (case e of Json_Exception _ \<Rightarrow> reply 400 ''Bad Request''
     | Runtime_Error what \<Rightarrow> reply 404 (''Runtime Error: '' @ what)
     | Filesystem_Error what \<Rightarrow> reply 404 (''Runtime Error: '' @ what)
     | Other_Exception \<Rightarrow> reply 500 ''Internal Server Error'')"

definition get_error :: "exn \<Rightarrow> response" where
  "get_error e = (case e of Json_Exception _ \<Rightarrow> reply 400 ''Bad Request''
     | Runtime_Error what \<Rightarrow> reply 404 what
     | Filesystem_Error what \<Rightarrow> reply 404 what
     | Other_Exception \<Rightarrow> reply 400 ''Bad Request'')"

primrec handle_errors :: "(exn \<Rightarrow> response) \<Rightarrow> response outcome \<Rightarrow> response outcome" where
  "handle_errors h (Ok r) = Ok r"
| "handle_errors h (Throw e) = Ok (h e)"
| "handle_errors h Undef = Undef"
| "handle_errors h Hang = Hang"

text \<open>The request: the configuration, the path and the keyword.\<close>

definition parse_search :: "string \<Rightarrow> (string \<times> string \<times> SearchConfig) outcome" where
  "parse_search req_body =
     (let config = default_config in
      obind (json_parse req_body True False) (\<lambda>j.
      obind (json_value get_arithmetic_value j ''maxResults'' (max_results config)) (\<lambda>n.
      let config = config\<lparr>max_results := n\<rparr> in
      obind (json_value from_json_string j ''outputDir'' (output_dir config)) (\<lambda>d.
      let config = config\<lparr>output_dir := d\<rparr> in
      obind (obind (json_at j ''path'') from_json_string) (\<lambda>path.
      obind (obind (json_at j ''keyword'') from_json_string) (\<lambda>keyword.
        Ok (path, keyword, config)))))))"

definition search_response :: "u64 \<Rightarrow> json" where
  "search_response searchId = init_list [init_list [JString ''searchId'', JUnsigned searchId]]"

definition HandlePostSearch ::
  "(string \<Rightarrow> string \<Rightarrow> SearchConfig \<Rightarrow> 's \<Rightarrow> u64 outcome \<times> 's) \<Rightarrow> string \<Rightarrow> 's \<Rightarrow> response outcome \<times> 's" where
  "HandlePostSearch start req_body s =
     apfst (handle_errors post_error)
       (obind_st (parse_search req_body) s (\<lambda>(path, keyword, config).
         case start path keyword config s of (r, s') \<Rightarrow>
           (obind r (\<lambda>searchId. json_reply 202 (search_response searchId)), s')))"

text \<open>An \<^verbatim>\<open>int\<close> becomes a signed JSON number.\<close>

definition status_response :: "u64 \<Rightarrow> SearchStatus \<Rightarrow> json" where
  "status_response sessionId session = init_list
     [init_list [JString ''searchId'', JUnsigned sessionId],
      init_list [JString ''state'', JString (if st_state session = Running then ''Running'' else ''Done'')],
      init_list [JString ''chunksDone'', JInteger (scast (st_chunks_done session))],
      init_list [JString ''chunksTotal'', JInteger (scast (st_chunks_total session))],
      init_list [JString ''linesCount'', JUnsigned (st_lines_found session)],
      init_list [JString ''totalMatches'', JUnsigned (st_total_matches session)],
      init_list [JString ''scanErrors'', JUnsigned (st_scan_errors session)]]"

text \<open>\<open>path_params\<close>: the named parameters the router extracted; \<^verbatim>\<open>at\<close> throws \<^verbatim>\<open>out_of_range\<close>.\<close>

definition HandleGetSearch ::
  "(u64 \<Rightarrow> 's \<Rightarrow> SearchStatus option) \<Rightarrow> (string \<rightharpoonup> string) \<Rightarrow> 's \<Rightarrow> response outcome" where
  "HandleGetSearch status path_params s = handle_errors get_error
     (obind (case path_params ''id'' of None \<Rightarrow> Throw Other_Exception | Some v \<Rightarrow> stoull v) (\<lambda>sessionId.
        case status sessionId s of
          Some session \<Rightarrow> json_reply 200 (status_response sessionId session)
        | None \<Rightarrow> Throw (Runtime_Error ''Session Not Found'')))"

section \<open>The texts of the answers\<close>

lemma search_response_object: "search_response n = JObject [(''searchId'', JUnsigned n)]"
  by (simp add: search_response_def init_list_def)

lemma plain_names:
  "plain_string ''searchId''" "plain_string ''state''" "plain_string ''chunksDone''" "plain_string ''chunksTotal''"
  "plain_string ''linesCount''" "plain_string ''totalMatches''" "plain_string ''scanErrors''" "plain_string ''Running''"
  "plain_string ''Done''" "plain_string ''path''" "plain_string ''keyword''" "plain_string ''maxResults''"
  by (simp_all add: plain_ascii_def)

lemmas name_simps = plain_names [THEN dump_escaped_plain] plain_names [THEN plain_utf8]

text \<open>The members, sorted by their names.\<close>

definition status_members :: "u64 \<Rightarrow> SearchStatus \<Rightarrow> (string \<times> json) list" where
  "status_members i st =
     [(''chunksDone'', JInteger (scast (st_chunks_done st))),
      (''chunksTotal'', JInteger (scast (st_chunks_total st))),
      (''linesCount'', JUnsigned (st_lines_found st)),
      (''scanErrors'', JUnsigned (st_scan_errors st)),
      (''searchId'', JUnsigned i),
      (''state'', JString (if st_state st = Running then ''Running'' else ''Done'')),
      (''totalMatches'', JUnsigned (st_total_matches st))]"

lemma status_response_object: "status_response i st = JObject (status_members i st)"
  by (simp add: status_response_def status_members_def init_list_def less_char_def)

lemma search_reply: "json_reply st (search_response n) = Ok \<lparr>res_status = st,
    res_body = [CHR ''{'', CHR 0x22] @ ''searchId'' @ [CHR 0x22, CHR '':''] @ nat_dec (unat n) @ ''}'', res_content_type = ''application/json''\<rparr>"
  by (simp add: json_reply_def json_dump_def search_response_object name_simps member_indent_def dump_unsigned_dec)

lemma status_reply:
  "\<exists>answer. json_reply st (status_response i session)
      = Ok \<lparr>res_status = st, res_body = answer, res_content_type = ''application/json''\<rparr>
    \<and> json_parse answer True c = Ok (as_read (status_response i session))"
proof -
  let ?v = "status_response i session"
  have "writable ?v" by (simp add: status_response_object status_members_def name_simps)
  from dump_then_parse [OF this, of "-1" "CHR '' ''" strict c] obtain t where
    t: "json_dump ?v (-1) (CHR '' '') False strict = Ok t" "json_parse t True c = Ok (assemble (as_read ?v))" by auto
  have "sorted_keys (map (map_prod id as_read) (status_members i session))"
    by (simp add: sorted_keys_def status_members_def less_char_def)
  from fold_assign_sorted [of "[]", simplified, OF this]
  have "assemble (as_read ?v) = as_read ?v"
    by (simp add: status_response_object) (simp add: status_members_def)
  with t show ?thesis by (simp add: json_reply_def)
qed

section \<open>Reading a request\<close>

definition library_answers :: "'a outcome \<Rightarrow> bool" where
  "library_answers x \<longleftrightarrow> (\<exists>v. x = Ok v) \<or> (\<exists>e. x = Throw (Json_Exception e))"

lemma answers_simps [simp]: "library_answers (Ok v)" "library_answers (Throw (Json_Exception e))"
  "library_answers (Throw (type_error n msg))" "library_answers (Throw (out_of_range n msg))"
  by (simp_all add: library_answers_def type_error_def out_of_range_def)

lemma answers_obind: "library_answers x \<Longrightarrow> (\<And>v. x = Ok v \<Longrightarrow> library_answers (f v)) \<Longrightarrow> library_answers (obind x f)"
  by (auto simp: library_answers_def)

lemma answers_parse: "library_answers (json_parse b True c)"
  by (rule json_parse_cases [of b c]) simp_all

lemma answers_access:
  "library_answers (from_json_string j)" "library_answers (json_at j k)" "library_answers (json_value from_json_string j k d)"
  by (auto simp: from_json_string_def json_at_def json_value_def split: json.split option.split)

text \<open>A limit outside the range of \<^verbatim>\<open>uint64_t\<close>, given as a floating-point number.\<close>

definition undefined_limit :: "string \<Rightarrow> bool" where
  "undefined_limit b \<longleftrightarrow> (\<exists>m x. json_parse b True False = Ok (JObject m) \<and> map_of m ''maxResults'' = Some (JFloat x)
     \<and> double_to_u64 x = None)"

lemma parse_search_answers: "\<not> undefined_limit b \<Longrightarrow> library_answers (parse_search b)"
  unfolding parse_search_def Let_def
  by (intro answers_obind answers_parse answers_access answers_simps)
    (auto simp: undefined_limit_def json_value_def json_find_def get_arithmetic_value_def split: json.splits option.splits)

lemma parse_search_Undef: "undefined_limit b \<Longrightarrow> parse_search b = Undef"
  by (auto simp: undefined_limit_def parse_search_def json_value_def json_find_def get_arithmetic_value_def)

text \<open>What a well-formed request says, whatever the spelling.\<close>

lemma parse_search_members:
  assumes "json_parse b True False = Ok (JObject m)"
    and "map_of m ''path'' = Some (JString path)" and "map_of m ''keyword'' = Some (JString keyword)"
    and "map_of m ''maxResults'' = None" and "map_of m ''outputDir'' = None"
  shows "parse_search b = Ok (path, keyword, default_config)"
  using assms by (simp add: parse_search_def json_value_def json_find_def json_at_def from_json_string_def)

lemma parse_search_accepted: "parse_search b = Ok r \<Longrightarrow> json_accept b False = Ok True"
  by (rule json_parse_cases [of b False]) (simp_all add: parse_search_def)

lemma parse_search_limit:
  assumes "json_parse b True False = Ok (JObject m)" and "map_of m ''maxResults'' = Some (JInteger i)"
    and "parse_search b = Ok (path, keyword, config)"
  shows "max_results config = i"
  using assms by (auto simp: parse_search_def json_value_def json_find_def get_arithmetic_value_def obind_eq_Ok Let_def)

section \<open>The handlers on any search service\<close>

context search_service
begin

lemma post_cases:
  obtains (bad) "HandlePostSearch start b s = (Ok (reply 400 ''Bad Request''), s)"
  | (undefined) "HandlePostSearch start b s = (Undef, s)" "undefined_limit b"
  | (ran) path keyword config where "parse_search b = Ok (path, keyword, config)"
      "HandlePostSearch start b s = (case start path keyword config s of (r, s') \<Rightarrow>
        (handle_errors post_error (obind r (\<lambda>searchId. json_reply 202 (search_response searchId))), s'))"
proof (cases "undefined_limit b")
  case True
  with undefined show ?thesis by (simp add: HandlePostSearch_def parse_search_Undef)
next
  case False
  from parse_search_answers [OF this] show ?thesis unfolding library_answers_def
  proof (elim disjE exE)
    fix v
    assume "parse_search b = Ok v"
    then show ?thesis by (cases v) (auto intro!: ran simp: HandlePostSearch_def split: prod.split)
  qed (use bad in \<open>simp add: HandlePostSearch_def post_error_def\<close>)
qed

lemma post_status:
  assumes "HandlePostSearch start b s = (Ok res, s')"
  shows "res_status res \<in> {202, 400, 404}"
    and "res_status res \<noteq> 202 \<Longrightarrow> status i s' = status i s"
    and "res_status res = 202 \<Longrightarrow> \<exists>sid st. json_reply 202 (search_response sid) = Ok res \<and> status sid s' = Some st"
proof -
  have "res_status res \<in> {202, 400, 404} \<and> (res_status res \<noteq> 202 \<longrightarrow> status i s' = status i s)
    \<and> (res_status res = 202 \<longrightarrow> (\<exists>sid st. json_reply 202 (search_response sid) = Ok res \<and> status sid s' = Some st))"
  proof (rule post_cases [of b s])
    fix path keyword config
    assume run: "HandlePostSearch start b s = (case start path keyword config s of (r, s') \<Rightarrow>
        (handle_errors post_error (obind r (\<lambda>searchId. json_reply 202 (search_response searchId))), s'))"
    obtain r t where st: "start path keyword config s = (r, t)" by fastforce
    show ?thesis
    proof (cases r)
      case (Ok sid)
      with run st assms started_has_status [of path keyword config s sid t] show ?thesis by (auto simp: search_reply)
    next
      case (Throw e)
      with st have "\<exists>what. e = Runtime_Error what \<or> e = Filesystem_Error what" "status i t = status i s"
        using failed_cases failed_same by blast+
      with run st Throw assms show ?thesis by (auto simp: post_error_def reply_def)
    qed (use run st assms in auto)
  qed (use assms in \<open>auto simp: reply_def\<close>)
  then show "res_status res \<in> {202, 400, 404}"
    and "res_status res \<noteq> 202 \<Longrightarrow> status i s' = status i s"
    and "res_status res = 202 \<Longrightarrow> \<exists>sid st. json_reply 202 (search_response sid) = Ok res \<and> status sid s' = Some st"
    by blast+
qed

lemma post_then_get:
  assumes "HandlePostSearch start b s = (Ok res, s')" and "res_status res = 202"
  shows "\<exists>sid st answer. json_reply 202 (search_response sid) = Ok res
    \<and> HandleGetSearch status [''id'' \<mapsto> nat_dec (unat sid)] s'
      = Ok \<lparr>res_status = 200, res_body = answer, res_content_type = ''application/json''\<rparr>
    \<and> json_parse answer True c = Ok (as_read (status_response sid st)) \<and> status sid s' = Some st"
proof -
  from post_status(3) [OF assms] obtain sid st where
    s: "json_reply 202 (search_response sid) = Ok res" "status sid s' = Some st" by blast
  from status_reply [of 200 sid st c] s show ?thesis
    by (auto simp: HandleGetSearch_def stoull_nat_dec)
qed

end

section \<open>A request\<close>

definition demo_members :: "(string \<times> json) list" where
  "demo_members = [(''keyword'', JString ''k''), (''path'', JString ''/x.log'')]"

definition demo_body :: string where
  "demo_body = (case json_dump (JObject demo_members) (-1) (CHR '' '') False strict of Ok t \<Rightarrow> t | _ \<Rightarrow> [])"

lemma plain_values: "plain_string ''k''" "plain_string ''/x.log''"
  by (simp_all add: plain_ascii_def)

lemmas value_simps = plain_values [THEN dump_escaped_plain] plain_values [THEN plain_utf8]

lemma demo_parse: "json_parse demo_body True c = Ok (JObject demo_members)"
proof -
  have "writable (JObject demo_members)" by (simp add: demo_members_def name_simps value_simps)
  from dump_then_parse [OF this, of "-1" "CHR '' ''" strict c] obtain t where
    t: "json_dump (JObject demo_members) (-1) (CHR '' '') False strict = Ok t"
      "json_parse t True c = Ok (assemble (as_read (JObject demo_members)))" by auto
  have "canonical (JObject demo_members)" by (simp add: demo_members_def sorted_keys_def less_char_def)
  from canonical_read [OF this] t show ?thesis by (simp add: demo_body_def)
qed

definition demo_answer :: response where
  "demo_answer = \<lparr>res_status = 202, res_body = [CHR ''{'', CHR 0x22] @ ''searchId'' @ [CHR 0x22, CHR '':''] @ nat_dec (unat (0 :: u64)) @ ''}'',
     res_content_type = ''application/json''\<rparr>"

lemma demo_post: "HandlePostSearch (StartSearch demo_os new_task) demo_body (new_master None None) = (Ok demo_answer, demo_master)"
proof -
  have "parse_search demo_body = Ok (''/x.log'', ''k'', default_config)"
    by (rule parse_search_members [OF demo_parse]) (simp_all add: demo_members_def)
  then show ?thesis by (simp add: HandlePostSearch_def demo_run search_reply demo_answer_def)
qed

text \<open>The same request with the limit \<open>-1.0\<close>.\<close>

definition negative_limit_body :: string where
  "negative_limit_body = [CHR ''{'', CHR 0x22] @ ''maxResults'' @ [CHR 0x22, CHR '':''] @ ''-1.0'' @ ''}''"

lemma minus_one: "spells_scalar (JFloat 0xBFF0000000000000) ''-1.0''"
proof -
  have ds: "list_all is_digit ''1''" "list_all is_digit ''0''" by (simp_all add: is_digit_def)
  have "number_text (number_kind value_integer ''.0'' []) (CHR ''-'' # ''1'' @ ''.0'' @ [])"
    by (rule number_text.negative) (simp_all add: integer_text_def fraction_text_def exponent_text_def digits_def is_digit_def)
  then have num: "number_text value_float ''-1.0''" by (simp add: number_kind_def)
  have "strtod (CHR ''-'' # ''1'' @ CHR ''.'' # ''0'') = 0xBFF0000000000000"
    by (subst strtod_decimal [OF ds(1) _ ds(2)])
      (simp_all add: digits_value_def double_of_ratio_def ulp_exponent_def round_unit_def Let_def infinity_bits_def)
  then have "number_json value_float ''-1.0'' = JFloat 0xBFF0000000000000" by (simp add: number_json_def)
  with spells_scalar.number [OF num] show ?thesis by (simp add: finite_number_def isfinite_def double_exponent_def)
qed

lemma negative_limit_parse:
  "json_parse negative_limit_body True c = Ok (JObject [(''maxResults'', JFloat 0xBFF0000000000000)])"
proof -
  have "string_text ''maxResults'' ''maxResults''"
    using dump_escaped_spells [OF plain_utf8 [OF plain_names(12)], of strict] dump_escaped_plain [OF plain_names(12), of strict] by simp
  from spells_spells_elements_spells_members.last_member [OF _ this _ scalar_spells [OF minus_one], of "[]" "[]" "[]"]
  have "spells_members [(''maxResults'', JFloat 0xBFF0000000000000)]
      (CHR 0x22 # ''maxResults'' @ CHR 0x22 # CHR '':'' # ''-1.0'' @ ''}'')" by simp
  from spells_spells_elements_spells_members.object [OF _ this, of "[]"]
  have "spells (JObject [(''maxResults'', JFloat 0xBFF0000000000000)]) negative_limit_body"
    by (simp add: negative_limit_body_def)
  from parse_spelled [OF this, of "[]" c] show ?thesis by simp
qed

lemma minus_one_undefined: "double_to_u64 0xBFF0000000000000 = None"
  by (simp add: double_to_u64_def double_trunc_def double_exponent_def isfinite_def Let_def)

section \<open>The handler always ends\<close>

lemma post_total:
  assumes "posix_sizes os"
  obtains (answered) res m' where "HandlePostSearch (StartSearch os uninit) b m = (Ok res, m')"
      "json_accept b False = Ok True \<or> res_status res = 400"
  | (undefined) "HandlePostSearch (StartSearch os uninit) b m = (Undef, m)" "undefined_limit b"
proof (rule master.post_cases [of os uninit b m])
  fix path keyword config
  assume p: "parse_search b = Ok (path, keyword, config)"
    and h: "HandlePostSearch (StartSearch os uninit) b m
      = (case StartSearch os uninit path keyword config m of (r, s') \<Rightarrow>
          (handle_errors post_error (obind r (\<lambda>searchId. json_reply 202 (search_response searchId))), s'))"
  obtain r m' where run: "HandlePostSearch (StartSearch os uninit) b m = (r, m')" by fastforce
  have "\<exists>res. r = Ok res"
    using StartSearch_reported [OF assms, of uninit path keyword config m] run
    by (auto simp: h reported_def search_reply split: prod.splits)
  then show ?thesis using answered parse_search_accepted [OF p] run by blast
qed (use answered undefined in \<open>auto simp: reply_def\<close>)

section \<open>Properties\<close>

text \<open>C34: a search request always ends: on a file system with signed sizes it is answered with 202, 400 or 404,
  never 500 and never an escaped exception, and an answer other than 202 leaves the status of every
  search as it was; only a limit given as a floating-point number out of range has no defined answer.
  A body that is not JSON is answered with 400.\<close>

theorem HandlePostSearch_status:
  assumes "posix_sizes os"
  shows "case HandlePostSearch (StartSearch os uninit) req_body m of
      (Ok res, m') \<Rightarrow> res_status res \<in> {202, 400, 404} \<and> (json_accept req_body False = Ok True \<or> res_status res = 400)
        \<and> (res_status res = 202 \<or> (\<forall>i. GetStatus i m' = GetStatus i m))
    | (Undef, m') \<Rightarrow> undefined_limit req_body
    | _ \<Rightarrow> False"
proof (rule post_total [OF assms, of uninit req_body m])
  fix res m'
  assume "HandlePostSearch (StartSearch os uninit) req_body m = (Ok res, m')"
    and "json_accept req_body False = Ok True \<or> res_status res = 400"
  with master.post_status(1,2) [of os uninit req_body m res m'] show ?thesis by auto
qed auto

theorem HandlePostSearch_status_witness:
  "case HandlePostSearch (StartSearch demo_os new_task) demo_body (new_master None None) of
      (Ok res, m') \<Rightarrow> json_accept demo_body False = Ok True \<or> res_status res = 400 | _ \<Rightarrow> False"
  using HandlePostSearch_status [OF demo_posix, where uninit = new_task and req_body = demo_body and m = "new_master None None"] demo_post by simp

text \<open>C35: a search that was accepted can be followed: the number in the 202 answer, written into the status
  address, is read back as the same number and answered with 200, and the text of that answer, read
  by the JSON parser, is the state of that search.\<close>

theorem post_then_status:
  assumes "HandlePostSearch (StartSearch os uninit) req_body m = (Ok res, m')" and "res_status res = 202"
  shows "\<exists>sid st answer. json_reply 202 (search_response sid) = Ok res \<and> GetStatus sid m' = Some st
    \<and> HandleGetSearch GetStatus [''id'' \<mapsto> nat_dec (unat sid)] m'
      = Ok \<lparr>res_status = 200, res_body = answer, res_content_type = ''application/json''\<rparr>
    \<and> json_parse answer True False = Ok (as_read (status_response sid st))"
  using master.post_then_get [OF assms, of False] by auto

theorem post_then_status_witness:
  "\<exists>sid answer. json_reply 202 (search_response sid) = Ok demo_answer
    \<and> HandleGetSearch GetStatus [''id'' \<mapsto> nat_dec (unat sid)] demo_master
      = Ok \<lparr>res_status = 200, res_body = answer, res_content_type = ''application/json''\<rparr>"
  using post_then_status [OF demo_post] by (auto simp: demo_answer_def)

text \<open>The limit of a search is read without a check: a negative number is taken modulo \<open>2 ^ 64\<close>, so that
  \<open>-1\<close> asks for the largest limit there is, and a floating-point number that \<^verbatim>\<open>uint64_t\<close> does not hold
  makes the handler undefined, whatever else the body says and whatever service it runs on.\<close>

theorem maxResults_unchecked:
  assumes "json_parse req_body True False = Ok (JObject m)"
  shows "case map_of m ''maxResults'' of
      Some (JFloat x) \<Rightarrow> double_to_u64 x \<noteq> None \<or> HandlePostSearch start req_body s = (Undef, s)
    | Some (JInteger i) \<Rightarrow> (case parse_search req_body of
          Ok (path, keyword, config) \<Rightarrow> max_results config = i \<and> int (unat i) = sint i mod 2 ^ 64
        | r \<Rightarrow> library_answers r)
    | _ \<Rightarrow> True"
proof -
  have undef: "HandlePostSearch start req_body s = (Undef, s)"
    if "map_of m ''maxResults'' = Some (JFloat x)" "double_to_u64 x = None" for x
    using parse_search_Undef [of req_body] assms that by (auto simp: undefined_limit_def HandlePostSearch_def)
  have wrap: "int (unat i) = sint i mod 2 ^ 64" for i :: u64
    using uint_sint [of i] by (simp add: take_bit_eq_mod)
  show ?thesis
  proof (cases "map_of m ''maxResults''")
    case (Some j)
    show ?thesis
    proof (cases j)
      case (JInteger i)
      have "\<not> undefined_limit req_body" using assms Some JInteger by (auto simp: undefined_limit_def)
      from parse_search_answers [OF this] show ?thesis
        using Some JInteger wrap parse_search_limit [OF assms, of i] by (auto simp: library_answers_def)
    qed (use Some undef in auto)
  qed simp
qed

theorem maxResults_unchecked_witness:
  "HandlePostSearch (StartSearch demo_os new_task) negative_limit_body demo_master = (Undef, demo_master)"
  using maxResults_unchecked [OF negative_limit_parse, of "StartSearch demo_os new_task" demo_master]
  by (simp add: minus_one_undefined)

text \<open>The status request reads a number and ignores what follows it: an address that names no search, such as
  \<^verbatim>\<open>/api/status/0abc\<close>, is answered as search 0 is.\<close>

theorem HandleGetSearch_ignores_suffix:
  assumes "junk = [] \<or> \<not> is_digit (hd junk)"
  shows "HandleGetSearch GetStatus [''id'' \<mapsto> nat_dec (unat (n :: u64)) @ junk] m
    = HandleGetSearch GetStatus [''id'' \<mapsto> nat_dec (unat n)] m"
  by (simp add: HandleGetSearch_def stoull_nat_dec stoull_digits [OF assms])

end
