(* ===== verification/HttpApi.thy ===== *)
theory HttpApi
  imports HttpServer SearchController
begin

text \<open>
  \<^verbatim>\<open>NetServer/src/HttpApi.cpp\<close>: the two routes of the HTTP interface, on any search service, with the
  server of \<open>HttpServer\<close> underneath and the handlers of \<open>SearchController\<close> on top.
\<close>

section \<open>Routes\<close>

text \<open>Both handlers set the content first and the status second.\<close>

definition apply_reply :: "response \<Rightarrow> Response \<Rightarrow> Response" where
  "apply_reply r res = (set_content (res_body r) (res_content_type r) res)\<lparr>rsp_status := int (res_status r)\<rparr>"

definition outcome_reply :: "response outcome \<Rightarrow> Response \<Rightarrow> unit outcome \<times> Response" where
  "outcome_reply r res = (obind r (\<lambda>_. Ok ()), (case r of Ok v \<Rightarrow> apply_reply v res | _ \<Rightarrow> res))"

definition post_search ::
  "(string \<Rightarrow> string \<Rightarrow> SearchConfig \<Rightarrow> 's \<Rightarrow> u64 outcome \<times> 's) \<Rightarrow> 's handler" where
  "post_search start req res st =
     (case HandlePostSearch start (req_body req) st of (r, st') \<Rightarrow>
        case outcome_reply r res of (u, res') \<Rightarrow> (u, res', st'))"

definition get_status :: "(u64 \<Rightarrow> 's \<Rightarrow> SearchStatus option) \<Rightarrow> 's handler" where
  "get_status status req res st =
     (case outcome_reply (HandleGetSearch status (map_of (path_params req)) st) res of (u, res') \<Rightarrow> (u, res', st))"

definition RegisterRoutes ::
  "(string \<Rightarrow> string \<Rightarrow> SearchConfig \<Rightarrow> 's \<Rightarrow> u64 outcome \<times> 's) \<Rightarrow> (u64 \<Rightarrow> 's \<Rightarrow> SearchStatus option)
     \<Rightarrow> 's http_server \<Rightarrow> 's http_server outcome" where
  "RegisterRoutes start status svr =
     obind (Post ''/api/search'' (post_search start) svr) (\<lambda>svr.
       Get ''/api/status/:id'' (get_status status) svr)"

end
