(* ===== verification/HttpAnswers.thy ===== *)
theory HttpAnswers
  imports HttpTyping HttpApi
begin

text \<open>
  The HTTP interface of the master on the wire: what \<^verbatim>\<open>NetServer/src/HttpApi.cpp\<close> and
  \<^verbatim>\<open>external/httplib.h\<close> together make of the bytes of a request, down to the bytes of the answer. The
  routes and their handlers are those of \<open>HttpApi\<close>; a well-formed request for one of them is answered
  with what the handler returns, any other request with an error, and nothing else changes the master.
\<close>

section \<open>The server of the interface\<close>

definition search_matcher :: matcher where
  "search_matcher = Path_Params ''/api/search'' [''/api/search''] []"

definition api_server ::
  "(string \<Rightarrow> string \<Rightarrow> SearchConfig \<Rightarrow> 's \<Rightarrow> u64 outcome \<times> 's) \<Rightarrow> (u64 \<Rightarrow> 's \<Rightarrow> SearchStatus option) \<Rightarrow> 's http_server" where
  "api_server start status = new_http_server
     \<lparr>post_handlers := [(search_matcher, post_search start)], get_handlers := [(status_matcher, get_status status)]\<rparr>"

lemma search_compiled: "make_matcher ''/api/search'' = Ok search_matcher"
  by (simp add: make_matcher_def PathParamsMatcher_def search_matcher_def compile_loop.simps find_from_def)

lemma routes_registered: "RegisterRoutes start status new_http_server = Ok (api_server start status)"
  by (simp add: RegisterRoutes_def Post_def Get_def add_handler_def search_compiled status_compiled api_server_def
      new_http_server_def)

section \<open>Field values\<close>

lemma field_value_vchars: "list_all is_field_vchar s \<Longrightarrow> is_field_value s"
  by (auto simp: is_field_value_def is_field_content_def list_all_length slice_def)

lemma digits_field_value: "is_field_value (nat_dec n)"
proof -
  have "list_all is_field_vchar (nat_dec n)"
    using nat_dec_digits [of n] by (auto simp: list_all_iff is_digit_def is_field_vchar_def is_vchar_def)
  then show ?thesis by (rule field_value_vchars)
qed

lemma sent_names:
  "is_field_name ''Content-Type''" "is_field_name ''Content-Length''" "is_field_name ''Connection''" "is_field_name ''Keep-Alive''"
  by (simp_all add: is_field_name_def is_token_def is_token_char_def is_alnum_def is_alpha_def is_digit_def)

lemma sent_values:
  "is_field_value ''application/json''" "is_field_value ''text/plain''" "is_field_value ''close''"
  "is_field_value ''timeout=5, max=100''" "is_field_value ''0''"
  by (simp_all add: is_field_value_def is_field_content_def is_field_vchar_def is_vchar_def slice_def)

lemma keep_alive_values: "nat_dec KEEPALIVE_TIMEOUT_SECOND = ''5''" "nat_dec KEEPALIVE_MAX_COUNT = ''100''"
  by (simp_all add: KEEPALIVE_TIMEOUT_SECOND_def KEEPALIVE_MAX_COUNT_def nat_dec.simps char_of_def bit_0)

lemmas sent_fields = sent_names sent_values digits_field_value keep_alive_values

lemma write_data_all: "send_room s = None \<Longrightarrow> write_data d s = (True, s\<lparr>sent := sent s @ d\<rparr>)"
  by (subst write_data.simps, cases "d = []") (simp_all add: stream_write_def write_data.simps [of "[]"])

section \<open>The bytes of an answer\<close>

definition answer_bytes :: "bool \<Rightarrow> response \<Rightarrow> string" where
  "answer_bytes closing r =
     write_response_line (int (res_status r))
     @ ''Content-Type: '' @ res_content_type r @ CRLF
     @ ''Content-Length: '' @ nat_dec (length (res_body r)) @ CRLF
     @ (if closing \<or> 400 \<le> res_status r then ''Connection: close'' else ''Keep-Alive: timeout=5, max=100'') @ CRLF
     @ CRLF @ res_body r"

definition error_bytes :: "int \<Rightarrow> string" where
  "error_bytes code = write_response_line code @ ''Connection: close'' @ CRLF @ ''Content-Length: 0'' @ CRLF @ CRLF"

text \<open>The answer to a \<^verbatim>\<open>HEAD\<close> request has a header more.\<close>

definition refusal_bytes :: "string \<Rightarrow> int \<Rightarrow> string" where
  "refusal_bytes m code = write_response_line code @ ''Connection: close'' @ CRLF @ ''Content-Length: 0'' @ CRLF
     @ (if m = ''HEAD'' then ''Accept-Ranges: bytes'' @ CRLF else []) @ CRLF"

lemma refusal_error [simp]: "m \<noteq> ''HEAD'' \<Longrightarrow> refusal_bytes m code = error_bytes code"
  by (simp add: refusal_bytes_def error_bytes_def)

definition answer_ok :: "response \<Rightarrow> bool" where
  "answer_ok r \<longleftrightarrow> res_body r \<noteq> [] \<and> res_content_type r \<in> {''application/json'', ''text/plain''}"

lemma write_answer:
  assumes "answer_ok r" and "ranges req = []" and "req_method req \<noteq> ''HEAD''" and "send_room s = None"
  shows "\<exists>res. write_routed boundary close_connection True req (apply_reply r new_response) s
    = (True, req, res, s\<lparr>sent := sent s
        @ answer_bytes (close_connection \<or> get_header_value (req_headers req) ''Connection'' [] = ''close'') r\<rparr>)"
proof -
  have type: "is_field_value (res_content_type r)" using assms(1) by (auto simp: answer_ok_def sent_fields)
  define res where "res = apply_ranges boundary req (apply_reply r new_response)"
  have res: "rsp_headers res = [(''Content-Type'', res_content_type r), (''Content-Length'', nat_dec (length (res_body r)))]"
    "rsp_status res = int (res_status r)" "rsp_body res = res_body r" "rsp_content_length res = length (res_body r)"
    using assms type
    by (simp_all add: res_def apply_ranges_def Let_def apply_reply_def set_content_def set_response_header_def new_response_def
        set_header_def emplace_def erase_key_def is_field_valid_def sent_fields answer_ok_def)
  have "has_header (rsp_headers res @ hs) ''Content-Type''" for hs
    by (simp add: header_simps res equal_range_def case_equal_def)
  with res assms(1,3) have "response_bytes req (complete_response close_connection req res)
      = answer_bytes (close_connection \<or> get_header_value (req_headers req) ''Connection'' [] = ''close'') r"
    by (simp add: complete_response_def Let_def set_response_header_def set_header_def emplace_def is_field_valid_def
        sent_fields response_bytes_def write_headers_def answer_bytes_def answer_ok_def type)
  with assms(2,4) show ?thesis
    by (simp add: write_routed_def range_error_def write_response_core_def Let_def res_def [symmetric] write_data_all)
      (simp add: apply_reply_def)
qed

lemma error_refused:
  assumes "400 \<le> code" and "send_room s = None"
  shows "\<exists>res. write_response boundary close_connection req (new_response\<lparr>rsp_status := code\<rparr>) s
    = (True, req\<lparr>ranges := []\<rparr>, res, s\<lparr>sent := sent s @ refusal_bytes (req_method req) code\<rparr>)
    \<and> get_header_value (rsp_headers res) ''Connection'' [] = ''close''"
proof -
  have closed: "get_header_value [(''Connection'', ''close''), e] ''Connection'' [] = ''close''"
    "get_header_value [(''Connection'', ''close''), e, e'] ''Connection'' [] = ''close''" for e e'
    by (simp_all add: get_header_value_def equal_range_def case_equal_def NUL_def)
  have none: "has_header [(''Connection'', ''close'')] ''Content-Length'' = False"
    "has_header [(''Connection'', ''close''), (''Content-Length'', ''0'')] ''Accept-Ranges'' = False"
    by (simp_all add: header_simps equal_range_def case_equal_def)
  have name: "is_field_name ''Accept-Ranges''" "is_field_value ''bytes''"
    by (simp_all add: is_field_name_def is_token_def is_token_char_def is_alnum_def is_alpha_def is_digit_def
        is_field_value_def is_field_content_def is_field_vchar_def is_vchar_def is_obs_text_def slice_def)
  note defs = write_response_def write_response_core_def Let_def complete_response_def new_response_def
    set_response_header_def set_header_def emplace_def is_field_valid_def sent_fields response_bytes_def
    write_headers_def refusal_bytes_def write_data_all nat_dec.simps char_of_def bit_0
  show ?thesis
  proof (cases "req_method req = ''HEAD''")
    case True
    with assms closed none name show ?thesis by (simp add: defs)
  next
    case False
    with assms closed none show ?thesis by (simp add: defs)
  qed
qed

section \<open>Requests the server takes up\<close>

definition target_path :: "string \<Rightarrow> string" where
  "target_path t = decode_path_component (fst (divide (takeWhile (\<lambda>c. c \<noteq> CHR ''#'') t) CHR ''?''))"

text \<open>No range and no expectation, media types the server can read, and at most one way to delimit the body.\<close>

definition unconditional :: "headers \<Rightarrow> bool" where
  "unconditional hs \<longleftrightarrow> \<not> has_header hs ''Range'' \<and> get_header_value hs ''Expect'' [] \<noteq> ''100-continue''
     \<and> (has_header hs ''Accept'' \<longrightarrow> parse_accept_header (get_header_value hs ''Accept'' []) \<noteq> None)
     \<and> (has_header hs ''Transfer-Encoding'' \<longrightarrow>
          fst (get_header_value_u64 hs ''Content-Length'' 0) = 0 \<and> is_chunked_transfer_encoding hs)"

definition closing :: "headers \<Rightarrow> string \<Rightarrow> bool" where
  "closing hs v \<longleftrightarrow> get_header_value hs ''Connection'' [] = ''close''
     \<or> v = ''HTTP/1.0'' \<and> get_header_value hs ''Connection'' [] \<noteq> ''Keep-Alive''"

lemma check_accepted:
  assumes "head_ok m t v hs" and "unconditional hs"
  obtains req where "check_request (head_request m t v hs) = Inr (closing hs v, req)"
    "req_method req = m" "req_path req = target_path t" "req_headers req = hs" "req_body req = []"
    "ranges req = []" "\<And>s. expect_continue req s = s"
proof -
  have "length (takeWhile (\<lambda>c. c \<noteq> CHR ''#'') t) \<le> REQUEST_URI_MAX_LENGTH"
    using assms(1) length_takeWhile_le [of "\<lambda>c. c \<noteq> CHR ''#''" t] by (simp add: head_ok_def)
  moreover obtain types where
    "(if has_header hs ''Accept'' then parse_accept_header (get_header_value hs ''Accept'' []) else Some []) = Some types"
    using assms(2) by (cases "has_header hs ''Accept''") (auto simp: unconditional_def)
  ultimately have "check_request (head_request m t v hs) = Inr (closing hs v, (head_request m t v hs)\<lparr>accept_content_types := types, ranges := []\<rparr>)"
    using assms(2)
    by (auto simp: check_request_def Let_def head_request_def line_request_def new_request_def unconditional_def closing_def)
  with assms(2) show ?thesis
    by (intro that) (auto simp: head_request_def line_request_def new_request_def target_path_def Let_def
        expect_continue_def unconditional_def)
qed

section \<open>Answers to the two routes\<close>

lemma reads_output: "reads s w s' \<Longrightarrow> sent s' = sent s \<and> send_room s' = send_room s"
  by (simp add: reads_def same_output_def)

lemma post_exchange:
  assumes "head_ok ''POST'' t v hs" and "unconditional hs" and "target_path t = ''/api/search''"
    and "frames hs b w" and "raw_body hs" and "length b \<le> PAYLOAD_MAX_LENGTH"
    and "inbound s = head_bytes ''POST'' t v hs @ w @ rest" and "send_room s = None"
    and "HandlePostSearch start b st = (Ok r, st')" and "answer_ok r"
  obtains s' where "process_request regex_match boundary (api_server start status) close_connection st s
      = (Ok True, closing hs v, st', s')"
    "inbound s' = rest" "sent s' = sent s @ answer_bytes (close_connection \<or> get_header_value hs ''Connection'' [] = ''close'') r"
proof -
  obtain req where ck: "check_request (head_request ''POST'' t v hs) = Inr (closing hs v, req)"
    and req: "req_method req = ''POST''" "req_path req = ''/api/search''" "req_headers req = hs" "req_body req = []"
      "ranges req = []" "\<And>s. expect_continue req s = s"
    using assms(3) by (auto intro: check_accepted [OF assms(1,2)])
  obtain s1 where s1: "reads s (head_bytes ''POST'' t v hs) s1" "inbound s1 = w @ rest"
    "process_request regex_match boundary (api_server start status) close_connection st s
      = process_routed regex_match boundary (api_server start status) close_connection (closing hs v) req st s1"
    by (rule process_head [OF assms(1,7), where regex_match = regex_match and boundary = boundary
        and svr = "api_server start status" and close_connection = close_connection and st = st]) (simp add: ck req)
  let ?req = "req\<lparr>path_params := [], matched_route := ''/api/search''\<rparr>"
  have "\<exists>s'. read_content ?req s1 = (True, None, ?req\<lparr>req_body := b, body_consumed := True\<rparr>, s') \<and> reads s1 w s' \<and> inbound s' = rest"
    by (rule read_content_framed) (use assms(4-6) req s1(2) in simp_all)
  then obtain s2 where s2: "read_content ?req s1 = (True, None, ?req\<lparr>req_body := b, body_consumed := True\<rparr>, s2)"
    "reads s1 w s2" "inbound s2 = rest" by blast
  let ?req' = "?req\<lparr>req_body := b, body_consumed := True\<rparr>"
  have rt: "routing regex_match (api_server start status) req new_response st s1
      = (Ok True, ?req', apply_reply r new_response, st', s2)"
    using req s2 assms(9)
    by (simp add: routing_def api_server_def search_matcher_def expect_content_def run_handler_def post_search_def
        outcome_reply_def set_status_def Let_def new_http_server_def)
  have "send_room s2 = None" "sent s2 = sent s" using reads_output [OF s1(1)] reads_output [OF s2(2)] assms(8) by simp_all
  moreover obtain res where "write_routed boundary close_connection True ?req' (apply_reply r new_response) s2
      = (True, ?req', res, s2\<lparr>sent := sent s2
          @ answer_bytes (close_connection \<or> get_header_value hs ''Connection'' [] = ''close'') r\<rparr>)"
    using write_answer [OF assms(10), of ?req' s2 boundary close_connection] calculation req by auto
  ultimately show ?thesis
    using s1(3) rt s2(3)
    by (intro that [of "s2\<lparr>sent := sent s2
          @ answer_bytes (close_connection \<or> get_header_value hs ''Connection'' [] = ''close'') r\<rparr>"])
      (simp_all add: process_routed_def drain_body_def inbound_def)
qed

lemma status_path: "no_slash i \<Longrightarrow> p = ''/api/status/'' @ i \<or> p = ''/api/status/'' @ i @ ''/''
    \<Longrightarrow> match_loop p [''/api/status/''] [''id''] 0 [] = (True, [(''id'', i)])"
  using match_loop_exact(2) [of "[''/api/status/'']" "[''id'']" "[]" "[i]" p "[]"]
  by (auto simp: balanced_def route_path_def NUL_def)

lemma get_exchange:
  assumes "head_ok ''GET'' t v hs" and "unconditional hs" and "no_slash i"
    and "target_path t = ''/api/status/'' @ i \<or> target_path t = ''/api/status/'' @ i @ ''/''"
    and "\<not> is_chunked_transfer_encoding hs" and "fst (get_header_value_u64 hs ''Content-Length'' 0) = 0"
    and "inbound s = head_bytes ''GET'' t v hs @ rest" and "send_room s = None"
    and "HandleGetSearch status [''id'' \<mapsto> i] st = Ok r" and "answer_ok r"
  obtains s' where "process_request regex_match boundary (api_server start status) close_connection st s
      = (Ok True, closing hs v, st, s')"
    "inbound s' = rest" "sent s' = sent s @ answer_bytes (close_connection \<or> get_header_value hs ''Connection'' [] = ''close'') r"
proof -
  obtain req where ck: "check_request (head_request ''GET'' t v hs) = Inr (closing hs v, req)"
    and req: "req_method req = ''GET''" "req_path req = target_path t" "req_headers req = hs" "ranges req = []"
      "\<And>s. expect_continue req s = s"
    by (auto intro: check_accepted [OF assms(1,2)])
  obtain s1 where s1: "reads s (head_bytes ''GET'' t v hs) s1" "inbound s1 = rest"
    "process_request regex_match boundary (api_server start status) close_connection st s
      = process_routed regex_match boundary (api_server start status) close_connection (closing hs v) req st s1"
    by (rule process_head [OF assms(1,7), where regex_match = regex_match and boundary = boundary
        and svr = "api_server start status" and close_connection = close_connection and st = st]) (simp add: ck req)
  let ?req = "req\<lparr>path_params := [(''id'', i)], matched_route := ''/api/status/:id''\<rparr>"
  have free: "\<not> has_framed_body ?req" using assms(5,6) req by (simp add: has_framed_body_def)
  have rt: "routing regex_match (api_server start status) req new_response st s1
      = (Ok True, ?req, apply_reply r new_response, st, s1)"
    using req free assms(9) status_path [OF assms(3,4)]
    by (simp add: routing_def api_server_def status_matcher_def expect_content_def run_handler_def get_status_def
        outcome_reply_def Let_def new_http_server_def)
  have "send_room s1 = None" "sent s1 = sent s" using reads_output [OF s1(1)] assms(8) by simp_all
  moreover obtain res where "write_routed boundary close_connection True ?req (apply_reply r new_response) s1
      = (True, ?req, res, s1\<lparr>sent := sent s1
          @ answer_bytes (close_connection \<or> get_header_value hs ''Connection'' [] = ''close'') r\<rparr>)"
    using write_answer [OF assms(10), of ?req s1 boundary close_connection] calculation req by auto
  ultimately show ?thesis
    using s1(2,3) rt free
    by (intro that [of "s1\<lparr>sent := sent s1
          @ answer_bytes (close_connection \<or> get_header_value hs ''Connection'' [] = ''close'') r\<rparr>"])
      (simp_all add: process_routed_def drain_body_def inbound_def)
qed

section \<open>Everything else\<close>

definition routed_to :: "string \<Rightarrow> string \<Rightarrow> bool" where
  "routed_to m p \<longleftrightarrow> m = ''POST'' \<and> p = ''/api/search''
     \<or> (m = ''GET'' \<or> m = ''HEAD'') \<and> (\<exists>i. no_slash i \<and> (p = ''/api/status/'' @ i \<or> p = ''/api/status/'' @ i @ ''/''))"

definition routable :: "string list" where
  "routable = [''GET'', ''HEAD'', ''POST'', ''PUT'', ''DELETE'', ''OPTIONS'', ''PATCH'']"

lemma status_elsewhere: "\<not> (\<exists>i. no_slash i \<and> (p = ''/api/status/'' @ i \<or> p = ''/api/status/'' @ i @ ''/''))
    \<Longrightarrow> \<not> fst (match_loop p [''/api/status/''] [''id''] 0 [])"
proof -
  assume no: "\<not> (\<exists>i. no_slash i \<and> (p = ''/api/status/'' @ i \<or> p = ''/api/status/'' @ i @ ''/''))"
  obtain ok ps where run: "match_loop p [''/api/status/''] [''id''] 0 [] = (ok, ps)" by (rule prod.exhaust)
  have "\<nexists>vs. route_path [''/api/status/''] [''id''] vs p"
  proof
    assume "\<exists>vs. route_path [''/api/status/''] [''id''] vs p"
    then obtain i where "no_slash i" "p = ''/api/status/'' @ i \<or> p = ''/api/status/'' @ i @ ''/''"
      by (auto simp: route_path_def length_Suc_conv)
    with no show False by blast
  qed
  then show ?thesis
    using match_loop_exact(1) [of "[''/api/status/'']" "[''id'']" "[]" "[]" p ok ps] run
    by (simp add: balanced_def NUL_def)
qed

lemma routing_elsewhere:
  assumes "req_method req \<in> set methods" and "\<not> routed_to (req_method req) (req_path req)"
  shows "\<exists>ps. routing regex_match (api_server start status) req new_response st s
    = (Ok False, req\<lparr>path_params := ps\<rparr>,
       (if req_method req \<in> set routable then new_response else new_response\<lparr>rsp_status := 400\<rparr>), st, s)"
proof -
  have keep: "req\<lparr>path_params := path_params req\<rparr> = req" by simp
  consider "req_method req = ''GET'' \<or> req_method req = ''HEAD''" | "req_method req = ''POST''"
    | "req_method req \<notin> {''GET'', ''HEAD'', ''POST''}" by blast
  then show ?thesis
  proof cases
    case 1
    with assms(2) have no: "\<not> fst (match_loop (req_path req) [''/api/status/''] [''id''] 0 [])"
      by (intro status_elsewhere) (auto simp: routed_to_def)
    obtain ps where "match_loop (req_path req) [''/api/status/''] [''id''] 0 [] = (False, ps)"
      using no by (cases "match_loop (req_path req) [''/api/status/''] [''id''] 0 []") simp
    with 1 show ?thesis
      by (auto simp: routing_def api_server_def status_matcher_def routable_def new_http_server_def)
  next
    case 2
    with assms(2) show ?thesis
      by (auto simp: routing_def api_server_def search_matcher_def routable_def new_http_server_def routed_to_def)
  next
    case 3
    then have "routing regex_match (api_server start status) req new_response st s
      = (Ok False, req, (if req_method req \<in> set routable then new_response else new_response\<lparr>rsp_status := 400\<rparr>), st, s)"
      by (simp add: routing_def api_server_def routable_def new_http_server_def)
    with keep show ?thesis by metis
  qed
qed

lemma elsewhere_exchange:
  assumes "head_ok m t v hs" and "unconditional hs" and "\<not> routed_to m (target_path t)"
    and "inbound s = head_bytes m t v hs @ rest" and "send_room s = None"
  obtains s' where "process_request regex_match boundary (api_server start status) close_connection st s
      = (Ok True, closing hs v \<or> is_chunked_transfer_encoding hs \<or> 0 < fst (get_header_value_u64 hs ''Content-Length'' 0), st, s')"
    "inbound s' = rest" "sent s' = sent s @ refusal_bytes m (if m \<in> set routable then 404 else 400)"
proof -
  let ?code = "if m \<in> set routable then 404 else 400 :: int"
  obtain req where ck: "check_request (head_request m t v hs) = Inr (closing hs v, req)"
    and req: "req_method req = m" "req_path req = target_path t" "req_headers req = hs" "ranges req = []"
      "\<And>s. expect_continue req s = s"
    by (auto intro: check_accepted [OF assms(1,2)])
  obtain s1 where s1: "reads s (head_bytes m t v hs) s1" "inbound s1 = rest"
    "process_request regex_match boundary (api_server start status) close_connection st s
      = process_routed regex_match boundary (api_server start status) close_connection (closing hs v) req st s1"
    by (rule process_head [OF assms(1,4), where regex_match = regex_match and boundary = boundary
        and svr = "api_server start status" and close_connection = close_connection and st = st]) (simp add: ck req)
  have "req_method req \<in> set methods" using assms(1) req by (simp add: head_ok_def)
  then obtain ps where rt: "routing regex_match (api_server start status) req new_response st s1
    = (Ok False, req\<lparr>path_params := ps\<rparr>, (if m \<in> set routable then new_response else new_response\<lparr>rsp_status := 400\<rparr>), st, s1)"
    using routing_elsewhere [of req regex_match start status st s1] assms(3) req by auto
  have out: "send_room s1 = None" "sent s1 = sent s" using reads_output [OF s1(1)] assms(5) by simp_all
  have code: "400 \<le> ?code" by simp
  obtain res where "write_response boundary close_connection (req\<lparr>path_params := ps\<rparr>) (new_response\<lparr>rsp_status := ?code\<rparr>) s1
      = (True, req\<lparr>path_params := ps, ranges := []\<rparr>, res, s1\<lparr>sent := sent s1 @ refusal_bytes m ?code\<rparr>)"
    "get_header_value (rsp_headers res) ''Connection'' [] = ''close''"
    using error_refused [OF code, where req = "req\<lparr>path_params := ps\<rparr>" and s = s1 and boundary = boundary and close_connection = close_connection] req out by auto
  moreover have "body_consumed req = False" 
    using ck by (auto simp: check_request_def Let_def head_request_def line_request_def new_request_def split: if_splits option.splits prod.splits)
  ultimately show ?thesis
    using s1(2,3) rt out req
    by (intro that [of "s1\<lparr>sent := sent s1 @ refusal_bytes m ?code\<rparr>"])
      (auto simp: process_routed_def write_routed_def drain_body_def has_framed_body_def inbound_def new_response_def)
qed

end
