(* ===== verification/HttpFraming.thy ===== *)
theory HttpFraming
  imports HttpAnswers
begin

text \<open>
  Where one request of a connection ends and the next one begins (\<^verbatim>\<open>external/httplib.h\<close>): requests that
  say it in two ways are refused, and what becomes of two requests that arrive together. The last two
  theorems show where the server keeps a connection it has announced to close, and loses a request.
\<close>

section \<open>Two requests on one connection\<close>

definition unknown_request :: string where
  "unknown_request = ''GET /x HTTP/1.1'' @ CRLF @ CRLF"

definition bytes_arrive :: "string \<Rightarrow> arrival" where
  "bytes_arrive bs = Data (hd bs) (tl bs)"

definition on_wire :: "arrival list \<Rightarrow> stream" where
  "on_wire as = \<lparr>read_buff = [], arrivals = as, send_room = None, sent = []\<rparr>"

lemma inbound_wire: "bs \<noteq> [] \<Longrightarrow> inbound (on_wire [bytes_arrive bs]) = bs"
  by (simp add: inbound_def on_wire_def bytes_arrive_def)

lemma unknown_line:
  assumes "length rest \<le> 2048"
  obtains r where "stream_getline 2048 \<lparr>read_buff = [], arrivals = bytes_arrive (unknown_request @ rest) # as, send_room = None, sent = out\<rparr>
      = (True, r, \<lparr>read_buff = CRLF @ rest, arrivals = as, send_room = None, sent = out\<rparr>)"
    "reader_text r = request_line ''GET'' ''/x'' ''HTTP/1.1''"
  using assms
  by (simp add: stream_getline_def getline_loop.simps bytes_arrive_def unknown_request_def stream_read_def recv_def
      read_buff_size_def reader_text_def reader_append_def MAX_LINE_LENGTH_def Let_def request_line_def)

lemma no_headers:
  "read_headers [] \<lparr>read_buff = CRLF @ rest, arrivals = as, send_room = None, sent = out\<rparr>
    = (True, [], \<lparr>read_buff = rest, arrivals = as, send_room = None, sent = out\<rparr>)"
  by (simp add: read_headers_def read_headers_loop.simps stream_getline_def getline_loop.simps stream_read_def
      reader_text_def reader_append_def MAX_LINE_LENGTH_def Let_def end_with_crlf_def content_lengths_agree_def equal_range_def)

lemma unknown_answered:
  assumes "length rest \<le> 2048"
  shows "process_request regex_match boundary (api_server start status) close_connection m
      \<lparr>read_buff = [], arrivals = bytes_arrive (unknown_request @ rest) # as, send_room = None, sent = out\<rparr>
    = (Ok True, False, m, \<lparr>read_buff = rest, arrivals = as, send_room = None, sent = out @ error_bytes 404\<rparr>)"
proof -
  let ?s = "\<lparr>read_buff = rest, arrivals = as, send_room = None, sent = out\<rparr>"
  let ?req = "line_request ''GET'' ''/x'' ''HTTP/1.1''"
  obtain r where line: "stream_getline 2048 \<lparr>read_buff = [], arrivals = bytes_arrive (unknown_request @ rest) # as, send_room = None, sent = out\<rparr>
      = (True, r, \<lparr>read_buff = CRLF @ rest, arrivals = as, send_room = None, sent = out\<rparr>)"
    "reader_text r = request_line ''GET'' ''/x'' ''HTTP/1.1''"
    by (rule unknown_line [OF assms])
  have parsed: "parse_request_line (request_line ''GET'' ''/x'' ''HTTP/1.1'') new_request = (True, ?req)"
    by (rule parse_request_line_exact) (simp_all add: methods_def word_def is_space_or_tab_def NUL_def)
  have req: "req_headers ?req = []" "req_method ?req = ''GET''" "req_path ?req = ''/x''" "req_target ?req = ''/x''"
    "req_version ?req = ''HTTP/1.1''" "body_consumed ?req = False" "ranges ?req = []"
    by (simp_all add: line_request_def new_request_def divide_def decode_path_component.simps Let_def)
  have bare: "\<not> has_header [] k" "get_header_value [] k d = d" "get_header_value_u64 [] k n = (n, False)"
    "\<not> is_chunked_transfer_encoding []" for k d n
    by (simp_all add: has_header_def find_header_def get_header_value_def get_header_value_u64_def equal_range_def
        is_chunked_transfer_encoding_def)
  have ck: "check_request ?req = Inr (False, ?req\<lparr>accept_content_types := []\<rparr>)"
    by (simp add: check_request_def req bare REQUEST_URI_MAX_LENGTH_def) 
  let ?req' = "?req\<lparr>accept_content_types := []\<rparr>"
  have "\<not> (\<exists>i. no_slash i \<and> (''/x'' = ''/api/status/'' @ i \<or> ''/x'' = ''/api/status/'' @ i @ ''/''))" by auto
  then obtain ps where rt: "routing regex_match (api_server start status) ?req' new_response m ?s
      = (Ok False, ?req'\<lparr>path_params := ps\<rparr>, new_response, m, ?s)"
    using routing_elsewhere [of ?req' regex_match start status m ?s]
    by (auto simp: req methods_def routed_to_def routable_def)
  obtain res where wr: "write_response boundary close_connection (?req'\<lparr>path_params := ps\<rparr>) (new_response\<lparr>rsp_status := 404\<rparr>) ?s
      = (True, ?req'\<lparr>path_params := ps, ranges := []\<rparr>, res, ?s\<lparr>sent := out @ error_bytes 404\<rparr>)"
    using error_refused [where code = 404 and req = "?req'\<lparr>path_params := ps\<rparr>" and s = "?s" and boundary = boundary and close_connection = close_connection] req by auto
  have same: "q\<lparr>req_headers := []\<rparr> = q" if "req_headers q = []" for q :: request using that by (cases q) simp
  note hs = same [OF req(1)]
  show ?thesis
    using line parsed rt wr no_headers [of rest as out]
    by (simp add: process_request_def Let_def req hs ck expect_continue_def bare process_routed_def write_routed_def
        drain_body_def has_framed_body_def new_response_def)
qed

section \<open>Requests with more than one length\<close>

text \<open>The request line and the header block of such a request are well-formed on their own.\<close>

lemma refuse_conflicting:
  assumes "head_ok m t v []" and "list_all header_ok hs" and "length hs \<le> HEADER_MAX_COUNT"
    and "inbound s = head_bytes m t v hs @ rest" and "\<not> content_lengths_agree hs" and "send_room s = None"
  obtains s' where "process_request regex_match boundary svr close_connection st s = (Ok True, False, st, s')"
    "inbound s' = rest" "sent s' = sent s @ refusal_bytes m 400"
proof -
  have "inbound s = request_line m t v @ write_headers hs @ rest" using assms(4) by (simp add: head_bytes_def)
  then obtain r s1 where line: "stream_getline 2048 s = (True, r, s1)" "reader_text r = request_line m t v"
      "reads s (request_line m t v) s1" "inbound s1 = write_headers hs @ rest"
    by (rule read_one_line [OF assms(1)])
  obtain s2 where hdr: "read_headers [] s1 = (False, hs, s2)" "reads s1 (write_headers hs) s2" "inbound s2 = rest"
    using read_headers_loop_exact [OF line(4) assms(2), of 0 "[]"] assms(3,5) by (auto simp: read_headers_def)
  let ?req = "line_request m t v"
  have req: "req_headers ?req = []" "req_method ?req = m" by (simp_all add: line_request_def new_request_def Let_def)
  have parsed: "parse_request_line (request_line m t v) new_request = (True, ?req)"
    using assms(1) by (intro parse_request_line_exact) (auto simp: head_ok_def)
  have out: "send_room s2 = None" "sent s2 = sent s"
    using reads_output [OF line(3)] reads_output [OF hdr(2)] assms(6) by simp_all
  obtain res where "write_response boundary close_connection (?req\<lparr>req_headers := hs\<rparr>) (new_response\<lparr>rsp_status := 400\<rparr>) s2
      = (True, ?req\<lparr>req_headers := hs, ranges := []\<rparr>, res, s2\<lparr>sent := sent s2 @ refusal_bytes m 400\<rparr>)"
    using error_refused [where code = 400 and req = "?req\<lparr>req_headers := hs\<rparr>" and s = s2 and boundary = boundary and close_connection = close_connection] req out by auto
  with line parsed hdr req out show ?thesis
    by (intro that [of "s2\<lparr>sent := sent s2 @ refusal_bytes m 400\<rparr>"])
      (simp_all add: process_request_def refuse_def inbound_def)
qed

lemma refuse_ambiguous:
  assumes "head_ok m t v hs" and "has_header hs ''Transfer-Encoding''"
    and "0 < fst (get_header_value_u64 hs ''Content-Length'' 0) \<or> \<not> is_chunked_transfer_encoding hs"
    and "inbound s = head_bytes m t v hs @ rest" and "send_room s = None"
  obtains s' where "process_request regex_match boundary svr close_connection st s = (Ok True, True, st, s')"
    "inbound s' = rest" "sent s' = sent s @ refusal_bytes m 400"
proof -
  let ?req = "head_request m t v hs"
  have req: "req_method ?req = m" "req_headers ?req = hs"
    by (simp_all add: head_request_def line_request_def new_request_def Let_def)
  have ck: "check_request ?req = Inl (400, True, ?req)"
    using assms(2,3) by (simp add: check_request_def req Let_def)
  obtain s1 where s1: "reads s (head_bytes m t v hs) s1" "inbound s1 = rest"
    "process_request regex_match boundary svr close_connection st s
      = (case refuse boundary close_connection ?req 400 s1 of (ret, s'') \<Rightarrow> (ret, True, st, s''))"
    by (rule process_head [OF assms(1,4), where regex_match = regex_match and boundary = boundary
        and svr = svr and close_connection = close_connection and st = st]) (simp add: ck)
  have out: "send_room s1 = None" "sent s1 = sent s" using reads_output [OF s1(1)] assms(5) by simp_all
  obtain res where "write_response boundary close_connection ?req (new_response\<lparr>rsp_status := 400\<rparr>) s1
      = (True, ?req\<lparr>ranges := []\<rparr>, res, s1\<lparr>sent := sent s1 @ refusal_bytes m 400\<rparr>)"
    using error_refused [where code = 400 and req = "?req" and s = s1 and boundary = boundary and close_connection = close_connection] req out by auto
  with s1(2,3) out show ?thesis
    by (intro that [of "s1\<lparr>sent := sent s1 @ refusal_bytes m 400\<rparr>"]) (simp_all add: refuse_def inbound_def)
qed

section \<open>Properties\<close>

text \<open>C25: A request whose framing is ambiguous in one of three ways reaches no handler, on any server and whatever
  its method: a transfer coding beside a length other than zero, or one that does not end in chunks, is answered with
  400 and the connection is given up; with lengths that disagree it is answered with 400 as well, and the answer says
  \<^verbatim>\<open>Connection: close\<close>, but the connection is not given up, and its next byte is the first one of the body that was
  refused. (A transfer coding that ends in chunks beside the length zero is not among the three: the code tolerates it.)\<close>

theorem ambiguous_framing_refused:
  assumes "head_ok m t v []" and "list_all header_ok hs" and "length hs \<le> HEADER_MAX_COUNT"
    and "\<not> content_lengths_agree hs
      \<or> has_header hs ''Transfer-Encoding''
        \<and> (0 < fst (get_header_value_u64 hs ''Content-Length'' 0) \<or> \<not> is_chunked_transfer_encoding hs)"
    and "inbound s = head_bytes m t v hs @ rest" and "send_room s = None"
  shows "case process_request regex_match boundary svr close_connection st s of
      (ret, closed, st', s') \<Rightarrow> ret = Ok True \<and> st' = st \<and> inbound s' = rest \<and> sent s' = sent s @ refusal_bytes m 400
        \<and> (closed \<longleftrightarrow> content_lengths_agree hs)"
proof (cases "content_lengths_agree hs")
  case True
  with assms(1-3) have ok: "head_ok m t v hs" by (simp add: head_ok_def)
  have te: "has_header hs ''Transfer-Encoding''"
    "0 < fst (get_header_value_u64 hs ''Content-Length'' 0) \<or> \<not> is_chunked_transfer_encoding hs" using assms(4) True by auto
  obtain s' where "process_request regex_match boundary svr close_connection st s = (Ok True, True, st, s')"
    "inbound s' = rest" "sent s' = sent s @ refusal_bytes m 400"
    by (rule refuse_ambiguous [OF ok te assms(5,6)])
  with True show ?thesis by simp
next
  case False
  obtain s' where "process_request regex_match boundary svr close_connection st s = (Ok True, False, st, s')"
    "inbound s' = rest" "sent s' = sent s @ refusal_bytes m 400"
    by (rule refuse_conflicting [OF assms(1-3,5) False assms(6)])
  with False show ?thesis by simp
qed

text \<open>Two lengths, and a body that is itself a request.\<close>

definition two_lengths :: headers where
  "two_lengths = [(''Content-Length'', ''19''), (''Content-Length'', ''0'')]"

theorem ambiguous_framing_refused_witness:
  "case process_request (\<lambda>p s. False) [] (api_server (StartSearch demo_os new_task) GetStatus) False demo_master
      (on_wire [bytes_arrive (head_bytes ''POST'' ''/api/search'' ''HTTP/1.1'' two_lengths @ unknown_request)]) of
    (ret, closed, st', s') \<Rightarrow> ret = Ok True \<and> \<not> closed \<and> inbound s' = unknown_request \<and> sent s' = error_bytes 400"
proof -
  let ?bs = "head_bytes ''POST'' ''/api/search'' ''HTTP/1.1'' two_lengths @ unknown_request"
  have ok: "head_ok ''POST'' ''/api/search'' ''HTTP/1.1'' []"
    by (simp add: head_ok_def methods_def word_def is_space_or_tab_def NUL_def REQUEST_URI_MAX_LENGTH_def
        content_lengths_agree_def equal_range_def)
  have hs: "list_all header_ok two_lengths" "length two_lengths \<le> HEADER_MAX_COUNT" "\<not> content_lengths_agree two_lengths"
    by (simp_all add: two_lengths_def header_ok_def is_field_valid_def is_field_name_def is_token_def is_token_char_def
        is_alnum_def is_alpha_def is_digit_def is_field_value_def is_field_content_def is_field_vchar_def is_vchar_def
        header_line_def HEADER_MAX_LENGTH_def HEADER_MAX_COUNT_def content_lengths_agree_def equal_range_def case_equal_def)
  have "?bs \<noteq> []" by (simp add: head_bytes_def request_line_def)
  note wire = inbound_wire [OF this]
  have out: "send_room (on_wire as) = None" "sent (on_wire as) = []" for as by (simp_all add: on_wire_def)
  from ambiguous_framing_refused [OF ok hs(1,2) disjI1 [OF hs(3)] wire out(1), where st = demo_master
      and svr = "api_server (StartSearch demo_os new_task) GetStatus" and regex_match = "\<lambda>p s. False" and boundary = "[]"
      and close_connection = False]
  show ?thesis using hs(3) out(2) by auto
qed

section \<open>What is read ahead\<close>

text \<open>A stream with other input: what is buffered, and what is still to arrive.\<close>

definition with_input :: "string \<Rightarrow> arrival list \<Rightarrow> stream \<Rightarrow> stream" where
  "with_input buf as s = s\<lparr>read_buff := buf, arrivals := as\<rparr>"

lemma with_input_sel [simp]:
  "send_room (with_input b a s) = send_room s" "sent (with_input b a s) = sent s"
  "with_input b a (with_input b' a' s) = with_input b a s"
  by (simp_all add: with_input_def)

text \<open>Writing does not look at the input.\<close>

lemma stream_write_input [simp]:
  "stream_write d (with_input b a s) = (case stream_write d s of (n, s') \<Rightarrow> (n, with_input b a s'))"
  by (simp add: stream_write_def with_input_def Let_def split: option.split)

lemma write_data_input: "write_data d (with_input b a s) = (case write_data d s of (ok, s') \<Rightarrow> (ok, with_input b a s'))"
proof (induction d s rule: write_data.induct)
  case (1 d s)
  show ?case
    using 1 by (subst (1 2) write_data.simps) (auto split: option.split prod.split)
qed

lemma write_response_input:
  "write_response boundary c req res (with_input b a s)
    = (case write_response boundary c req res s of (ok, req, res, s') \<Rightarrow> (ok, req, res, with_input b a s'))"
  by (simp add: write_response_def write_response_core_def write_data_input Let_def split: prod.split)

lemma refuse_input:
  "refuse boundary c req code (with_input b a s) = (case refuse boundary c req code s of (r, s') \<Rightarrow> (r, with_input b a s'))"
  by (simp add: refuse_def write_response_input split: prod.split)

lemma expect_continue_input: "expect_continue req (with_input b a s) = with_input b a (expect_continue req s)"
  by (simp add: expect_continue_def split: prod.split)

lemma write_routed_input:
  "write_routed boundary c routed req res (with_input b a s)
    = (case write_routed boundary c routed req res s of (ok, req, res, s') \<Rightarrow> (ok, req, res, with_input b a s'))"
  by (simp add: write_routed_def write_response_input write_response_core_def write_data_input Let_def split: prod.split)

text \<open>Neither does the handling of a request without a body.\<close>

definition bodyless :: "request \<Rightarrow> bool" where
  "bodyless req \<longleftrightarrow> \<not> expect_content req \<and> \<not> has_framed_body req"

lemma bodyless_cong:
  "req_method req' = req_method req \<Longrightarrow> req_headers req' = req_headers req \<Longrightarrow> bodyless req' = bodyless req"
  by (simp add: bodyless_def expect_content_def has_framed_body_def)

lemma match_keeps: "match regex_match m req = (ok, req') \<Longrightarrow> req_method req' = req_method req \<and> req_headers req' = req_headers req"
  by (cases "(regex_match, m, req)" rule: match.cases) (auto split: if_splits prod.splits)

lemma dispatch_input:
  "bodyless req \<Longrightarrow> dispatch_request regex_match hs req res st (with_input b a s)
      = (case dispatch_request regex_match hs req res st s of (r, req', res', st', s') \<Rightarrow> (r, req', res', st', with_input b a s'))
    \<and> bodyless (fst (snd (dispatch_request regex_match hs req res st s)))"
proof (induction regex_match hs req res st s rule: dispatch_request.induct)
  case (2 regex_match m handler handlers req res st s)
  obtain ok req' where m: "match regex_match m req = (ok, req')" by fastforce
  have less: "bodyless req'" "bodyless (req'\<lparr>matched_route := pattern m\<rparr>)"
    using match_keeps [OF m] 2(2) bodyless_cong [of req' req] bodyless_cong [of "req'\<lparr>matched_route := pattern m\<rparr>" req] by simp_all
  show ?case
  proof (cases ok)
    case True
    have "\<not> expect_content (req'\<lparr>matched_route := pattern m\<rparr>)" using less(2) by (simp add: bodyless_def)
    with True m less show ?thesis by (simp add: run_handler_def Let_def split: prod.split)
  next
    case False
    with 2(1) [OF m [symmetric] _ less(1)] m show ?thesis by simp
  qed
qed simp

lemma routing_input:
  "bodyless req \<Longrightarrow> routing regex_match svr req res st (with_input b a s)
      = (case routing regex_match svr req res st s of (r, req', res', st', s') \<Rightarrow> (r, req', res', st', with_input b a s'))
    \<and> bodyless (fst (snd (routing regex_match svr req res st s)))"
  by (simp add: routing_def dispatch_input)

lemma range_error_keeps:
  "range_error req res = (bad, req') \<Longrightarrow> req_method req' = req_method req \<and> req_headers req' = req_headers req"
  by (auto simp: range_error_def Let_def split: if_splits option.splits)

lemma write_routed_keeps:
  "write_routed boundary c routed req res s = (ok, req', res', s') \<Longrightarrow> bodyless req' = bodyless req"
  by (intro bodyless_cong)
    (auto simp: write_routed_def write_response_def Let_def split: if_splits prod.splits dest!: range_error_keeps)

lemma process_routed_input:
  assumes "bodyless req"
  shows "process_routed regex_match boundary svr c closed req st (with_input b a s)
    = (case process_routed regex_match boundary svr c closed req st s of (r, cl, st', s') \<Rightarrow> (r, cl, st', with_input b a s'))"
proof -
  obtain r req1 res1 st1 s1 where rt: "routing regex_match svr req new_response st s = (r, req1, res1, st1, s1)"
    by (rule prod_cases5)
  from routing_input [OF assms, of regex_match svr new_response st b a s] rt
  have rt': "routing regex_match svr req new_response st (with_input b a s) = (r, req1, res1, st1, with_input b a s1)"
    and less: "bodyless req1" by simp_all
  have drain: "drain_body req2 res2 closed s2 = (closed, s2)" if "bodyless req2" for req2 res2 s2
    using that by (simp add: drain_body_def bodyless_def)
  have written: "(case write_routed boundary c ok req1 res' (with_input b a s1) of (ret, req, res, strm) \<Rightarrow>
        case drain_body req res closed strm of (closed, strm) \<Rightarrow> (Ok ret, closed, st1, strm))
      = (case (case write_routed boundary c ok req1 res' s1 of (ret, req, res, strm) \<Rightarrow>
            case drain_body req res closed strm of (closed, strm) \<Rightarrow> (Ok ret, closed, st1, strm))
         of (r, cl, st', s') \<Rightarrow> (r, cl, st', with_input b a s'))" for ok res'
    using write_routed_keeps [of boundary c ok req1 res' s1] less drain
    by (cases "write_routed boundary c ok req1 res' s1") (simp add: write_routed_input)
  show ?thesis
    unfolding process_routed_def rt rt' by (cases r) (simp_all add: written)
qed

section \<open>A head that arrives in one piece\<close>

lemma getline_buffered:
  assumes "read_buff s = w @ [cr, lf] @ rest" and "lf \<notin> set w" and "length w + 2 \<le> MAX_LINE_LENGTH"
  obtains r where "stream_getline sz s = (True, r, s\<lparr>read_buff := rest\<rparr>)" "reader_text r = w @ [cr, lf]"
proof -
  have "crlf_end NUL (read_buff s) = Some (length w + 2)" using assms(1,2) by (simp add: crlf_end_line)
  moreover have "take (length w + 2) (read_buff s) = w @ [cr, lf]" "drop (length w + 2) (read_buff s) = rest"
    "read_buff s \<noteq> []" using assms(1) by simp_all
  ultimately have "stream_getline sz s
      = (True, reader_append sz \<lparr>fixed_buffer = [], growable_buffer = []\<rparr> (w @ [cr, lf]), s\<lparr>read_buff := rest\<rparr>)"
    using assms(3) by (simp add: stream_getline_def getline_loop.simps Let_def reader_text_def)
  then show ?thesis by (rule that) (simp add: reader_text_append, simp add: reader_text_def)
qed

lemma getline_arriving:
  assumes "w \<noteq> []" and "lf \<notin> set w" and "length w + 2 \<le> MAX_LINE_LENGTH"
    and "length (w @ [cr, lf] @ rest) \<le> read_buff_size" and "read_buff s = []"
    and "arrivals s = bytes_arrive (w @ [cr, lf] @ rest) # as"
  obtains r where "stream_getline sz s = (True, r, with_input rest as s)" "reader_text r = w @ [cr, lf]"
proof -
  obtain c u where w: "w = c # u" using assms(1) by (cases w) auto
  let ?r = "reader_append sz \<lparr>fixed_buffer = [], growable_buffer = []\<rparr> [c]"
  let ?s = "with_input (u @ [cr, lf] @ rest) as s"
  have r: "reader_text ?r = [c]" by (subst reader_text_append) (simp_all add: reader_text_def)
  have "stream_read 1 s = (Some [c], ?s)"
    using assms(4-6) by (simp add: stream_read_def recv_def bytes_arrive_def w read_buff_size_def with_input_def)
  then have "stream_getline sz s = getline_loop sz 1 c ?r ?s"
    using assms(5) by (subst stream_getline_def, subst getline_loop.simps) (simp add: reader_text_def MAX_LINE_LENGTH_def Let_def NUL_def)
  also have "\<dots> = (True, reader_append sz ?r (u @ [cr, lf]), with_input rest as s)"
  proof -
    have b: "read_buff ?s = u @ [cr, lf] @ rest" by (simp add: with_input_def)
    then have "crlf_end c (read_buff ?s) = Some (length u + 2)" using assms(2) w by (simp add: crlf_end_line)
    moreover have "take (length u + 2) (read_buff ?s) = u @ [cr, lf]" "drop (length u + 2) (read_buff ?s) = rest"
      "read_buff ?s \<noteq> []" unfolding b by simp_all
    ultimately show ?thesis
      using assms(3) w r by (subst getline_loop.simps) (simp add: Let_def with_input_def)
  qed
  finally show ?thesis by (rule that) (simp add: reader_text_append r w)
qed

lemma read_headers_buffered:
  assumes "read_buff s = write_headers hs @ rest" and "list_all header_ok hs" and "n + length hs \<le> HEADER_MAX_COUNT"
  shows "read_headers_loop n h0 s = (content_lengths_agree (h0 @ hs), h0 @ hs, s\<lparr>read_buff := rest\<rparr>)"
  using assms
proof (induction hs arbitrary: n h0 s)
  case Nil
  then have "read_buff s = [] @ [cr, lf] @ rest" by (simp add: write_headers_def)
  then obtain r where "stream_getline 2048 s = (True, r, s\<lparr>read_buff := rest\<rparr>)" "reader_text r = [] @ [cr, lf]"
    by (rule getline_buffered) (simp_all add: MAX_LINE_LENGTH_def)
  then show ?case
    by (subst read_headers_loop.simps) (simp add: Let_def end_with_crlf_line [of _ "[]"])
next
  case (Cons h hs)
  obtain name val where h: "h = (name, val)" by (cases h)
  with Cons.prems have ok: "is_field_valid name val" "length (header_line h) + 2 \<le> HEADER_MAX_LENGTH" "header_ok h"
    by (simp_all add: header_ok_def)
  let ?w = "header_line h"
  have nolf: "lf \<notin> set ?w" using header_line_chars [OF ok(1), of lf] by (auto simp: h)
  have "read_buff s = ?w @ [cr, lf] @ (write_headers hs @ rest)"
    using Cons.prems write_headers_Cons [OF ok(3)] by simp
  then obtain r where line: "stream_getline 2048 s = (True, r, s\<lparr>read_buff := write_headers hs @ rest\<rparr>)"
      "reader_text r = ?w @ [cr, lf]"
    by (rule getline_buffered) (use nolf ok in \<open>auto simp: MAX_LINE_LENGTH_def HEADER_MAX_LENGTH_def\<close>)
  have "?w \<noteq> []" by (simp add: h header_line_def)
  with line ok Cons.prems have step: "read_headers_loop n h0 s
      = read_headers_loop (n + 1) (emplace h0 h) (s\<lparr>read_buff := write_headers hs @ rest\<rparr>)"
    by (subst read_headers_loop.simps)
      (auto simp: Let_def end_with_crlf_line parse_header_line h HEADER_MAX_COUNT_def)
  with Cons.IH [of "s\<lparr>read_buff := write_headers hs @ rest\<rparr>" "n + 1" "emplace h0 h"] Cons.prems show ?case
    by (simp add: emplace_def)
qed

text \<open>A request without a body whose head arrives with something behind it: what follows stays in the buffer, and what
  the server does depends neither on it nor on what arrives later.\<close>

definition incoming :: "arrival list \<Rightarrow> nat option \<Rightarrow> string \<Rightarrow> stream" where
  "incoming as lim out = \<lparr>read_buff = [], arrivals = as, send_room = lim, sent = out\<rparr>"

lemma with_input_incoming: "with_input b a (incoming as lim out) = \<lparr>read_buff = b, arrivals = a, send_room = lim, sent = out\<rparr>"
  by (simp add: with_input_def incoming_def)

lemma process_head_arriving:
  assumes ok: "head_ok m t v hs" and m: "m \<notin> {''POST'', ''PUT'', ''PATCH'', ''DELETE''}"
    and free: "\<not> is_chunked_transfer_encoding hs" "fst (get_header_value_u64 hs ''Content-Length'' 0) = 0"
  obtains r closed st' lim' out' where "\<forall>rest as. length (head_bytes m t v hs @ rest) \<le> read_buff_size \<longrightarrow>
    process_request regex_match boundary svr c st (incoming (bytes_arrive (head_bytes m t v hs @ rest) # as) lim out)
      = (r, closed, st', with_input rest as (incoming [] lim' out'))"
proof -
  let ?req = "head_request m t v hs"
  define after where "after s = (case check_request ?req of
      Inl (code, closed, req) \<Rightarrow> (case refuse boundary c req code s of (ret, s'') \<Rightarrow> (ret, closed, st, s''))
    | Inr (closed, req) \<Rightarrow> process_routed regex_match boundary svr c closed req st (expect_continue req s))" for s
  have less: "bodyless req" if "check_request ?req = Inr (closed, req)" for closed req
  proof -
    have "req_method req = m" "req_headers req = hs"
      using that by (auto simp: check_request_def Let_def head_request_def line_request_def new_request_def
        split: if_splits option.splits prod.splits)
    with m free show ?thesis by (simp add: bodyless_def expect_content_def has_framed_body_def)
  qed
  have after: "after (with_input b a s) = (case after s of (r, cl, st', s') \<Rightarrow> (r, cl, st', with_input b a s'))" for b a s
    using less by (auto simp: after_def refuse_input expect_continue_input process_routed_input split: sum.split prod.split)
  obtain r closed st' s' where base: "after (incoming [] lim out) = (r, closed, st', s')" by (rule prod_cases4)
  show ?thesis
  proof (rule that [of r closed st' "send_room s'" "sent s'"], intro allI impI)
    fix rest as
    assume short: "length (head_bytes m t v hs @ rest) \<le> read_buff_size"
    let ?s = "incoming (bytes_arrive (head_bytes m t v hs @ rest) # as) lim out"
    let ?w = "m @ '' '' @ t @ '' '' @ v" and ?rest = "write_headers hs @ rest"
    have bytes: "head_bytes m t v hs @ rest = ?w @ [cr, lf] @ ?rest" by (simp add: head_bytes_def request_line_def)
    have words: "word m" "word t" "word v" using ok known_method_word version_word by (auto simp: head_ok_def)
    have long: "length ?w + 2 \<le> MAX_LINE_LENGTH"
      using short unfolding bytes by (simp add: read_buff_size_def MAX_LINE_LENGTH_def)
    have "lf \<notin> set ?w" using word_lf [OF words(1)] word_lf [OF words(2)] word_lf [OF words(3)] by simp
    moreover have "?w \<noteq> []" by simp
    ultimately obtain l where line: "stream_getline 2048 ?s = (True, l, with_input ?rest as ?s)"
      "reader_text l = ?w @ [cr, lf]"
      using getline_arriving [of ?w ?rest ?s as 2048] long short unfolding bytes by (auto simp: incoming_def)
    have hdr: "read_headers [] (with_input ?rest as ?s) = (True, hs, with_input rest as ?s)"
      using read_headers_buffered [of "with_input ?rest as ?s" hs rest 0 "[]"] ok
      by (simp add: read_headers_def head_ok_def with_input_def)
    have "parse_request_line (request_line m t v) new_request = (True, line_request m t v)"
      using ok by (intro parse_request_line_exact) (auto simp: head_ok_def)
    moreover have "req_headers (line_request m t v) = []" by (simp add: line_request_def new_request_def Let_def)
    ultimately have "process_request regex_match boundary svr c st ?s = after (with_input rest as ?s)"
      using line hdr by (simp add: process_request_def Let_def head_request_def after_def request_line_def)
    also have "with_input rest as ?s = with_input rest as (incoming [] lim out)" by (simp add: with_input_def incoming_def)
    also have "after \<dots> = (r, closed, st', with_input rest as s')" unfolding after base by simp
    also have "with_input rest as s' = with_input rest as (incoming [] (send_room s') (sent s'))"
      by (simp add: with_input_def incoming_def)
    finally show "process_request regex_match boundary svr c st ?s
      = (r, closed, st', with_input rest as (incoming [] (send_room s') (sent s')))" .
  qed
qed

lemma socket_buffer:
  "process_server_socket regex_match boundary svr n ret st (with_input b as s)
    = (case process_server_socket regex_match boundary svr n ret st (with_input [] as s) of
        (ret', st', s') \<Rightarrow> (ret', st', if n = 0 \<or> \<not> fst (keep_alive (with_input [] as s)) then s'\<lparr>read_buff := b\<rparr> else s'))"
proof (cases n)
  case (Suc k)
  obtain ready s1 where k: "keep_alive (with_input [] as s) = (ready, s1)" by (rule prod.exhaust)
  then have "keep_alive (with_input b as s) = (ready, s1\<lparr>read_buff := b\<rparr>) \<and> s1\<lparr>read_buff := []\<rparr> = s1"
  proof (cases "dropWhile (\<lambda>a. a = Pause) as")
    case Nil
    with k show ?thesis unfolding keep_alive_def by (auto simp: with_input_def simp del: dropWhile_eq_Nil_conv)
  next
    case (Cons x xs)
    with k show ?thesis unfolding keep_alive_def by (cases x) (auto simp: with_input_def)
  qed
  with Suc k show ?thesis by (simp split: prod.split)
qed (simp add: with_input_def)

definition unbuffered :: "'r \<times> 's \<times> stream \<Rightarrow> 'r \<times> 's \<times> stream" where
  "unbuffered = (\<lambda>(r, st, s). (r, st, s\<lparr>read_buff := []\<rparr>))"

lemma unbuffered_socket:
  "unbuffered (process_server_socket regex_match boundary svr n ret st (with_input b as s))
    = unbuffered (process_server_socket regex_match boundary svr n ret st (with_input [] as s))"
  by (subst socket_buffer) (auto simp: unbuffered_def split: prod.split)

lemma keep_alive_bytes: "bs \<noteq> [] \<Longrightarrow> keep_alive (incoming (bytes_arrive bs # as) lim out) = (True, incoming (bytes_arrive bs # as) lim out)"
  by (simp add: keep_alive_def incoming_def bytes_arrive_def)

text \<open>C40: What arrives together with a request is lost. Let a request without a body, for any server, arrive in one
  piece with any bytes behind it, in all no more than the 4096 the stream reads ahead, and let the connection stay open
  after it. Then the server goes on exactly as if those bytes had never been sent; had they arrived in a piece of
  their own, it would have gone on with them. Every request is read through a stream with a buffer of its own, and
  what the one before has read ahead is gone with it.\<close>

theorem pipelined_request_lost:
  assumes "head_ok m t v hs" and "m \<notin> {''POST'', ''PUT'', ''PATCH'', ''DELETE''}"
    and "\<not> is_chunked_transfer_encoding hs" and "fst (get_header_value_u64 hs ''Content-Length'' 0) = 0"
    and "length (head_bytes m t v hs @ rest) \<le> read_buff_size" and "rest \<noteq> []"
  shows "\<exists>closed r st' lim' out'.
    process_request regex_match boundary svr (n = 0) st (incoming (bytes_arrive (head_bytes m t v hs) # as) lim out)
      = (r, closed, st', incoming as lim' out')
    \<and> (r = Ok True \<and> \<not> closed \<longrightarrow>
      unbuffered (process_server_socket regex_match boundary svr (Suc n) ret st
          (incoming (bytes_arrive (head_bytes m t v hs @ rest) # as) lim out))
        = unbuffered (process_server_socket regex_match boundary svr n r st' (incoming as lim' out'))
      \<and> process_server_socket regex_match boundary svr (Suc n) ret st
          (incoming (bytes_arrive (head_bytes m t v hs) # bytes_arrive rest # as) lim out)
        = process_server_socket regex_match boundary svr n r st' (incoming (bytes_arrive rest # as) lim' out'))"
proof -
  let ?head = "head_bytes m t v hs"
  obtain r closed st' lim' out' where all: "\<forall>rest as. length (?head @ rest) \<le> read_buff_size \<longrightarrow>
    process_request regex_match boundary svr (n = 0) st (incoming (bytes_arrive (?head @ rest) # as) lim out)
      = (r, closed, st', with_input rest as (incoming [] lim' out'))"
    by (rule process_head_arriving [OF assms(1-4), where regex_match = regex_match and boundary = boundary and svr = svr
        and c = "n = 0" and st = st and lim = lim and out = out])
  note step = all [rule_format]
  have head: "?head \<noteq> []" by (simp add: head_bytes_def request_line_def)
  have short: "length (?head @ []) \<le> read_buff_size" using assms(5) by simp
  have plain: "with_input [] as (incoming [] lim' out') = incoming as lim' out'" for as
    by (simp add: with_input_def incoming_def)
  have idle: "s\<lparr>read_buff := []\<rparr> = s" if "s = incoming as lim out" for s as using that by (simp add: incoming_def)
  have one: "process_request regex_match boundary svr (n = 0) st (incoming (bytes_arrive ?head # as) lim out)
      = (r, closed, st', incoming as lim' out')" for as
    using step [OF short, of as] plain by simp
  have "unbuffered (process_server_socket regex_match boundary svr (Suc n) ret st (incoming (bytes_arrive (?head @ rest) # as) lim out))
      = unbuffered (process_server_socket regex_match boundary svr n r st' (incoming as lim' out'))" if "r = Ok True" "\<not> closed"
    using step [OF assms(5), of as] that keep_alive_bytes [of "?head @ rest" as lim out] head idle [OF refl]
      unbuffered_socket [of regex_match boundary svr n r st' rest as "incoming [] lim' out'"] plain by simp
  moreover have "process_server_socket regex_match boundary svr (Suc n) ret st (incoming (bytes_arrive ?head # bytes_arrive rest # as) lim out)
      = process_server_socket regex_match boundary svr n r st' (incoming (bytes_arrive rest # as) lim' out')" if "r = Ok True" "\<not> closed"
    using one [of "bytes_arrive rest # as"] that keep_alive_bytes [OF head, of "bytes_arrive rest # as" lim out] idle [OF refl] by simp
  ultimately show ?thesis using one by blast
qed

lemma unknown_head: "unknown_request = head_bytes ''GET'' ''/x'' ''HTTP/1.1'' []"
  by (simp add: unknown_request_def head_bytes_def request_line_def write_headers_def)

theorem pipelined_request_lost_witness:
  "unbuffered (process_server_socket (\<lambda>p s. False) [] (api_server (StartSearch demo_os new_task) GetStatus) 2 (Ok False)
      demo_master (incoming [bytes_arrive (unknown_request @ unknown_request)] None []))
    = unbuffered (process_server_socket (\<lambda>p s. False) [] (api_server (StartSearch demo_os new_task) GetStatus) 1 (Ok True)
      demo_master (incoming [] None (error_bytes 404)))"
proof -
  have ok: "head_ok ''GET'' ''/x'' ''HTTP/1.1'' []"
    by (simp add: head_ok_def methods_def word_def is_space_or_tab_def NUL_def REQUEST_URI_MAX_LENGTH_def
        content_lengths_agree_def equal_range_def)
  have bare: "\<not> is_chunked_transfer_encoding []" "fst (get_header_value_u64 [] k 0) = 0" for k
    by (simp_all add: is_chunked_transfer_encoding_def get_header_value_u64_def equal_range_def)
  have short: "length (unknown_request @ unknown_request) \<le> read_buff_size" "unknown_request \<noteq> []"
    by (simp_all add: unknown_request_def read_buff_size_def)
  from unknown_answered [of "[]" "\<lambda>p s. False" "[]" "StartSearch demo_os new_task" GetStatus False demo_master "[]" "[]"]
  have first: "process_request (\<lambda>p s. False) [] (api_server (StartSearch demo_os new_task) GetStatus) (1 = (0 :: nat)) demo_master
      (incoming [bytes_arrive unknown_request] None []) = (Ok True, False, demo_master, incoming [] None (error_bytes 404))"
    by (simp add: incoming_def)
  from pipelined_request_lost [OF ok _ bare short [unfolded unknown_head], folded unknown_head,
      of "\<lambda>p s. False" "[]" "api_server (StartSearch demo_os new_task) GetStatus" 1 demo_master "[]" None "[]" "Ok False"]
  show ?thesis unfolding first by (auto simp: incoming_def numeral_2_eq_2)
qed

text \<open>Two requests in one arrival get one answer, in two arrivals two. That answer already said \<^verbatim>\<open>Connection: close\<close>, and
  yet the server goes on.\<close>

theorem two_requests_one_answer:
  "sent (snd (snd (process_and_close_socket regex_match boundary (api_server start status) m
      (on_wire [bytes_arrive (unknown_request @ unknown_request)])))) = error_bytes 404
   \<and> sent (snd (snd (process_and_close_socket regex_match boundary (api_server start status) m
      (on_wire [bytes_arrive unknown_request, bytes_arrive unknown_request])))) = error_bytes 404 @ error_bytes 404"
proof -
  have ended: "process_request regex_match boundary (api_server start status) c m
      \<lparr>read_buff = [], arrivals = [], send_room = None, sent = out\<rparr> = (Ok False, False, m, \<lparr>read_buff = [], arrivals = [], send_room = None, sent = out\<rparr>)"
    for c out
    by (simp add: process_request_def stream_getline_def getline_loop.simps stream_read_def recv_def read_buff_size_def
        reader_text_def MAX_LINE_LENGTH_def)
  have "KEEPALIVE_MAX_COUNT = Suc (Suc (Suc 97))" by (simp add: KEEPALIVE_MAX_COUNT_def)
  then obtain n where count: "KEEPALIVE_MAX_COUNT = Suc (Suc (Suc n))" ..
  have short: "length unknown_request \<le> 2048" by (simp add: unknown_request_def)
  note two = unknown_answered [OF short] and one = unknown_answered [of "[]", simplified]
  have "process_and_close_socket regex_match boundary (api_server start status) m (on_wire [bytes_arrive (unknown_request @ unknown_request)])
    = (Ok False, m, \<lparr>read_buff = [], arrivals = [], send_room = None, sent = error_bytes 404\<rparr>)"
    using two [of regex_match boundary start status False m "[]" "[]"] ended
    by (simp add: process_and_close_socket_def count keep_alive_def on_wire_def bytes_arrive_def)
  moreover have "process_and_close_socket regex_match boundary (api_server start status) m (on_wire [bytes_arrive unknown_request, bytes_arrive unknown_request])
    = (Ok False, m, \<lparr>read_buff = [], arrivals = [], send_room = None, sent = error_bytes 404 @ error_bytes 404\<rparr>)"
    using one [of regex_match boundary start status False m "[bytes_arrive unknown_request]" "[]"]
      one [of regex_match boundary start status False m "[]" "error_bytes 404"] ended
    by (simp add: process_and_close_socket_def count keep_alive_def on_wire_def bytes_arrive_def)
  ultimately show ?thesis by simp
qed

end
