(* ===== verification/HttpNode.thy ===== *)
theory HttpNode
  imports HttpFraming
begin

text \<open>
  The HTTP interface on the master of \<open>MasterServer\<close>: a whole connection, whatever is sent on it, and
  the exchanges a client builds on, from the bytes of a request to the bytes of its answer.
\<close>

section \<open>What a connection can do to the master\<close>

text \<open>\<open>posted start m bs m'\<close>: \<open>m'\<close> is what the bodies \<open>bs\<close>, posted one after the other, make of \<open>m\<close>.\<close>

inductive posted ::
  "(string \<Rightarrow> string \<Rightarrow> SearchConfig \<Rightarrow> 's \<Rightarrow> u64 outcome \<times> 's) \<Rightarrow> 's \<Rightarrow> string list \<Rightarrow> 's \<Rightarrow> bool"
  for start where
  none: "posted start m [] m"
| more: "HandlePostSearch start b m = (Ok res, m') \<Longrightarrow> posted start m' bs m'' \<Longrightarrow> posted start m (b # bs) m''"

lemma post_keeps:
  assumes "HandlePostSearch (StartSearch os uninit) b m = (Ok res, m')" and "GetStatus i m \<noteq> None"
  shows "GetStatus i m' \<noteq> None"
proof (rule master.post_cases [of os uninit b m])
  fix path keyword config
  assume h: "HandlePostSearch (StartSearch os uninit) b m
      = (case StartSearch os uninit path keyword config m of (r, s') \<Rightarrow>
          (handle_errors post_error (obind r (\<lambda>searchId. json_reply 202 (search_response searchId))), s'))"
  obtain r m1 where st: "StartSearch os uninit path keyword config m = (r, m1)" by (rule prod.exhaust)
  obtain v where known: "GetStatus i m = Some v" using assms(2) by blast
  from st h assms(1) have "m1 = m'" "(\<exists>sid. r = Ok sid) \<or> (\<exists>e. r = Throw e)" by (cases r; simp)+
  then show ?thesis using master.known_stays_known [OF known st] by blast
qed (use assms in auto)

lemma posted_keeps:
  "posted (StartSearch os uninit) m bs m' \<Longrightarrow> GetStatus i m \<noteq> None \<Longrightarrow> GetStatus i m' \<noteq> None"
  by (induction rule: posted.induct) (auto dest: post_keeps)

lemma get_total: "\<exists>res. HandleGetSearch status params s = Ok res"
proof -
  have "stoull v \<noteq> Undef \<and> stoull v \<noteq> Hang" for v by (simp add: stoull_def split: option.split)
  then show ?thesis
  proof (cases "case params ''id'' of None \<Rightarrow> Throw Other_Exception | Some v \<Rightarrow> stoull v")
    case (Ok sid)
    show ?thesis
    proof (cases "status sid s")
      case (Some st)
      with Ok status_reply [of 200 sid st False] show ?thesis by (auto simp: HandleGetSearch_def)
    qed (simp add: HandleGetSearch_def Ok)
  qed (auto simp: HandleGetSearch_def split: option.splits)
qed

text \<open>What one request does to the master: nothing, or what its body, posted, does.\<close>

definition one_post :: "os \<Rightarrow> TaskPayload \<Rightarrow> master \<Rightarrow> 'a outcome \<Rightarrow> master \<Rightarrow> bool" where
  "one_post os uninit m r m' \<longleftrightarrow>
     ((\<exists>ok. r = Ok ok) \<and> (m' = m \<or> (\<exists>b res. HandlePostSearch (StartSearch os uninit) b m = (Ok res, m'))))
     \<or> r = Undef \<and> m' = m"

lemma post_handler_once:
  assumes "posix_sizes os" and "run_handler (post_search (StartSearch os uninit)) req res m s = (r, req', res', m', s')"
  shows "one_post os uninit m r m'"
proof (rule post_total [OF assms(1), of uninit "req_body req" m])
  fix a m1
  assume "HandlePostSearch (StartSearch os uninit) (req_body req) m = (Ok a, m1)"
  with assms(2) show ?thesis
    by (auto simp: one_post_def run_handler_def post_search_def outcome_reply_def)
next
  assume "HandlePostSearch (StartSearch os uninit) (req_body req) m = (Undef, m)" "undefined_limit (req_body req)"
  with assms(2) show ?thesis
    by (auto simp: one_post_def run_handler_def post_search_def outcome_reply_def)
qed

lemma get_handler_once:
  assumes "run_handler (get_status status) req res m s = (r, req', res', m', s')"
  shows "one_post os uninit m r m'"
proof -
  obtain a where "HandleGetSearch status (map_of (path_params req)) m = Ok a" by (rule exE [OF get_total])
  with assms show ?thesis by (auto simp: one_post_def run_handler_def get_status_def outcome_reply_def)
qed

lemma routing_once:
  assumes "posix_sizes os"
    and "routing regex_match (api_server (StartSearch os uninit) GetStatus) req res m s = (r, req', res', m', s')"
  shows "one_post os uninit m r m'"
proof -
  have idle: "one_post os uninit m (Ok b) m" for b :: bool by (simp add: one_post_def)
  have one: "dispatch_request regex_match [(mt, h)] req res m s = (r, req', res', m', s')
    \<Longrightarrow> (\<And>q a t. run_handler h q a m t = (r, req', res', m', s') \<Longrightarrow> one_post os uninit m r m')
    \<Longrightarrow> one_post os uninit m r m'" for mt h
    using idle by (auto simp: Let_def split: prod.splits if_splits)
  from assms(2) show ?thesis
    using one [of search_matcher "post_search (StartSearch os uninit)"] one [of status_matcher "get_status GetStatus"]
      post_handler_once [OF assms(1)] get_handler_once [of GetStatus] idle
    by (auto simp: routing_def api_server_def new_http_server_def simp del: dispatch_request.simps(2) split: if_splits)
qed

lemma process_request_once:
  assumes "posix_sizes os"
    and "process_request regex_match boundary (api_server (StartSearch os uninit) GetStatus) close_connection m s = (r, closed, m', s')"
  shows "one_post os uninit m r m'"
proof -
  have idle: "one_post os uninit m (Ok b) m" for b :: bool by (simp add: one_post_def)
  have routed: "one_post os uninit m r m'"
    if "process_routed regex_match boundary (api_server (StartSearch os uninit) GetStatus) close_connection c req m t = (r, closed, m', s')"
    for c req t
  proof -
    obtain r1 req1 res1 m1 s1 where rt: "routing regex_match (api_server (StartSearch os uninit) GetStatus) req new_response m t
        = (r1, req1, res1, m1, s1)" by (rule prod_cases5)
    from routing_once [OF assms(1) rt] that rt show ?thesis
      by (cases r1) (auto simp: process_routed_def one_post_def split: prod.splits)
  qed
  from assms(2) idle show ?thesis
    by (auto simp: process_request_def refuse_def Let_def split: prod.splits if_splits sum.splits intro: routed)
qed

definition settled :: "bool outcome \<Rightarrow> bool" where
  "settled r \<longleftrightarrow> (\<exists>ok. r = Ok ok) \<or> r = Undef"

lemma connection_posts:
  assumes "posix_sizes os"
    and "process_server_socket regex_match boundary (api_server (StartSearch os uninit) GetStatus) n ret m s = (r, m', s')"
    and "settled ret"
  shows "settled r \<and> (\<exists>bs. posted (StartSearch os uninit) m bs m' \<and> length bs \<le> n)"
  using assms(2,3)
proof (induction n arbitrary: ret m s)
  case 0
  then show ?case using posted.none by fastforce
next
  case (Suc n)
  let ?svr = "api_server (StartSearch os uninit) GetStatus"
  obtain ready s0 where ka: "keep_alive s = (ready, s0)" by (rule prod.exhaust)
  obtain r1 closed m1 s1 where run: "process_request regex_match boundary ?svr (n = 0) m (s0\<lparr>read_buff := []\<rparr>) = (r1, closed, m1, s1)"
    by (rule prod_cases4)
  note once = process_request_once [OF assms(1) run]
  show ?case
  proof (cases "ready \<and> r1 = Ok True \<and> \<not> closed")
    case True
    with Suc.prems ka run have rest: "process_server_socket regex_match boundary ?svr n r1 m1 s1 = (r, m', s')" by simp
    have "settled r1" using True unfolding settled_def by blast
    from Suc.IH [OF rest this] obtain bs where bs: "settled r" "posted (StartSearch os uninit) m1 bs m'" "length bs \<le> n" by blast
    from once True have "m1 = m \<or> (\<exists>b res. HandlePostSearch (StartSearch os uninit) b m = (Ok res, m1))" by (auto simp: one_post_def)
    with bs posted.more show ?thesis by fastforce
  next
    case False
    have quiet: "settled ret \<Longrightarrow> ?thesis" if "(r, m') = (ret, m)" using that posted.none by fastforce
    have stop: ?thesis if "(r, m') = (r1, m1)"
    proof -
      have "settled r1" using once by (auto simp: one_post_def settled_def)
      moreover from once have "m1 = m \<or> (\<exists>b res. HandlePostSearch (StartSearch os uninit) b m = (Ok res, m1))" by (auto simp: one_post_def)
      then have "\<exists>bs. posted (StartSearch os uninit) m bs m1 \<and> length bs \<le> Suc n" using posted.more posted.none by fastforce
      ultimately show ?thesis using that by simp
    qed
    from False Suc.prems ka run quiet stop show ?thesis by (auto split: if_splits)
  qed
qed

section \<open>Answers have a body\<close>





section \<open>A request to search\<close>







section \<open>Properties\<close>






text \<open>C39: A request that goes to neither route is refused without effect. Its head is well-formed and unconditional: no
  \<^verbatim>\<open>Range\<close> and no \<^verbatim>\<open>Expect: 100-continue\<close>, an \<^verbatim>\<open>Accept\<close> the server can read, no transfer coding but one that ends in
  chunks and stands beside no length. It is neither a \<^verbatim>\<open>POST\<close> of the search address nor a \<^verbatim>\<open>GET\<close> or \<^verbatim>\<open>HEAD\<close> of
  a status address. Then the answer is 404, or 400 for a method no handler can be registered for, and nothing is
  changed: the body it may carry is not read, and if it has one the connection is given up.\<close>

theorem http_elsewhere_refused:
  assumes "head_ok m t v hs" and "unconditional hs" and "\<not> routed_to m (target_path t)"
    and "inbound s = head_bytes m t v hs @ rest" and "send_room s = None"
  shows "case process_request regex_match boundary (api_server start status) close_connection st s of
      (ret, closed, st', s') \<Rightarrow> ret = Ok True \<and> st' = st \<and> inbound s' = rest
        \<and> (closed \<longleftrightarrow> closing hs v \<or> is_chunked_transfer_encoding hs \<or> 0 < fst (get_header_value_u64 hs ''Content-Length'' 0))
        \<and> sent s' = sent s @ refusal_bytes m (if m \<in> set routable then 404 else 400)"
proof -
  obtain s' where "process_request regex_match boundary (api_server start status) close_connection st s
      = (Ok True, closing hs v \<or> is_chunked_transfer_encoding hs \<or> 0 < fst (get_header_value_u64 hs ''Content-Length'' 0), st, s')"
    "inbound s' = rest" "sent s' = sent s @ refusal_bytes m (if m \<in> set routable then 404 else 400)"
    by (rule elsewhere_exchange [OF assms])
  then show ?thesis by simp
qed

text \<open>A request for a search with the method \<^verbatim>\<open>DELETE\<close>.\<close>

lemma no_headers_ok:
  "unconditional []" "\<not> closing [] ''HTTP/1.1''" "\<not> is_chunked_transfer_encoding []" "fst (get_header_value_u64 [] k 0) = 0"
  by (simp_all add: unconditional_def closing_def has_header_def find_header_def get_header_value_def equal_range_def
      get_header_value_u64_def is_chunked_transfer_encoding_def)

theorem http_elsewhere_refused_witness:
  "case process_request (\<lambda>p s. False) [] (api_server (StartSearch demo_os new_task) GetStatus) False demo_master
      (on_wire [bytes_arrive (head_bytes ''DELETE'' ''/api/search'' ''HTTP/1.1'' [])]) of
    (ret, closed, st', s') \<Rightarrow> ret = Ok True \<and> st' = demo_master \<and> inbound s' = [] \<and> \<not> closed \<and> sent s' = error_bytes 404"
proof -
  let ?bs = "head_bytes ''DELETE'' ''/api/search'' ''HTTP/1.1'' []"
  have ok: "head_ok ''DELETE'' ''/api/search'' ''HTTP/1.1'' []"
    by (simp add: head_ok_def methods_def word_def is_space_or_tab_def NUL_def REQUEST_URI_MAX_LENGTH_def
        content_lengths_agree_def equal_range_def)
  have "?bs \<noteq> []" by (simp add: head_bytes_def request_line_def)
  from inbound_wire [OF this] have wire: "inbound (on_wire [bytes_arrive ?bs]) = ?bs @ []" by simp
  have out: "send_room (on_wire as) = None" "sent (on_wire as) = []" for as by (simp_all add: on_wire_def)
  have other: "\<not> routed_to ''DELETE'' (target_path ''/api/search'')" by (simp add: routed_to_def)
  have code: "(if ''DELETE'' \<in> set routable then 404 else 400) = (404 :: int)" by (simp add: routable_def)
  from http_elsewhere_refused [OF ok no_headers_ok(1) other wire out(1), where start = "StartSearch demo_os new_task"
      and status = GetStatus and st = demo_master and regex_match = "\<lambda>p s. False" and boundary = "[]" and close_connection = False]
  show ?thesis unfolding code using no_headers_ok(2,3) no_headers_ok(4) [of "''Content-Length''"] out(2) by auto
qed

text \<open>C13: Whatever bytes a client sends on a connection, and however they arrive, they do nothing to the master
  but post at most a hundred bodies to the handler, one after the other: no exception escapes, no request
  hangs, and every search the master knew before the connection it knows afterwards.\<close>

theorem http_connection_posts:
  assumes "posix_sizes os"
  shows "case process_and_close_socket regex_match boundary (api_server (StartSearch os uninit) GetStatus) m s of
      (r, m', s') \<Rightarrow> settled r
        \<and> (\<exists>bs. posted (StartSearch os uninit) m bs m' \<and> length bs \<le> 100)
        \<and> (\<forall>i. GetStatus i m \<noteq> None \<longrightarrow> GetStatus i m' \<noteq> None)"
proof -
  obtain r m' s' where run: "process_and_close_socket regex_match boundary (api_server (StartSearch os uninit) GetStatus) m s
      = (r, m', s')" by (rule prod_cases3)
  have "settled (Ok False)" unfolding settled_def by blast
  from connection_posts [OF assms run [unfolded process_and_close_socket_def] this] posted_keeps run
  show ?thesis by (auto simp: KEEPALIVE_MAX_COUNT_def)
qed

theorem http_connection_posts_witness:
  "case process_and_close_socket (\<lambda>p s. False) [] (api_server (StartSearch demo_os new_task) GetStatus) demo_master demo_stream of
      (r, m', s') \<Rightarrow> settled r \<and> (\<forall>i. GetStatus i demo_master \<noteq> None \<longrightarrow> GetStatus i m' \<noteq> None)"
  using http_connection_posts [OF demo_posix, where uninit = new_task and m = demo_master and s = demo_stream
      and regex_match = "\<lambda>p s. False" and boundary = "[]"] by auto

end
