(* ===== verification/HttpPool.thy ===== *)
theory HttpPool
  imports Prelude
begin

text \<open>
  The thread pool of the HTTP server (\<^verbatim>\<open>external/httplib.h\<close>, \<^verbatim>\<open>ThreadPool\<close>), which runs the connections the
  accept loop hands it (\<open>HttpListen\<close>): a fixed number of base threads, and dynamic ones that are started when
  no thread is idle and leave after idling. Any interleaving of the sections under \<^verbatim>\<open>mutex_\<close>, the
  notifications, the timeouts and the jobs is a run of \<open>http_pool_step\<close>.
\<close>

section \<open>State\<close>

text \<open>
  Where a thread is: before the lock at the head of its loop, asleep in the wait (with or without time limit), out
  of it and about to evaluate the predicate again (\<open>True\<close>: its time is up), running a job, out of its loop for
  shutdown, out of it for idling and in \<^verbatim>\<open>finished_threads_\<close>, or joined from there. The lists \<^verbatim>\<open>threads_\<close>,
  \<^verbatim>\<open>dynamic_threads_\<close> and \<^verbatim>\<open>finished_threads_\<close> are one list here: the flag says whether a thread is dynamic, the
  place whether it has finished.
\<close>

datatype 'j place = Arriving | Asleep | Woken bool | Working 'j | Left | Finished | Joined

record 'j http_pool =
  base_thread_count :: u64
  max_thread_count :: u64
  max_queued_requests :: u64
  idle_thread_count :: u64
  pool_shutdown_flag :: bool
  jobs :: "'j list"
  hthreads :: "(bool \<times> 'j place) list"
  one_due :: nat
  all_due :: bool
  accepted_jobs :: "'j list"
  completed_jobs :: "'j list"

definition new_http_pool :: "u64 \<Rightarrow> u64 \<Rightarrow> u64 \<Rightarrow> 'j http_pool outcome" where
  "new_http_pool n max_n mqr =
     (if max_n \<noteq> 0 \<and> max_n < n then Throw Other_Exception
      else Ok \<lparr>base_thread_count = n, max_thread_count = (if max_n = 0 then n else max_n), max_queued_requests = mqr,
        idle_thread_count = 0, pool_shutdown_flag = False, jobs = [], hthreads = replicate (unat n) (False, Arriving),
        one_due = 0, all_due = False, accepted_jobs = [], completed_jobs = []\<rparr>)"

section \<open>Operations\<close>

definition move :: "nat \<Rightarrow> 'j place \<Rightarrow> 'j http_pool \<Rightarrow> 'j http_pool" where
  "move i pl p = p\<lparr>hthreads := (hthreads p)[i := (fst (hthreads p ! i), pl)]\<rparr>"

text \<open>Whether a thread counts in \<^verbatim>\<open>threads_.size() + dynamic_threads_.size()\<close>.\<close>

fun listed :: "bool \<times> 'j place \<Rightarrow> bool" where
  "listed (d, Finished) = False"
| "listed (d, Joined) = False"
| "listed (d, pl) = True"

fun join_finished :: "bool \<times> 'j place \<Rightarrow> bool \<times> 'j place" where
  "join_finished (d, Finished) = (d, Joined)"
| "join_finished t = t"

definition cleanup_finished_threads :: "'j http_pool \<Rightarrow> 'j http_pool" where
  "cleanup_finished_threads p = p\<lparr>hthreads := map join_finished (hthreads p)\<rparr>"

text \<open>\<^verbatim>\<open>enqueue\<close> up to the release of the lock.\<close>

definition pool_enqueue :: "'j \<Rightarrow> 'j http_pool \<Rightarrow> bool \<times> 'j http_pool" where
  "pool_enqueue fn p =
     (if pool_shutdown_flag p then (False, p)
      else if 0 < max_queued_requests p \<and> max_queued_requests p \<le> of_nat (length (jobs p)) then (False, p)
      else
        let p = p\<lparr>jobs := jobs p @ [fn], accepted_jobs := accepted_jobs p @ [fn]\<rparr>;
            p = (if idle_thread_count p = 0 \<and> of_nat (length (filter listed (hthreads p))) < max_thread_count p
                 then let p = cleanup_finished_threads p in p\<lparr>hthreads := hthreads p @ [(True, Arriving)]\<rparr>
                 else p)
        in (True, p\<lparr>one_due := one_due p + 1\<rparr>))"

text \<open>The list a thread is in is told by its place.\<close>

definition move_to_finished :: "nat \<Rightarrow> 'j http_pool \<Rightarrow> 'j http_pool" where
  [simp]: "move_to_finished i p = move i Finished p"

text \<open>A thread in the wait evaluates the predicate: it goes back to sleep or, its time being up, away; or it
  leaves its loop; or it takes the oldest job.\<close>

definition worker_check :: "nat \<Rightarrow> bool \<Rightarrow> 'j http_pool \<Rightarrow> 'j http_pool" where
  "worker_check i timed_out p =
     (if jobs p = [] \<and> \<not> pool_shutdown_flag p
      then if timed_out then move_to_finished i (p\<lparr>idle_thread_count := idle_thread_count p - 1\<rparr>) else move i Asleep p
      else
        let p = p\<lparr>idle_thread_count := idle_thread_count p - 1\<rparr> in
        case jobs p of
          [] \<Rightarrow> move i Left p
        | fn # rest \<Rightarrow> (move i (Working fn) p)\<lparr>jobs := rest\<rparr>)"

definition worker_arrive :: "nat \<Rightarrow> 'j http_pool \<Rightarrow> 'j http_pool" where
  "worker_arrive i p = worker_check i False (p\<lparr>idle_thread_count := idle_thread_count p + 1\<rparr>)"

definition worker_done :: "nat \<Rightarrow> 'j \<Rightarrow> 'j http_pool \<Rightarrow> 'j http_pool" where
  "worker_done i fn p = (move i Arriving p)\<lparr>completed_jobs := completed_jobs p @ [fn]\<rparr>"

fun wake_up :: "bool \<times> 'j place \<Rightarrow> bool \<times> 'j place" where
  "wake_up (d, Asleep) = (d, Woken False)"
| "wake_up t = t"

text \<open>\<^verbatim>\<open>shutdown\<close> sets its flag under the lock, notifies all, and joins; it returns when no thread is left in its
  loop.\<close>

definition set_shutdown :: "'j http_pool \<Rightarrow> 'j http_pool" where
  "set_shutdown p = p\<lparr>pool_shutdown_flag := True, all_due := True\<rparr>"

fun out_of_loop :: "bool \<times> 'j place \<Rightarrow> bool" where
  "out_of_loop (d, Left) = True"
| "out_of_loop (d, Finished) = True"
| "out_of_loop (d, Joined) = True"
| "out_of_loop (d, pl) = False"

definition shutdown_returns :: "'j http_pool \<Rightarrow> bool" where
  "shutdown_returns p \<longleftrightarrow> pool_shutdown_flag p \<and> \<not> all_due p \<and> list_all out_of_loop (hthreads p)"

text \<open>Only a dynamic thread waits with a time limit. A notification wakes one sleeping thread, if any sleeps. The
  steps that are due: a thread that is awake goes on, and a notification that was called for arrives. A sleeping
  thread may also wake up for no reason or because its time is up; what must happen may not rest on that.\<close>

inductive due_worker_step :: "'j http_pool \<Rightarrow> 'j http_pool \<Rightarrow> bool" where
  arrive: "i < length (hthreads p) \<Longrightarrow> snd (hthreads p ! i) = Arriving \<Longrightarrow> due_worker_step p (worker_arrive i p)"
| resume: "i < length (hthreads p) \<Longrightarrow> snd (hthreads p ! i) = Woken b \<Longrightarrow> due_worker_step p (worker_check i b p)"
| notify_some: "0 < one_due p \<Longrightarrow> i < length (hthreads p) \<Longrightarrow> snd (hthreads p ! i) = Asleep
    \<Longrightarrow> due_worker_step p ((move i (Woken False) p)\<lparr>one_due := one_due p - 1\<rparr>)"
| notify_none: "0 < one_due p \<Longrightarrow> Asleep \<notin> snd ` set (hthreads p) \<Longrightarrow> due_worker_step p (p\<lparr>one_due := one_due p - 1\<rparr>)"
| notify_all: "all_due p \<Longrightarrow> due_worker_step p (p\<lparr>hthreads := map wake_up (hthreads p), all_due := False\<rparr>)"
| finish: "i < length (hthreads p) \<Longrightarrow> snd (hthreads p ! i) = Working fn \<Longrightarrow> due_worker_step p (worker_done i fn p)"

inductive worker_step :: "'j http_pool \<Rightarrow> 'j http_pool \<Rightarrow> bool" where
  due: "due_worker_step p q \<Longrightarrow> worker_step p q"
| spurious: "i < length (hthreads p) \<Longrightarrow> snd (hthreads p ! i) = Asleep \<Longrightarrow> worker_step p (move i (Woken False) p)"
| timeout: "i < length (hthreads p) \<Longrightarrow> hthreads p ! i = (True, Asleep) \<Longrightarrow> worker_step p (move i (Woken True) p)"

inductive http_pool_step :: "'j http_pool \<Rightarrow> 'j http_pool \<Rightarrow> bool" where
  enqueue: "pool_enqueue fn p = (True, p') \<Longrightarrow> http_pool_step p p'"
| stop: "http_pool_step p (set_shutdown p)"
| work: "worker_step p p' \<Longrightarrow> http_pool_step p p'"

inductive http_pool_reachable :: "u64 \<Rightarrow> u64 \<Rightarrow> u64 \<Rightarrow> 'j http_pool \<Rightarrow> bool" for n max_n mqr where
  start: "new_http_pool n max_n mqr = Ok p \<Longrightarrow> http_pool_reachable n max_n mqr p"
| step: "http_pool_reachable n max_n mqr p \<Longrightarrow> http_pool_step p q \<Longrightarrow> http_pool_reachable n max_n mqr q"

section \<open>Counting threads\<close>

definition pool_tally :: "(bool \<times> 'j place \<Rightarrow> 'm :: comm_monoid_add) \<Rightarrow> 'j http_pool \<Rightarrow> 'm" where
  "pool_tally f p = sum_list (map f (hthreads p))"

lemma sum_list_move:
  fixes f :: "'t \<Rightarrow> 'm :: comm_monoid_add"
  shows "i < length xs \<Longrightarrow> sum_list (map f (xs[i := y])) + f (xs ! i) = sum_list (map f xs) + f y"
proof (induction xs arbitrary: i)
  case (Cons x xs)
  then show ?case by (cases i) (simp_all add: ac_simps)
qed simp

lemma pool_tally_move:
  assumes "i < length (hthreads p)" and "hthreads p ! i = (d, old)"
  shows "pool_tally f (move i pl p) + f (d, old) = pool_tally f p + f (d, pl)"
  using sum_list_move [OF assms(1), of f "(d, pl)"] assms(2) by (simp add: pool_tally_def move_def)

lemma move_sel [simp]:
  "base_thread_count (move i pl p) = base_thread_count p" "max_thread_count (move i pl p) = max_thread_count p"
  "max_queued_requests (move i pl p) = max_queued_requests p" "idle_thread_count (move i pl p) = idle_thread_count p"
  "pool_shutdown_flag (move i pl p) = pool_shutdown_flag p" "jobs (move i pl p) = jobs p"
  "one_due (move i pl p) = one_due p" "all_due (move i pl p) = all_due p"
  "accepted_jobs (move i pl p) = accepted_jobs p" "completed_jobs (move i pl p) = completed_jobs p"
  "length (hthreads (move i pl p)) = length (hthreads p)"
  by (simp_all add: move_def)

lemma pool_tally_fields [simp]:
  "pool_tally f (p\<lparr>idle_thread_count := n\<rparr>) = pool_tally f p" "pool_tally f (p\<lparr>jobs := js\<rparr>) = pool_tally f p"
  "pool_tally f (p\<lparr>one_due := k\<rparr>) = pool_tally f p" "pool_tally f (p\<lparr>all_due := b\<rparr>) = pool_tally f p"
  "pool_tally f (p\<lparr>accepted_jobs := js\<rparr>) = pool_tally f p" "pool_tally f (p\<lparr>completed_jobs := js\<rparr>) = pool_tally f p"
  "pool_tally f (p\<lparr>pool_shutdown_flag := b\<rparr>) = pool_tally f p"
  by (simp_all add: pool_tally_def)

lemma pool_tally_move_idle [simp]:
  "pool_tally f (move i pl (p\<lparr>idle_thread_count := n\<rparr>)) = pool_tally f (move i pl p)"
  by (simp add: pool_tally_def move_def)

fun waiting :: "bool \<times> 'j place \<Rightarrow> nat" where
  "waiting (d, Asleep) = 1"
| "waiting (d, Woken b) = 1"
| "waiting (d, pl) = 0"

fun sleeping :: "bool \<times> 'j place \<Rightarrow> nat" where
  "sleeping (d, Asleep) = 1"
| "sleeping (d, pl) = 0"

fun rousing :: "bool \<times> 'j place \<Rightarrow> nat" where
  "rousing (d, Arriving) = 1"
| "rousing (d, Woken b) = 1"
| "rousing (d, pl) = 0"

fun holding :: "bool \<times> 'j place \<Rightarrow> 'j multiset" where
  "holding (d, Working fn) = {#fn#}"
| "holding (d, pl) = {#}"

fun leaving :: "bool \<times> 'j place \<Rightarrow> nat" where
  "leaving (d, Left) = 1"
| "leaving (d, pl) = 0"

text \<open>Only dynamic threads time out.\<close>

fun misplaced :: "bool \<times> 'j place \<Rightarrow> nat" where
  "misplaced (False, Woken True) = 1"
| "misplaced (False, Finished) = 1"
| "misplaced (False, Joined) = 1"
| "misplaced t = 0"

fun is_base :: "bool \<times> 'j place \<Rightarrow> nat" where
  "is_base (d, pl) = (if d then 0 else 1)"

definition counted :: "bool \<times> 'j place \<Rightarrow> nat" where
  "counted t = (if listed t then 1 else 0)"

lemma filter_listed: "length (filter listed (hthreads p)) = pool_tally counted p"
proof -
  have "length (filter listed ts) = sum_list (map counted ts)" for ts :: "(bool \<times> 'a place) list"
    by (induction ts) (simp_all add: counted_def)
  then show ?thesis by (simp add: pool_tally_def)
qed

lemma pool_tally_mono: "(\<And>t. f t \<le> g t) \<Longrightarrow> pool_tally f p \<le> (pool_tally g p :: nat)"
  unfolding pool_tally_def by (rule sum_list_mono)

lemma waiting_counted: "pool_tally waiting p \<le> pool_tally counted p"
proof (rule pool_tally_mono)
  show "waiting t \<le> counted t" for t :: "bool \<times> 'a place" by (cases t rule: waiting.cases) (simp_all add: counted_def)
qed

lemmas tallies_move = pool_tally_move [where f = waiting] pool_tally_move [where f = sleeping] pool_tally_move [where f = rousing]
  pool_tally_move [where f = holding] pool_tally_move [where f = leaving] pool_tally_move [where f = misplaced]
  pool_tally_move [where f = is_base] pool_tally_move [where f = counted]

section \<open>The invariant\<close>

text \<open>The idle counter is the number of threads in the wait; the lists hold no more threads than allowed; all base
  threads are there; every accepted job is waiting, running or complete; and while a thread sleeps, every
  waiting job has a thread on its way to it or a notification that will wake one.\<close>

definition hp_inv :: "'j http_pool \<Rightarrow> bool" where
  "hp_inv p \<longleftrightarrow> unat (idle_thread_count p) = pool_tally waiting p
     \<and> pool_tally counted p \<le> unat (max_thread_count p)
     \<and> pool_tally is_base p = unat (base_thread_count p) \<and> pool_tally misplaced p = 0
     \<and> (0 < pool_tally leaving p \<longrightarrow> pool_shutdown_flag p \<and> jobs p = [])
     \<and> mset (accepted_jobs p) = mset (completed_jobs p) + pool_tally holding p + mset (jobs p)
     \<and> (0 < pool_tally sleeping p \<longrightarrow> length (jobs p) \<le> one_due p + pool_tally rousing p)
     \<and> (pool_shutdown_flag p \<longrightarrow> 0 < pool_tally sleeping p \<longrightarrow> all_due p)"

lemma hp_invD:
  assumes "hp_inv p"
  shows "unat (idle_thread_count p) = pool_tally waiting p" "pool_tally counted p \<le> unat (max_thread_count p)"
    "pool_tally is_base p = unat (base_thread_count p)" "pool_tally misplaced p = 0"
    "0 < pool_tally leaving p \<Longrightarrow> pool_shutdown_flag p" "0 < pool_tally leaving p \<Longrightarrow> jobs p = []"
    "mset (accepted_jobs p) = mset (completed_jobs p) + pool_tally holding p + mset (jobs p)"
    "0 < pool_tally sleeping p \<Longrightarrow> length (jobs p) \<le> one_due p + pool_tally rousing p"
    "pool_shutdown_flag p \<Longrightarrow> 0 < pool_tally sleeping p \<Longrightarrow> all_due p"
  using assms unfolding hp_inv_def by blast+

lemma hp_invI:
  assumes "unat (idle_thread_count p) = pool_tally waiting p" "pool_tally counted p \<le> unat (max_thread_count p)"
    "pool_tally is_base p = unat (base_thread_count p)" "pool_tally misplaced p = 0"
    "0 < pool_tally leaving p \<Longrightarrow> pool_shutdown_flag p \<and> jobs p = []"
    "mset (accepted_jobs p) = mset (completed_jobs p) + pool_tally holding p + mset (jobs p)"
    "0 < pool_tally sleeping p \<Longrightarrow> length (jobs p) \<le> one_due p + pool_tally rousing p"
    "pool_shutdown_flag p \<Longrightarrow> 0 < pool_tally sleeping p \<Longrightarrow> all_due p"
  shows "hp_inv p"
  using assms unfolding hp_inv_def by blast

lemma hp_inv_move:
  assumes inv: "hp_inv p" and i: "i < length (hthreads p)" and old: "hthreads p ! i = (d, Asleep)"
    and pl: "pl = Woken b" "b \<longrightarrow> d"
  shows "hp_inv (move i pl p)"
  using inv tallies_move [OF i old, of pl] pl by (cases b) (auto simp: hp_inv_def counted_def)

lemma hp_inv_check:
  assumes inv: "hp_inv p" and i: "i < length (hthreads p)" and old: "hthreads p ! i = (d, Woken b)"
  shows "hp_inv (worker_check i b p)"
proof -
  note tm = tallies_move [OF i old] and D = hp_invD [OF inv]
  have "0 < pool_tally waiting p" using tm(1) [of Arriving] by simp
  with D(1) have "idle_thread_count p \<noteq> 0" by auto
  then have minus: "unat (idle_thread_count p - 1) = pool_tally waiting p - 1" using D(1) by (simp add: unat_minus_1)
  have b: "b \<Longrightarrow> d" using tm(6) [of Arriving] D(4) by (cases d; cases b) auto
  have left: "pool_tally leaving p = 0" if "jobs p \<noteq> [] \<or> \<not> pool_shutdown_flag p" using D(5,6) that by auto
  consider (sleep) "jobs p = []" "\<not> pool_shutdown_flag p" "\<not> b" | (idle) "jobs p = []" "\<not> pool_shutdown_flag p" "b"
    | (leave) "jobs p = []" "pool_shutdown_flag p" | (take) fn rest where "jobs p = fn # rest" by (cases "jobs p") auto
  then show ?thesis
  proof cases
    case sleep
    with D tm [of Asleep] left show ?thesis
      by (intro hp_invI) (simp_all add: worker_check_def counted_def)
  next
    case idle
    with D tm [of Finished] left b minus show ?thesis
      by (intro hp_invI) (simp_all add: worker_check_def counted_def)
  next
    case leave
    with D tm [of Left] minus show ?thesis
      by (intro hp_invI) (simp_all add: worker_check_def counted_def)
  next
    case take
    with D tm [of "Working fn"] left minus show ?thesis
      by (intro hp_invI) (simp_all add: worker_check_def counted_def)
  qed
qed

text \<open>Arriving is entering the wait and evaluating the predicate.\<close>

lemma worker_arrive_enter:
  "i < length (hthreads p) \<Longrightarrow> worker_arrive i p
    = worker_check i False (move i (Woken False) (p\<lparr>idle_thread_count := idle_thread_count p + 1\<rparr>))"
  by (simp add: worker_arrive_def worker_check_def move_def Let_def split: list.split)

lemma hp_inv_arrive:
  assumes inv: "hp_inv p" and i: "i < length (hthreads p)" and old: "hthreads p ! i = (d, Arriving)"
  shows "hp_inv (worker_arrive i p)"
proof -
  let ?q = "move i (Woken False) (p\<lparr>idle_thread_count := idle_thread_count p + 1\<rparr>)"
  note tm = tallies_move [OF i old, of "Woken False"] and D = hp_invD [OF inv]
  have "pool_tally waiting (move i (Woken False) p) \<le> pool_tally counted (move i (Woken False) p)" by (rule waiting_counted)
  then have "pool_tally waiting p + 1 \<le> unat (max_thread_count p)" using tm D(2) by (simp add: counted_def)
  then have plus: "unat (idle_thread_count p + 1) = pool_tally waiting p + 1"
    using D(1) unat_u64_less [of "max_thread_count p"] by (subst unat_plus_1) simp_all
  have "pool_tally misplaced ?q = 0" using tm(6) D(4) by (cases d) simp_all
  with D tm plus have "hp_inv ?q" by (intro hp_invI) (simp_all add: counted_def)
  moreover have "hthreads ?q ! i = (d, Woken False)" using i old by (simp add: move_def)
  ultimately show ?thesis unfolding worker_arrive_enter [OF i] by (intro hp_inv_check) (use i in simp_all)
qed

lemma hp_inv_finish:
  assumes inv: "hp_inv p" and i: "i < length (hthreads p)" and old: "hthreads p ! i = (d, Working fn)"
  shows "hp_inv (worker_done i fn p)"
proof -
  note tm = tallies_move [OF i old, of Arriving] and D = hp_invD [OF inv]
  have "pool_tally misplaced (move i Arriving p) = 0" using tm(6) D(4) by (cases d) simp_all
  with D tm show ?thesis by (intro hp_invI) (simp_all add: worker_done_def counted_def ac_simps)
qed

lemma hp_inv_woken:
  assumes inv: "hp_inv p" and i: "i < length (hthreads p)" and old: "hthreads p ! i = (d, Asleep)" and b: "b \<longrightarrow> d"
    and k: "k \<le> 1" "k \<le> one_due p"
  shows "hp_inv ((move i (Woken b) p)\<lparr>one_due := one_due p - k\<rparr>)"
proof -
  note tm = tallies_move [OF i old, of "Woken b"] and D = hp_invD [OF inv]
  have "pool_tally misplaced (move i (Woken b) p) = 0" using tm(6) D(4) b by (cases d; cases b) simp_all
  moreover have "length (jobs p) \<le> one_due p - k + pool_tally rousing (move i (Woken b) p)"
    using D(8) tm(2,3) k by simp
  ultimately show ?thesis using D tm by (intro hp_invI) (simp_all add: counted_def)
qed

lemma pool_tally_map: "(\<And>t. f (g t) = f t) \<Longrightarrow> sum_list (map f (map g ts)) = sum_list (map f ts)"
  by (induction ts) simp_all

lemma hp_inv_cleanup: "hp_inv p \<Longrightarrow> hp_inv (cleanup_finished_threads p)"
proof -
  assume inv: "hp_inv p"
  have same: "f (join_finished t) = f t" if "f \<in> {waiting, sleeping, rousing, leaving, misplaced, is_base, counted}"
    for f and t :: "bool \<times> 'a place"
    using that by (cases t rule: join_finished.cases) (auto simp: counted_def, (cases "fst t"; simp add: counted_def)+)
  have hold: "holding (join_finished t) = holding t" for t :: "bool \<times> 'a place" by (cases t rule: join_finished.cases) simp_all
  have "pool_tally f (cleanup_finished_threads p) = pool_tally f p" if "f \<in> {waiting, sleeping, rousing, leaving, misplaced, is_base, counted}" for f
    using pool_tally_map [of f join_finished "hthreads p"] same [OF that] by (simp add: pool_tally_def cleanup_finished_threads_def)
  moreover have "pool_tally holding (cleanup_finished_threads p) = pool_tally holding p"
    using pool_tally_map [of holding join_finished "hthreads p"] hold by (simp add: pool_tally_def cleanup_finished_threads_def)
  ultimately show ?thesis using inv unfolding hp_inv_def by (simp add: cleanup_finished_threads_def)
qed

lemma sleeping_none: "Asleep \<notin> snd ` set (hthreads p) \<Longrightarrow> pool_tally sleeping p = 0"
proof -
  assume none: "Asleep \<notin> snd ` set (hthreads p)"
  have "sleeping t = 0" if "t \<in> set (hthreads p)" for t
    using none that by (cases t rule: sleeping.cases) force+
  then show ?thesis by (simp add: pool_tally_def)
qed

lemma hp_inv_notify_all: "hp_inv p \<Longrightarrow> hp_inv (p\<lparr>hthreads := map wake_up (hthreads p), all_due := False\<rparr>)" (is "_ \<Longrightarrow> hp_inv ?q")
proof -
  assume inv: "hp_inv p"
  have same: "f (wake_up t) = f t" if "f \<in> {waiting, leaving, misplaced, is_base, counted}" for f and t :: "bool \<times> 'a place"
    using that by (cases t rule: wake_up.cases) (auto simp: counted_def)
  have others: "holding (wake_up t) = holding t" "sleeping (wake_up t) = 0" for t :: "bool \<times> 'a place"
    by (cases t rule: wake_up.cases; simp)+
  have "pool_tally f ?q = pool_tally f p" if "f \<in> {waiting, leaving, misplaced, is_base, counted}" for f
    using pool_tally_map [of f wake_up "hthreads p"] same [OF that] by (simp add: pool_tally_def)
  moreover have "pool_tally holding ?q = pool_tally holding p"
    using pool_tally_map [of holding wake_up "hthreads p"] others(1) by (simp add: pool_tally_def)
  moreover have "pool_tally sleeping ?q = 0" by (simp add: pool_tally_def others(2))
  ultimately show ?thesis using hp_invD [OF inv] by (intro hp_invI) simp_all
qed

text \<open>A job is added, and perhaps a thread.\<close>

lemma pool_enqueue_cases:
  assumes "pool_enqueue fn p = (True, p')"
  obtains (queued) "p' = p\<lparr>jobs := jobs p @ [fn], accepted_jobs := accepted_jobs p @ [fn], one_due := one_due p + 1\<rparr>"
      "\<not> pool_shutdown_flag p"
    | (started) q where "q = cleanup_finished_threads p" "\<not> pool_shutdown_flag p"
      "of_nat (pool_tally counted p) < max_thread_count p"
      "p' = q\<lparr>jobs := jobs q @ [fn], accepted_jobs := accepted_jobs q @ [fn], hthreads := hthreads q @ [(True, Arriving)],
         one_due := one_due q + 1\<rparr>"
proof (cases "idle_thread_count p = 0 \<and> of_nat (pool_tally counted p) < max_thread_count p")
  case True
  with assms show thesis
    by (intro started [OF refl]) (auto simp: pool_enqueue_def filter_listed Let_def cleanup_finished_threads_def split: if_splits)
next
  case False
  with assms show thesis
    by (intro queued) (auto simp: pool_enqueue_def filter_listed Let_def split: if_splits)
qed

lemma hp_inv_enqueue:
  assumes inv: "hp_inv p" and run: "pool_enqueue fn p = (True, p')"
  shows "hp_inv p'"
  using run
proof (cases rule: pool_enqueue_cases)
  case queued
  with hp_invD [OF inv] show ?thesis by (intro hp_invI) auto
next
  case (started q)
  have qinv: "hp_inv q" unfolding started(1) by (rule hp_inv_cleanup [OF inv])
  have "counted (join_finished t) = counted t" for t :: "bool \<times> 'a place"
    by (cases t rule: join_finished.cases) (simp_all add: counted_def)
  then have "pool_tally counted q = pool_tally counted p"
    unfolding pool_tally_def started(1) cleanup_finished_threads_def by (simp add: comp_def)
  moreover have "unat (of_nat (pool_tally counted p) :: u64) = pool_tally counted p"
    using hp_invD(2) [OF inv] unat_u64_less [of "max_thread_count p"] by (intro unat_of_nat_u64) simp
  ultimately have room: "pool_tally counted q + 1 \<le> unat (max_thread_count q)"
    using started(1,3) by (simp add: word_less_nat_alt cleanup_finished_threads_def)
  have tallies: "pool_tally f p' = pool_tally f q + f (True, Arriving)" for f :: "_ \<Rightarrow> nat"
    by (simp add: started(4) pool_tally_def)
  have "pool_tally holding p' = pool_tally holding q" by (simp add: started(4) pool_tally_def)
  moreover have "\<not> pool_shutdown_flag q" using started(1,2) by (simp add: cleanup_finished_threads_def)
  ultimately show ?thesis using hp_invD [OF qinv] room
    by (intro hp_invI) (simp_all add: tallies counted_def, simp_all add: started(4))
qed

lemma hp_inv_start:
  assumes "new_http_pool n max_n mqr = Ok p"
  shows "hp_inv p"
proof -
  from assms have p: "hthreads p = replicate (unat n) (False, Arriving)" "base_thread_count p = n" "unat n \<le> unat (max_thread_count p)"
    "idle_thread_count p = 0" "jobs p = []" "accepted_jobs p = []" "completed_jobs p = []" "\<not> pool_shutdown_flag p"
    by (auto simp: new_http_pool_def word_le_nat_alt not_less split: if_splits)
  moreover have "sum_list (replicate k ({#} :: 'a multiset)) = {#}" for k by (induction k) simp_all
  ultimately show ?thesis by (intro hp_invI) (simp_all add: pool_tally_def counted_def sum_list_replicate)
qed

lemma hp_inv_due_step: "due_worker_step p q \<Longrightarrow> hp_inv p \<Longrightarrow> hp_inv q"
proof (induction rule: due_worker_step.induct)
  case (arrive i p)
  then show ?case by (intro hp_inv_arrive [where d = "fst (hthreads p ! i)"]) (simp_all add: prod_eq_iff)
next
  case (resume i p b)
  then show ?case by (intro hp_inv_check [where d = "fst (hthreads p ! i)"]) (simp_all add: prod_eq_iff)
next
  case (notify_some p i)
  then show ?case
    by (intro hp_inv_woken [where d = "fst (hthreads p ! i)"]) (simp_all add: prod_eq_iff)
next
  case (notify_none p)
  with sleeping_none [of p] hp_invD [of p] show ?case by (intro hp_invI) simp_all
next
  case (notify_all p)
  show ?case by (rule hp_inv_notify_all [OF notify_all(2)])
next
  case (finish i p fn)
  then show ?case by (intro hp_inv_finish [where d = "fst (hthreads p ! i)"]) (simp_all add: prod_eq_iff)
qed

lemma hp_inv_worker_step: "worker_step p q \<Longrightarrow> hp_inv p \<Longrightarrow> hp_inv q"
proof (induction rule: worker_step.induct)
  case (due p q)
  then show ?case by (rule hp_inv_due_step)
next
  case (spurious i p)
  then show ?case
    by (intro hp_inv_move [where d = "fst (hthreads p ! i)" and b = False]) (simp_all add: prod_eq_iff)
next
  case (timeout i p)
  then show ?case by (intro hp_inv_move [where d = True and b = True]) simp_all
qed

lemma hp_inv_step: "http_pool_step p q \<Longrightarrow> hp_inv p \<Longrightarrow> hp_inv q"
proof (induction rule: http_pool_step.induct)
  case (enqueue fn p p')
  show ?case by (rule hp_inv_enqueue [OF enqueue(2,1)])
next
  case (stop p)
  with hp_invD [of p] show ?case by (intro hp_invI) (simp_all add: set_shutdown_def)
next
  case (work p p')
  show ?case by (rule hp_inv_worker_step [OF work])
qed

lemma reachable_hp_inv: "http_pool_reachable n max_n mqr p \<Longrightarrow> hp_inv p"
  by (induction rule: http_pool_reachable.induct) (auto intro: hp_inv_start hp_inv_step)

text \<open>What a run never changes.\<close>

lemma worker_check_sel [simp]:
  "base_thread_count (worker_check i b p) = base_thread_count p" "max_thread_count (worker_check i b p) = max_thread_count p"
  "max_queued_requests (worker_check i b p) = max_queued_requests p"
  "pool_shutdown_flag (worker_check i b p) = pool_shutdown_flag p" "one_due (worker_check i b p) = one_due p"
  "all_due (worker_check i b p) = all_due p" "accepted_jobs (worker_check i b p) = accepted_jobs p"
  "jobs (worker_check i b p) = tl (jobs p)"
  by (simp_all add: worker_check_def Let_def split: list.split)

lemma worker_step_keeps:
  "worker_step p q \<Longrightarrow> base_thread_count q = base_thread_count p \<and> max_thread_count q = max_thread_count p
     \<and> max_queued_requests q = max_queued_requests p \<and> pool_shutdown_flag q = pool_shutdown_flag p
     \<and> accepted_jobs q = accepted_jobs p \<and> length (jobs q) \<le> length (jobs p)"
  by (induction rule: worker_step.induct, erule due_worker_step.cases) (simp_all add: worker_arrive_def worker_done_def)

lemma pool_enqueue_keeps:
  assumes "pool_enqueue fn p = (True, q)"
  shows "base_thread_count q = base_thread_count p \<and> max_thread_count q = max_thread_count p
     \<and> max_queued_requests q = max_queued_requests p"
  using assms by (cases rule: pool_enqueue_cases) (simp_all add: cleanup_finished_threads_def)

definition queue_bounded :: "'j http_pool \<Rightarrow> bool" where
  "queue_bounded p \<longleftrightarrow> (0 < max_queued_requests p \<longrightarrow> length (jobs p) \<le> unat (max_queued_requests p))"

lemma queue_bounded_enqueue:
  assumes "pool_enqueue fn p = (True, q)" and "queue_bounded p"
  shows "queue_bounded q"
proof (cases "0 < max_queued_requests p")
  case True
  then have le: "length (jobs p) \<le> unat (max_queued_requests p)" using assms(2) by (simp add: queue_bounded_def)
  then have "unat (of_nat (length (jobs p)) :: u64) = length (jobs p)"
    using unat_u64_less [of "max_queued_requests p"] by (intro unat_of_nat_u64) simp
  moreover have "\<not> max_queued_requests p \<le> of_nat (length (jobs p))"
    using assms(1) True by (auto simp: pool_enqueue_def split: if_splits)
  ultimately have "length (jobs p) < unat (max_queued_requests p)" by (simp add: word_le_nat_alt)
  moreover have "length (jobs q) = Suc (length (jobs p))"
    using assms(1) by (cases rule: pool_enqueue_cases) (simp_all add: cleanup_finished_threads_def)
  ultimately show ?thesis using pool_enqueue_keeps [OF assms(1)] by (simp add: queue_bounded_def)
next
  case False
  then show ?thesis using pool_enqueue_keeps [OF assms(1)] by (simp add: queue_bounded_def)
qed

lemma reachable_settings:
  "http_pool_reachable n max_n mqr p \<Longrightarrow> base_thread_count p = n \<and> max_thread_count p = (if max_n = 0 then n else max_n)
     \<and> max_queued_requests p = mqr \<and> queue_bounded p"
proof (induction rule: http_pool_reachable.induct)
  case (start p)
  then show ?case by (auto simp: new_http_pool_def queue_bounded_def split: if_splits)
next
  case (step p q)
  from step(2,3) show ?case
  proof (cases rule: http_pool_step.cases)
    case (enqueue fn)
    with step(3) show ?thesis using pool_enqueue_keeps queue_bounded_enqueue by metis
  next
    case stop
    with step(3) show ?thesis by (auto simp: set_shutdown_def queue_bounded_def)
  next
    case work
    then show ?thesis using step(3) worker_step_keeps [OF work] by (auto simp: queue_bounded_def)
  qed
qed

section \<open>Shutdown\<close>

fun place_weight :: "bool \<times> 'j place \<Rightarrow> nat" where
  "place_weight (d, Working fn) = 2"
| "place_weight (d, Asleep) = 2"
| "place_weight (d, Arriving) = 1"
| "place_weight (d, Woken b) = 1"
| "place_weight (d, pl) = 0"

definition shutdown_measure :: "'j http_pool \<Rightarrow> nat" where
  "shutdown_measure p = 2 * length (jobs p) + pool_tally place_weight p + one_due p + (if all_due p then 1 else 0)"

lemma weight_move:
  assumes "i < length (hthreads p)" and "snd (hthreads p ! i) = old"
  shows "pool_tally place_weight (move i pl p) + place_weight (d, old) = pool_tally place_weight p + place_weight (d, pl)"
proof -
  have "place_weight (d, pl) = place_weight (d', pl)" for d d' and pl :: "'a place" by (cases pl) simp_all
  then show ?thesis using pool_tally_move [OF assms(1), of "fst (hthreads p ! i)" old place_weight pl] assms(2)
    by (metis prod.collapse)
qed

lemma measure_check:
  assumes i: "i < length (hthreads p)" and old: "snd (hthreads p ! i) \<in> {Arriving, Woken b}" and flag: "pool_shutdown_flag p"
  shows "shutdown_measure (worker_check i c p) < shutdown_measure p"
proof -
  have one: "place_weight (d, snd (hthreads p ! i)) = 1" for d using old by auto
  show ?thesis
    using weight_move [OF i refl, of Left] one flag weight_move [OF i refl, of "Working (hd (jobs p))"]
    by (cases "jobs p") (simp_all add: shutdown_measure_def worker_check_def)
qed

lemma weight_wake_up: "sum_list (map place_weight (map wake_up ts)) \<le> sum_list (map place_weight ts)"
proof (induction ts)
  case (Cons t ts)
  have "place_weight (wake_up t) \<le> place_weight t" by (cases t rule: wake_up.cases) simp_all
  with Cons show ?case by simp
qed simp

lemma shutdown_due_step: "due_worker_step p q \<Longrightarrow> pool_shutdown_flag p \<Longrightarrow> shutdown_measure q < shutdown_measure p"
proof (induction rule: due_worker_step.induct)
  case (arrive i p)
  have "shutdown_measure (worker_arrive i p) < shutdown_measure (p\<lparr>idle_thread_count := idle_thread_count p + 1\<rparr>)"
    unfolding worker_arrive_def by (rule measure_check) (use arrive in simp_all)
  then show ?case by (simp add: shutdown_measure_def)
next
  case (resume i p b)
  then show ?case by (intro measure_check) simp_all
next
  case (notify_some p i)
  then show ?case using weight_move [of i p Asleep "Woken False"] by (simp add: shutdown_measure_def)
next
  case (notify_all p)
  then show ?case using weight_wake_up [of "hthreads p"] by (simp add: shutdown_measure_def pool_tally_def)
next
  case (finish i p fn)
  then show ?case using weight_move [of i p "Working fn" Arriving]
    by (simp add: shutdown_measure_def worker_done_def)
qed (simp add: shutdown_measure_def)

lemma shutdown_step: "worker_step p q \<Longrightarrow> pool_shutdown_flag p \<Longrightarrow> shutdown_measure q < shutdown_measure p"
proof (induction rule: worker_step.induct)
  case (due p q)
  then show ?case by (rule shutdown_due_step)
next
  case (spurious i p)
  then show ?case using weight_move [of i p Asleep "Woken False"] by (simp add: shutdown_measure_def)
next
  case (timeout i p)
  then show ?case using weight_move [of i p Asleep "Woken True"] by (simp add: shutdown_measure_def)
qed

lemma shutdown_steps:
  "(worker_step ^^ k) p q \<Longrightarrow> pool_shutdown_flag p \<Longrightarrow> pool_shutdown_flag q \<and> accepted_jobs q = accepted_jobs p
     \<and> shutdown_measure q + k \<le> shutdown_measure p"
proof (induction k arbitrary: q)
  case (Suc k)
  then obtain r where r: "(worker_step ^^ k) p r" "worker_step r q" by auto
  with Suc shutdown_step [OF r(2)] worker_step_keeps [OF r(2)] show ?case by fastforce
qed simp

lemma worker_steps_reachable:
  "(worker_step ^^ k) p q \<Longrightarrow> http_pool_reachable n max_n mqr p \<Longrightarrow> http_pool_reachable n max_n mqr q"
  by (induction k arbitrary: q) (auto intro: http_pool_reachable.step http_pool_step.work)

lemma asleep_tally: "i < length (hthreads q) \<Longrightarrow> snd (hthreads q ! i) = Asleep \<Longrightarrow> 0 < pool_tally sleeping q"
  using sum_list_move [of i "hthreads q" sleeping "(True, Joined)"]
  by (cases "hthreads q ! i") (simp add: pool_tally_def)

text \<open>Where no step is due no thread is in its loop, as those asleep have a notification due.\<close>

lemma stuck_out_of_loop:
  assumes "\<And>r. \<not> due_worker_step q r" and "hp_inv q" and "pool_shutdown_flag q" and "i < length (hthreads q)"
  shows "out_of_loop (hthreads q ! i)"
proof (cases "snd (hthreads q ! i)")
  case Arriving with assms show ?thesis by (blast intro: due_worker_step.arrive)
next
  case Asleep
  then have "all_due q" using hp_invD(9) [OF assms(2,3)] asleep_tally [OF assms(4)] by simp
  with assms(1) show ?thesis by (blast intro: due_worker_step.notify_all)
next
  case Woken with assms show ?thesis by (blast intro: due_worker_step.resume)
next
  case Working with assms show ?thesis by (blast intro: due_worker_step.finish)
qed (cases "hthreads q ! i"; simp)+

lemma stuck_returns:
  assumes "\<And>r. \<not> due_worker_step q r" and "hp_inv q" and "pool_shutdown_flag q"
  shows "shutdown_returns q"
  using assms(3) stuck_out_of_loop [OF assms] assms(1) due_worker_step.notify_all [of q]
  by (auto simp: shutdown_returns_def list_all_length)

lemma pool_tally_zero: "(\<And>t. t \<in> set (hthreads p) \<Longrightarrow> f t = 0) \<Longrightarrow> pool_tally f p = 0"
proof -
  have "(\<And>t. t \<in> set ts \<Longrightarrow> f t = 0) \<Longrightarrow> sum_list (map f ts) = 0" for ts by (induction ts) simp_all
  then show "(\<And>t. t \<in> set (hthreads p) \<Longrightarrow> f t = 0) \<Longrightarrow> ?thesis" by (simp add: pool_tally_def)
qed

text \<open>Where all threads are out of their loops, a base thread is, which left it for the shutdown with the queue
  empty.\<close>

lemma out_of_loop_complete:
  assumes inv: "hp_inv q" and out: "list_all out_of_loop (hthreads q)" and base: "base_thread_count q \<noteq> 0"
  shows "jobs q = [] \<and> mset (completed_jobs q) = mset (accepted_jobs q)"
proof -
  have sums: "pool_tally f q = 0 \<longleftrightarrow> (\<forall>t \<in> set (hthreads q). f t = 0)" for f :: "_ \<Rightarrow> nat" by (auto simp: pool_tally_def)
  have "pool_tally is_base q \<noteq> 0" using hp_invD(3) [OF inv] base by (simp add: unat_eq_0)
  then obtain pl where base: "(False, pl) \<in> set (hthreads q)" unfolding sums by (auto split: if_splits)
  with out have "out_of_loop (False, pl)" by (auto simp: list_all_iff)
  moreover have "misplaced (False, pl) = 0" using hp_invD(4) [OF inv] base unfolding sums by blast
  ultimately have "pl = Left" by (cases pl) simp_all
  with base have "pool_tally leaving q \<noteq> 0" unfolding sums by force
  then have "jobs q = []" using hp_invD(6) [OF inv] by simp
  moreover have "holding t = {#}" if "t \<in> set (hthreads q)" for t
    using out that by (cases t rule: out_of_loop.cases) (auto simp: list_all_iff)
  then have "pool_tally holding q = {#}" by (intro pool_tally_zero)
  ultimately show ?thesis using hp_invD(7) [OF inv] by simp
qed

section \<open>A small pool\<close>

text \<open>One base thread, at most two, two jobs: where the statements below are evaluated.\<close>

definition demo_http_pool :: "nat \<Rightarrow> nat http_pool" where
  "demo_http_pool one = \<lparr>base_thread_count = 1, max_thread_count = 2, max_queued_requests = 0, idle_thread_count = 1,
     pool_shutdown_flag = False, jobs = [5, 7], hthreads = [(False, if one = 1 then Woken False else Asleep)],
     one_due = one, all_due = False, accepted_jobs = [5, 7], completed_jobs = []\<rparr>"

lemma demo_http_pool_reachable: "http_pool_reachable 1 2 0 (demo_http_pool 2)"
proof -
  let ?start = "\<lparr>base_thread_count = 1, max_thread_count = 2, max_queued_requests = 0, idle_thread_count = 0,
     pool_shutdown_flag = False, jobs = [], hthreads = [(False, Arriving)], one_due = 0, all_due = False,
     accepted_jobs = [], completed_jobs = []\<rparr> :: nat http_pool"
  have "http_pool_reachable 1 2 0 ?start"
    by (rule http_pool_reachable.start) (simp add: new_http_pool_def)
  moreover have "http_pool_step ?start (worker_arrive 0 ?start)"
    by (intro http_pool_step.work worker_step.due due_worker_step.arrive) simp_all
  moreover have "http_pool_step (worker_arrive 0 ?start) (snd (pool_enqueue 5 (worker_arrive 0 ?start)))"
    by (rule http_pool_step.enqueue [where fn = 5])
      (simp add: worker_arrive_def worker_check_def pool_enqueue_def move_def)
  moreover have "http_pool_step (snd (pool_enqueue 5 (worker_arrive 0 ?start))) (demo_http_pool 2)"
    by (rule http_pool_step.enqueue [where fn = 7])
      (simp add: worker_arrive_def worker_check_def pool_enqueue_def move_def demo_http_pool_def)
  ultimately show ?thesis by (blast intro: http_pool_reachable.step)
qed

lemma demo_http_pool_stopped: "http_pool_reachable 1 2 0 (set_shutdown (demo_http_pool 2))"
  by (rule http_pool_reachable.step [OF demo_http_pool_reachable http_pool_step.stop])

section \<open>Properties\<close>

text \<open>C16: in every reachable state of the server's thread pool \<^verbatim>\<open>idle_thread_count_\<close> is the number of threads in the
  wait, the lists hold no more threads than the maximum and the queue no more jobs than its limit, every accepted
  job is complete, running or waiting, exactly once, and while a thread sleeps every waiting job has a thread on
  its way to the queue or a notification that will wake one.\<close>

theorem http_pool_accounting:
  assumes "http_pool_reachable n max_n mqr p"
  shows "unat (idle_thread_count p) = pool_tally waiting p
    \<and> length (filter listed (hthreads p)) \<le> unat (if max_n = 0 then n else max_n)
    \<and> (0 < mqr \<longrightarrow> length (jobs p) \<le> unat mqr)
    \<and> mset (accepted_jobs p) = mset (completed_jobs p) + pool_tally holding p + mset (jobs p)
    \<and> (0 < pool_tally sleeping p \<longrightarrow> length (jobs p) \<le> one_due p + pool_tally rousing p)"
  using hp_invD [OF reachable_hp_inv [OF assms]] reachable_settings [OF assms]
  by (auto simp: filter_listed queue_bounded_def)

theorem http_pool_accounting_witness:
  "pool_tally sleeping (demo_http_pool 2) = 1 \<and> length (jobs (demo_http_pool 2)) \<le> one_due (demo_http_pool 2)"
  using http_pool_accounting [OF demo_http_pool_reachable] by (simp add: demo_http_pool_def pool_tally_def)

text \<open>C15: shutting the pool down terminates and loses no connection: once \<^verbatim>\<open>shutdown\<close> has set its flag, the threads
  can take at most \<open>shutdown_measure\<close> further steps in whatever order, and when none is due any more, every join
  returns and, the pool having base threads, every job accepted is complete. No thread is left asleep to be woken by
  chance: a step is due as long as one sleeps.\<close>

theorem http_pool_shutdown:
  assumes "http_pool_reachable n max_n mqr p" and "pool_shutdown_flag p" and "(worker_step ^^ k) p q"
  shows "k \<le> shutdown_measure p
    \<and> ((\<forall>r. \<not> due_worker_step q r) \<longrightarrow> shutdown_returns q
        \<and> (n \<noteq> 0 \<longrightarrow> jobs q = [] \<and> mset (completed_jobs q) = mset (accepted_jobs p)))"
proof -
  have q: "pool_shutdown_flag q" "accepted_jobs q = accepted_jobs p" "k \<le> shutdown_measure p"
    using shutdown_steps [OF assms(3,2)] by auto
  have reach: "http_pool_reachable n max_n mqr q" by (rule worker_steps_reachable [OF assms(3,1)])
  have returns: "shutdown_returns q" if "\<forall>r. \<not> due_worker_step q r"
    using stuck_returns reachable_hp_inv [OF reach] that q(1) by blast
  then have "jobs q = [] \<and> mset (completed_jobs q) = mset (accepted_jobs q)" if "\<forall>r. \<not> due_worker_step q r" "n \<noteq> 0"
    using out_of_loop_complete [OF reachable_hp_inv [OF reach]] reachable_settings [OF reach] that
    by (simp add: shutdown_returns_def)
  with q returns show ?thesis by simp
qed

theorem http_pool_shutdown_witness:
  "pool_shutdown_flag (set_shutdown (demo_http_pool 2)) \<and> 1 \<le> shutdown_measure (set_shutdown (demo_http_pool 2))"
proof -
  have flag: "pool_shutdown_flag (set_shutdown (demo_http_pool 2))" by (simp add: set_shutdown_def)
  have "(worker_step ^^ 1) (set_shutdown (demo_http_pool 2)) (move 0 (Woken False) (set_shutdown (demo_http_pool 2)))"
    unfolding relpowp_1 by (rule worker_step.spurious) (simp_all add: set_shutdown_def demo_http_pool_def)
  from http_pool_shutdown [OF demo_http_pool_stopped flag this] flag show ?thesis by simp
qed

text \<open>Although the pool may grow, it can keep a job waiting behind a running one: \<^verbatim>\<open>idle_thread_count_\<close> still counts a
  thread that is notified and has not run yet, so that a second job that comes in then starts no thread, and no
  later step of the pool looks again.\<close>

theorem burst_starts_no_thread:
  "\<exists>p :: nat http_pool. http_pool_reachable 1 2 0 p \<and> jobs p = [7] \<and> hthreads p = [(False, Working 5)]
     \<and> max_thread_count p = 2 \<and> one_due p = 0 \<and> \<not> all_due p \<and> (\<forall>q. worker_step p q \<longrightarrow> q = worker_done 0 5 p)"
proof -
  let ?none = "(demo_http_pool 1)\<lparr>one_due := one_due (demo_http_pool 1) - 1\<rparr>"
  let ?p = "worker_check 0 False ?none"
  have "worker_step (demo_http_pool 2) ((move 0 (Woken False) (demo_http_pool 2))\<lparr>one_due := one_due (demo_http_pool 2) - 1\<rparr>)"
    by (rule worker_step.due [OF due_worker_step.notify_some]) (simp_all add: demo_http_pool_def)
  then have "worker_step (demo_http_pool 2) (demo_http_pool 1)" by (simp add: demo_http_pool_def move_def)
  moreover have "worker_step (demo_http_pool 1) ?none"
    by (rule worker_step.due [OF due_worker_step.notify_none]) (simp_all add: demo_http_pool_def)
  moreover have "worker_step ?none ?p" by (rule worker_step.due [OF due_worker_step.resume]) (simp_all add: demo_http_pool_def)
  ultimately have "http_pool_reachable 1 2 0 ?p"
    using demo_http_pool_reachable by (blast intro: http_pool_reachable.step http_pool_step.work)
  moreover have p: "jobs ?p = [7]" "hthreads ?p = [(False, Working 5)]" "max_thread_count ?p = 2" "one_due ?p = 0" "\<not> all_due ?p"
    by (simp_all add: worker_check_def demo_http_pool_def move_def)
  moreover have "q = worker_done 0 5 ?p" if "worker_step ?p q" for q
    using that by cases (use p in \<open>auto elim!: due_worker_step.cases\<close>)
  ultimately show ?thesis by blast
qed

end
