(* ===== verification/HttpListen.thy ===== *)
theory HttpListen
  imports HttpPool
begin

text \<open>
  The listening thread of the HTTP interface: \<^verbatim>\<open>HttpApi::Start\<close> and \<^verbatim>\<open>Stop\<close>
  (\<^verbatim>\<open>NetServer/src/HttpApi.cpp\<close>), \<^verbatim>\<open>listen\<close>, \<^verbatim>\<open>bind_to_port\<close>, \<^verbatim>\<open>listen_internal\<close> and \<^verbatim>\<open>stop\<close> of
  the server (\<^verbatim>\<open>external/httplib.h\<close>), with the threads of its pool (\<open>HttpPool\<close>). Every access to the atomic
  members is a step of its own; what the operating system answers (a socket or none, a connection, an error) is
  any of its answers. What is done with a connection is \<open>HttpServer.process_server_socket\<close>; here it is a job.
\<close>

section \<open>State\<close>

text \<open>Where the listening thread is: before its start; in \<^verbatim>\<open>bind_internal\<close> before the socket is made and after; in
  \<^verbatim>\<open>listen_internal\<close> before its first test; at the head of the loop; in the wait for a connection; before \<^verbatim>\<open>accept\<close>
  and in it, with the descriptor it read; after its error, before and after the test of the descriptor; with a
  connection to hand on; in the \<^verbatim>\<open>shutdown\<close> of the pool; gone, with the result or an exception.\<close>

datatype phase = Unstarted | Binding | Bound | Prepared | Head | Selecting | Calling | Accepting "nat option"
  | Errored | Failing | Queueing nat | Joining bool | Returned bool | Raised

record listener =
  svr_sock :: "nat option"
  is_running :: bool
  is_decommissioned :: bool
  idle_interval :: bool
  lphase :: phase
  task_queue :: "nat http_pool option"
  stopping :: "nat option list"
  accepted :: "nat list"
  refused :: "nat list"
  closed_listening :: "nat list"

definition new_listener :: "bool \<Rightarrow> listener" where
  "new_listener idle = \<lparr>svr_sock = None, is_running = False, is_decommissioned = False, idle_interval = idle,
     lphase = Unstarted, task_queue = None, stopping = [], accepted = [], refused = [], closed_listening = []\<rparr>"

section \<open>The listening thread\<close>

definition http_start :: "listener \<Rightarrow> listener" where
  "http_start l = l\<lparr>lphase := Binding\<rparr>"

text \<open>First the socket \<^verbatim>\<open>create_server_socket\<close> answered; then its test and, for port 0, what \<^verbatim>\<open>getsockname\<close>
  answered: whether there is an address of a known family. When there is nothing to listen on, \<^verbatim>\<open>bind_to_port\<close> says so and
  \<^verbatim>\<open>listen\<close> returns.\<close>

definition bind_internal :: "nat option \<Rightarrow> listener \<Rightarrow> listener" where
  "bind_internal sock l =
     (if is_decommissioned l then l\<lparr>is_decommissioned := True, lphase := Returned False\<rparr>
      else l\<lparr>svr_sock := sock, lphase := Bound\<rparr>)"

definition bind_check :: "16 word \<Rightarrow> bool \<Rightarrow> listener \<Rightarrow> listener" where
  "bind_check port named l =
     (if svr_sock l = None \<or> port = 0 \<and> \<not> named
      then l\<lparr>is_decommissioned := True, lphase := Returned False\<rparr>
      else l\<lparr>lphase := Prepared\<rparr>)"

definition listen_begin :: "u64 \<Rightarrow> u64 \<Rightarrow> u64 \<Rightarrow> listener \<Rightarrow> listener" where
  "listen_begin n max_n mqr l =
     (if is_decommissioned l \<or> svr_sock l = None
      then l\<lparr>is_decommissioned := True, lphase := Returned False\<rparr>
      else case new_http_pool n max_n mqr of
        Ok p \<Rightarrow> l\<lparr>is_running := True, task_queue := Some p, lphase := Head\<rparr>
      | _ \<Rightarrow> l\<lparr>lphase := Raised\<rparr>)"

text \<open>Leaving the loop is calling \<^verbatim>\<open>shutdown\<close> on the pool.\<close>

definition leave_loop :: "bool \<Rightarrow> listener \<Rightarrow> listener" where
  "leave_loop ret l = l\<lparr>task_queue := map_option set_shutdown (task_queue l), lphase := Joining ret\<rparr>"

definition loop_head :: "listener \<Rightarrow> listener" where
  "loop_head l =
     (if svr_sock l = None then leave_loop True l
      else l\<lparr>lphase := (if idle_interval l then Selecting else Calling)\<rparr>)"

definition after_error :: "listener \<Rightarrow> listener" where
  "after_error l = (if svr_sock l \<noteq> None then l\<lparr>lphase := Failing\<rparr> else leave_loop True l)"

definition close_failed :: "listener \<Rightarrow> listener" where
  "close_failed l =
     leave_loop False (case svr_sock l of Some fd \<Rightarrow> l\<lparr>closed_listening := closed_listening l @ [fd]\<rparr> | None \<Rightarrow> l)"

definition hand_on :: "nat \<Rightarrow> listener \<Rightarrow> listener" where
  "hand_on sock l =
     (case task_queue l of
        None \<Rightarrow> l
      | Some p \<Rightarrow> (case pool_enqueue sock p of (ok, p) \<Rightarrow>
          l\<lparr>task_queue := Some p, lphase := Head, refused := (if ok then refused l else refused l @ [sock])\<rparr>))"

definition listen_end :: "bool \<Rightarrow> listener \<Rightarrow> listener" where
  "listen_end ret l = l\<lparr>is_decommissioned := \<not> ret, is_running := False, lphase := Returned ret\<rparr>"

text \<open>An error of \<^verbatim>\<open>accept\<close> is passing (\<^verbatim>\<open>EMFILE\<close>, \<^verbatim>\<open>EINTR\<close>, \<^verbatim>\<open>EAGAIN\<close>) or final.\<close>

inductive loop_step :: "listener \<Rightarrow> listener \<Rightarrow> bool" where
  head: "lphase l = Head \<Longrightarrow> loop_step l (loop_head l)"
| idle: "lphase l = Selecting \<Longrightarrow> loop_step l (l\<lparr>lphase := Head\<rparr>)"
| ready: "lphase l = Selecting \<Longrightarrow> loop_step l (l\<lparr>lphase := Calling\<rparr>)"
| call: "lphase l = Calling \<Longrightarrow> loop_step l (l\<lparr>lphase := Accepting (svr_sock l)\<rparr>)"
| connection: "lphase l = Accepting (Some fd) \<Longrightarrow> loop_step l (l\<lparr>lphase := Queueing sock, accepted := accepted l @ [sock]\<rparr>)"
| passing: "lphase l = Accepting f \<Longrightarrow> loop_step l (l\<lparr>lphase := Head\<rparr>)"
| final: "lphase l = Accepting f \<Longrightarrow> loop_step l (l\<lparr>lphase := Errored\<rparr>)"
| error: "lphase l = Errored \<Longrightarrow> loop_step l (after_error l)"
| failed: "lphase l = Failing \<Longrightarrow> loop_step l (close_failed l)"
| queue: "lphase l = Queueing sock \<Longrightarrow> loop_step l (hand_on sock l)"

inductive listen_step :: "16 word \<Rightarrow> u64 \<Rightarrow> u64 \<Rightarrow> u64 \<Rightarrow> listener \<Rightarrow> listener \<Rightarrow> bool" for port n max_n mqr where
  run: "lphase l = Unstarted \<Longrightarrow> listen_step port n max_n mqr l (http_start l)"
| bind: "lphase l = Binding \<Longrightarrow> listen_step port n max_n mqr l (bind_internal sock l)"
| bound: "lphase l = Bound \<Longrightarrow> listen_step port n max_n mqr l (bind_check port named l)"
| listen: "lphase l = Prepared \<Longrightarrow> listen_step port n max_n mqr l (listen_begin n max_n mqr l)"
| loop: "loop_step l l' \<Longrightarrow> listen_step port n max_n mqr l l'"
| joined: "lphase l = Joining ret \<Longrightarrow> task_queue l = Some p \<Longrightarrow> shutdown_returns p \<Longrightarrow> listen_step port n max_n mqr l (listen_end ret l)"

section \<open>The other threads\<close>

text \<open>\<^verbatim>\<open>stop\<close>: the exchange, then closing what it took.\<close>

definition http_stop :: "listener \<Rightarrow> listener" where
  "http_stop l = l\<lparr>svr_sock := None, stopping := svr_sock l # stopping l\<rparr>"

definition stop_close :: "nat \<Rightarrow> listener \<Rightarrow> listener" where
  "stop_close i l =
     l\<lparr>closed_listening := (case stopping l ! i of Some fd \<Rightarrow> closed_listening l @ [fd] | None \<Rightarrow> closed_listening l),
       stopping := take i (stopping l) @ drop (Suc i) (stopping l), is_decommissioned := False\<rparr>"

inductive other_step :: "listener \<Rightarrow> listener \<Rightarrow> bool" where
  stop: "other_step l (http_stop l)"
| close: "i < length (stopping l) \<Longrightarrow> other_step l (stop_close i l)"
| worker: "task_queue l = Some p \<Longrightarrow> worker_step p q \<Longrightarrow> other_step l (l\<lparr>task_queue := Some q\<rparr>)"

inductive listener_reachable :: "bool \<Rightarrow> 16 word \<Rightarrow> u64 \<Rightarrow> u64 \<Rightarrow> u64 \<Rightarrow> listener \<Rightarrow> bool" for idle port n max_n mqr where
  init: "listener_reachable idle port n max_n mqr (new_listener idle)"
| own: "listener_reachable idle port n max_n mqr l \<Longrightarrow> listen_step port n max_n mqr l l' \<Longrightarrow> listener_reachable idle port n max_n mqr l'"
| other: "listener_reachable idle port n max_n mqr l \<Longrightarrow> other_step l l' \<Longrightarrow> listener_reachable idle port n max_n mqr l'"

section \<open>The invariant\<close>

fun in_loop :: "phase \<Rightarrow> bool" where
  "in_loop Head = True"
| "in_loop Selecting = True"
| "in_loop Calling = True"
| "in_loop (Accepting f) = True"
| "in_loop Errored = True"
| "in_loop Failing = True"
| "in_loop (Queueing sock) = True"
| "in_loop ph = False"

fun conn_in_hand :: "phase \<Rightarrow> nat list" where
  "conn_in_hand (Queueing sock) = [sock]"
| "conn_in_hand ph = []"

text \<open>The pool is in a reachable state of its own; it is shut down exactly after the loop; and every connection
  accepted was refused, is in hand, or was taken by the pool.\<close>

definition listener_inv :: "u64 \<Rightarrow> u64 \<Rightarrow> u64 \<Rightarrow> listener \<Rightarrow> bool" where
  "listener_inv n max_n mqr l \<longleftrightarrow>
     (case task_queue l of
        None \<Rightarrow> lphase l \<in> {Unstarted, Binding, Bound, Prepared, Returned False, Raised} \<and> accepted l = [] \<and> refused l = []
          \<and> \<not> is_running l
      | Some p \<Rightarrow> http_pool_reachable n max_n mqr p
          \<and> (if in_loop (lphase l) then \<not> pool_shutdown_flag p \<and> is_running l
             else pool_shutdown_flag p \<and> (\<exists>ret. lphase l = Joining ret \<and> is_running l \<or> lphase l = Returned ret \<and> \<not> is_running l))
          \<and> (\<forall>ret. lphase l = Returned ret \<longrightarrow> shutdown_returns p)
          \<and> mset (accepted l) = mset (refused l) + mset (conn_in_hand (lphase l)) + mset (accepted_jobs p)
          \<and> (refused l \<noteq> [] \<longrightarrow> 0 < mqr))"

lemma inv_unstarted: "task_queue l = None \<Longrightarrow> lphase l \<in> {Unstarted, Binding, Bound, Prepared, Returned False, Raised}
    \<Longrightarrow> accepted l = [] \<Longrightarrow> refused l = [] \<Longrightarrow> \<not> is_running l \<Longrightarrow> listener_inv n max_n mqr l"
  by (simp add: listener_inv_def)

lemma inv_queue:
  assumes "listener_inv n max_n mqr l" and "in_loop (lphase l)"
  obtains p where "task_queue l = Some p" "http_pool_reachable n max_n mqr p" "\<not> pool_shutdown_flag p" "is_running l"
    "mset (accepted l) = mset (refused l) + mset (conn_in_hand (lphase l)) + mset (accepted_jobs p)" "refused l \<noteq> [] \<longrightarrow> 0 < mqr"
  using assms by (cases "task_queue l") (auto simp: listener_inv_def)

text \<open>Steps from one place of the loop to another.\<close>

lemma inv_phase:
  assumes "listener_inv n max_n mqr l" and "in_loop (lphase l)" and "in_loop ph"
    and "mset (accepted l) + mset xs = mset (refused l) + mset (conn_in_hand ph) + (mset (accepted l) - mset (refused l) - mset (conn_in_hand (lphase l)))"
  shows "listener_inv n max_n mqr (l\<lparr>lphase := ph, accepted := accepted l @ xs\<rparr>)"
proof -
  from assms(1,2) obtain p where p: "task_queue l = Some p" "http_pool_reachable n max_n mqr p" "\<not> pool_shutdown_flag p" "is_running l"
    "mset (accepted l) = mset (refused l) + mset (conn_in_hand (lphase l)) + mset (accepted_jobs p)" "refused l \<noteq> [] \<longrightarrow> 0 < mqr"
    by (rule inv_queue)
  with assms(3,4) show ?thesis by (auto simp: listener_inv_def)
qed

lemma inv_leave:
  assumes "listener_inv n max_n mqr l" and "in_loop (lphase l)" and "conn_in_hand (lphase l) = []"
  shows "listener_inv n max_n mqr (leave_loop ret l)"
proof -
  from assms(1,2) obtain p where p: "task_queue l = Some p" "http_pool_reachable n max_n mqr p" "\<not> pool_shutdown_flag p" "is_running l"
    "mset (accepted l) = mset (refused l) + mset (conn_in_hand (lphase l)) + mset (accepted_jobs p)" "refused l \<noteq> [] \<longrightarrow> 0 < mqr"
    by (rule inv_queue)
  then have "http_pool_reachable n max_n mqr (set_shutdown p)"
    by (blast intro: http_pool_reachable.step http_pool_step.stop)
  with p assms(3) show ?thesis by (simp add: listener_inv_def leave_loop_def set_shutdown_def)
qed

lemma enqueue_result:
  "\<not> pool_shutdown_flag p \<Longrightarrow> pool_enqueue fn p = (ok, q) \<Longrightarrow>
     (if ok then accepted_jobs q = accepted_jobs p @ [fn] else q = p \<and> 0 < max_queued_requests p)
     \<and> pool_shutdown_flag q = pool_shutdown_flag p"
  by (auto simp: pool_enqueue_def Let_def cleanup_finished_threads_def split: if_splits)

lemma inv_hand_on:
  assumes "listener_inv n max_n mqr l" and "lphase l = Queueing sock"
  shows "listener_inv n max_n mqr (hand_on sock l)"
proof -
  have "in_loop (lphase l)" using assms(2) by simp
  with assms(1) obtain p where p: "task_queue l = Some p" "http_pool_reachable n max_n mqr p" "\<not> pool_shutdown_flag p" "is_running l"
    "mset (accepted l) = mset (refused l) + mset (conn_in_hand (lphase l)) + mset (accepted_jobs p)" "refused l \<noteq> [] \<longrightarrow> 0 < mqr"
    by (rule inv_queue)
  obtain ok q where q: "pool_enqueue sock p = (ok, q)" by fastforce
  from enqueue_result [OF p(3) q] reachable_settings [OF p(2)]
  have r: "if ok then accepted_jobs q = accepted_jobs p @ [sock] else q = p \<and> 0 < mqr" "\<not> pool_shutdown_flag q" using p(3) by auto
  have "http_pool_reachable n max_n mqr q"
    using p(2) q r(1) by (cases ok) (auto intro: http_pool_reachable.step http_pool_step.enqueue)
  with p q r assms(2) show ?thesis by (cases ok) (simp_all add: listener_inv_def hand_on_def)
qed

lemma inv_loop_step: "loop_step l l' \<Longrightarrow> listener_inv n max_n mqr l \<Longrightarrow> listener_inv n max_n mqr l'"
proof (induction rule: loop_step.induct)
  case (head l)
  then show ?case
    using inv_leave [of n max_n mqr l True] inv_phase [of n max_n mqr l "if idle_interval l then Selecting else Calling" "[]"]
    by (auto simp: loop_head_def elim!: inv_queue)
next
  case (error l)
  then show ?case
    using inv_leave [of n max_n mqr l True] inv_phase [of n max_n mqr l Failing "[]"]
    by (auto simp: after_error_def elim!: inv_queue)
next
  case (failed l)
  then have "listener_inv n max_n mqr (leave_loop False l)" by (intro inv_leave) simp_all
  then show ?case
    by (cases "svr_sock l"; cases "task_queue l") (simp_all add: close_failed_def leave_loop_def listener_inv_def)
next
  case (queue l sock)
  then show ?case by (intro inv_hand_on)
next
  case (connection l fd sock)
  then show ?case by (intro inv_phase) (auto elim!: inv_queue)
next
  case (idle l)
  then show ?case using inv_phase [of n max_n mqr l Head "[]"] by (auto elim!: inv_queue)
next
  case (ready l)
  then show ?case using inv_phase [of n max_n mqr l Calling "[]"] by (auto elim!: inv_queue)
next
  case (call l)
  then show ?case using inv_phase [of n max_n mqr l "Accepting (svr_sock l)" "[]"] by (auto elim!: inv_queue)
next
  case (passing l f)
  then show ?case using inv_phase [of n max_n mqr l Head "[]"] by (auto elim!: inv_queue)
next
  case (final l f)
  then show ?case using inv_phase [of n max_n mqr l Errored "[]"] by (auto elim!: inv_queue)
qed

lemma inv_listen_step:
  assumes "listen_step port n max_n mqr l l'" and "listener_inv n max_n mqr l"
  shows "listener_inv n max_n mqr l'"
  using assms(1)
proof cases
  case run
  with assms(2) show ?thesis by (auto simp: listener_inv_def http_start_def split: option.splits if_splits)
next
  case (bind sock)
  with assms(2) show ?thesis by (auto simp: listener_inv_def bind_internal_def split: option.splits if_splits)
next
  case (bound named)
  with assms(2) show ?thesis by (auto simp: listener_inv_def bind_check_def split: option.splits if_splits)
next
  case listen
  with assms(2) have none: "task_queue l = None" "accepted l = []" "refused l = []" "\<not> is_running l"
    by (auto simp: listener_inv_def split: option.splits if_splits)
  show ?thesis
  proof (cases "is_decommissioned l \<or> svr_sock l = None")
    case True
    with listen none show ?thesis by (auto simp: listener_inv_def listen_begin_def)
  next
    case False
    then show ?thesis
    proof (cases "new_http_pool n max_n mqr :: nat http_pool outcome")
      case (Ok p)
      then have "\<not> pool_shutdown_flag p" "accepted_jobs p = []" by (auto simp: new_http_pool_def split: if_splits)
      with Ok False listen none show ?thesis
        by (simp add: listener_inv_def listen_begin_def http_pool_reachable.start)
    qed (use False listen none in \<open>auto simp: listener_inv_def listen_begin_def\<close>)
  qed
next
  case loop
  then show ?thesis using assms(2) by (rule inv_loop_step)
next
  case (joined ret p)
  with assms(2) show ?thesis by (auto simp: listener_inv_def listen_end_def)
qed

lemma out_of_loop_places:
  assumes "list_all out_of_loop (hthreads p)" and "i < length (hthreads p)"
  shows "snd (hthreads p ! i) \<in> {Left, Finished, Joined}"
proof -
  from assms have "out_of_loop (hthreads p ! i)" by (simp add: list_all_length)
  then show ?thesis by (cases "hthreads p ! i" rule: out_of_loop.cases) simp_all
qed

lemma returns_worker_step:
  assumes "worker_step p q" and "shutdown_returns p"
  shows "shutdown_returns q"
proof -
  from assms(2) have p: "list_all out_of_loop (hthreads p)" "\<not> all_due p" by (simp_all add: shutdown_returns_def)
  note places = out_of_loop_places [OF p(1)]
  from assms(1) have "q = p\<lparr>one_due := one_due p - 1\<rparr>" by cases (use p(2) in \<open>auto dest!: places elim!: due_worker_step.cases\<close>)
  with assms(2) show ?thesis by (simp add: shutdown_returns_def)
qed

lemma inv_other_step:
  assumes "other_step l l'" and "listener_inv n max_n mqr l"
  shows "listener_inv n max_n mqr l'"
  using assms(1)
proof cases
  case stop
  with assms(2) show ?thesis by (cases "task_queue l") (auto simp: listener_inv_def http_stop_def split: if_splits)
next
  case (close i)
  with assms(2) show ?thesis by (cases "task_queue l") (auto simp: listener_inv_def stop_close_def split: if_splits)
next
  case (worker p q)
  from assms(2) worker(2) have "http_pool_reachable n max_n mqr p" by (auto simp: listener_inv_def)
  then have "http_pool_reachable n max_n mqr q" using worker(3) by (blast intro: http_pool_reachable.step http_pool_step.work)
  with assms(2) worker worker_step_keeps [OF worker(3)] returns_worker_step [OF worker(3)] show ?thesis
    by (auto simp: listener_inv_def split: if_splits)
qed

lemma reachable_listener_inv: "listener_reachable idle port n max_n mqr l \<Longrightarrow> listener_inv n max_n mqr l"
proof (induction rule: listener_reachable.induct)
  case init
  show ?case by (simp add: listener_inv_def new_listener_def)
qed (auto intro: inv_listen_step inv_other_step)

section \<open>Stopping\<close>

fun phase_weight :: "phase \<Rightarrow> nat" where
  "phase_weight Selecting = 5"
| "phase_weight Calling = 4"
| "phase_weight (Accepting f) = 3"
| "phase_weight (Queueing sock) = 2"
| "phase_weight Head = 1"
| "phase_weight Errored = 1"
| "phase_weight Failing = 1"
| "phase_weight ph = 0"

text \<open>A run of the loop and the other threads, with the number of steps the loop takes.\<close>

inductive stopped_run :: "nat \<Rightarrow> listener \<Rightarrow> listener \<Rightarrow> bool" where
  none: "stopped_run 0 l l"
| own: "stopped_run k l l' \<Longrightarrow> loop_step l' l'' \<Longrightarrow> stopped_run (Suc k) l l''"
| other: "stopped_run k l l' \<Longrightarrow> other_step l' l'' \<Longrightarrow> stopped_run k l l''"

text \<open>Whether a connection may still come in.\<close>

definition conn_room :: "phase \<Rightarrow> nat" where
  "conn_room ph = (if 3 \<le> phase_weight ph then 1 else 0)"

lemma stopped_loop_step:
  assumes "loop_step l l'" and "svr_sock l = None" and "task_queue l \<noteq> None"
  shows "svr_sock l' = None \<and> phase_weight (lphase l') < phase_weight (lphase l)
    \<and> length (accepted l') + conn_room (lphase l') \<le> length (accepted l) + conn_room (lphase l)"
  using assms
  by cases (auto simp: loop_head_def leave_loop_def after_error_def close_failed_def hand_on_def conn_room_def
    split: option.split prod.split)

lemma stopped_other_step:
  "other_step l l' \<Longrightarrow> svr_sock l = None \<Longrightarrow> svr_sock l' = None \<and> lphase l' = lphase l \<and> accepted l' = accepted l"
  by (induction rule: other_step.induct) (simp_all add: http_stop_def stop_close_def)

lemma loop_step_in_loop: "loop_step l l' \<Longrightarrow> in_loop (lphase l)"
  by (induction rule: loop_step.induct) simp_all

lemma loop_step_possible:
  assumes "in_loop (lphase l)"
  shows "\<exists>l'. loop_step l l'"
proof (cases "lphase l")
  case (Accepting f)
  then show ?thesis by (blast intro: loop_step.final)
qed (use assms in \<open>auto intro: loop_step.intros\<close>)

lemma stopped_run_facts:
  assumes "stopped_run k l l'" and "svr_sock l = None" and "listener_inv n max_n mqr l" and "in_loop (lphase l)"
  shows "listener_inv n max_n mqr l' \<and> task_queue l' \<noteq> None \<and> svr_sock l' = None
    \<and> phase_weight (lphase l') + k \<le> phase_weight (lphase l)
    \<and> length (accepted l') + conn_room (lphase l') \<le> length (accepted l) + conn_room (lphase l)
    \<and> (in_loop (lphase l') \<or> (\<exists>ret. lphase l' = Joining ret))"
  using assms
proof (induction rule: stopped_run.induct)
  case (none l)
  then show ?case by (auto elim!: inv_queue)
next
  case (own k l l' l'')
  then have l': "listener_inv n max_n mqr l'" "task_queue l' \<noteq> None" "svr_sock l' = None"
    "phase_weight (lphase l') + k \<le> phase_weight (lphase l)"
    "length (accepted l') + conn_room (lphase l') \<le> length (accepted l) + conn_room (lphase l)" by simp_all
  have "task_queue l'' \<noteq> None \<and> (in_loop (lphase l'') \<or> (\<exists>ret. lphase l'' = Joining ret))"
    using own.hyps(2) l'(2)
    by cases (auto simp: loop_head_def leave_loop_def after_error_def close_failed_def hand_on_def split: option.split prod.split)
  with stopped_loop_step [OF own.hyps(2) l'(3,2)] inv_loop_step [OF own.hyps(2) l'(1)] l' show ?case by simp
next
  case (other k l l' l'')
  then have l': "listener_inv n max_n mqr l'" "task_queue l' \<noteq> None" "svr_sock l' = None" by simp_all
  have "task_queue l'' \<noteq> None" using other.hyps(2) l'(2) by cases (simp_all add: http_stop_def stop_close_def)
  with stopped_other_step [OF other.hyps(2) l'(3)] inv_other_step [OF other.hyps(2) l'(1)] other show ?case by simp
qed

section \<open>A small listener\<close>

text \<open>The listener of port 8080 with a pool of one thread: listening, and after an accepted connection.\<close>

definition listening :: "nat \<Rightarrow> listener" where
  "listening fd = \<lparr>svr_sock = Some fd, is_running = True, is_decommissioned = False, idle_interval = False, lphase = Head,
     task_queue = Some \<lparr>base_thread_count = 1, max_thread_count = 1, max_queued_requests = 0, idle_thread_count = 0,
       pool_shutdown_flag = False, jobs = [], hthreads = [(False, Arriving)], one_due = 0, all_due = False,
       accepted_jobs = [], completed_jobs = []\<rparr>,
     stopping = [], accepted = [], refused = [], closed_listening = []\<rparr>"

lemma listening_from:
  assumes "l = (new_listener False)\<lparr>lphase := Binding\<rparr>"
  shows "(listen_step 8080 1 0 0)\<^sup>*\<^sup>* l (listening fd)"
proof -
  let ?l1 = "bind_internal (Some fd) l" and ?l2 = "bind_check 8080 False (bind_internal (Some fd) l)"
  have "listen_step 8080 1 0 0 l ?l1" by (rule listen_step.bind) (simp add: assms)
  moreover have "listen_step 8080 1 0 0 ?l1 ?l2"
    by (rule listen_step.bound) (simp add: assms bind_internal_def new_listener_def)
  moreover have "listen_step 8080 1 0 0 ?l2 (listen_begin 1 0 0 ?l2)"
    by (rule listen_step.listen) (simp add: assms bind_internal_def bind_check_def new_listener_def)
  moreover have "listen_begin 1 0 0 ?l2 = listening fd"
    by (simp add: assms listen_begin_def bind_internal_def bind_check_def new_listener_def new_http_pool_def listening_def)
  ultimately show ?thesis by (metis (no_types, lifting) converse_rtranclp_into_rtranclp rtranclp.rtrancl_refl)
qed

lemma listener_reachable_steps:
  "(listen_step port n max_n mqr)\<^sup>*\<^sup>* l l' \<Longrightarrow> listener_reachable idle port n max_n mqr l \<Longrightarrow> listener_reachable idle port n max_n mqr l'"
  by (induction rule: rtranclp_induct) (auto intro: listener_reachable.own)

lemma started_reachable: "listener_reachable False 8080 1 0 0 ((new_listener False)\<lparr>lphase := Binding\<rparr>)"
proof -
  have "listen_step 8080 1 0 0 (new_listener False) (http_start (new_listener False))"
    by (rule listen_step.run) (simp add: new_listener_def)
  then show ?thesis unfolding http_start_def by (blast intro: listener_reachable.init listener_reachable.own)
qed

lemma listening_reachable: "listener_reachable False 8080 1 0 0 (listening fd)"
  by (rule listener_reachable_steps [OF listening_from [OF refl] started_reachable])

lemma stopped_reachable: "listener_reachable False 8080 1 0 0 (http_stop (listening fd))"
  by (rule listener_reachable.other [OF listening_reachable other_step.stop])

section \<open>Properties\<close>

text \<open>C14: with the listening thread, the threads of the pool and those that call \<^verbatim>\<open>Stop\<close> in any order, every connection
  accepted is at every moment exactly one of refused and closed, in the listening thread's hand, waiting, being
  served, or served; none is refused unless the queue has a limit, which the program does not set; the server
  says it is running exactly while it listens; and when \<^verbatim>\<open>listen\<close> has returned, every connection it accepted
  and did not refuse has been served.\<close>

theorem listener_accounting:
  assumes "listener_reachable idle port n max_n mqr l"
  shows "mset (accepted l) = mset (refused l) + mset (conn_in_hand (lphase l))
      + (case task_queue l of None \<Rightarrow> {#} | Some p \<Rightarrow> mset (jobs p) + pool_tally holding p + mset (completed_jobs p))
    \<and> (mqr = 0 \<longrightarrow> refused l = [])
    \<and> is_running l = (in_loop (lphase l) \<or> (\<exists>ret. lphase l = Joining ret))
    \<and> (n \<noteq> 0 \<longrightarrow> (\<forall>ret. lphase l = Returned ret \<longrightarrow>
        mset (accepted l) = mset (refused l) + (case task_queue l of None \<Rightarrow> {#} | Some p \<Rightarrow> mset (completed_jobs p))))"
proof (cases "task_queue l")
  case None
  with reachable_listener_inv [OF assms] show ?thesis by (auto simp: listener_inv_def)
next
  case (Some p)
  with reachable_listener_inv [OF assms] have l: "http_pool_reachable n max_n mqr p"
    "if in_loop (lphase l) then \<not> pool_shutdown_flag p \<and> is_running l
     else pool_shutdown_flag p \<and> (\<exists>ret. lphase l = Joining ret \<and> is_running l \<or> lphase l = Returned ret \<and> \<not> is_running l)"
    "\<And>ret. lphase l = Returned ret \<Longrightarrow> shutdown_returns p"
    "mset (accepted l) = mset (refused l) + mset (conn_in_hand (lphase l)) + mset (accepted_jobs p)" "refused l \<noteq> [] \<Longrightarrow> 0 < mqr"
    by (simp_all add: listener_inv_def)
  note inv = reachable_hp_inv [OF l(1)]
  have "mset (completed_jobs p) = mset (accepted_jobs p)" if "n \<noteq> 0" "lphase l = Returned ret" for ret
    using out_of_loop_complete [OF inv] l(3) [OF that(2)] reachable_settings [OF l(1)] that(1)
    by (simp add: shutdown_returns_def)
  with Some l hp_invD(7) [OF inv] show ?thesis by (auto simp: ac_simps split: if_splits)
qed

theorem listener_accounting_witness: "accepted (listening 3) = [] \<and> is_running (listening 3)"
  using listener_accounting [OF listening_reachable [of 3]] by (simp add: listening_def pool_tally_def)

text \<open>A stop is heeded: once \<^verbatim>\<open>stop\<close> has taken the descriptor from a listening server, whatever the other threads
  do, the listening thread takes at most five more steps in its loop, one of them at any time, accepts at most
  one more connection, and then shuts its pool down.\<close>

theorem listener_stops:
  assumes "listener_reachable idle port n max_n mqr l" and "in_loop (lphase l)" and "svr_sock l = None"
    and "stopped_run k l l'"
  shows "k \<le> 5 \<and> length (accepted l') \<le> Suc (length (accepted l))
    \<and> (if in_loop (lphase l') then \<exists>l''. loop_step l' l''
       else \<exists>ret p. lphase l' = Joining ret \<and> task_queue l' = Some p \<and> pool_shutdown_flag p)"
proof -
  from stopped_run_facts [OF assms(4,3) reachable_listener_inv [OF assms(1)] assms(2)]
  have l': "listener_inv n max_n mqr l'" "task_queue l' \<noteq> None"
    "phase_weight (lphase l') + k \<le> phase_weight (lphase l)"
    "length (accepted l') + conn_room (lphase l') \<le> length (accepted l) + conn_room (lphase l)"
    "in_loop (lphase l') \<or> (\<exists>ret. lphase l' = Joining ret)" by simp_all
  moreover have "phase_weight (lphase l) \<le> 5" "conn_room (lphase l) \<le> 1"
    by (cases "lphase l"; simp add: conn_room_def)+
  moreover have "\<exists>ret p. lphase l' = Joining ret \<and> task_queue l' = Some p \<and> pool_shutdown_flag p" if "\<not> in_loop (lphase l')"
    using l'(1,2,5) that by (auto simp: listener_inv_def)
  ultimately show ?thesis using loop_step_possible by auto
qed

theorem listener_stops_witness: "(\<exists>l''. loop_step (http_stop (listening 3)) l'') \<and> accepted (http_stop (listening 3)) = []"
  using listener_stops [OF stopped_reachable [of 3] _ _ stopped_run.none] by (simp add: http_stop_def listening_def)

text \<open>Two ways in which \<^verbatim>\<open>stop\<close> goes wrong. One that comes before the listening thread has its socket is over with no
  effect, and the server then listens for good.\<close>

theorem early_stop_is_lost:
  "stopping (stop_close 0 (http_stop (http_start (new_listener False)))) = [] \<and>
   (listen_step 8080 1 0 0)\<^sup>*\<^sup>* (stop_close 0 (http_stop (http_start (new_listener False)))) (listening 3)"
proof -
  have "stop_close 0 (http_stop (http_start (new_listener False))) = (new_listener False)\<lparr>lphase := Binding\<rparr>"
    by (simp add: stop_close_def http_stop_def http_start_def new_listener_def)
  then show ?thesis using listening_from [of _ 3] by (simp add: new_listener_def)
qed

text \<open>And after a final error of \<^verbatim>\<open>accept\<close> the descriptor is closed but stays in \<^verbatim>\<open>svr_sock_\<close>, so that \<^verbatim>\<open>stop\<close> closes
  it a second time, when it may belong to something else.\<close>

theorem failed_socket_closed_twice:
  "\<exists>l. listener_reachable False 8080 1 0 0 l \<and> closed_listening l = [3, 3]"
proof -
  let ?l1 = "(listening 3)\<lparr>lphase := Calling\<rparr>"
  let ?l2 = "?l1\<lparr>lphase := Accepting (svr_sock ?l1)\<rparr>"
  let ?l3 = "?l2\<lparr>lphase := Errored\<rparr>"
  let ?l4 = "?l3\<lparr>lphase := Failing\<rparr>"
  note go = listener_reachable.own [OF _ listen_step.loop, of False 8080 1 0 0]
  have "loop_step (listening 3) ?l1" using loop_step.head [of "listening 3"] by (simp add: loop_head_def listening_def)
  from go [OF listening_reachable this] have "listener_reachable False 8080 1 0 0 ?l1" .
  from go [OF this loop_step.call] have "listener_reachable False 8080 1 0 0 ?l2" by simp
  from go [OF this loop_step.final] have "listener_reachable False 8080 1 0 0 ?l3" by simp
  from go [OF this loop_step.error] have "listener_reachable False 8080 1 0 0 ?l4" by (simp add: after_error_def listening_def)
  from go [OF this loop_step.failed] have "listener_reachable False 8080 1 0 0 (close_failed ?l4)" by simp
  then have "listener_reachable False 8080 1 0 0 (stop_close 0 (http_stop (close_failed ?l4)))"
    by (rule listener_reachable.other [OF listener_reachable.other, OF _ other_step.stop other_step.close]) (simp add: http_stop_def)
  moreover have "closed_listening (stop_close 0 (http_stop (close_failed ?l4))) = [3, 3]"
    by (simp add: stop_close_def http_stop_def close_failed_def leave_loop_def listening_def)
  ultimately show ?thesis by blast
qed

end
