(* ===== verification/Spec2Isabelle.thy ===== *)
theory Spec2Isabelle
  imports ClusterRun MasterProgress JsonSafety NodeMain HttpNode HttpListen
begin

text \<open>
  \<^bold>\<open>LogGrid\<close>: a distributed search of log files.

  A client of the HTTP interface posts a search: a path below the input directory, a regular expression and
  a limit. The master (\<^verbatim>\<open>NetServer/\<close>) cuts the files below that path into chunks of bytes and hands the
  chunks to workers (\<^verbatim>\<open>NetClient/\<close>) over framed TCP messages (\<^verbatim>\<open>NetCommon/\<close>). A worker searches each chunk
  on a thread pool and sends the lines back in a batch; the master counts them, appends those the limit
  admits to the result file of the search and keeps the state of every search, which the client asks
  for over HTTP.

  \<^bold>\<open>Parts of the program and theories.\<close> Paths are below \<^verbatim>\<open>src/\<close>. A record has the members of the class it
  models, a function the name of the method or function it translates.

  \<^item> \<^verbatim>\<open>NetCommon/include\<close>: \<open>TsQueue\<close> (\<^verbatim>\<open>net_tsqueue.hpp\<close>: the queue with its operations under the mutex),
    \<open>NetMessage\<close> (\<^verbatim>\<open>net_message.hpp\<close>: header, body, the stream operators on the memory image of a value),
    \<open>LogSearchCommon\<close> (the kinds of message and their payloads), \<open>NetConnection\<close> (\<^verbatim>\<open>net_connection.hpp\<close>: one
    connection as a machine; the outstanding read and write are state, each completion handler is a
    function), \<open>NetServer\<close> (\<^verbatim>\<open>net_server.hpp\<close>, \<^verbatim>\<open>net_client.hpp\<close>: accept, send, broadcast, message pump).
  \<^item> The worker, \<^verbatim>\<open>NetClient/src\<close>: \<open>FileProcessor\<close> (\<^verbatim>\<open>FileProcessor.hpp\<close>: the search of a byte range over a
    model of \<^verbatim>\<open>std::ifstream\<close>), \<open>ThreadPool\<close> (\<^verbatim>\<open>ThreadPool.hpp\<close>: a step relation with one step for each
    section under the lock, notification and turn of a thread), \<open>WorkerClient\<close> (\<^verbatim>\<open>WorkerClient.cpp\<close>), \<open>NodeMain\<close>
    (\<^verbatim>\<open>main.cpp\<close> of both programs).
  \<^item> The master, \<^verbatim>\<open>NetServer/src/MasterServer.cpp\<close>: \<open>MasterState\<close> (the members of \<^verbatim>\<open>MasterServer\<close>, sessions,
    \<^verbatim>\<open>ISearchService.hpp\<close>), \<open>MasterScan\<close> (directory walk, chunks, tasks), \<open>MasterDispatch\<close> (free slots, idle
    queue, tasks in flight), \<open>MasterResults\<close> (batches, result files, the output directory), \<open>MasterServer\<close>
    (\<^verbatim>\<open>StartSearch\<close>, \<^verbatim>\<open>GetStatus\<close>, \<^verbatim>\<open>OnMessage\<close>, runs of the master and their invariant), \<open>MasterGuarantees\<close>,
    \<open>MasterCapacity\<close> and \<open>MasterProgress\<close> (what follows from it); \<open>FsPath\<close> is the part of
    \<^verbatim>\<open>std::filesystem::path\<close> the master uses. These take a call as one step; \<open>MasterThreads\<close> cuts the calls
    where the code gives up \<^verbatim>\<open>m_stateMutex\<close> and lets any number of threads take turns, \<open>MasterBooks\<close> has the
    invariant of that machine.
  \<^item> The system: \<open>Cluster\<close> has the threads of the master, any number of workers with their pools, and the messages
    between them in one step relation, and follows a task from the registry to the report that answers it;
    \<open>ClusterExact\<close> tallies the lines of a search against the files, \<open>ClusterRun\<close> has the property of finished
    searches and a run from the first request to the result.
  \<^item> The HTTP handlers, \<^verbatim>\<open>NetServer/src/SearchController.cpp\<close>: \<open>SearchController\<close>; the routes,
    \<^verbatim>\<open>HttpApi.cpp\<close>: \<open>HttpApi\<close>, and \<open>HttpListen\<close> for \<^verbatim>\<open>Start\<close> and \<^verbatim>\<open>Stop\<close>.
  \<^item> JSON, \<^verbatim>\<open>external/json.hpp\<close>, as far as the handlers use it: \<open>JsonValue\<close>, \<open>JsonLexer\<close>, \<open>JsonParser\<close>,
    \<open>JsonFloat\<close> (Grisu2) and \<open>JsonSerializer\<close> are the model; \<open>JsonDom\<close>, \<open>JsonReading\<close>, \<open>JsonText\<close>, \<open>JsonStrings\<close>,
    \<open>JsonIntegers\<close>, \<open>JsonRoundtrip\<close> and \<open>JsonSafety\<close> are what is proved of it; \<open>Decimal\<close> has the decimal
    conversions of the C and C++ libraries.
  \<^item> HTTP, \<^verbatim>\<open>external/httplib.h\<close>, from the first byte of a connection to the last one of the last answer:
    \<open>HttpText\<close> (header fields, percent coding, queries), \<open>HttpStream\<close> (buffered socket, line reader),
    \<open>HttpRequest\<close> (request line, header block, the headers the server interprets), \<open>HttpForm\<close> (multipart
    bodies), \<open>HttpBody\<close> (bodies by length, in chunks, to the end), \<open>HttpMatch\<close> (route patterns),
    \<open>HttpResponse\<close> (ranges, headers, writing), \<open>HttpServer\<close> (routing, one request, one connection) are the
    model; \<open>HttpReading\<close>, \<open>HttpContent\<close>, \<open>HttpRouting\<close>, \<open>HttpTyping\<close>, \<open>HttpFraming\<close>, \<open>HttpAnswers\<close> and \<open>HttpNode\<close>
    are what is proved of it, the last two with the handlers and the master on top. What runs the connections:
    \<open>HttpPool\<close> (the server's thread pool) and \<open>HttpListen\<close> (the accept loop, and stopping it).

  \<open>Prelude\<close> has what all of them share: machine integers as words, the outcome of a call (a value, an
  exception, undefined behaviour, or not ending), memory images, C strings, and the collections of
  simplification rules; \<open>EndToEnd\<close> has the properties that need the two ends of a connection, without the
  interleaving.

  \<^bold>\<open>How the parts meet.\<close> An interface between two parts is a locale with the laws one side promises, and
  the code's model interprets it: \<open>fifo\<close> (the queue, used by connection and server), \<open>pod\<close> (a value and its memory
  image, for \<^verbatim>\<open>operator<<\<close> and \<^verbatim>\<open>operator>>\<close>; interpreted on integers, headers and payloads),
  \<open>search_service\<close> (\<^verbatim>\<open>ISearchService\<close>, interpreted on the master and used by the HTTP handlers), \<open>sax_handler\<close> and
  \<open>consenting_handler\<close> (the SAX interface, interpreted on the acceptor and the DOM builder), \<open>receiver\<close> (what
  the body readers feed, interpreted on the request's body and on the drain).

  \<^bold>\<open>What is shown.\<close>
  \<^item> The system: a search that is reported done has found every matching line of its files and counted each
    once, and its result file holds them up to the limit, whatever is lost, repeated, delayed or
    interleaved on the way (\<open>finished_search_is_exact\<close>), as long as the workers see the files the master
    scanned and the result file opens.
  \<^item> The master: in every reachable state the chunks of a search are done, in flight or waiting, and a search
    is done when none is left, between calls and between the sections of calls; run undisturbed the sections
    are the calls; a lost worker's tasks come back; as long as calls do not overlap, no worker idles while work
    waits and workers are loaded within their capacity (\<open>AssignIdleWorkers_lock_gap\<close> shows what two overlapping
    calls can do to both); reports finish every search and a status only moves forward; a
    search stays below the input directory and a result file below the output directory.
  \<^item> The search: a range gives exactly the matching lines that begin in it, and the chunks of a file
    together give those of the file; every line is examined once.
  \<^item> The wire: what is written is the stream of the messages sent, a reader hands on exactly the messages
    framed in its stream, batches and tasks survive the trip.
  \<^item> The pool: no wake-up is lost, tasks start in order, and shutdown ends with every task executed, without counting on
    spurious wake-ups or timeouts.
  \<^item> JSON: the parser is total and accepts every text that spells a value it can represent, with that value; the serializer
    is total and within its buffer; what it writes is read back.
  \<^item> HTTP: a well-formed request, however its bytes arrive, is read back as it was sent, head and body; a
    pattern matches the paths it describes; handlers only see well-formed requests; a search and a
    question for its state are answered on the wire with the handler's answer; every other unconditional request
    (no range, no \<^verbatim>\<open>Expect\<close>) is refused without effect; whatever a client sends, the master sees at most a hundred posts. Every connection
    accepted is refused, waiting, being served or served; a stop is heeded within a few steps, and then every
    connection taken is served before \<^verbatim>\<open>listen\<close> returns.
  \<^item> Where the code falls short of its purpose the theorem states what it does: a body-less message that keeps
    the last body, a connection wedged by a failed write, a batch that reads out of bounds, an output
    directory left for a sibling, a limit that is not checked, an indentation that overruns its string,
    what arrives with a body-less request and is lost, a connection kept after a refused framing, a thread not started, a stop
    that comes too early, a descriptor closed twice.

  \<^bold>\<open>Runs, bounds and fuel.\<close> Runs (\<open>master_reachable\<close>, \<open>runtime_reachable\<close>, \<open>cluster_step\<close>) are limited by \<open>within\<close>: fewer than \<open>2 ^ 64\<close>
  task and search numbers and fewer than \<open>2 ^ 31\<close> chunks in a search, the widths of the counters; file sizes
  are signed 64-bit numbers (\<open>posix_sizes\<close>). Loops are structural recursion or have a measure: the HTTP
  readers the bytes and arrivals still to come (\<open>unread\<close>), the lexer the text left. Fuel is used once,
  \<open>fraction_fuel\<close> of 64 for the fraction digits of Grisu2, and \<open>JsonSafety\<close> shows it is never used up. The
  chunk loop and the supervising loop of the worker may run for ever and are partial functions; the
  first is proved to return (\<open>EnqueueFileChunks_partition\<close>), the second exactly when its connection ends or
  it is told to leave (\<open>supervise_ends\<close>, \<open>supervise_goes_on\<close>).

  \<^bold>\<open>Parameters\<close> stand for what is not in the repository: the regular-expression engine, the file system and
  its errors (\<open>os\<close>), the order in which an unordered map is walked, the initial content of uninitialised
  memory, the boundary of multipart answers (random), the arrivals on a socket and the room for output.

  \<^bold>\<open>Not modelled.\<close> ASIO, threads and sockets themselves. In \<open>MasterServer\<close> and its theories a call is one step; in
  \<open>MasterThreads\<close> and \<open>Cluster\<close> a section is, and what a thread does between two sections belongs to the first of
  them, as it touches nothing the others see. The connections of \<open>Cluster\<close> are queues of messages:
  \<open>NetConnection\<close> shows that the messages sent are the messages handed on. \<open>OnClientDisconnect\<close> may happen at
  any time there, although the program as it is never calls it. A connection to the HTTP server is modelled from
  its first byte and alone, so a call of a handler on the master is one step in \<open>HttpNode\<close>; in \<open>HttpListen\<close>, where the
  connections run side by side, serving one is a job that ends at any time. Logging and the formatting of messages for a
  log: pure output. Of \<^verbatim>\<open>httplib.h\<close> the client, TLS, WebSocket, compression, content providers and file
  serving, of \<^verbatim>\<open>json.hpp\<close> the container interface, pointers, patches and binary formats: the program does not
  use them. The umbrella headers \<^verbatim>\<open>olc_net.hpp\<close> and \<^verbatim>\<open>net_common.hpp\<close> have no code, \<^verbatim>\<open>SendFoundLine\<close> is declared
  and never defined.
\<close>

end
